(* ===== verification/Prelude.thy ===== *)
theory Prelude
  imports Main "HOL-Library.Word"
begin

text \<open>
  The shared vocabulary of the development: the C integer types as words, memory and the
  image file as byte lists, little-endian integers, NUL-terminated strings, and the lemmas on
  them that every component uses.

  A \<open>char*\<close> argument is the list of the bytes from the pointer on; reading past the end of the
  list yields 0 (\<open>cs_at\<close>, \<open>mem_get\<close>), so a caller that wants to say what follows the terminator
  writes it into the list. Writing past the end of a buffer (\<open>mem_put\<close>) makes the list longer:
  a result longer than the buffer the caller passed is a write past its end.
\<close>

unbundle bit_operations_syntax

type_synonym byte = "8 word"
type_synonym bytes = "8 word list"
type_synonym u32 = "32 word"
type_synonym u64 = "64 word"

text \<open>Collections: facts on slices of byte lists, and on the layout of packed structs.\<close>

named_theorems seg_simps
named_theorems layout_simps

section \<open>Slices of lists\<close>

definition seg :: "nat \<Rightarrow> nat \<Rightarrow> 'a list \<Rightarrow> 'a list" where
  "seg i n xs = take n (drop i xs)"

definition patch :: "nat \<Rightarrow> 'a list \<Rightarrow> 'a list \<Rightarrow> 'a list" where
  "patch i ys xs = take i xs @ ys @ drop (i + length ys) xs"

lemma length_seg [seg_simps]: "length (seg i n xs) = min n (length xs - i)"
  by (simp add: seg_def min.commute)

lemma length_seg_within [simp]: "i + n \<le> length xs \<Longrightarrow> length (seg i n xs) = n"
  by (simp add: seg_def)

lemma length_patch [simp]: "i + length ys \<le> length xs \<Longrightarrow> length (patch i ys xs) = length xs"
  by (simp add: patch_def)

lemma nth_seg [seg_simps]: "j < n \<Longrightarrow> i + j < length xs \<Longrightarrow> seg i n xs ! j = xs ! (i + j)"
  by (simp add: seg_def)

lemma nth_patch [seg_simps]:
  assumes "i + length ys \<le> length xs" and "j < length xs"
  shows "patch i ys xs ! j = (if i \<le> j \<and> j < i + length ys then ys ! (j - i) else xs ! j)"
  using assms by (auto simp: patch_def nth_append)

lemma seg_zero [simp]: "seg i 0 xs = []"
  by (simp add: seg_def)

lemma patch_Nil [simp]: "patch i [] xs = xs"
  by (simp add: patch_def)

lemma seg_all: "length xs \<le> n \<Longrightarrow> seg 0 n xs = xs"
  by (simp add: seg_def)

lemma patch_all: "length ys = length xs \<Longrightarrow> patch 0 ys xs = ys"
  by (simp add: patch_def)

lemma seg_patch_same [simp]:
  "i + length ys \<le> length xs \<Longrightarrow> seg i (length ys) (patch i ys xs) = ys"
  by (simp add: seg_def patch_def)

lemma seg_patch_other:
  assumes "i + length ys \<le> length xs" and "j + n \<le> i \<or> i + length ys \<le> j"
  shows "seg j n (patch i ys xs) = seg j n xs"
proof (rule nth_equalityI)
  show "length (seg j n (patch i ys xs)) = length (seg j n xs)"
    using assms(1) by (simp add: seg_simps)
next
  fix k assume "k < length (seg j n (patch i ys xs))"
  with assms show "seg j n (patch i ys xs) ! k = seg j n xs ! k"
    by (auto simp: seg_simps)
qed

lemma patch_seg_id [simp]: "i + n \<le> length xs \<Longrightarrow> patch i (seg i n xs) xs = xs"
  by (simp add: patch_def seg_def min_def) (metis append_take_drop_id drop_drop add.commute)

lemma seg_seg [seg_simps]: "i + n \<le> m \<Longrightarrow> seg i n (seg j m xs) = seg (j + i) n xs"
  by (simp add: seg_def drop_take take_take min_def add.commute)

lemma seg_add: "seg i (n + m) xs = seg i n xs @ seg (i + n) m xs"
  by (simp add: seg_def take_add drop_drop add.commute [of i n])

lemma patch_within_seg:
  assumes "k + length ys \<le> m" and "j + m \<le> length xs"
  shows "patch j (patch k ys (seg j m xs)) xs = patch (j + k) ys xs"
proof (rule nth_equalityI)
  show "length (patch j (patch k ys (seg j m xs)) xs) = length (patch (j + k) ys xs)"
    using assms by simp
next
  fix l assume "l < length (patch j (patch k ys (seg j m xs)) xs)"
  with assms show "patch j (patch k ys (seg j m xs)) xs ! l = patch (j + k) ys xs ! l"
    by (auto simp: seg_simps)
qed

lemma patch_append:
  assumes "i + length ys + length zs \<le> length xs"
  shows "patch i (ys @ zs) xs = patch (i + length ys) zs (patch i ys xs)"
proof (rule nth_equalityI)
  show "length (patch i (ys @ zs) xs) = length (patch (i + length ys) zs (patch i ys xs))"
    using assms by simp
next
  fix l assume "l < length (patch i (ys @ zs) xs)"
  with assms show "patch i (ys @ zs) xs ! l = patch (i + length ys) zs (patch i ys xs) ! l"
    by (auto simp: seg_simps nth_append)
qed

lemma patch_patch_other:
  assumes "i + length ys \<le> length xs" and "j + length zs \<le> length xs"
    and "j + length zs \<le> i \<or> i + length ys \<le> j"
  shows "patch i ys (patch j zs xs) = patch j zs (patch i ys xs)"
  by (rule nth_equalityI) (use assms in \<open>auto simp: seg_simps\<close>)

lemma patch_patch_same:
  assumes "i + length ys \<le> length xs" and "length zs = length ys"
  shows "patch i ys (patch i zs xs) = patch i ys xs"
  by (rule nth_equalityI) (use assms in \<open>auto simp: seg_simps\<close>)

section \<open>Memory: reads and writes through a pointer\<close>

definition mem_get :: "nat \<Rightarrow> nat \<Rightarrow> bytes \<Rightarrow> bytes" where
  "mem_get p n xs = seg p n (xs @ replicate (p + n - length xs) 0)"

definition mem_put :: "nat \<Rightarrow> bytes \<Rightarrow> bytes \<Rightarrow> bytes" where
  "mem_put p bs xs = (if bs = [] then xs else patch p bs (xs @ replicate (p - length xs) 0))"

lemma mem_get_within: "p + n \<le> length xs \<Longrightarrow> mem_get p n xs = seg p n xs"
  by (simp add: mem_get_def)

lemma length_mem_get [simp]: "length (mem_get p n xs) = n"
  by (simp add: mem_get_def seg_simps)

lemma mem_put_within: "p \<le> length xs \<Longrightarrow> mem_put p bs xs = patch p bs xs"
  by (simp add: mem_put_def)

lemma mem_put_Nil [simp]: "mem_put p [] xs = xs"
  by (simp add: mem_put_def)

lemma length_mem_put:
  "length (mem_put p bs xs) = (if bs = [] then length xs else max (p + length bs) (length xs))"
  by (auto simp: mem_put_def patch_def min_def max_def)

lemma mem_put_append: "mem_put (p + length bs) cs (mem_put p bs xs) = mem_put p (bs @ cs) xs"
  by (cases "bs = []"; cases "cs = []") (auto simp: mem_put_def patch_def ac_simps min_def)

section \<open>NUL-terminated strings\<close>

definition cs_at :: "bytes \<Rightarrow> nat \<Rightarrow> byte" where
  "cs_at s i = (if i < length s then s ! i else 0)"

definition hd0 :: "bytes \<Rightarrow> byte" where
  "hd0 s = (case s of [] \<Rightarrow> 0 | b # _ \<Rightarrow> b)"

definition cstr :: "bytes \<Rightarrow> bytes" where
  "cstr s = takeWhile (\<lambda>b. b \<noteq> 0) s"

lemma hd0_simps [simp]: "hd0 [] = 0" "hd0 (b # bs) = b"
  by (simp_all add: hd0_def)

lemma hd0_drop: "hd0 (drop i s) = cs_at s i"
proof (cases "i < length s")
  case True
  then have "drop i s = s ! i # drop (Suc i) s" by (simp add: Cons_nth_drop_Suc)
  with True show ?thesis by (simp add: cs_at_def)
qed (simp add: cs_at_def)

lemma cstr_hd0: "cstr s = (if hd0 s = 0 then [] else hd0 s # cstr (tl s))"
  by (cases s) (auto simp: cstr_def)

lemma cstr_no_nul: "0 \<notin> set (cstr s)"
  by (auto simp: cstr_def dest: set_takeWhileD)

lemma cstr_id: "0 \<notin> set s \<Longrightarrow> cstr s = s"
  unfolding cstr_def by (rule takeWhile_eq_all_conv [THEN iffD2]) auto

lemma cstr_append_nul: "0 \<notin> set s \<Longrightarrow> cstr (s @ 0 # t) = s"
proof -
  assume "0 \<notin> set s"
  then have "\<And>b. b \<in> set s \<Longrightarrow> b \<noteq> 0" by auto
  then show ?thesis by (simp add: cstr_def takeWhile_append2)
qed

section \<open>Little-endian integers\<close>

primrec nat_to_le :: "nat \<Rightarrow> nat \<Rightarrow> bytes" where
  "nat_to_le 0 n = []"
| "nat_to_le (Suc k) n = word_of_nat (n mod 256) # nat_to_le k (n div 256)"

primrec nat_of_le :: "bytes \<Rightarrow> nat" where
  "nat_of_le [] = 0"
| "nat_of_le (b # bs) = unat b + 256 * nat_of_le bs"

lemma length_nat_to_le [simp]: "length (nat_to_le k n) = k"
  by (induction k arbitrary: n) auto

lemma nat_of_le_bound: "nat_of_le bs < 256 ^ length bs"
proof (induction bs)
  case (Cons b bs)
  have "unat b < 256" using unsigned_less [of b, where ?'a = nat] by simp
  with Cons show ?case by simp
qed simp

lemma nat_of_to_le: "nat_of_le (nat_to_le k n) = n mod 256 ^ k"
proof (induction k arbitrary: n)
  case (Suc k)
  have "unat (word_of_nat (n mod 256) :: byte) = n mod 256"
    by (simp add: unat_of_nat)
  with Suc show ?case by (simp add: mod_mult2_eq)
qed simp

lemma nat_to_of_le: "nat_to_le (length bs) (nat_of_le bs) = bs"
proof (induction bs)
  case (Cons b bs)
  have "unat b < 256" using unsigned_less [of b, where ?'a = nat] by simp
  with Cons show ?case by simp
qed simp

lemma nat_to_le_map: "nat_to_le k n = map (\<lambda>i. word_of_nat (n div 256 ^ i mod 256)) [0..<k]"
proof (induction k arbitrary: n)
  case (Suc k)
  have "map (\<lambda>i. word_of_nat (n div 256 ^ i mod 256)) [0..<Suc k]
      = (word_of_nat (n mod 256) :: byte) # map (\<lambda>i. word_of_nat (n div 256 ^ Suc i mod 256)) [0..<k]"
    by (simp add: upt_conv_Cons map_Suc_upt [symmetric] comp_def del: upt_Suc map_Suc_upt)
  with Suc show ?case by (simp add: div_mult2_eq)
qed simp

definition u64_to_bytes :: "u64 \<Rightarrow> bytes" where
  "u64_to_bytes w = nat_to_le 8 (unat w)"

definition u64_of_bytes :: "bytes \<Rightarrow> u64" where
  "u64_of_bytes bs = word_of_nat (nat_of_le bs)"

definition u32_to_bytes :: "u32 \<Rightarrow> bytes" where
  "u32_to_bytes w = nat_to_le 4 (unat w)"

definition u32_of_bytes :: "bytes \<Rightarrow> u32" where
  "u32_of_bytes bs = word_of_nat (nat_of_le bs)"

lemma length_u64_to_bytes [simp]: "length (u64_to_bytes w) = 8"
  by (simp add: u64_to_bytes_def)

lemma length_u32_to_bytes [simp]: "length (u32_to_bytes w) = 4"
  by (simp add: u32_to_bytes_def)

lemma u64_of_to_bytes [simp]: "u64_of_bytes (u64_to_bytes w) = w"
proof -
  have "unat w < 256 ^ 8" using unsigned_less [of w, where ?'a = nat] by simp
  then show ?thesis by (simp add: u64_of_bytes_def u64_to_bytes_def nat_of_to_le)
qed

lemma u32_of_to_bytes [simp]: "u32_of_bytes (u32_to_bytes w) = w"
proof -
  have "unat w < 256 ^ 4" using unsigned_less [of w, where ?'a = nat] by simp
  then show ?thesis by (simp add: u32_of_bytes_def u32_to_bytes_def nat_of_to_le)
qed

lemma u64_to_of_bytes: "length bs = 8 \<Longrightarrow> u64_to_bytes (u64_of_bytes bs) = bs"
  using nat_of_le_bound [of bs] nat_to_of_le [of bs]
  by (simp add: u64_of_bytes_def u64_to_bytes_def unat_of_nat)

section \<open>Words as numbers\<close>

lemma unat_add_small: "unat (a :: u64) + unat b < 2 ^ 64 \<Longrightarrow> unat (a + b) = unat a + unat b"
  by (simp add: unat_word_ariths)

lemma unat_mult_small: "unat (a :: u64) * unat b < 2 ^ 64 \<Longrightarrow> unat (a * b) = unat a * unat b"
  by (simp add: unat_word_ariths)

lemma unat_sub_small: "unat (b :: u64) \<le> unat a \<Longrightarrow> unat (a - b) = unat a - unat b"
  by (simp add: unat_sub word_le_nat_alt)

lemma unat_minus_one_u64: "unat (- 1 :: u64) = 2 ^ 64 - 1"
  by (simp add: unsigned_minus_1_eq_mask mask_eq_exp_minus_1)

lemma sint_nonneg_small:
  assumes "unat (a :: u64) < 2 ^ 63"
  shows "sint a = int (unat a)"
proof -
  have "int (unat a) < int (2 ^ 63)" using assms by (simp only: of_nat_less_iff)
  then have "uint a < 2 ^ 63" by simp
  moreover have "- (2 ^ 63) \<le> uint a" by (rule order.trans [of _ 0]) simp_all
  ultimately have "signed_take_bit 63 (uint a) = uint a"
    by (intro signed_take_bit_int_eq_self) auto
  then show ?thesis by (simp add: sint_uint)
qed

lemma sint_not_neg: "unat (a :: u64) < 2 ^ 63 \<Longrightarrow> \<not> sint a < 0"
  by (simp add: sint_nonneg_small)

end
