(* ===== verification/Entries.thy ===== *)
theory Entries
  imports Prelude
begin

text \<open>
  The on-disk structures: the 64-byte index entries of src/include/sfs/entry.h and the boot
  block of src/include/sfs/mbr.h. The library reads an entry into an untyped 64-byte buffer and
  casts the pointer, so the model reads and writes fields at the offsets of the packed structs
  (\<open>get_u64\<close>, \<open>put_u64\<close>); the records are the structs mksfs fills in, with their byte images.
\<close>

section \<open>Entry types\<close>

datatype entry_kind =
  VOL_IDENT | START_ENTRY | UNUSED_ENTRY | DIR_ENTRY | FILE_ENTRY
| UNUSABLE_ENTRY | DEL_DIR_ENTRY | DEL_FILE_ENTRY

fun entry_code :: "entry_kind \<Rightarrow> byte" where
  "entry_code VOL_IDENT = 0x01"
| "entry_code START_ENTRY = 0x02"
| "entry_code UNUSED_ENTRY = 0x10"
| "entry_code DIR_ENTRY = 0x11"
| "entry_code FILE_ENTRY = 0x12"
| "entry_code UNUSABLE_ENTRY = 0x18"
| "entry_code DEL_DIR_ENTRY = 0x19"
| "entry_code DEL_FILE_ENTRY = 0x1A"

lemma entry_code_inject [simp]: "entry_code k = entry_code k' \<longleftrightarrow> k = k'"
  by (cases k; cases k') simp_all

lemma entry_code_less_space: "entry_code k < 0x20"
  by (cases k) simp_all

lemma entry_code_nonzero [simp]: "entry_code k \<noteq> 0"
  by (cases k) simp_all

abbreviation (input) INDEX_ENTRY_SIZE :: "'a::numeral" where "INDEX_ENTRY_SIZE \<equiv> 64"
abbreviation (input) FIRST_FILE_NAME_SIZE :: "'a::numeral" where "FIRST_FILE_NAME_SIZE \<equiv> 30"
abbreviation (input) FIRST_DIR_NAME_SIZE :: "'a::numeral" where "FIRST_DIR_NAME_SIZE \<equiv> 54"
abbreviation (input) MAX_DIR_PATH :: "'a::numeral" where "MAX_DIR_PATH \<equiv> 16374"
abbreviation (input) MAX_FILE_PATH :: "'a::numeral" where "MAX_FILE_PATH \<equiv> 16350"
abbreviation (input) MAX_VOL_LABEL :: "'a::numeral" where "MAX_VOL_LABEL \<equiv> 52"

section \<open>Fields at offsets\<close>

type_synonym entry = bytes

definition get_u8 :: "nat \<Rightarrow> bytes \<Rightarrow> byte" where
  "get_u8 p e = cs_at e p"

definition put_u8 :: "nat \<Rightarrow> byte \<Rightarrow> bytes \<Rightarrow> bytes" where
  "put_u8 p b e = patch p [b] e"

definition get_u64 :: "nat \<Rightarrow> bytes \<Rightarrow> u64" where
  "get_u64 p e = u64_of_bytes (seg p 8 e)"

definition put_u64 :: "nat \<Rightarrow> u64 \<Rightarrow> bytes \<Rightarrow> bytes" where
  "put_u64 p w e = patch p (u64_to_bytes w) e"

lemma length_put_u8 [simp]: "p < length e \<Longrightarrow> length (put_u8 p b e) = length e"
  by (simp add: put_u8_def)

lemma length_put_u64 [simp]: "p + 8 \<le> length e \<Longrightarrow> length (put_u64 p w e) = length e"
  by (simp add: put_u64_def)

lemma get_put_u64 [layout_simps]: "p + 8 \<le> length e \<Longrightarrow> get_u64 p (put_u64 p w e) = w"
  using seg_patch_same [of p "u64_to_bytes w" e] by (simp add: get_u64_def put_u64_def)

lemma get_put_u64_other [layout_simps]:
  "q + 8 \<le> length e \<Longrightarrow> p + 8 \<le> q \<or> q + 8 \<le> p \<Longrightarrow> get_u64 p (put_u64 q w e) = get_u64 p e"
  by (simp add: get_u64_def put_u64_def seg_patch_other)

lemma get_put_u8 [layout_simps]: "p < length e \<Longrightarrow> get_u8 p (put_u8 p b e) = b"
  by (simp add: get_u8_def put_u8_def cs_at_def seg_simps)

lemma get_put_u8_other [layout_simps]:
  "q < length e \<Longrightarrow> p \<noteq> q \<Longrightarrow> get_u8 p (put_u8 q b e) = get_u8 p e"
  by (auto simp: get_u8_def put_u8_def cs_at_def seg_simps)

lemma get_u8_put_u64 [layout_simps]:
  "q + 8 \<le> length e \<Longrightarrow> p < q \<or> q + 8 \<le> p \<Longrightarrow> get_u8 p (put_u64 q w e) = get_u8 p e"
  by (auto simp: get_u8_def put_u64_def cs_at_def seg_simps)

lemma get_u64_put_u8 [layout_simps]:
  "q < length e \<Longrightarrow> p + 8 \<le> q \<or> q < p \<Longrightarrow> get_u64 p (put_u8 q b e) = get_u64 p e"
  by (auto simp: get_u64_def put_u8_def seg_patch_other)

lemma seg_put_u64 [layout_simps]:
  "q + 8 \<le> length e \<Longrightarrow> p + n \<le> q \<or> q + 8 \<le> p \<Longrightarrow> seg p n (put_u64 q w e) = seg p n e"
  by (simp add: put_u64_def seg_patch_other)

lemma seg_put_u8 [layout_simps]:
  "q < length e \<Longrightarrow> p + n \<le> q \<or> q < p \<Longrightarrow> seg p n (put_u8 q b e) = seg p n e"
  by (auto simp: put_u8_def seg_patch_other)

text \<open>The fields of \<open>file_entry\<close> and \<open>del_file_entry\<close>, which have one layout.\<close>

abbreviation "entry_type \<equiv> get_u8 0"
abbreviation "set_entry_type \<equiv> put_u8 0"
abbreviation "cont_entries \<equiv> get_u8 1"
abbreviation "set_cont_entries \<equiv> put_u8 1"
abbreviation "time_stamp \<equiv> get_u64 2"
abbreviation "set_time_stamp \<equiv> put_u64 2"
abbreviation "start_block \<equiv> get_u64 10"
abbreviation "set_start_block \<equiv> put_u64 10"
abbreviation "end_block \<equiv> get_u64 18"
abbreviation "set_end_block \<equiv> put_u64 18"
abbreviation "file_size \<equiv> get_u64 26"
abbreviation "set_file_size \<equiv> put_u64 26"

text \<open>The names: 30 bytes from offset 34 in a file entry, 54 from offset 10 in a directory.\<close>

abbreviation (input) name_off :: nat where "name_off \<equiv> 34"
abbreviation (input) dir_name_off :: nat where "dir_name_off \<equiv> 10"

text \<open>\<open>PREV_DEL\<close> and \<open>NEXT_DEL\<close> (fsutils.h): the list of free extents is linked through the
  time stamp and the size of its entries.\<close>

abbreviation "PREV_DEL \<equiv> time_stamp"
abbreviation "set_PREV_DEL \<equiv> set_time_stamp"
abbreviation "NEXT_DEL \<equiv> file_size"
abbreviation "set_NEXT_DEL \<equiv> set_file_size"

section \<open>The structs as records\<close>

record file_entry =
  fe_entry_type :: byte
  fe_cont_entries :: byte
  fe_time_stamp :: u64
  fe_start_block :: u64
  fe_end_block :: u64
  fe_size :: u64
  fe_name :: bytes

record dir_entry =
  de_entry_type :: byte
  de_cont_entries :: byte
  de_time_stamp :: u64
  de_dir_name :: bytes

record vol_ident_entry =
  ve_entry_type :: byte
  ve_reserved :: bytes
  ve_time_stamp :: u64
  ve_vol_label :: bytes

record start_entry =
  se_entry_type :: byte
  se_del_start :: u64
  se_reserved :: bytes

record unused_entry =
  ue_entry_type :: byte
  ue_reserved :: bytes

record mbr_t =
  mb_reserved_boot_code :: bytes
  mb_time_stamp :: u64
  mb_data_area_size :: u64
  mb_index_area_size :: u64
  mb_magic_number :: bytes
  mb_sfs_version :: byte
  mb_total_size :: u64
  mb_reserved_size :: u32
  mb_block_size :: byte
  mb_checksum :: byte
  mb_reserved_part_table :: bytes

definition file_entry_bytes :: "file_entry \<Rightarrow> bytes" where
  "file_entry_bytes r = fe_entry_type r # fe_cont_entries r # u64_to_bytes (fe_time_stamp r)
     @ u64_to_bytes (fe_start_block r) @ u64_to_bytes (fe_end_block r)
     @ u64_to_bytes (fe_size r) @ fe_name r"

definition dir_entry_bytes :: "dir_entry \<Rightarrow> bytes" where
  "dir_entry_bytes r = de_entry_type r # de_cont_entries r # u64_to_bytes (de_time_stamp r)
     @ de_dir_name r"

definition vol_ident_bytes :: "vol_ident_entry \<Rightarrow> bytes" where
  "vol_ident_bytes r = ve_entry_type r # ve_reserved r @ u64_to_bytes (ve_time_stamp r)
     @ ve_vol_label r"

definition start_entry_bytes :: "start_entry \<Rightarrow> bytes" where
  "start_entry_bytes r = se_entry_type r # u64_to_bytes (se_del_start r) @ se_reserved r"

definition unused_entry_bytes :: "unused_entry \<Rightarrow> bytes" where
  "unused_entry_bytes r = ue_entry_type r # ue_reserved r"

definition mbr_bytes :: "mbr_t \<Rightarrow> bytes" where
  "mbr_bytes r = mb_reserved_boot_code r @ u64_to_bytes (mb_time_stamp r)
     @ u64_to_bytes (mb_data_area_size r) @ u64_to_bytes (mb_index_area_size r)
     @ mb_magic_number r @ [mb_sfs_version r] @ u64_to_bytes (mb_total_size r)
     @ u32_to_bytes (mb_reserved_size r) @ [mb_block_size r, mb_checksum r]
     @ mb_reserved_part_table r"

text \<open>The layout is the packed one: each record has its size and its fields sit at the offsets
  the library reads them from.\<close>

lemma seg_drop: "seg i n xs = take n (drop i xs)"
  by (simp add: seg_def)

lemma length_file_entry_bytes [simp]:
  "length (fe_name r) = 30 \<Longrightarrow> length (file_entry_bytes r) = 64"
  by (simp add: file_entry_bytes_def)

lemma length_dir_entry_bytes [simp]:
  "length (de_dir_name r) = 54 \<Longrightarrow> length (dir_entry_bytes r) = 64"
  by (simp add: dir_entry_bytes_def)

lemma length_mbr_bytes [simp]:
  assumes "length (mb_reserved_boot_code r) = 404" and "length (mb_magic_number r) = 3"
    and "length (mb_reserved_part_table r) = 66"
  shows "length (mbr_bytes r) = 512"
  using assms by (simp add: mbr_bytes_def)

lemma file_entry_fields [layout_simps]:
  "entry_type (file_entry_bytes r) = fe_entry_type r"
  "cont_entries (file_entry_bytes r) = fe_cont_entries r"
  "time_stamp (file_entry_bytes r) = fe_time_stamp r"
  "start_block (file_entry_bytes r) = fe_start_block r"
  "end_block (file_entry_bytes r) = fe_end_block r"
  "file_size (file_entry_bytes r) = fe_size r"
  "drop 34 (file_entry_bytes r) = fe_name r"
  by (simp_all add: file_entry_bytes_def get_u8_def get_u64_def cs_at_def seg_def)

lemma dir_entry_fields [layout_simps]:
  "entry_type (dir_entry_bytes r) = de_entry_type r"
  "cont_entries (dir_entry_bytes r) = de_cont_entries r"
  "time_stamp (dir_entry_bytes r) = de_time_stamp r"
  "drop 10 (dir_entry_bytes r) = de_dir_name r"
  by (simp_all add: dir_entry_bytes_def get_u8_def get_u64_def cs_at_def seg_def)

lemma mbr_fields:
  assumes "length (mb_reserved_boot_code r) = 404" and "length (mb_magic_number r) = 3"
  shows "get_u64 404 (mbr_bytes r) = mb_time_stamp r"
    and "get_u64 412 (mbr_bytes r) = mb_data_area_size r"
    and "get_u64 420 (mbr_bytes r) = mb_index_area_size r"
    and "seg 428 3 (mbr_bytes r) = mb_magic_number r"
    and "get_u8 431 (mbr_bytes r) = mb_sfs_version r"
    and "get_u64 432 (mbr_bytes r) = mb_total_size r"
    and "u32_of_bytes (seg 440 4 (mbr_bytes r)) = mb_reserved_size r"
    and "get_u8 444 (mbr_bytes r) = mb_block_size r"
    and "get_u8 445 (mbr_bytes r) = mb_checksum r"
  using assms
  by (simp_all add: mbr_bytes_def get_u8_def get_u64_def cs_at_def seg_def nth_append)

end
