(* ===== verification/CUtils.thy ===== *)
theory CUtils
  imports Entries
begin

text \<open>
  src/lib/sfs/utils.c and utils.h: the library's own string and memory routines, the check of the
  characters of a path, and the checksum of the boot block.
\<close>

section \<open>memcpy and memset on a flat memory\<close>

text \<open>Addresses are positions in the list; address 0 is \<open>NULL\<close>. A copy moves units of 4, 2 or 1
  bytes, by the alignment of both addresses and of the size.\<close>

definition D_ALIGNED :: "nat \<Rightarrow> bool" where "D_ALIGNED p \<longleftrightarrow> p mod 4 = 0"
definition W_ALIGNED :: "nat \<Rightarrow> bool" where "W_ALIGNED p \<longleftrightarrow> p mod 2 = 0"

fun copy_units :: "nat \<Rightarrow> bytes \<Rightarrow> nat \<Rightarrow> nat \<Rightarrow> nat \<Rightarrow> bytes" where
  "copy_units u mem dst src n =
     (if n = 0 \<or> u = 0 then mem
      else copy_units u (mem_put dst (mem_get src u mem) mem) (dst + u) (src + u) (n - u))"

declare copy_units.simps [simp del]

definition memcpy :: "bytes \<Rightarrow> nat \<Rightarrow> nat \<Rightarrow> nat \<Rightarrow> nat \<times> bytes" where
  "memcpy mem dst src n =
     (if src = 0 \<or> dst = 0 then (0, mem)
      else if D_ALIGNED src \<and> D_ALIGNED dst \<and> D_ALIGNED n then (dst, copy_units 4 mem dst src n)
      else if W_ALIGNED src \<and> W_ALIGNED dst \<and> W_ALIGNED n then (dst, copy_units 2 mem dst src n)
      else (dst, copy_units 1 mem dst src n))"

fun fill_units :: "bytes \<Rightarrow> bytes \<Rightarrow> nat \<Rightarrow> nat \<Rightarrow> bytes" where
  "fill_units unit mem dst n =
     (if n = 0 \<or> unit = [] then mem
      else fill_units unit (mem_put dst unit mem) (dst + length unit) (n - length unit))"

declare fill_units.simps [simp del]

definition memset :: "bytes \<Rightarrow> nat \<Rightarrow> int \<Rightarrow> nat \<Rightarrow> nat \<times> bytes" where
  "memset mem dst c n =
     (let z = word_of_int c :: byte in
      if dst = 0 then (0, mem)
      else if D_ALIGNED dst \<and> D_ALIGNED n then
        (let dtemp = push_bit 3 (ucast z) + push_bit 2 (ucast z) + push_bit 1 (ucast z) + ucast z :: u32
         in (dst, fill_units (nat_to_le 4 (unat dtemp)) mem dst n))
      else if W_ALIGNED dst \<and> W_ALIGNED n then
        (let wtemp = push_bit 1 (ucast z) + ucast z :: 16 word
         in (dst, fill_units (nat_to_le 2 (unat wtemp)) mem dst n))
      else (dst, fill_units [z] mem dst n))"

lemma copy_units_disjoint:
  assumes "0 < u" and "u dvd n" and "src + n \<le> length mem" and "dst + n \<le> length mem"
    and "src + n \<le> dst \<or> dst + n \<le> src"
  shows "copy_units u mem dst src n = patch dst (seg src n mem) mem"
  using assms
proof (induction u mem dst src n rule: copy_units.induct)
  case (1 u mem dst src n)
  show ?case
  proof (cases "n = 0")
    case False
    with 1 have le: "u \<le> n" by (auto dest: dvd_imp_le)
    let ?m = "patch dst (seg src u mem) mem"
    have put: "mem_put dst (mem_get src u mem) mem = ?m"
      using 1 le by (simp add: mem_put_within mem_get_within)
    have "copy_units u mem dst src n = copy_units u ?m (dst + u) (src + u) (n - u)"
      using False 1(2) put by (subst copy_units.simps) simp
    also have "\<dots> = patch (dst + u) (seg (src + u) (n - u) ?m) ?m"
      using 1 le False put by (subst 1(1) [unfolded put]) auto
    also have "seg (src + u) (n - u) ?m = seg (src + u) (n - u) mem"
      using 1 le by (subst seg_patch_other) auto
    also have "patch (dst + u) (seg (src + u) (n - u) mem) ?m
        = patch dst (seg src u mem @ seg (src + u) (n - u) mem) mem"
      using 1 le by (subst patch_append) auto
    also have "seg src u mem @ seg (src + u) (n - u) mem = seg src n mem"
      using seg_add [of src u "n - u" mem] le by simp
    finally show ?thesis .
  qed (simp add: copy_units.simps)
qed

lemma fill_units_replicate:
  assumes "dst + length unit * k \<le> length mem" and "unit \<noteq> []"
  shows "fill_units unit mem dst (length unit * k) = patch dst (concat (replicate k unit)) mem"
  using assms
proof (induction k arbitrary: mem dst)
  case 0
  then show ?case by (simp add: fill_units.simps)
next
  case (Suc k)
  let ?m = "patch dst unit mem"
  have len: "length (concat (replicate k unit)) = length unit * k"
    by (induction k) auto
  have "fill_units unit mem dst (length unit * Suc k)
      = fill_units unit ?m (dst + length unit) (length unit * k)"
    using Suc.prems by (subst fill_units.simps) (simp add: mem_put_within)
  also have "\<dots> = patch (dst + length unit) (concat (replicate k unit)) ?m"
    using Suc.prems by (intro Suc.IH) auto
  also have "\<dots> = patch dst (concat (replicate (Suc k) unit)) mem"
    using Suc.prems len by (simp add: patch_append)
  finally show ?case .
qed

section \<open>Characters of a path\<close>

definition is_correct_char :: "byte \<Rightarrow> int" where
  "is_correct_char c =
     (if (0 < c \<and> c < 0x20) \<or> (c \<ge> 0x80 \<and> c \<le> 0x9F) \<or> c = 0x22 \<or> c = 0x2A \<or> c = 0x3A \<or> c = 0x3C
         \<or> c = 0x3E \<or> c = 0x3F \<or> c = 0x5C \<or> c = 0x5C \<or> c = 0x7F \<or> c = 0xA0
      then -1 else 0)"

fun is_correct_string :: "bytes \<Rightarrow> nat \<Rightarrow> int" where
  "is_correct_string [] n = 0"
| "is_correct_string (b # s) n =
     (if n = 0 \<or> b = 0 then 0
      else if is_correct_char b = -1 then -1
      else is_correct_string s (n - 1))"

definition is_correct_filepath :: "bytes \<Rightarrow> int" where
  "is_correct_filepath s = (if is_correct_string s MAX_FILE_PATH = -1 then -1 else 0)"

definition is_correct_dirpath :: "bytes \<Rightarrow> int" where
  "is_correct_dirpath s = (if is_correct_string s MAX_DIR_PATH = -1 then -1 else 0)"

definition is_correct_label :: "bytes \<Rightarrow> int" where
  "is_correct_label s = (if is_correct_string s MAX_VOL_LABEL = -1 then -1 else 0)"

lemma is_correct_string_iff:
  "is_correct_string s n = 0 \<longleftrightarrow> (\<forall>b \<in> set (take n (cstr s)). is_correct_char b = 0)"
proof (induction s n rule: is_correct_string.induct)
  case (1 n)
  then show ?case by (simp add: cstr_def)
next
  case (2 b s n)
  have two: "is_correct_char b = 0 \<or> is_correct_char b = -1" by (simp add: is_correct_char_def)
  show ?case
  proof (cases "n = 0 \<or> b = 0")
    case True
    then show ?thesis by (auto simp: cstr_def)
  next
    case False
    then have "take n (cstr (b # s)) = b # take (n - 1) (cstr s)"
      by (cases n) (auto simp: cstr_def)
    with False 2 two show ?thesis by auto
  qed
qed

lemma is_correct_string_vals: "is_correct_string s n = 0 \<or> is_correct_string s n = -1"
  by (induction s n rule: is_correct_string.induct) auto

lemma is_correct_filepath_iff:
  "is_correct_filepath s = 0 \<longleftrightarrow> (\<forall>b \<in> set (take MAX_FILE_PATH (cstr s)). is_correct_char b = 0)"
  using is_correct_string_vals [of s MAX_FILE_PATH]
  by (auto simp: is_correct_filepath_def simp flip: is_correct_string_iff)

lemma is_correct_dirpath_iff:
  "is_correct_dirpath s = 0 \<longleftrightarrow> (\<forall>b \<in> set (take MAX_DIR_PATH (cstr s)). is_correct_char b = 0)"
  using is_correct_string_vals [of s MAX_DIR_PATH]
  by (auto simp: is_correct_dirpath_def simp flip: is_correct_string_iff)

text \<open>No character of a checked name is the code of an entry type.\<close>

lemma correct_char_no_code: "is_correct_char b = 0 \<Longrightarrow> b \<noteq> entry_code k"
  by (cases k) (auto simp: is_correct_char_def)

section \<open>Strings\<close>

fun strcmp :: "bytes \<Rightarrow> bytes \<Rightarrow> int" where
  "strcmp [] s2 = 0"
| "strcmp (a # s1) s2 =
     (if a = hd0 s2 \<and> a \<noteq> 0 \<and> hd0 s2 \<noteq> 0 then strcmp s1 (tl s2)
      else if a = 0 \<or> hd0 s2 = 0 then 0
      else sint a - sint (hd0 s2))"

fun strncmp :: "bytes \<Rightarrow> bytes \<Rightarrow> nat \<Rightarrow> int" where
  "strncmp [] s2 n = 0"
| "strncmp (a # s1) s2 n =
     (if a = hd0 s2 \<and> a \<noteq> 0 \<and> hd0 s2 \<noteq> 0 \<and> n \<noteq> 0 then strncmp s1 (tl s2) (n - 1)
      else if a = 0 \<or> hd0 s2 = 0 \<or> n = 0 then 0
      else sint a - sint (hd0 s2))"

fun strlen :: "bytes \<Rightarrow> nat" where
  "strlen [] = 0"
| "strlen (b # s) = (if b \<noteq> 0 then Suc (strlen s) else 0)"

fun strnlen :: "bytes \<Rightarrow> nat \<Rightarrow> nat" where
  "strnlen [] n = 0"
| "strnlen (b # s) n = (if n \<noteq> 0 \<and> b \<noteq> 0 then Suc (strnlen s (n - 1)) else 0)"

fun strcpy_from :: "nat \<Rightarrow> bytes \<Rightarrow> bytes \<Rightarrow> bytes" where
  "strcpy_from i dest [] = mem_put i [0] dest"
| "strcpy_from i dest (b # s) =
     (if b \<noteq> 0 then strcpy_from (Suc i) (mem_put i [b] dest) s else mem_put i [0] dest)"

definition strcpy :: "bytes \<Rightarrow> bytes \<Rightarrow> bytes" where
  "strcpy dest src = strcpy_from 0 dest src"

primrec strncpy_pad :: "nat \<Rightarrow> nat \<Rightarrow> bytes \<Rightarrow> bytes" where
  "strncpy_pad 0 i dest = dest"
| "strncpy_pad (Suc k) i dest = strncpy_pad k (Suc i) (mem_put i [0] dest)"

primrec strncpy_from :: "nat \<Rightarrow> nat \<Rightarrow> bytes \<Rightarrow> bytes \<Rightarrow> bytes" where
  "strncpy_from 0 i dest s = dest"
| "strncpy_from (Suc k) i dest s =
     (if hd0 s \<noteq> 0 then strncpy_from k (Suc i) (mem_put i [hd0 s] dest) (tl s)
      else strncpy_pad (Suc k) i dest)"

definition strncpy :: "bytes \<Rightarrow> bytes \<Rightarrow> nat \<Rightarrow> bytes" where
  "strncpy dest src n = strncpy_from n 0 dest src"

lemma strlen_cstr: "strlen s = length (cstr s)"
  by (induction s) (auto simp: cstr_def)

lemma strnlen_cstr: "strnlen s n = min n (length (cstr s))"
  by (induction s n rule: strnlen.induct) (auto simp: cstr_def)

lemma strcmp_zero_iff_prefix:
  "strcmp s1 s2 = 0 \<longleftrightarrow>
     (let n = min (length (cstr s1)) (length (cstr s2)) in take n (cstr s1) = take n (cstr s2))"
proof (induction s1 s2 rule: strcmp.induct)
  case (1 s2)
  then show ?case by (simp add: cstr_def Let_def)
next
  case (2 a s1 s2)
  have "sint a - sint (hd0 s2) = 0 \<longleftrightarrow> a = hd0 s2" by (auto intro: signed_word_eqI)
  with 2 show ?case
    by (cases s2) (auto simp: cstr_def Let_def min_def)
qed

lemma strcpy_from_eq:
  "i \<le> length d \<Longrightarrow> strcpy_from i d s = mem_put i (cstr s @ [0]) d"
proof (induction i d s rule: strcpy_from.induct)
  case (2 i dest b s)
  have le: "b \<noteq> 0 \<Longrightarrow> Suc i \<le> length (mem_put i [b] dest)" by (simp add: length_mem_put)
  show ?case
    using 2 le mem_put_append [of i "[b]" _ dest] by (auto simp: cstr_def)
qed (simp add: cstr_def)

lemma strcpy_eq: "strcpy d s = mem_put 0 (cstr s @ [0]) d"
  by (simp add: strcpy_def strcpy_from_eq)

lemma strncpy_pad_eq: "i \<le> length d \<Longrightarrow> strncpy_pad k i d = mem_put i (replicate k 0) d"
proof (induction k arbitrary: i d)
  case 0
  then show ?case by (simp add: mem_put_def)
next
  case (Suc k)
  have "Suc i \<le> length (mem_put i [0] d)" by (simp add: length_mem_put)
  then show ?case
    using Suc mem_put_append [of i "[0]" _ d] by simp
qed

lemma strncpy_from_eq:
  "i \<le> length d \<Longrightarrow>
     strncpy_from k i d s = mem_put i (take k (cstr s) @ replicate (k - length (cstr s)) 0) d"
proof (induction k arbitrary: i d s)
  case 0
  then show ?case by (simp add: mem_put_def)
next
  case (Suc k)
  show ?case
  proof (cases "hd0 s = 0")
    case True
    with Suc.prems show ?thesis
      using strncpy_pad_eq [of i d "Suc k"] by (simp add: cstr_hd0 [of s] del: strncpy_pad.simps)
  next
    case False
    have "Suc i \<le> length (mem_put i [hd0 s] d)" by (simp add: length_mem_put)
    with False Suc show ?thesis
      using mem_put_append [of i "[hd0 s]" _ d] by (simp add: cstr_hd0 [of s])
  qed
qed

lemma strncpy_eq:
  "strncpy d s n = mem_put 0 (take n (cstr s) @ replicate (n - length (cstr s)) 0) d"
  by (simp add: strncpy_def strncpy_from_eq)

section \<open>The checksum of the boot block\<close>

definition calc_checksum :: "bytes \<Rightarrow> byte \<Rightarrow> u64 \<Rightarrow> u32 \<Rightarrow> byte \<Rightarrow> byte" where
  "calc_checksum mag_num sfs_v tot_size res_size b_size =
     (let counter = 0 + (cs_at mag_num 0 + cs_at mag_num 1 + cs_at mag_num 2);
          counter = counter + sfs_v;
          counter = counter
            + ucast (drop_bit 56 (tot_size AND 0xFF00000000000000))
            + ucast (drop_bit 48 (tot_size AND 0x00FF000000000000))
            + ucast (drop_bit 40 (tot_size AND 0x0000FF0000000000))
            + ucast (drop_bit 32 (tot_size AND 0x000000FF00000000))
            + ucast (drop_bit 24 (tot_size AND 0x00000000FF000000))
            + ucast (drop_bit 16 (tot_size AND 0x0000000000FF0000))
            + ucast (drop_bit 8 (tot_size AND 0x000000000000FF00))
            + ucast (tot_size AND 0x00000000000000FF);
          counter = counter
            + ucast (res_size AND 0xFF000000)
            + ucast (res_size AND 0x00FF0000)
            + ucast (res_size AND 0x0000FF00)
            + ucast (res_size AND 0x000000FF);
          counter = counter + b_size
      in counter)"

lemma u64_to_bytes_ucast:
  "u64_to_bytes w = map (\<lambda>k. ucast (drop_bit k w)) [0, 8, 16, 24, 32, 40, 48, 56]"
proof -
  have b: "word_of_nat (n mod 256) = (word_of_nat n :: byte)" for n
    by (simp add: word_of_nat_eq_iff take_bit_eq_mod)
  have u: "(ucast (drop_bit k w) :: byte) = word_of_nat (unat w div 2 ^ k)" for k
    by (rule unsigned_word_eqI [where ?'a = nat])
      (simp add: unat_of_nat unsigned_ucast_eq take_bit_eq_mod unat_drop_bit_eq
        drop_bit_eq_div [where ?'a = nat])
  show ?thesis
    by (simp add: u64_to_bytes_def nat_to_le_map upt_rec b u)
qed

lemma ucast_drop_and_mask:
  "(ucast (drop_bit k (w AND push_bit k (mask 8))) :: byte) = ucast (drop_bit k (w :: u64))"
  by (rule bit_eqI)
    (auto simp: bit_ucast_iff bit_drop_bit_eq bit_and_iff bit_push_bit_iff bit_mask_iff
      dest: bit_imp_le_length)

lemma ucast_and_high_mask:
  "8 \<le> k \<Longrightarrow> (ucast ((w :: u32) AND push_bit k (mask 8)) :: byte) = 0"
  by (rule bit_eqI) (auto simp: bit_ucast_iff bit_and_iff bit_push_bit_iff)

lemma byte_masks:
  "0xFF00000000000000 = (push_bit 56 (mask 8) :: u64)"
  "0x00FF000000000000 = (push_bit 48 (mask 8) :: u64)"
  "0x0000FF0000000000 = (push_bit 40 (mask 8) :: u64)"
  "0x000000FF00000000 = (push_bit 32 (mask 8) :: u64)"
  "0x00000000FF000000 = (push_bit 24 (mask 8) :: u64)"
  "0x0000000000FF0000 = (push_bit 16 (mask 8) :: u64)"
  "0x000000000000FF00 = (push_bit 8 (mask 8) :: u64)"
  "0xFF000000 = (push_bit 24 (mask 8) :: u32)"
  "0x00FF0000 = (push_bit 16 (mask 8) :: u32)"
  "0x0000FF00 = (push_bit 8 (mask 8) :: u32)"
  by (simp_all add: mask_eq_exp_minus_1)

lemma ucast_and_low_mask:
  "(ucast ((w :: u64) AND 0xFF) :: byte) = ucast w"
  "(ucast ((v :: u32) AND 0xFF) :: byte) = ucast v"
proof -
  have "(0xFF :: u64) = mask 8" "(0xFF :: u32) = mask 8" by (simp_all add: mask_eq_exp_minus_1)
  note m = this
  show "(ucast (w AND 0xFF) :: byte) = ucast w" "(ucast (v AND 0xFF) :: byte) = ucast v"
    unfolding m
    by (rule bit_eqI, auto simp: bit_ucast_iff bit_and_iff bit_mask_iff dest: bit_imp_le_length)+
qed

text \<open>Only the low byte of \<open>res_size\<close> reaches the counter: the other three are truncated away
  by the cast before they are shifted.\<close>

lemma calc_checksum_eq:
  "calc_checksum mag v tot res b =
     sum_list [cs_at mag 0, cs_at mag 1, cs_at mag 2] + v + sum_list (u64_to_bytes tot)
       + ucast res + b"
  by (simp add: calc_checksum_def Let_def u64_to_bytes_ucast ucast_and_low_mask byte_masks
      ucast_drop_and_mask ucast_and_high_mask ac_simps del: push_bit_numeral push_bit_mask_eq drop_bit_and)

end
