(* ===== verification/Filedev.thy ===== *)
theory Filedev
  imports CUtils
begin

text \<open>
  src/lib/filedev.c and src/include/bdev: the block device over a host file. The state is one
  extensible record: \<open>machine\<close> is the world under the library (the image file behind the
  descriptor, which host calls fail, the clock, the two error variables), \<open>blockdev\<close> adds
  \<open>struct block_dev_t\<close> with its \<open>filedev_data\<close>. POSIX \<open>lseek\<close>, \<open>read\<close> and
  \<open>write\<close> act on a regular file: they fail as a whole (\<open>io_fail\<close> says which calls), refuse a
  negative position, read up to the end of the file and extend it when they write past its end.
\<close>

section \<open>The world\<close>

record machine =
  host_file :: bytes
  io_fail :: "nat \<Rightarrow> bool"
  io_count :: nat
  clock :: "nat \<Rightarrow> u64"
  ticks :: nat
  c_errno :: int
  sfs_errno :: int

record blockdev = machine +
  fd_filename :: "bytes option"
  fd :: int
  bdev_size :: u64
  block_size :: u64
  buf :: bytes
  buf_num :: u64

text \<open>The error numbers the program uses, with the values of utils.h.\<close>

definition ENOENT :: int where "ENOENT = 2"
definition EIO :: int where "EIO = 5"
definition ENOMEM :: int where "ENOMEM = 12"
definition EFAULT :: int where "EFAULT = 14"
definition EEXIST :: int where "EEXIST = 17"
definition ENOTDIR :: int where "ENOTDIR = 20"
definition EINVAL :: int where "EINVAL = 22"
definition ENOSPC :: int where "ENOSPC = 28"
definition ENOTEMPTY :: int where "ENOTEMPTY = 39"
definition ETIMEDOUT :: int where "ETIMEDOUT = 110"

lemmas errno_defs = ENOENT_def EIO_def ENOMEM_def EFAULT_def EEXIST_def ENOTDIR_def EINVAL_def
  ENOSPC_def ENOTEMPTY_def ETIMEDOUT_def

definition SET_ERRNO :: "int \<Rightarrow> 'a machine_scheme \<Rightarrow> 'a machine_scheme" where
  "SET_ERRNO e m = m\<lparr>sfs_errno := e\<rparr>"

definition get_time :: "'a machine_scheme \<Rightarrow> u64 \<times> 'a machine_scheme" where
  "get_time m = (clock m (ticks m), m\<lparr>ticks := Suc (ticks m)\<rparr>)"

definition host_read :: "'a machine_scheme \<Rightarrow> nat \<Rightarrow> nat \<Rightarrow> bytes option \<times> 'a machine_scheme" where
  "host_read m pos n =
     (if io_fail m (io_count m) then (None, m\<lparr>io_count := Suc (io_count m), c_errno := EIO\<rparr>)
      else (Some (seg pos n (host_file m)), m\<lparr>io_count := Suc (io_count m)\<rparr>))"

definition host_write :: "'a machine_scheme \<Rightarrow> nat \<Rightarrow> bytes \<Rightarrow> nat option \<times> 'a machine_scheme" where
  "host_write m pos bs =
     (if io_fail m (io_count m) then (None, m\<lparr>io_count := Suc (io_count m), c_errno := EIO\<rparr>)
      else (Some (length bs),
            m\<lparr>host_file := mem_put pos bs (host_file m), io_count := Suc (io_count m)\<rparr>))"

section \<open>The file device\<close>

definition filedev_create :: "'a blockdev_scheme option \<Rightarrow> u64 \<Rightarrow> u64 \<Rightarrow> int \<times> 'a blockdev_scheme option" where
  "filedev_create bdev bs sz =
     (case bdev of
        None \<Rightarrow> (EFAULT, None)
      | Some d \<Rightarrow>
          if sz mod bs \<noteq> 0 then (EINVAL, None)
          else (0, Some (d\<lparr>bdev_size := sz, block_size := bs, c_errno := 0\<rparr>)))"

text \<open>\<open>open_fd\<close> is what \<open>open\<close> returns, \<open>mem\<close> what \<open>malloc\<close> returns (\<open>None\<close> for \<open>NULL\<close>). The
  buffer of a released device, or after a failed \<open>malloc\<close>, is the empty list.\<close>

definition filedev_init :: "int \<Rightarrow> bytes option \<Rightarrow> 'a blockdev_scheme \<Rightarrow> int \<times> 'a blockdev_scheme" where
  "filedev_init open_fd mem d =
     (let d = d\<lparr>c_errno := 0\<rparr> in
      if fd_filename d = None then (-1, d\<lparr>c_errno := EINVAL\<rparr>)
      else let d = (if fd d = -1 then d\<lparr>fd := open_fd\<rparr> else d) in
        if fd d = -1 then (-1, d)
        else (case mem of
                None \<Rightarrow> (-1, d\<lparr>buf := [], c_errno := ENOMEM\<rparr>)
              | Some b \<Rightarrow> (0, d\<lparr>buf := b, buf_num := -1\<rparr>)))"

definition filedev_release :: "'a blockdev_scheme \<Rightarrow> int \<times> 'a blockdev_scheme" where
  "filedev_release d =
     (let d = d\<lparr>c_errno := 0\<rparr> in
      if fd_filename d = None then (-1, d\<lparr>c_errno := EINVAL\<rparr>)
      else (0, (if fd d \<noteq> -1 then d\<lparr>fd := -1\<rparr> else d)\<lparr>buf := []\<rparr>))"

definition filedev_sync :: "'a blockdev_scheme \<Rightarrow> int \<times> 'a blockdev_scheme" where
  "filedev_sync d =
     (if fd d = -1 \<or> io_fail d (io_count d) then (-1, d\<lparr>io_count := Suc (io_count d), c_errno := EIO\<rparr>)
      else (0, d\<lparr>io_count := Suc (io_count d)\<rparr>))"

text \<open>A buffer argument is \<open>None\<close> for \<open>NULL\<close>; the second component of the result is the buffer
  after the call.\<close>

definition filedev_read ::
  "'a blockdev_scheme \<Rightarrow> bytes option \<Rightarrow> u64 \<Rightarrow> u64 \<Rightarrow> u64 \<times> bytes \<times> 'a blockdev_scheme" where
  "filedev_read d b buf_size block_num =
     (let d = d\<lparr>c_errno := 0\<rparr> in
      case b of
        None \<Rightarrow> (-1, [], d\<lparr>c_errno := EFAULT\<rparr>)
      | Some bf \<Rightarrow>
          if fd d = -1 then (-1, bf, d\<lparr>c_errno := EINVAL\<rparr>)
          else if buf_size mod block_size d \<noteq> 0 then (-1, bf, d\<lparr>c_errno := EINVAL\<rparr>)
          else let start_pos = block_num * block_size d in
            if start_pos + buf_size > bdev_size d then (-1, bf, d\<lparr>c_errno := EINVAL\<rparr>)
            else if sint start_pos < 0 then (-1, bf, d\<lparr>c_errno := EINVAL\<rparr>)
            else (case host_read d (unat start_pos) (unat buf_size) of
                    (None, d) \<Rightarrow> (-1, bf, d)
                  | (Some bs, d) \<Rightarrow>
                      (if word_of_nat (length bs) \<noteq> buf_size then (-1, mem_put 0 bs bf, d)
                       else (word_of_nat (length bs), mem_put 0 bs bf, d))))"

definition filedev_write ::
  "'a blockdev_scheme \<Rightarrow> bytes option \<Rightarrow> u64 \<Rightarrow> u64 \<Rightarrow> u64 \<times> 'a blockdev_scheme" where
  "filedev_write d b buf_size block_num =
     (let d = d\<lparr>c_errno := 0\<rparr> in
      case b of
        None \<Rightarrow> (-1, d\<lparr>c_errno := EFAULT\<rparr>)
      | Some bf \<Rightarrow>
          if fd d = -1 then (-1, d\<lparr>c_errno := EINVAL\<rparr>)
          else if buf_size mod block_size d \<noteq> 0 then (-1, d\<lparr>c_errno := EINVAL\<rparr>)
          else let start_pos = block_num * block_size d in
            if sint start_pos < 0 then (-1, d\<lparr>c_errno := EINVAL\<rparr>)
            else (case host_write d (unat start_pos) (mem_get 0 (unat buf_size) bf) of
                    (None, d) \<Rightarrow> (-1, d)
                  | (Some n, d) \<Rightarrow>
                      (if word_of_nat n \<noteq> buf_size then (-1, d) else (word_of_nat n, d))))"

text \<open>The calls \<open>dev->read(dev, dev->buf, bsize, bnum)\<close> and \<open>dev->write(...)\<close> of io.c.\<close>

definition dev_read :: "'a blockdev_scheme \<Rightarrow> u64 \<Rightarrow> u64 \<times> 'a blockdev_scheme" where
  "dev_read d bnum =
     (case filedev_read d (Some (buf d)) (block_size d) bnum of (r, b, d) \<Rightarrow> (r, d\<lparr>buf := b\<rparr>))"

definition dev_write :: "'a blockdev_scheme \<Rightarrow> u64 \<Rightarrow> u64 \<times> 'a blockdev_scheme" where
  "dev_write d bnum = filedev_write d (Some (buf d)) (block_size d) bnum"

section \<open>Devices in order\<close>

text \<open>The geometry a mounted device has: an open descriptor, a block size that divides the
  image, an image of the recorded size, and a host that serves every call.\<close>

definition geom_ok :: "'a blockdev_scheme \<Rightarrow> bool" where
  "geom_ok d \<longleftrightarrow> fd d \<noteq> -1 \<and> (\<forall>n. \<not> io_fail d n) \<and> 0 < unat (block_size d)
     \<and> unat (bdev_size d) = length (host_file d) \<and> length (host_file d) < 2 ^ 63
     \<and> unat (block_size d) dvd length (host_file d) \<and> length (buf d) = unat (block_size d)"

definition disk_block :: "'a blockdev_scheme \<Rightarrow> nat \<Rightarrow> bytes" where
  "disk_block d k = seg (k * unat (block_size d)) (unat (block_size d)) (host_file d)"

text \<open>The buffer holds the block it is labelled with, or is labelled with none.\<close>

definition cache_ok :: "'a blockdev_scheme \<Rightarrow> bool" where
  "cache_ok d \<longleftrightarrow> (buf_num d \<noteq> -1 \<longrightarrow>
     Suc (unat (buf_num d)) * unat (block_size d) \<le> length (host_file d)
     \<and> buf d = disk_block d (unat (buf_num d)))"

definition dev_ok :: "'a blockdev_scheme \<Rightarrow> bool" where
  "dev_ok d \<longleftrightarrow> geom_ok d \<and> cache_ok d"

text \<open>What is left of a state when the buffer and the bookkeeping of the host calls are hidden.\<close>

definition core :: "'a blockdev_scheme \<Rightarrow> 'a blockdev_scheme" where
  "core d = d\<lparr>buf := [], buf_num := 0, io_count := 0, c_errno := 0\<rparr>"

lemma core_update [simp]:
  "core (d\<lparr>buf := b\<rparr>) = core d" "core (d\<lparr>buf_num := n\<rparr>) = core d"
  "core (d\<lparr>io_count := k\<rparr>) = core d" "core (d\<lparr>c_errno := e\<rparr>) = core d"
  by (simp_all add: core_def)

lemma core_host [simp]: "core (d\<lparr>host_file := h\<rparr>) = (core d)\<lparr>host_file := h\<rparr>"
  by (simp add: core_def)

lemma core_sel [simp]:
  "host_file (core d) = host_file d" "io_fail (core d) = io_fail d" "clock (core d) = clock d"
  "ticks (core d) = ticks d" "sfs_errno (core d) = sfs_errno d"
  "fd_filename (core d) = fd_filename d" "fd (core d) = fd d" "bdev_size (core d) = bdev_size d"
  "block_size (core d) = block_size d" "blockdev.more (core d) = blockdev.more d"
  by (simp_all add: core_def)

lemma core_eqD:
  assumes "core d = core d'"
  shows "host_file d = host_file d'" "io_fail d = io_fail d'" "clock d = clock d'"
    "ticks d = ticks d'" "sfs_errno d = sfs_errno d'" "fd_filename d = fd_filename d'"
    "fd d = fd d'" "bdev_size d = bdev_size d'" "block_size d = block_size d'"
    "blockdev.more d = blockdev.more d'"
  using core_sel [of d] core_sel [of d'] assms by metis+

section \<open>A read and a write of one block\<close>

lemma geom_ok_bounds:
  assumes "geom_ok d" and "Suc k * unat (block_size d) \<le> length (host_file d)"
  shows "k * unat (block_size d) + unat (block_size d) \<le> length (host_file d)"
    and "k * unat (block_size d) < 2 ^ 63" and "unat (block_size d) < 2 ^ 63"
    and "length (host_file d) < 2 ^ 63" and "0 < unat (block_size d)"
  using assms by (auto simp: geom_ok_def algebra_simps)

lemma start_pos_small:
  assumes "geom_ok d" and "Suc (unat b) * unat (block_size d) \<le> length (host_file d)"
  shows "unat (b * block_size d) = unat b * unat (block_size d)"
    and "\<not> sint (b * block_size d) < 0"
    and "\<not> b * block_size d + block_size d > bdev_size d"
    and "block_size d \<noteq> -1"
proof -
  note g = geom_ok_bounds [OF assms]
  show m: "unat (b * block_size d) = unat b * unat (block_size d)"
    using g by (intro unat_mult_small) simp
  then show "\<not> sint (b * block_size d) < 0"
    using g by (intro sint_not_neg) simp
  have "unat (b * block_size d + block_size d) = unat b * unat (block_size d) + unat (block_size d)"
    using g m by (subst unat_add_small) auto
  then show "\<not> b * block_size d + block_size d > bdev_size d"
    using g assms(1) by (simp add: word_less_nat_alt geom_ok_def)
  show "block_size d \<noteq> -1"
    using g unat_minus_one_u64 by auto
qed

lemma dev_read_ok:
  assumes "geom_ok d" and "Suc (unat b) * unat (block_size d) \<le> length (host_file d)"
  shows "dev_read d b = (block_size d,
           d\<lparr>buf := disk_block d (unat b), io_count := Suc (io_count d), c_errno := 0\<rparr>)"
proof -
  note g = geom_ok_bounds [OF assms] and s = start_pos_small [OF assms]
  have len: "length (disk_block d (unat b)) = unat (block_size d)"
    using g by (simp add: disk_block_def)
  have "mem_put 0 (disk_block d (unat b)) (buf d) = disk_block d (unat b)"
    using assms(1) len by (simp add: mem_put_within patch_all geom_ok_def)
  with assms(1) s len show ?thesis
    by (simp add: dev_read_def filedev_read_def host_read_def geom_ok_def disk_block_def Let_def)
qed

lemma dev_write_ok:
  assumes "geom_ok d" and "Suc (unat b) * unat (block_size d) \<le> length (host_file d)"
  shows "dev_write d b = (block_size d,
           d\<lparr>host_file := patch (unat b * unat (block_size d)) (buf d) (host_file d),
             io_count := Suc (io_count d), c_errno := 0\<rparr>)"
proof -
  note g = geom_ok_bounds [OF assms] and s = start_pos_small [OF assms]
  have len: "length (buf d) = unat (block_size d)" and ne: "buf d \<noteq> []"
    using assms(1) g by (auto simp: geom_ok_def)
  have "mem_get 0 (unat (block_size d)) (buf d) = buf d"
    using len by (simp add: mem_get_within seg_all)
  with assms(1) s len ne g show ?thesis
    by (simp add: dev_write_def filedev_write_def host_write_def geom_ok_def mem_put_within Let_def)
qed

end
