(* ===== verification/BlockIO.thy ===== *)
theory BlockIO
  imports Filedev
begin

text \<open>
  src/lib/sfs/io.c: byte-granular reads and writes over the block device with its one-block
  buffer, the reading and writing of index entries, and the copying of blocks. A destination
  buffer is passed as a list and returned updated; \<open>p\<close> is the offset of the pointer \<open>data\<close> from
  its start.
\<close>

section \<open>The routines\<close>

text \<open>The loop \<open>while (size >= bsize)\<close> of \<open>read_data\<close>; the first component is \<open>False\<close> if a read
  failed.\<close>

function read_blocks :: "u64 \<Rightarrow> 'a blockdev_scheme \<Rightarrow> u64 \<Rightarrow> bytes \<Rightarrow> nat \<Rightarrow> u64
    \<Rightarrow> bool \<times> u64 \<times> bytes \<times> nat \<times> u64 \<times> 'a blockdev_scheme" where
  "read_blocks bsize d bnum data p sz =
     (if bsize \<le> sz \<and> bsize \<noteq> 0 then
        (case dev_read d bnum of
           (r, d) \<Rightarrow>
             if r = -1 then (False, bnum, data, p, sz, SET_ERRNO EIO d)
             else read_blocks bsize d (bnum + 1) (mem_put p (mem_get 0 (unat bsize) (buf d)) data)
                    (p + unat bsize) (sz - bsize))
      else (True, bnum, data, p, sz, d))"
  by pat_completeness auto
termination
  by (relation "measure (\<lambda>(bsize, d, bnum, data, p, sz). unat sz)")
    (auto simp: unat_sub word_le_nat_alt word_neq_0_conv word_less_nat_alt)

declare read_blocks.simps [simp del]

definition read_data :: "'a blockdev_scheme \<Rightarrow> u64 \<Rightarrow> bytes \<Rightarrow> u64 \<Rightarrow> u64 \<times> bytes \<times> 'a blockdev_scheme" where
  "read_data d offset data sz =
     (let bsize = block_size d;
          bnum = offset div bsize;
          cur_pos = offset mod bsize;
          ret_size = sz;
          (failed, d) =
            (if buf_num d \<noteq> bnum then
               (case dev_read d bnum of
                  (r, d) \<Rightarrow> if r = -1 then (True, SET_ERRNO EIO d) else (False, d\<lparr>buf_num := bnum\<rparr>))
             else (False, d))
      in
      if failed then (-1, data, d)
      else if cur_pos + sz \<le> bsize then
        (ret_size, mem_put 0 (mem_get (unat cur_pos) (unat sz) (buf d)) data, d)
      else
        let data = mem_put 0 (mem_get (unat cur_pos) (unat (bsize - cur_pos)) (buf d)) data;
            sz = sz - (bsize - cur_pos);
            p = unat bsize + unat cur_pos;
            bnum = bnum + 1
        in
        (case read_blocks bsize d bnum data p sz of
           (ok, bnum, data, p, sz, d) \<Rightarrow>
             if \<not> ok then (-1, data, d)
             else if sz = 0 then (ret_size, data, d)
             else let d = d\<lparr>buf_num := bnum\<rparr> in
               (case dev_read d bnum of
                  (r, d) \<Rightarrow>
                    if r = -1 then (-1, data, SET_ERRNO EIO d)
                    else (ret_size, mem_put p (mem_get 0 (unat sz) (buf d)) data, d))))"

function write_blocks :: "u64 \<Rightarrow> 'a blockdev_scheme \<Rightarrow> u64 \<Rightarrow> bytes \<Rightarrow> nat \<Rightarrow> u64
    \<Rightarrow> bool \<times> u64 \<times> nat \<times> u64 \<times> 'a blockdev_scheme" where
  "write_blocks bsize d bnum data p sz =
     (if bsize \<le> sz \<and> bsize \<noteq> 0 then
        (case dev_write (d\<lparr>buf := mem_put 0 (mem_get p (unat bsize) data) (buf d)\<rparr>) bnum of
           (r, d) \<Rightarrow>
             if r = -1 then (False, bnum, p, sz, SET_ERRNO EIO d)
             else write_blocks bsize (d\<lparr>buf_num := -1\<rparr>) (bnum + 1) data (p + unat bsize) (sz - bsize))
      else (True, bnum, p, sz, d))"
  by pat_completeness auto
termination
  by (relation "measure (\<lambda>(bsize, d, bnum, data, p, sz). unat sz)")
    (auto simp: unat_sub word_le_nat_alt word_neq_0_conv word_less_nat_alt)

declare write_blocks.simps [simp del]

definition write_data :: "'a blockdev_scheme \<Rightarrow> u64 \<Rightarrow> bytes \<Rightarrow> u64 \<Rightarrow> u64 \<times> 'a blockdev_scheme" where
  "write_data d offset data sz =
     (let bsize = block_size d;
          bnum = offset div bsize;
          cur_pos = offset mod bsize;
          ret_size = sz
      in
      (case dev_read d bnum of
         (r, d) \<Rightarrow>
           if r = -1 then (-1, SET_ERRNO EIO d)
           else
           let d = d\<lparr>buf_num := bnum\<rparr> in
           if cur_pos + sz \<le> bsize then
             let d = d\<lparr>buf := mem_put (unat cur_pos) (mem_get 0 (unat sz) data) (buf d)\<rparr> in
             (case dev_write d bnum of
                (r, d) \<Rightarrow>
                  if r = -1 then (-1, SET_ERRNO EIO d)
                  else (ret_size, d\<lparr>buf_num := -1\<rparr>))
           else
             let n = bsize - cur_pos;
                 d = d\<lparr>buf := mem_put (unat cur_pos) (mem_get 0 (unat n) data) (buf d)\<rparr> in
             (case dev_write d bnum of
                (r, d) \<Rightarrow>
                  if r = -1 then (-1, SET_ERRNO EIO d)
                  else
                  (case write_blocks bsize d (bnum + 1) data (unat n) (sz - n) of
                     (ok, bnum, p, sz, d) \<Rightarrow>
                       if \<not> ok then (-1, d)
                       else if sz = 0 then (ret_size, d)
                       else let d = d\<lparr>buf_num := bnum\<rparr> in
                       (case dev_read d bnum of
                          (r, d) \<Rightarrow>
                            if r = -1 then (-1, SET_ERRNO EIO d)
                            else
                            let d = d\<lparr>buf := mem_put 0 (mem_get p (unat sz) data) (buf d)\<rparr> in
                            (case dev_write d bnum of
                               (r, d) \<Rightarrow>
                                 if r = -1 then (-1, SET_ERRNO EIO d)
                                 else (ret_size, d)))))))"

definition read_entry :: "'a blockdev_scheme \<Rightarrow> u64 \<Rightarrow> entry \<Rightarrow> u64 \<times> entry \<times> 'a blockdev_scheme" where
  "read_entry d offset e =
     (if offset mod INDEX_ENTRY_SIZE \<noteq> 0 then (-1, e, d)
      else read_data d offset e INDEX_ENTRY_SIZE)"

definition write_entry :: "'a blockdev_scheme \<Rightarrow> u64 \<Rightarrow> entry \<Rightarrow> u64 \<times> 'a blockdev_scheme" where
  "write_entry d offset e =
     (if offset mod INDEX_ENTRY_SIZE \<noteq> 0 then (-1, d)
      else write_data d offset e INDEX_ENTRY_SIZE)"

function copy_block :: "'a blockdev_scheme \<Rightarrow> u64 \<Rightarrow> u64 \<Rightarrow> u64 \<Rightarrow> int \<times> 'a blockdev_scheme" where
  "copy_block d src dest sz =
     (if sz > 0 then
        (case dev_read d src of
           (r, d) \<Rightarrow>
             if r = -1 then (-1, SET_ERRNO EIO d)
             else (case dev_write d dest of
                     (r, d) \<Rightarrow>
                       if r = -1 then (-1, SET_ERRNO EIO d)
                       else copy_block d (src + 1) (dest + 1) (sz - 1)))
      else (0, d))"
  by pat_completeness auto
termination
  by (relation "measure (\<lambda>(d, src, dest, sz). unat sz)")
    (auto simp: unat_sub word_le_nat_alt word_less_nat_alt)

declare copy_block.simps [simp del]

section \<open>Reads inside one block\<close>

lemma block_in_range:
  "(bs :: nat) dvd n \<Longrightarrow> off < n \<Longrightarrow> Suc (off div bs) * bs \<le> n"
  by (metis Suc_leI dvd_def less_mult_imp_div_less mult.commute mult_le_mono1)

text \<open>The state after a block has been brought into the buffer.\<close>

definition load :: "'a blockdev_scheme \<Rightarrow> u64 \<Rightarrow> 'a blockdev_scheme" where
  "load d b = (if buf_num d = b then d
     else d\<lparr>buf := disk_block d (unat b), io_count := Suc (io_count d), c_errno := 0, buf_num := b\<rparr>)"

lemma disk_block_cong:
  "host_file d = host_file d' \<Longrightarrow> block_size d = block_size d' \<Longrightarrow> disk_block d = disk_block d'"
  by (simp add: disk_block_def fun_eq_iff)

lemma disk_block_update [simp]:
  "disk_block (d\<lparr>buf := b\<rparr>) = disk_block d" "disk_block (d\<lparr>buf_num := n\<rparr>) = disk_block d"
  "disk_block (d\<lparr>io_count := k\<rparr>) = disk_block d" "disk_block (d\<lparr>c_errno := e\<rparr>) = disk_block d"
  by (simp_all add: disk_block_def fun_eq_iff)

lemma core_load [simp]: "core (load d b) = core d"
  by (simp add: load_def)

lemma geom_ok_buf:
  "geom_ok d \<Longrightarrow> length bf = unat (block_size d) \<Longrightarrow> geom_ok (d\<lparr>buf := bf\<rparr>)"
  by (simp add: geom_ok_def)

lemma length_disk_block [simp]:
  "Suc k * unat (block_size d) \<le> length (host_file d) \<Longrightarrow>
     length (disk_block d k) = unat (block_size d)"
  by (simp add: disk_block_def)

lemma dev_ok_load:
  assumes "dev_ok d" and "Suc (unat b) * unat (block_size d) \<le> length (host_file d)"
  shows "dev_ok (load d b)" and "buf (load d b) = disk_block d (unat b)"
proof -
  have "unat b < 2 ^ 64 - 1"
  proof -
    have "unat b * 1 \<le> unat b * unat (block_size d)"
      using assms(1) by (intro mult_le_mono) (auto simp: dev_ok_def geom_ok_def)
    also have "\<dots> < 2 ^ 63"
      using geom_ok_bounds(2) [of d "unat b"] assms by (simp add: dev_ok_def)
    finally show ?thesis by simp
  qed
  then have "b \<noteq> -1" using unat_minus_one_u64 by auto
  with assms show "buf (load d b) = disk_block d (unat b)"
    by (auto simp: load_def dev_ok_def cache_ok_def)
  show "dev_ok (load d b)"
    using assms
    by (auto simp: load_def dev_ok_def geom_ok_def cache_ok_def disk_block_def seg_simps)
qed

lemma read_data_within_block:
  assumes ok: "dev_ok d" and off: "unat off < length (host_file d)"
    and fits: "unat off mod unat (block_size d) + unat sz \<le> unat (block_size d)"
    and room: "unat sz \<le> length data"
  shows "read_data d off data sz =
           (sz, patch 0 (seg (unat off) (unat sz) (host_file d)) data, load d (off div block_size d))"
proof -
  let ?bs = "unat (block_size d)" and ?b = "off div block_size d"
  have geom: "geom_ok d" using ok by (simp add: dev_ok_def)
  have ub: "unat ?b = unat off div ?bs" by (simp add: unat_div)
  have range: "Suc (unat ?b) * ?bs \<le> length (host_file d)"
    unfolding ub using geom off by (intro block_in_range) (auto simp: geom_ok_def)
  note g = geom_ok_bounds [OF geom range]
  have um: "unat (off mod block_size d) = unat off mod ?bs" by (simp add: unat_mod)
  have in_block: "off mod block_size d + sz \<le> block_size d"
    using fits g um by (simp add: word_le_nat_alt unat_add_small)
  have start: "(case (if buf_num d \<noteq> ?b then
             (case dev_read d ?b of (r, d) \<Rightarrow>
                if r = -1 then (True, SET_ERRNO EIO d) else (False, d\<lparr>buf_num := ?b\<rparr>))
           else (False, d)) of (failed, d') \<Rightarrow> f failed d') = f False (load d ?b)" for f :: "bool \<Rightarrow> _ \<Rightarrow> 'b"
    using dev_read_ok [OF geom range] start_pos_small(4) [OF geom range]
    by (auto simp: load_def)
  have "mem_get (unat off mod ?bs) (unat sz) (disk_block d (unat off div ?bs))
      = seg (unat off) (unat sz) (host_file d)"
    using fits range ub g(1)
    by (simp add: mem_get_within disk_block_def seg_simps)
  then show ?thesis
    using in_block room dev_ok_load(2) [OF ok range] um ub
    unfolding read_data_def Let_def by (subst start) (simp add: mem_put_within)
qed

section \<open>Writes\<close>

lemma dev_write_buf:
  assumes "geom_ok d" and "Suc (unat b) * unat (block_size d) \<le> length (host_file d)"
    and "length bf = unat (block_size d)"
  shows "dev_write (d\<lparr>buf := bf\<rparr>) b = (block_size d,
           d\<lparr>buf := bf, host_file := patch (unat b * unat (block_size d)) bf (host_file d),
             io_count := Suc (io_count d), c_errno := 0\<rparr>)"
  using dev_write_ok [of "d\<lparr>buf := bf\<rparr>" b] geom_ok_buf [of d bf] assms by simp

lemma patch_disk_block:
  assumes "Suc k * unat (block_size d) \<le> length (host_file d)"
    and "p + length ys \<le> unat (block_size d)"
  shows "patch (k * unat (block_size d)) (patch p ys (disk_block d k)) (host_file d)
       = patch (k * unat (block_size d) + p) ys (host_file d)"
  unfolding disk_block_def using assms by (intro patch_within_seg) auto

text \<open>A state with a file of the same length in place of the image, and any buffer of the size of
  a block that is not labelled, is in order.\<close>

lemma dev_ok_unlabelled:
  assumes "geom_ok d" and "length h = length (host_file d)" and "length bf = unat (block_size d)"
  shows "dev_ok (d\<lparr>buf := bf, host_file := h, io_count := k, c_errno := e, buf_num := -1\<rparr>)"
  using assms by (simp add: dev_ok_def geom_ok_def cache_ok_def)

lemma write_blocks_ok:
  assumes "dev_ok d" and "bsize = block_size d"
    and "unat b * unat bsize + unat sz \<le> length (host_file d)" and "p + unat sz \<le> length data"
    and "unat b * unat bsize < 2 ^ 63"
  shows "\<exists>d'. write_blocks bsize d b data p sz
             = (True, b + sz div bsize, p + unat sz div unat bsize * unat bsize, sz mod bsize, d')
           \<and> dev_ok d'
           \<and> core d' = (core d)\<lparr>host_file := patch (unat b * unat bsize)
               (seg p (unat sz div unat bsize * unat bsize) data) (host_file d)\<rparr>"
  using assms
proof (induction "unat sz" arbitrary: d b p sz rule: less_induct)
  case less
  let ?n = "unat bsize"
  have geom: "geom_ok d" and pos: "0 < ?n" and buflen: "length (buf d) = ?n"
    using less.prems by (auto simp: dev_ok_def geom_ok_def)
  show ?case
  proof (cases "bsize \<le> sz")
    case False
    then have "unat sz < ?n" by (simp add: word_le_nat_alt)
    moreover from this have "sz div bsize = 0" "sz mod bsize = sz"
      by (simp_all add: word_unat_eq_iff unat_div unat_mod)
    ultimately show ?thesis
      using less.prems(1) False by (subst write_blocks.simps) simp
  next
    case True
    then have le: "?n \<le> unat sz" by (simp add: word_le_nat_alt)
    let ?bf = "seg p ?n data"
    let ?d1 = "d\<lparr>buf := ?bf, host_file := patch (unat b * ?n) ?bf (host_file d),
        io_count := Suc (io_count d), c_errno := 0, buf_num := -1\<rparr>"
    have range: "Suc (unat b) * unat (block_size d) \<le> length (host_file d)"
      using less.prems le by simp
    note g = geom_ok_bounds [OF geom range]
    have bflen: "length ?bf = ?n" using less.prems le by simp
    have put: "mem_put 0 (mem_get p ?n data) (buf d) = ?bf"
      using less.prems le buflen by (simp add: mem_get_within mem_put_within patch_all)
    have wr: "dev_write (d\<lparr>buf := ?bf\<rparr>) b = (bsize, d\<lparr>buf := ?bf,
        host_file := patch (unat b * ?n) ?bf (host_file d), io_count := Suc (io_count d), c_errno := 0\<rparr>)"
      using dev_write_buf [OF geom range] bflen less.prems(2) by simp
    have ne: "bsize \<noteq> -1" using start_pos_small(4) [OF geom range] less.prems(2) by simp
    have ub: "unat (b + 1) = unat b + 1"
    proof -
      have "unat b \<le> unat b * ?n" using pos by (cases ?n) auto
      then have "unat b < 2 ^ 63" using less.prems(5) by (rule le_less_trans)
      then show ?thesis by (subst unat_add_small) auto
    qed
    have us: "unat (sz - bsize) = unat sz - ?n" using le by (rule unat_sub_small)
    have step: "write_blocks bsize d b data p sz
        = write_blocks bsize ?d1 (b + 1) data (p + ?n) (sz - bsize)"
      using True pos put wr ne by (subst write_blocks.simps) auto
    have ok1: "dev_ok ?d1"
      using geom bflen less.prems(2) range by (intro dev_ok_unlabelled) auto
    have d1: "host_file ?d1 = patch (unat b * ?n) ?bf (host_file d)" by simp
    have b1: "unat (b + 1) * ?n + unat (sz - bsize) \<le> length (host_file ?d1)"
      "unat (b + 1) * ?n < 2 ^ 63"
      using less.prems le bflen range g unfolding ub us by (auto simp: algebra_simps)
    have smaller: "unat (sz - bsize) < unat sz" using us pos le by simp
    obtain d' where d': "write_blocks bsize ?d1 (b + 1) data (p + ?n) (sz - bsize)
             = (True, b + 1 + (sz - bsize) div bsize,
                p + ?n + unat (sz - bsize) div ?n * ?n, (sz - bsize) mod bsize, d')"
      and ok': "dev_ok d'"
      and core': "core d' = (core ?d1)\<lparr>host_file := patch (unat (b + 1) * ?n)
               (seg (p + ?n) (unat (sz - bsize) div ?n * ?n) data) (host_file ?d1)\<rparr>"
      using less.hyps [OF smaller ok1, of "b + 1" "p + ?n"] less.prems b1 us le by auto
    have q: "unat sz div ?n = Suc (unat (sz - bsize) div ?n)"
      using us le pos by (simp add: le_div_geq)
    have w: "1 + (sz - bsize) div bsize = sz div bsize" "(sz - bsize) mod bsize = sz mod bsize"
    proof -
      have "unat (sz - bsize) div ?n < 2 ^ 63"
        using us le less.prems(3) g(4) div_le_dividend [of "unat (sz - bsize)" ?n] by linarith
      then have "unat (1 + (sz - bsize) div bsize) = unat (sz div bsize)"
        using q by (subst unat_add_small) (auto simp: unat_div)
      then show "1 + (sz - bsize) div bsize = sz div bsize" by (simp only: word_unat_eq_iff)
      show "(sz - bsize) mod bsize = sz mod bsize"
        using us le by (simp add: word_unat_eq_iff unat_mod le_mod_geq)
    qed
    have join: "patch (unat (b + 1) * ?n) (seg (p + ?n) (unat (sz - bsize) div ?n * ?n) data)
        (patch (unat b * ?n) ?bf (host_file d))
      = patch (unat b * ?n) (seg p (unat sz div ?n * ?n) data) (host_file d)"
    proof -
      have "unat (sz - bsize) div ?n * ?n \<le> unat sz - ?n"
        using us by (metis div_times_less_eq_dividend)
      then show ?thesis
        using less.prems(3,4) le bflen unfolding q ub
        by (simp add: seg_add patch_append algebra_simps)
    qed
    show ?thesis
      using step d' ok' core' q w join by (intro exI [of _ d']) (simp add: algebra_simps)
  qed
qed

text \<open>One read-modify-write: a part of a block is written through the buffer.\<close>

lemma rmw_block:
  assumes geom: "geom_ok d" and range: "Suc (unat b) * unat (block_size d) \<le> length (host_file d)"
    and fits: "k + length ys \<le> unat (block_size d)"
  shows "\<exists>d1 d2. dev_read d b = (block_size d, d1) \<and> buf_num d1 = buf_num d
      \<and> block_size d1 = block_size d \<and> block_size d \<noteq> -1
      \<and> dev_write (d1\<lparr>buf_num := b, buf := mem_put k ys (buf d1)\<rparr>) b = (block_size d, d2)
      \<and> dev_ok d2 \<and> buf_num d2 = b
      \<and> core d2 = (core d)\<lparr>host_file := patch (unat b * unat (block_size d) + k) ys (host_file d)\<rparr>"
proof -
  let ?n = "unat (block_size d)"
  let ?d1 = "d\<lparr>buf := disk_block d (unat b), io_count := Suc (io_count d), c_errno := 0\<rparr>"
  let ?bf = "patch k ys (disk_block d (unat b))"
  let ?l = "?d1\<lparr>buf_num := b\<rparr>"
  have rd: "dev_read d b = (block_size d, ?d1)" by (rule dev_read_ok [OF geom range])
  have len: "length (disk_block d (unat b)) = ?n" using range by simp
  then have bflen: "length ?bf = ?n" using fits by simp
  have gl: "geom_ok ?l" using geom len by (simp add: geom_ok_def)
  have put: "mem_put k ys (buf ?d1) = ?bf" using len fits by (simp add: mem_put_within)
  have wr: "dev_write (?l\<lparr>buf := ?bf\<rparr>) b = (block_size d, ?l\<lparr>buf := ?bf,
      host_file := patch (unat b * ?n) ?bf (host_file d), io_count := Suc (io_count ?l), c_errno := 0\<rparr>)"
    using dev_write_buf [OF gl, of b ?bf] range bflen by simp
  have pd: "patch (unat b * ?n) ?bf (host_file d) = patch (unat b * ?n + k) ys (host_file d)"
    by (rule patch_disk_block [OF range fits])
  let ?d2 = "?l\<lparr>buf := ?bf, host_file := patch (unat b * ?n) ?bf (host_file d),
      io_count := Suc (io_count ?l), c_errno := 0\<rparr>"
  have "dev_ok ?d2"
    using gl bflen range seg_patch_same [of "unat b * ?n" ?bf "host_file d"]
    by (simp add: dev_ok_def geom_ok_def cache_ok_def disk_block_def)
  with rd len put wr pd start_pos_small(4) [OF geom range] show ?thesis
    by (intro exI [of _ ?d1] exI [of _ ?d2]) simp
qed

lemma buf_num_update_id [simp]: "buf_num d = b \<Longrightarrow> d\<lparr>buf_num := b\<rparr> = d"
  by auto

lemma dev_ok_forget: "dev_ok d \<Longrightarrow> dev_ok (d\<lparr>buf_num := -1\<rparr>)"
  by (simp add: dev_ok_def geom_ok_def cache_ok_def)

lemma dev_ok_relabel: "dev_ok d \<Longrightarrow> geom_ok (d\<lparr>buf_num := b\<rparr>)"
  by (simp add: dev_ok_def geom_ok_def)

lemma write_data_ok:
  assumes ok: "dev_ok d" and off: "unat off < length (host_file d)"
    and fits: "unat off + unat sz \<le> length (host_file d)" and room: "unat sz \<le> length data"
  shows "\<exists>d'. write_data d off data sz = (sz, d') \<and> dev_ok d'
      \<and> core d' = (core d)\<lparr>host_file := patch (unat off) (take (unat sz) data) (host_file d)\<rparr>"
proof -
  let ?n = "unat (block_size d)" and ?b = "off div block_size d" and ?c = "unat off mod unat (block_size d)"
  have geom: "geom_ok d" using ok by (simp add: dev_ok_def)
  have ub: "unat ?b = unat off div ?n" by (simp add: unat_div)
  have um: "unat (off mod block_size d) = ?c" by (simp add: unat_mod)
  have range: "Suc (unat ?b) * ?n \<le> length (host_file d)"
    unfolding ub using geom off by (intro block_in_range) (auto simp: geom_ok_def)
  note g = geom_ok_bounds [OF geom range]
  have pos: "unat ?b * ?n + ?c = unat off" unfolding ub by simp
  have c_lt: "?c < ?n" using g(5) by simp
  have sz63: "unat sz < 2 ^ 63" using fits g(4) by linarith
  show ?thesis
  proof (cases "?c + unat sz \<le> ?n")
    case True
    have in_block: "off mod block_size d + sz \<le> block_size d"
      using True g um by (simp add: word_le_nat_alt unat_add_small)
    obtain d1 d2 where "dev_read d ?b = (block_size d, d1)" "block_size d \<noteq> -1"
      "dev_write (d1\<lparr>buf_num := ?b, buf := mem_put ?c (take (unat sz) data) (buf d1)\<rparr>) ?b = (block_size d, d2)"
      "dev_ok d2"
      "core d2 = (core d)\<lparr>host_file := patch (unat ?b * ?n + ?c) (take (unat sz) data) (host_file d)\<rparr>"
      using rmw_block [OF geom range, of ?c "take (unat sz) data"] True room by auto
    then show ?thesis
      using in_block um room pos
      by (intro exI [of _ "d2\<lparr>buf_num := -1\<rparr>"])
        (simp add: write_data_def Let_def mem_get_within seg_def dev_ok_forget)
  next
    case False
    let ?k = "?n - ?c" and ?w = "block_size d - off mod block_size d"
    have uw: "unat ?w = ?k" using um c_lt by (subst unat_sub_small) auto
    have kle: "?k \<le> unat sz" using False by simp
    have over: "\<not> off mod block_size d + sz \<le> block_size d"
      using False g um c_lt sz63 by (simp add: word_le_nat_alt unat_add_small)
    have us: "unat (sz - ?w) = unat sz - ?k" using kle uw by (subst unat_sub_small) auto
    have get: "mem_get 0 (unat ?w) data = take ?k data"
      using uw kle room by (simp add: mem_get_within seg_def)
    obtain d1 d2 where rd: "dev_read d ?b = (block_size d, d1)" and ne: "block_size d \<noteq> -1"
      and wr: "dev_write (d1\<lparr>buf_num := ?b, buf := mem_put ?c (take ?k data) (buf d1)\<rparr>) ?b
          = (block_size d, d2)"
      and ok2: "dev_ok d2"
      and core2: "core d2 = (core d)\<lparr>host_file := patch (unat off) (take ?k data) (host_file d)\<rparr>"
      using rmw_block [OF geom range, of ?c "take ?k data"] kle room c_lt pos by auto
    have h2: "host_file d2 = patch (unat off) (take ?k data) (host_file d)"
      using arg_cong [OF core2, of host_file] by simp
    have bs2: "block_size d2 = block_size d"
      using arg_cong [OF core2, of block_size] by simp
    have l2: "length (host_file d2) = length (host_file d)"
      using h2 kle room fits by simp
    have ub1: "unat (?b + 1) = unat ?b + 1"
    proof -
      have "unat ?b \<le> unat ?b * ?n" using g(5) by (cases ?n) auto
      then have "unat ?b < 2 ^ 63" using g(2) by (rule le_less_trans)
      then show ?thesis by (subst unat_add_small) auto
    qed
    have b1: "unat (?b + 1) * ?n = unat off + ?k"
      using pos c_lt unfolding ub1 by (simp add: algebra_simps)
    let ?q = "unat (sz - ?w) div ?n * ?n"
    have qle: "?q \<le> unat sz - ?k" using us by (metis div_times_less_eq_dividend)
    obtain d3 where wb: "write_blocks (block_size d) d2 (?b + 1) data ?k (sz - ?w)
          = (True, ?b + 1 + (sz - ?w) div block_size d, ?k + ?q, (sz - ?w) mod block_size d, d3)"
      and ok3: "dev_ok d3"
      and core3: "core d3 = (core d2)\<lparr>host_file := patch (unat off + ?k) (seg ?k ?q data) (host_file d2)\<rparr>"
      using write_blocks_ok [OF ok2, of "block_size d" "?b + 1" "sz - ?w" ?k data] bs2 b1 us kle fits room l2 g(4)
      by auto
    have h3: "host_file d3 = patch (unat off + ?k) (seg ?k ?q data) (host_file d2)"
      using arg_cong [OF core3, of host_file] by simp
    have h3': "host_file d3 = patch (unat off) (take (?k + ?q) data) (host_file d)"
      unfolding h3 h2 using kle room fits qle patch_append [of "unat off" "take ?k data" "seg ?k ?q data" "host_file d"]
      by (simp add: take_add seg_def)
    have l3: "length (host_file d3) = length (host_file d)"
      using h3' qle kle room fits by simp
    have bs3: "block_size d3 = block_size d"
      using arg_cong [OF core3, of block_size] bs2 by simp
    have core3': "core d3 = (core d)\<lparr>host_file := patch (unat off) (take (?k + ?q) data) (host_file d)\<rparr>"
      using core3 core2 h3 h3' by simp
    let ?r = "(sz - ?w) mod block_size d"
    have ur: "unat ?r = unat sz - ?k - ?q"
    proof -
      have "unat ?r = unat (sz - ?w) - ?q" by (simp only: unat_mod minus_div_mult_eq_mod)
      with us show ?thesis by (simp only:)
    qed
    let ?b3 = "?b + 1 + (sz - ?w) div block_size d"
    have head: "write_data d off data sz =
        (if ?r = 0 then (sz, d3)
         else (case dev_read (d3\<lparr>buf_num := ?b3\<rparr>) ?b3 of
              (r, d) \<Rightarrow>
                if r = -1 then (-1, SET_ERRNO EIO d)
                else
                (case dev_write (d\<lparr>buf := mem_put 0 (mem_get (?k + ?q) (unat ?r) data) (buf d)\<rparr>) ?b3 of
                   (r, d) \<Rightarrow>
                     if r = -1 then (-1, SET_ERRNO EIO d)
                     else (sz, d))))"
      unfolding write_data_def Let_def using rd ne wr wb over um uw get by simp
    show ?thesis
    proof (cases "?r = 0")
      case True
      then have "?k + ?q = unat sz" using ur kle qle by simp
      then show ?thesis using head True ok3 core3' by (intro exI [of _ d3]) simp
    next
      case False
      then have rpos: "0 < unat ?r" by (simp add: unat_gt_0)
      have kqr: "?k + ?q + unat ?r = unat sz" using ur kle qle by simp
      have q63: "unat (sz - ?w) div ?n \<le> unat sz" using us div_le_dividend [of "unat (sz - ?w)" ?n] by linarith
      have bb: "unat ?b + 1 \<le> length (host_file d)"
        using range g(5) by (cases ?n) (auto simp: algebra_simps)
      have ub3: "unat ?b3 = unat ?b + 1 + unat (sz - ?w) div ?n"
        using q63 bb g(4) sz63 ub1 by (subst unat_add_small) (auto simp: unat_div)
      have b3: "unat ?b3 * ?n = unat off + ?k + ?q"
        using b1 unfolding ub3 ub1 by (simp add: algebra_simps)
      have "unat ?b3 * ?n < length (host_file d)" using b3 kqr rpos fits by linarith
      then have range3: "Suc (unat ?b3) * ?n \<le> length (host_file d)"
        using block_in_range [of ?n "length (host_file d)" "unat ?b3 * ?n"] geom g(5)
        by (simp add: geom_ok_def)
      have geom3: "geom_ok (d3\<lparr>buf_num := ?b3\<rparr>)" using ok3 by (rule dev_ok_relabel)
      have r_lt: "unat ?r \<le> ?n" using g(5) by (simp add: unat_mod less_imp_le)
      let ?ys = "seg (?k + ?q) (unat ?r) data"
      have get3: "mem_get (?k + ?q) (unat ?r) data = ?ys"
        using kqr room by (simp add: mem_get_within)
      have lys: "length ?ys = unat ?r" using kqr room by simp
      obtain d4 d5 where rd3: "dev_read (d3\<lparr>buf_num := ?b3\<rparr>) ?b3 = (block_size d, d4)"
        and n4: "buf_num d4 = ?b3"
        and wr3: "dev_write (d4\<lparr>buf_num := ?b3, buf := mem_put 0 ?ys (buf d4)\<rparr>) ?b3 = (block_size d, d5)"
        and ok5: "dev_ok d5"
        and core5: "core d5 = (core d3)\<lparr>host_file := patch (unat ?b3 * ?n) ?ys (host_file d3)\<rparr>"
        using rmw_block [OF geom3, of ?b3 0 ?ys] range3 l3 bs3 lys r_lt by auto
      have "write_data d off data sz = (sz, d5)"
        using head False rd3 n4 wr3 ne get3 by simp
      moreover have "patch (unat ?b3 * ?n) ?ys (host_file d3)
          = patch (unat off) (take (unat sz) data) (host_file d)"
        unfolding h3' b3 using room fits kqr kle qle
          patch_append [of "unat off" "take (?k + ?q) data" ?ys "host_file d"]
        by (simp add: add.assoc take_add [symmetric] seg_def)
      ultimately show ?thesis
        using ok5 core5 core3' by (intro exI [of _ d5]) simp
    qed
  qed
qed

end
