(* ===== verification/EntryStore.thy ===== *)
theory EntryStore
  imports BlockIO
begin

text \<open>
  The index as its clients see it: \<open>read_entry\<close> and \<open>write_entry\<close> of io.c as an array of 64-byte
  slots. The locale states what the rest of the library relies on; the block device model
  implements it.
\<close>

section \<open>The interface\<close>

locale entry_store =
  fixes rd :: "'s \<Rightarrow> u64 \<Rightarrow> entry \<Rightarrow> u64 \<times> entry \<times> 's"
    and wr :: "'s \<Rightarrow> u64 \<Rightarrow> entry \<Rightarrow> u64 \<times> 's"
    and good :: "'s \<Rightarrow> bool"
    and valid :: "'s \<Rightarrow> u64 \<Rightarrow> bool"
    and slot :: "'s \<Rightarrow> u64 \<Rightarrow> entry"
    and frame :: "'s \<Rightarrow> 'f"
  assumes read_law: "good s \<Longrightarrow> valid s p \<Longrightarrow> length e = 64 \<Longrightarrow>
      \<exists>s'. rd s p e = (64, slot s p, s') \<and> good s' \<and> valid s' = valid s \<and> slot s' = slot s
         \<and> frame s' = frame s"
    and write_law: "good s \<Longrightarrow> valid s p \<Longrightarrow> length e = 64 \<Longrightarrow>
      \<exists>s'. wr s p e = (64, s') \<and> good s' \<and> valid s' = valid s \<and> slot s' = (slot s)(p := e)
         \<and> frame s' = frame s"
    and slot_length: "good s \<Longrightarrow> valid s p \<Longrightarrow> length (slot s p) = 64"
begin

lemma readE:
  assumes "good s" "valid s p" "length e = 64"
  obtains s' where "rd s p e = (64, slot s p, s')" "good s'" "valid s' = valid s" "slot s' = slot s"
    "frame s' = frame s"
  using read_law [OF assms] by blast

lemma writeE:
  assumes "good s" "valid s p" "length e = 64"
  obtains s' where "wr s p e = (64, s')" "good s'" "valid s' = valid s" "slot s' = (slot s)(p := e)"
    "frame s' = frame s"
  using write_law [OF assms] by blast

text \<open>What is written is what is read back, at the offset written and nowhere else.\<close>

lemma read_after_write:
  assumes "good s" "valid s p" "valid s q" "length e = 64" "length b = 64"
  shows "\<exists>s' s''. wr s p e = (64, s') \<and> rd s' q b = (64, (if q = p then e else slot s q), s'')"
proof -
  obtain s' where w: "wr s p e = (64, s')" "good s'" "valid s' = valid s" "slot s' = (slot s)(p := e)"
    using assms by (blast elim: writeE)
  moreover obtain s'' where "rd s' q b = (64, slot s' q, s'')"
    using w assms by (metis readE)
  ultimately show ?thesis by auto
qed

text \<open>The idiom of the library: read an entry, change it, write it back.\<close>

lemma read_modify_write:
  assumes "good s" "valid s p" "length e = 64" "length (f (slot s p)) = 64"
  shows "\<exists>s' s''. rd s p e = (64, slot s p, s') \<and> wr s' p (f (slot s p)) = (64, s'')
      \<and> good s'' \<and> valid s'' = valid s \<and> slot s'' = (slot s)(p := f (slot s p)) \<and> frame s'' = frame s"
proof -
  obtain s' where r: "rd s p e = (64, slot s p, s')" "good s'" "valid s' = valid s" "slot s' = slot s"
    "frame s' = frame s"
    using assms by (blast elim: readE)
  moreover obtain s'' where "wr s' p (f (slot s p)) = (64, s'')" "good s''" "valid s'' = valid s'"
    "slot s'' = (slot s')(p := f (slot s p))" "frame s'' = frame s'"
    using r assms by (metis writeE)
  ultimately show ?thesis by auto
qed

end

section \<open>Entries on the device\<close>

definition entry_dev_ok :: "'a blockdev_scheme \<Rightarrow> bool" where
  "entry_dev_ok d \<longleftrightarrow> dev_ok d \<and> 64 dvd unat (block_size d)"

definition slot_valid :: "'a blockdev_scheme \<Rightarrow> u64 \<Rightarrow> bool" where
  "slot_valid d p \<longleftrightarrow> 64 dvd unat p \<and> unat p + 64 \<le> length (host_file d)"

definition entry_at :: "'a blockdev_scheme \<Rightarrow> u64 \<Rightarrow> entry" where
  "entry_at d p = (if slot_valid d p then seg (unat p) 64 (host_file d) else [])"

text \<open>Everything but the contents of the image and the buffer.\<close>

definition rest :: "'a blockdev_scheme \<Rightarrow> 'a blockdev_scheme" where
  "rest d = (core d)\<lparr>host_file := []\<rparr>"

lemma aligned_fits:
  assumes "(64 :: nat) dvd n" and "64 dvd p" and "0 < n"
  shows "p mod n + 64 \<le> n"
proof -
  have "64 dvd p mod n" using assms by (simp add: dvd_mod_iff)
  moreover have "p mod n < n" using assms(3) by simp
  ultimately show ?thesis using assms(1) by (auto elim!: dvdE)
qed

lemma unat_mod_64: "p mod 64 = 0 \<longleftrightarrow> 64 dvd unat (p :: u64)"
  by (simp add: word_unat_eq_iff unat_mod dvd_eq_mod_eq_0)

lemma read_entry_ok:
  assumes "entry_dev_ok d" and "slot_valid d p" and "length e = 64"
  shows "read_entry d p e = (64, entry_at d p, load d (p div block_size d))"
proof -
  have "unat p mod unat (block_size d) + 64 \<le> unat (block_size d)"
    using assms by (intro aligned_fits) (auto simp: entry_dev_ok_def slot_valid_def dev_ok_def geom_ok_def)
  then have "read_data d p e 64 = (64, patch 0 (seg (unat p) 64 (host_file d)) e, load d (p div block_size d))"
    using read_data_within_block [of d p 64 e] assms
    by (simp add: entry_dev_ok_def slot_valid_def)
  moreover have "length (seg (unat p) 64 (host_file d)) = 64"
    using assms(2) by (simp add: slot_valid_def)
  ultimately show ?thesis
    using assms by (simp add: read_entry_def unat_mod_64 slot_valid_def entry_at_def patch_all)
qed

lemma load_entry:
  assumes "entry_dev_ok d" and "slot_valid d p"
  shows "entry_dev_ok (load d (p div block_size d))"
proof -
  have "Suc (unat (p div block_size d)) * unat (block_size d) \<le> length (host_file d)"
    using assms block_in_range [of "unat (block_size d)" "length (host_file d)" "unat p"]
    by (simp add: unat_div entry_dev_ok_def slot_valid_def dev_ok_def geom_ok_def)
  then show ?thesis
    using assms dev_ok_load(1) [of d "p div block_size d"] core_eqD(9) [OF core_load [of d "p div block_size d"]]
    by (simp add: entry_dev_ok_def)
qed

lemma entry_at_cong: "core d = core d' \<Longrightarrow> entry_at d = entry_at d'"
  using core_eqD(1) [of d d'] by (simp add: entry_at_def slot_valid_def fun_eq_iff)

lemma slot_valid_cong: "core d = core d' \<Longrightarrow> slot_valid d = slot_valid d'"
  using core_eqD(1) [of d d'] by (simp add: slot_valid_def fun_eq_iff)

lemma write_entry_ok:
  assumes "entry_dev_ok d" and "slot_valid d p" and "length e = 64"
  shows "\<exists>d'. write_entry d p e = (64, d') \<and> entry_dev_ok d'
      \<and> core d' = (core d)\<lparr>host_file := patch (unat p) e (host_file d)\<rparr>"
proof -
  obtain d' where d': "write_data d p e 64 = (64, d')" "dev_ok d'"
    "core d' = (core d)\<lparr>host_file := patch (unat p) (take 64 e) (host_file d)\<rparr>"
    using write_data_ok [of d p 64 e] assms by (auto simp: entry_dev_ok_def slot_valid_def)
  moreover have "block_size d' = block_size d" using arg_cong [OF d'(3), of block_size] by simp
  ultimately show ?thesis
    using assms by (simp add: write_entry_def unat_mod_64 slot_valid_def entry_dev_ok_def)
qed

text \<open>After an entry is written the buffer stands for no block.\<close>

lemma write_entry_flushes:
  assumes "entry_dev_ok d" and "slot_valid d p" and "write_entry d p e = (64, d')"
  shows "buf_num d' = -1"
proof -
  let ?n = "unat (block_size d)"
  have c: "unat p mod ?n + 64 \<le> ?n"
    using assms by (intro aligned_fits) (auto simp: entry_dev_ok_def slot_valid_def dev_ok_def geom_ok_def)
  have "?n < 2 ^ 64" using unsigned_less [of "block_size d", where ?'a = nat] by simp
  then have "p mod block_size d + 64 \<le> block_size d"
    using c by (simp add: word_le_nat_alt unat_mod unat_add_small)
  then show ?thesis
    using assms(2,3) by (auto simp: write_entry_def unat_mod_64 slot_valid_def write_data_def Let_def split: prod.splits if_splits)
qed

lemma entry_at_patch:
  assumes "slot_valid d p" and "length e = 64"
    and "host_file d' = patch (unat p) e (host_file d)"
  shows "entry_at d' = (entry_at d)(p := e)" and "slot_valid d' = slot_valid d"
proof -
  have len: "length (host_file d') = length (host_file d)" using assms by (simp add: slot_valid_def)
  then show v: "slot_valid d' = slot_valid d" by (simp add: slot_valid_def fun_eq_iff)
  show "entry_at d' = (entry_at d)(p := e)"
  proof
    fix q
    have apart: "unat q + 64 \<le> unat p \<or> unat p + 64 \<le> unat q" if "slot_valid d q" "q \<noteq> p"
    proof -
      have "unat q \<noteq> unat p" using that(2) by (simp add: word_unat_eq_iff)
      then show ?thesis using that(1) assms(1) by (auto simp: slot_valid_def elim!: dvdE)
    qed
    show "entry_at d' q = ((entry_at d)(p := e)) q"
      using assms v apart seg_patch_same [of "unat p" e "host_file d"]
      by (auto simp: entry_at_def slot_valid_def seg_patch_other)
  qed
qed

interpretation index: entry_store read_entry write_entry entry_dev_ok slot_valid entry_at rest
proof (unfold_locales, goal_cases)
  case (1 s p e)
  then show ?case
    using read_entry_ok [of s p e] load_entry [of s p]
      entry_at_cong [OF core_load [of s "p div block_size s"]]
      slot_valid_cong [OF core_load [of s "p div block_size s"]]
    by (intro exI [of _ "load s (p div block_size s)"]) (simp add: rest_def)
next
  case (2 s p e)
  then obtain d' where d': "write_entry s p e = (64, d')" "entry_dev_ok d'"
    "core d' = (core s)\<lparr>host_file := patch (unat p) e (host_file s)\<rparr>"
    using write_entry_ok by blast
  moreover have "host_file d' = patch (unat p) e (host_file s)"
    using arg_cong [OF d'(3), of host_file] by simp
  ultimately show ?case
    using entry_at_patch [of s p e d'] 2 by (simp add: rest_def)
next
  case (3 s p)
  then show ?case by (simp add: entry_at_def slot_valid_def)
qed

end
