(* ===== verification/IndexScan.thy ===== *)
theory IndexScan
  imports EntryStore
begin

text \<open>
  src/include/sfs/unit.h and src/lib/sfs/callback.c: the state of a mounted file system, and the
  walk over the index area that calls a callback on every entry. The locales state what a
  callback may do and what the walk then computes.
\<close>

section \<open>The mounted file system\<close>

text \<open>\<open>sfs_unit\<close> holds a pointer to its block device; the model extends the device's record.\<close>

record sfs_unit = blockdev +
  fs_time :: u64
  entry_start :: u64
  del_begin :: u64
  vol_ident :: u64

type_synonym fs = sfs_unit

definition update :: "fs \<Rightarrow> fs" where
  "update fs = (case get_time fs of (t, fs) \<Rightarrow> fs\<lparr>fs_time := t\<rparr>)"

definition fs_sync :: "fs \<Rightarrow> int \<times> fs" where
  "fs_sync fs = filedev_sync fs"

section \<open>The walk over the index\<close>

text \<open>A callback gets the state, the entry buffer, the offset of the entry and its own data, and
  returns its result with all three that it may change. \<open>start += INDEX_ENTRY_SIZE\<close> is an
  addition on \<open>off_t\<close>: where it would wrap, the walk ends.\<close>

type_synonym 'd callback = "fs \<Rightarrow> entry \<Rightarrow> u64 \<Rightarrow> 'd \<Rightarrow> int \<times> entry \<times> fs \<times> 'd"

function parse_from :: "'d callback \<Rightarrow> u64 \<Rightarrow> u64 \<Rightarrow> fs \<Rightarrow> entry \<Rightarrow> 'd \<Rightarrow> u64 \<times> entry \<times> fs \<times> 'd" where
  "parse_from callback start endp fs entr data =
     (if start = endp then (0, entr, fs, data)
      else
        (case read_entry fs start entr of
           (r, entr, fs) \<Rightarrow>
             if r = -1 then (0, entr, SET_ERRNO EIO fs, data)
             else
               (case callback fs entr start data of
                  (c, entr, fs, data) \<Rightarrow>
                    if c \<noteq> 0 then (start, entr, fs, data)
                    else if start + INDEX_ENTRY_SIZE < start then (0, entr, fs, data)
                    else parse_from callback (start + INDEX_ENTRY_SIZE) endp fs entr data)))"
  by pat_completeness auto

lemma unat_step_less:
  assumes "\<not> (p :: u64) + 64 < p"
  shows "unat (p + 64) = unat p + 64"
proof (cases "unat p + 64 < 2 ^ 64")
  case True
  then show ?thesis by (subst unat_add_small) auto
next
  case False
  have "unat p < 2 ^ 64" using unsigned_less [of p, where ?'a = nat] by simp
  moreover from this False have "unat (p + 64) = unat p + 64 - 2 ^ 64"
    by (simp add: unat_word_ariths mod_if)
  ultimately show ?thesis using assms False by (simp add: word_less_nat_alt)
qed

lemma unat_step_measure: "\<not> (p :: u64) + 64 < p \<Longrightarrow> 2 ^ 64 - unat (p + 64) < 2 ^ 64 - unat p"
  using unat_step_less [of p] unsigned_less [of "p + 64", where ?'a = nat] by simp

termination parse_from
  by (relation "measure (\<lambda>(callback, start, endp, fs, entr, data). 2 ^ 64 - unat start)")
    (auto dest: unat_step_measure)

declare parse_from.simps [simp del]

definition entry_parse :: "fs \<Rightarrow> entry \<Rightarrow> 'd callback \<Rightarrow> 'd \<Rightarrow> u64 \<times> entry \<times> fs \<times> 'd" where
  "entry_parse fs entr callback data =
     parse_from callback (entry_start fs) (vol_ident fs) fs entr data"

section \<open>The index area\<close>

definition index_size :: "fs \<Rightarrow> nat" where
  "index_size fs = (unat (vol_ident fs) - unat (entry_start fs)) div 64"

definition index_off :: "fs \<Rightarrow> nat \<Rightarrow> u64" where
  "index_off fs i = entry_start fs + 64 * word_of_nat i"

definition index_offs :: "fs \<Rightarrow> u64 list" where
  "index_offs fs = map (index_off fs) [0..<index_size fs]"

text \<open>A mounted volume: a device in order, and an index area of whole entries, away from
  offset 0, that ends with the volume identifier inside the image.\<close>

definition fs_ok :: "fs \<Rightarrow> bool" where
  "fs_ok fs \<longleftrightarrow> entry_dev_ok fs \<and> 64 dvd unat (entry_start fs) \<and> 64 dvd unat (vol_ident fs)
     \<and> 0 < unat (entry_start fs) \<and> unat (entry_start fs) \<le> unat (vol_ident fs)
     \<and> unat (vol_ident fs) + 64 \<le> length (host_file fs)"

text \<open>Two states that differ only in the buffer and the bookkeeping of host calls.\<close>

definition same_vol :: "fs \<Rightarrow> fs \<Rightarrow> bool" where
  "same_vol fs fs' \<longleftrightarrow> core fs = core fs'"

lemma same_vol_refl [simp]: "same_vol fs fs" by (simp add: same_vol_def)

lemma same_vol_sym: "same_vol fs fs' \<Longrightarrow> same_vol fs' fs" by (simp add: same_vol_def)

lemma same_vol_trans [trans]: "same_vol a b \<Longrightarrow> same_vol b c \<Longrightarrow> same_vol a c"
  by (simp add: same_vol_def)

lemma core_unit_sel [simp]:
  "fs_time (core fs) = fs_time fs" "entry_start (core fs) = entry_start fs"
  "del_begin (core fs) = del_begin fs" "vol_ident (core fs) = vol_ident fs"
  by (simp_all add: core_def)

lemma same_vol_sel:
  assumes "same_vol fs fs'"
  shows "entry_start fs' = entry_start fs" "vol_ident fs' = vol_ident fs" "del_begin fs' = del_begin fs"
    "fs_time fs' = fs_time fs" "block_size fs' = block_size fs" "host_file fs' = host_file fs"
    "sfs_errno fs' = sfs_errno fs" "ticks fs' = ticks fs" "clock fs' = clock fs"
  using assms core_eqD [of fs fs'] core_unit_sel [of fs] core_unit_sel [of fs']
  by (auto simp: same_vol_def)

lemma same_vol_cong:
  assumes "same_vol fs fs'"
  shows "entry_at fs' = entry_at fs" "slot_valid fs' = slot_valid fs"
    "index_size fs' = index_size fs" "index_off fs' = index_off fs" "index_offs fs' = index_offs fs"
  using assms same_vol_sel [OF assms] entry_at_cong [of fs fs'] slot_valid_cong [of fs fs']
  by (auto simp: same_vol_def index_size_def index_off_def index_offs_def fun_eq_iff)

lemma fs_ok_same_vol: "fs_ok fs \<Longrightarrow> same_vol fs fs' \<Longrightarrow> entry_dev_ok fs' \<Longrightarrow> fs_ok fs'"
  using same_vol_sel [of fs fs'] by (simp add: fs_ok_def)

lemma fs_ok_dev: "fs_ok fs \<Longrightarrow> entry_dev_ok fs" by (simp add: fs_ok_def)

lemma index_bounds:
  assumes "fs_ok fs"
  shows "unat (entry_start fs) + 64 * index_size fs = unat (vol_ident fs)"
    and "unat (vol_ident fs) < 2 ^ 63"
proof -
  have "64 dvd unat (vol_ident fs) - unat (entry_start fs)"
    using assms by (intro dvd_diff_nat) (simp_all add: fs_ok_def)
  then have "64 * index_size fs = unat (vol_ident fs) - unat (entry_start fs)"
    unfolding index_size_def by (rule dvd_mult_div_cancel)
  moreover have "unat (entry_start fs) \<le> unat (vol_ident fs)"
    using assms unfolding fs_ok_def by blast
  ultimately show "unat (entry_start fs) + 64 * index_size fs = unat (vol_ident fs)"
    by linarith
  have "length (host_file fs) < 2 ^ 63"
    using assms unfolding fs_ok_def entry_dev_ok_def dev_ok_def geom_ok_def by blast
  moreover have "unat (vol_ident fs) + 64 \<le> length (host_file fs)"
    using assms unfolding fs_ok_def by blast
  ultimately show "unat (vol_ident fs) < 2 ^ 63" by linarith
qed

lemma unat_index_off:
  assumes "fs_ok fs" and "i \<le> index_size fs"
  shows "unat (index_off fs i) = unat (entry_start fs) + 64 * i"
proof -
  note b = index_bounds [OF assms(1)]
  have "unat (64 * word_of_nat i :: u64) = 64 * i"
    using b assms(2) by (subst unat_mult_small) (simp_all add: unat_of_nat)
  then show ?thesis
    unfolding index_off_def using b assms(2) by (subst unat_add_small) auto
qed

lemma index_off_inj:
  "fs_ok fs \<Longrightarrow> i \<le> index_size fs \<Longrightarrow> j \<le> index_size fs \<Longrightarrow> index_off fs i = index_off fs j \<longleftrightarrow> i = j"
  using unat_index_off [of fs i] unat_index_off [of fs j] by (auto simp: word_unat_eq_iff)

lemma index_off_0: "index_off fs 0 = entry_start fs"
  by (simp add: index_off_def)

lemma index_off_Suc: "index_off fs (Suc i) = index_off fs i + 64"
  by (simp add: index_off_def algebra_simps)

lemma index_off_end: "fs_ok fs \<Longrightarrow> index_off fs (index_size fs) = vol_ident fs"
  using unat_index_off [of fs "index_size fs"] index_bounds [of fs] by (simp add: word_unat_eq_iff)

lemma index_off_nonzero: "fs_ok fs \<Longrightarrow> i \<le> index_size fs \<Longrightarrow> index_off fs i \<noteq> 0"
  using unat_index_off [of fs i] by (auto simp: fs_ok_def)

lemma index_off_valid:
  assumes "fs_ok fs" and "i \<le> index_size fs"
  shows "slot_valid fs (index_off fs i)"
  using assms unat_index_off [OF assms] index_bounds [OF assms(1)]
  by (auto simp: slot_valid_def fs_ok_def intro: dvd_add)

lemma length_entry_at: "slot_valid fs p \<Longrightarrow> length (entry_at fs p) = 64"
  by (simp add: entry_at_def slot_valid_def)

lemma read_entry_fs:
  assumes "fs_ok fs" and "slot_valid fs p" and "length e = 64"
  obtains fs' where "read_entry fs p e = (64, entry_at fs p, fs')" "fs_ok fs'" "same_vol fs fs'"
proof -
  let ?l = "load fs (p div block_size fs)"
  have dev: "entry_dev_ok fs" using assms(1) by (rule fs_ok_dev)
  have sv: "same_vol fs ?l" unfolding same_vol_def by (rule core_load [symmetric])
  have "entry_dev_ok ?l" by (rule load_entry [OF dev assms(2)])
  with sv have ok: "fs_ok ?l" by (rule fs_ok_same_vol [OF assms(1)])
  show ?thesis by (rule that [OF read_entry_ok [OF dev assms(2,3)] ok sv])
qed

text \<open>\<open>vol_upd fs at fs'\<close>: \<open>fs'\<close> is a volume with the entries \<open>at\<close>, and everything else as in \<open>fs\<close>
  (the error variable and the other blocks included; the buffer and the count of host calls
  may differ).\<close>

definition vol_upd :: "fs \<Rightarrow> (u64 \<Rightarrow> entry) \<Rightarrow> fs \<Rightarrow> bool" where
  "vol_upd fs at fs' \<longleftrightarrow> entry_at fs' = at \<and> slot_valid fs' = slot_valid fs \<and> rest fs' = rest fs"

lemma rest_sel [simp]:
  "entry_start (rest fs) = entry_start fs" "vol_ident (rest fs) = vol_ident fs"
  "del_begin (rest fs) = del_begin fs" "fs_time (rest fs) = fs_time fs"
  "block_size (rest fs) = block_size fs" "sfs_errno (rest fs) = sfs_errno fs"
  "ticks (rest fs) = ticks fs" "clock (rest fs) = clock fs"
  by (simp_all add: rest_def)

lemma vol_upd_sel:
  assumes "vol_upd fs at fs'"
  shows "entry_at fs' = at" "slot_valid fs' = slot_valid fs"
    "entry_start fs' = entry_start fs" "vol_ident fs' = vol_ident fs" "del_begin fs' = del_begin fs"
    "fs_time fs' = fs_time fs" "block_size fs' = block_size fs" "sfs_errno fs' = sfs_errno fs"
    "ticks fs' = ticks fs" "clock fs' = clock fs"
    "index_size fs' = index_size fs" "index_off fs' = index_off fs" "index_offs fs' = index_offs fs"
proof -
  have r: "rest fs' = rest fs" using assms by (simp add: vol_upd_def)
  show "entry_at fs' = at" "slot_valid fs' = slot_valid fs" using assms by (simp_all add: vol_upd_def)
  show s: "entry_start fs' = entry_start fs" "vol_ident fs' = vol_ident fs"
    "del_begin fs' = del_begin fs" "fs_time fs' = fs_time fs" "block_size fs' = block_size fs"
    "sfs_errno fs' = sfs_errno fs" "ticks fs' = ticks fs" "clock fs' = clock fs"
    using arg_cong [OF r, of entry_start] arg_cong [OF r, of vol_ident] arg_cong [OF r, of del_begin]
      arg_cong [OF r, of fs_time] arg_cong [OF r, of block_size] arg_cong [OF r, of sfs_errno]
      arg_cong [OF r, of ticks] arg_cong [OF r, of clock]
    by simp_all
  show "index_size fs' = index_size fs" "index_off fs' = index_off fs" "index_offs fs' = index_offs fs"
    using s by (simp_all add: index_size_def index_off_def index_offs_def fun_eq_iff)
qed

lemma same_vol_rest: "same_vol fs fs' \<Longrightarrow> rest fs' = rest fs"
  by (simp add: same_vol_def rest_def)

lemma vol_upd_id: "same_vol fs fs' \<Longrightarrow> vol_upd fs (entry_at fs) fs'"
  using same_vol_cong [of fs fs'] by (simp add: vol_upd_def same_vol_rest)

lemma vol_upd_same: "same_vol fs fs1 \<Longrightarrow> vol_upd fs1 at fs' \<Longrightarrow> vol_upd fs at fs'"
  using same_vol_cong [of fs fs1] by (simp add: vol_upd_def same_vol_rest)

lemma vol_upd_same_right: "vol_upd fs at fs1 \<Longrightarrow> same_vol fs1 fs' \<Longrightarrow> vol_upd fs at fs'"
  using same_vol_cong [of fs1 fs'] by (simp add: vol_upd_def same_vol_rest)

lemma vol_upd_trans: "vol_upd fs at fs1 \<Longrightarrow> vol_upd fs1 at' fs' \<Longrightarrow> vol_upd fs at' fs'"
  by (simp add: vol_upd_def)

lemma write_entry_fs:
  assumes ok: "fs_ok fs" and valid: "slot_valid fs p" and len: "length e = 64"
  obtains fs' where "write_entry fs p e = (64, fs')" "fs_ok fs'" "vol_upd fs ((entry_at fs)(p := e)) fs'"
proof -
  obtain fs' where w: "write_entry fs p e = (64, fs')" "entry_dev_ok fs'"
    "core fs' = (core fs)\<lparr>host_file := patch (unat p) e (host_file fs)\<rparr>"
    using write_entry_ok [OF fs_ok_dev [OF ok] valid len] by blast
  have hf: "host_file fs' = patch (unat p) e (host_file fs)"
    using arg_cong [OF w(3), of host_file] by simp
  have r: "rest fs' = rest fs" using w(3) by (simp add: rest_def)
  have up: "vol_upd fs ((entry_at fs)(p := e)) fs'"
    unfolding vol_upd_def using entry_at_patch [OF valid len hf] r by simp
  have "length (host_file fs') = length (host_file fs)"
    using hf valid len by (simp add: slot_valid_def)
  then have "fs_ok fs'" using ok w(2) vol_upd_sel [OF up] by (simp add: fs_ok_def)
  with w(1) up show ?thesis by (intro that) auto
qed

section \<open>What a walk computes\<close>

text \<open>The specification of a walk: a fold over the offsets that stops at the first hit.\<close>

primrec scan :: "('o \<Rightarrow> 'd \<Rightarrow> bool \<times> 'd) \<Rightarrow> 'o list \<Rightarrow> 'd \<Rightarrow> 'o option \<times> 'd" where
  "scan st [] d = (None, d)"
| "scan st (p # ps) d = (case st p d of (hit, d') \<Rightarrow> if hit then (Some p, d') else scan st ps d')"

lemma scan_find: "scan (\<lambda>p d. (P p, d)) ps d = (List.find P ps, d)"
  by (induction ps) auto

lemma scan_fold: "scan (\<lambda>p d. (False, f p d)) ps d = (None, fold f ps d)"
  by (induction ps arbitrary: d) auto

lemma scan_hit_in: "scan st ps d = (Some p, d') \<Longrightarrow> p \<in> set ps"
  by (induction ps arbitrary: d) (auto split: prod.splits if_splits)

definition found :: "u64 option \<Rightarrow> u64" where
  "found r = (case r of None \<Rightarrow> 0 | Some p \<Rightarrow> p)"

lemma found_simps [simp]: "found None = 0" "found (Some p) = p"
  by (simp_all add: found_def)

text \<open>The contract of a callback: it leaves the volume as it is, decides by the entries alone,
  and on a hit leaves the entry it was called on in the buffer. \<open>pre\<close> is what it relies on.\<close>

locale scan_callback =
  fixes cb :: "'d callback"
    and st :: "(u64 \<Rightarrow> entry) \<Rightarrow> u64 \<Rightarrow> 'd \<Rightarrow> bool \<times> 'd"
    and pre :: "fs \<Rightarrow> 'd \<Rightarrow> bool"
  assumes callback_law: "fs_ok fs \<Longrightarrow> i < index_size fs \<Longrightarrow> pre fs d \<Longrightarrow> p = index_off fs i \<Longrightarrow>
      \<exists>c e' fs' d'. cb fs (entry_at fs p) p d = (c, e', fs', d') \<and> st (entry_at fs) p d = (c \<noteq> 0, d')
        \<and> (c \<noteq> 0 \<longrightarrow> e' = entry_at fs p) \<and> length e' = 64 \<and> fs_ok fs' \<and> same_vol fs fs' \<and> pre fs d'"
    and pre_vol: "same_vol fs fs' \<Longrightarrow> pre fs d \<Longrightarrow> pre fs' d"
begin

lemma parse_from_scan:
  assumes "fs_ok fs" and "i \<le> index_size fs" and "pre fs d" and "length e = 64"
  shows "\<exists>r e' fs' d'. parse_from cb (index_off fs i) (vol_ident fs) fs e d = (found r, e', fs', d')
      \<and> scan (st (entry_at fs)) (map (index_off fs) [i..<index_size fs]) d = (r, d')
      \<and> (r \<noteq> None \<longrightarrow> e' = entry_at fs (found r))
      \<and> length e' = 64 \<and> fs_ok fs' \<and> same_vol fs fs'"
  using assms
proof (induction "index_size fs - i" arbitrary: i fs e d)
  case 0
  then have "i = index_size fs" by simp
  with 0 show ?case
    by (subst parse_from.simps) (simp add: index_off_end)
next
  case (Suc k)
  then have lt: "i < index_size fs" by simp
  let ?p = "index_off fs i"
  have valid: "slot_valid fs ?p" using Suc.prems by (simp add: index_off_valid)
  have not_end: "?p \<noteq> vol_ident fs"
    using index_off_inj [of fs i "index_size fs"] index_off_end [of fs] Suc.prems(1) lt by simp
  obtain fs1 where rd: "read_entry fs ?p e = (64, entry_at fs ?p, fs1)" and ok1: "fs_ok fs1"
    and sv1: "same_vol fs fs1"
    by (rule read_entry_fs [OF Suc.prems(1) valid Suc.prems(4)])
  note sv1c = same_vol_cong [OF sv1] same_vol_sel [OF sv1]
  obtain c e2 fs2 d2 where cb: "cb fs1 (entry_at fs ?p) ?p d = (c, e2, fs2, d2)"
    and st: "st (entry_at fs) ?p d = (c \<noteq> 0, d2)" and hit: "c \<noteq> 0 \<longrightarrow> e2 = entry_at fs ?p"
    and len: "length e2 = 64" and ok2: "fs_ok fs2" and sv: "same_vol fs1 fs2" and pre2: "pre fs1 d2"
    using callback_law [OF ok1, of i d ?p] lt pre_vol [OF sv1 Suc.prems(3)] by (auto simp: sv1c)
  have sv2: "same_vol fs fs2" using sv1 sv by (rule same_vol_trans)
  note sv2c = same_vol_cong [OF sv2] same_vol_sel [OF sv2]
  have split: "map (index_off fs) [i..<index_size fs]
      = ?p # map (index_off fs) [Suc i..<index_size fs]"
    using lt by (simp add: upt_conv_Cons)
  show ?case
  proof (cases "c = 0")
    case False
    then show ?thesis
      using not_end rd cb st hit len ok2 sv2 unfolding split
      by (subst parse_from.simps) simp
  next
    case True
    have up: "\<not> ?p + 64 < ?p"
      using unat_index_off [of fs i] unat_index_off [of fs "Suc i"] Suc.prems(1) lt
      by (simp add: word_less_nat_alt index_off_Suc)
    have step: "parse_from cb ?p (vol_ident fs) fs e d
        = parse_from cb (index_off fs2 (Suc i)) (vol_ident fs2) fs2 e2 d2"
      using not_end rd cb True up by (subst parse_from.simps) (simp add: sv2c index_off_Suc)
    have "k = index_size fs2 - Suc i" "Suc i \<le> index_size fs2"
      using Suc.hyps(2) lt by (simp_all add: sv2c)
    moreover have "pre fs2 d2" using sv pre2 by (rule pre_vol)
    ultimately obtain r e' fs' d' where
      "parse_from cb (index_off fs2 (Suc i)) (vol_ident fs2) fs2 e2 d2 = (found r, e', fs', d')"
      "scan (st (entry_at fs2)) (map (index_off fs2) [Suc i..<index_size fs2]) d2 = (r, d')"
      "r \<noteq> None \<longrightarrow> e' = entry_at fs2 (found r)" "length e' = 64" "fs_ok fs'" "same_vol fs2 fs'"
      using Suc.hyps(1) [of fs2 "Suc i" d2 e2] ok2 len by blast
    then show ?thesis
      using step st True same_vol_trans [OF sv2] unfolding split
      by (simp add: sv2c)
  qed
qed

theorem entry_parse_scan:
  assumes "fs_ok fs" and "pre fs d" and "length e = 64"
  obtains r e' fs' d' where "entry_parse fs e cb d = (found r, e', fs', d')"
    "scan (st (entry_at fs)) (index_offs fs) d = (r, d')"
    "r \<noteq> None \<Longrightarrow> e' = entry_at fs (found r)" "length e' = 64" "fs_ok fs'" "same_vol fs fs'"
  using parse_from_scan [of fs 0 d e] assms
  unfolding entry_parse_def index_offs_def by (auto simp: index_off_0)

end

text \<open>A callback that touches neither the device nor the buffer.\<close>

locale pure_callback =
  fixes cb :: "'d callback" and step :: "u64 \<Rightarrow> entry \<Rightarrow> 'd \<Rightarrow> bool \<times> 'd"
  assumes pure_law: "\<exists>c d'. cb fs e p d = (c, e, fs, d') \<and> step p e d = (c \<noteq> 0, d')"

sublocale pure_callback \<subseteq> scan_callback cb "\<lambda>at p. step p (at p)" "\<lambda>fs d. True"
proof (unfold_locales, goal_cases)
  case (1 fs i d p)
  then show ?case
    using pure_law [of fs "entry_at fs p" p d] index_off_valid [of fs i]
    by (auto simp: length_entry_at)
qed simp

end
