(* ===== verification/Alloc.thy ===== *)
theory Alloc
  imports IndexScan
begin

text \<open>
  src/lib/sfs/alloc.c: finding a run of unused index entries, and giving entries back.
\<close>

section \<open>The routines\<close>

record pair =
  START :: int
  CUR :: int

definition search_free_entry :: "pair callback" where
  "search_free_entry fs entr entry_off count =
     (if entry_type entr \<noteq> entry_code UNUSED_ENTRY then
        (0, entr, fs, if CUR count \<noteq> START count then count\<lparr>CUR := START count\<rparr> else count)
      else
        let count = count\<lparr>CUR := CUR count - 1\<rparr> in
        if CUR count = 0 then (START count, entr, fs, count)
        else (0, entr, fs, count))"

definition search_del_space :: "u64 callback" where
  "search_del_space fs entr entry_off bsize =
     (if entry_type entr \<noteq> entry_code DEL_FILE_ENTRY then (0, entr, fs, bsize)
      else if end_block entr - start_block entr + 1 \<ge> bsize then (1, entr, fs, bsize)
      else (0, entr, fs, bsize))"

definition alloc_entry :: "fs \<Rightarrow> entry \<Rightarrow> int \<Rightarrow> u64 \<times> entry \<times> fs" where
  "alloc_entry fs entr n =
     (if n \<le> 0 then (0, entr, fs)
      else
        (case entry_parse fs entr search_free_entry \<lparr>START = n, CUR = n\<rparr> of
           (ret, entr, fs, p) \<Rightarrow>
             if ret = 0 then (0, entr, fs)
             else (ret - word_of_int (INDEX_ENTRY_SIZE * (n - 1)), entr, fs)))"

definition free_one_entry :: "fs \<Rightarrow> entry \<Rightarrow> u64 \<Rightarrow> int \<times> entry \<times> fs" where
  "free_one_entry fs entr entr_off =
     (case read_entry fs entr_off entr of
        (r, entr, fs) \<Rightarrow>
          if r = -1 then (-1, entr, fs)
          else let entr = set_entry_type (entry_code UNUSED_ENTRY) entr in
            (case write_entry fs entr_off entr of (_, fs) \<Rightarrow> (0, entr, fs)))"

primrec free_entries :: "nat \<Rightarrow> fs \<Rightarrow> entry \<Rightarrow> u64 \<Rightarrow> int \<times> entry \<times> fs" where
  "free_entries 0 fs entr entr_off = (0, entr, fs)"
| "free_entries (Suc k) fs entr entr_off =
     (case free_one_entry fs entr entr_off of
        (r, entr, fs) \<Rightarrow>
          if r = -1 then (-1, entr, fs)
          else free_entries k fs entr (entr_off + INDEX_ENTRY_SIZE))"

definition free_entry :: "fs \<Rightarrow> entry \<Rightarrow> u64 \<Rightarrow> int \<Rightarrow> int \<times> entry \<times> fs" where
  "free_entry fs entr entr_off n = free_entries (nat n) fs entr entr_off"

definition alloc_space :: "fs \<Rightarrow> u64 \<Rightarrow> entry \<Rightarrow> u64 \<times> entry \<times> fs" where
  "alloc_space fs sz entr =
     (let bs = block_size fs;
          bsize = sz div bs + (if sz mod bs \<noteq> 0 then 1 else 0)
      in (case entry_parse fs entr search_del_space bsize of (ret, entr, fs, _) \<Rightarrow> (ret, entr, fs)))"

section \<open>Finding a run of unused entries\<close>

definition unused :: "fs \<Rightarrow> nat \<Rightarrow> bool" where
  "unused fs i \<longleftrightarrow> i < index_size fs \<and> entry_type (entry_at fs (index_off fs i)) = entry_code UNUSED_ENTRY"

definition free_run :: "fs \<Rightarrow> nat \<Rightarrow> nat \<Rightarrow> bool" where
  "free_run fs i n \<longleftrightarrow> (\<forall>j<n. unused fs (i + j))"

definition free_step :: "u64 \<Rightarrow> entry \<Rightarrow> pair \<Rightarrow> bool \<times> pair" where
  "free_step p e count =
     (if entry_type e \<noteq> entry_code UNUSED_ENTRY then (False, count\<lparr>CUR := START count\<rparr>)
      else (CUR count = 1 \<and> START count \<noteq> 0, count\<lparr>CUR := CUR count - 1\<rparr>))"

interpretation free_scan: pure_callback search_free_entry free_step
  by unfold_locales (auto simp: search_free_entry_def free_step_def Let_def)

interpretation del_space_scan: pure_callback search_del_space
  "\<lambda>p e bsize. (entry_type e = entry_code DEL_FILE_ENTRY \<and> end_block e - start_block e + 1 \<ge> bsize, bsize)"
  by unfold_locales (auto simp: search_del_space_def)

text \<open>\<open>run_end u n k\<close>: the last \<open>n\<close> positions up to \<open>k\<close> all satisfy \<open>u\<close>. The counter of the scan
  is \<open>n\<close> less the length of the run that ends just before the current position.\<close>

definition run_end :: "(nat \<Rightarrow> bool) \<Rightarrow> nat \<Rightarrow> nat \<Rightarrow> bool" where
  "run_end u n k \<longleftrightarrow> n \<le> Suc k \<and> (\<forall>j<n. u (k - j))"

lemma scan_runs:
  assumes "0 < n" and "r < n" and "r \<le> i" and "\<forall>j<r. u (i - 1 - j)" and "r < i \<longrightarrow> \<not> u (i - 1 - r)"
    and "\<forall>k. i \<le> k \<longrightarrow> k < N \<longrightarrow> (entry_type (at (off k)) = entry_code UNUSED_ENTRY \<longleftrightarrow> u k)"
  shows "fst (scan (\<lambda>p. free_step p (at p)) (map off [i..<N]) \<lparr>START = int n, CUR = int (n - r)\<rparr>)
       = map_option off (List.find (run_end u n) [i..<N])"
  using assms
proof (induction "N - i" arbitrary: i r)
  case 0
  then show ?case by simp
next
  case (Suc m)
  then have lt: "i < N" by simp
  have unused_i: "entry_type (at (off i)) = entry_code UNUSED_ENTRY \<longleftrightarrow> u i" using Suc.prems(6) lt by simp
  have split: "[i..<N] = i # [Suc i..<N]" using lt by (rule upt_conv_Cons)
  have mm: "m = N - Suc i" using Suc.hyps(2) by simp
  show ?case
  proof (cases "u i")
    case False
    have "\<not> run_end u n i" using False Suc.prems(1) by (auto simp: run_end_def)
    moreover have "fst (scan (\<lambda>p. free_step p (at p)) (map off [Suc i..<N]) \<lparr>START = int n, CUR = int (n - 0)\<rparr>)
       = map_option off (List.find (run_end u n) [Suc i..<N])"
      using Suc.prems False mm by (intro Suc.hyps(1)) auto
    ultimately show ?thesis
      using False unused_i unfolding split by (simp add: free_step_def)
  next
    case True
    show ?thesis
    proof (cases "Suc r = n")
      case hit: True
      have "u (i - j)" if "j < n" for j
        using that True Suc.prems(4) hit by (cases j) auto
      then have "run_end u n i" using Suc.prems hit by (auto simp: run_end_def)
      then show ?thesis
        using True unused_i hit unfolding split by (auto simp: free_step_def)
    next
      case no_hit: False
      have "\<not> run_end u n i"
      proof
        assume end_i: "run_end u n i"
        then have "u (i - Suc r)" using no_hit Suc.prems(2) by (auto simp: run_end_def)
        moreover have "r < i" using end_i no_hit Suc.prems(2) by (auto simp: run_end_def)
        ultimately show False using Suc.prems(5) by simp
      qed
      moreover have "u (Suc i - 1 - j)" if "j < Suc r" for j
        using that True Suc.prems(4) by (cases j) auto
      moreover have "fst (scan (\<lambda>p. free_step p (at p)) (map off [Suc i..<N])
           \<lparr>START = int n, CUR = int (n - Suc r)\<rparr>) = map_option off (List.find (run_end u n) [Suc i..<N])"
        using Suc.prems no_hit mm calculation(2) by (intro Suc.hyps(1)) auto
      moreover have "int (n - r) - 1 = int (n - Suc r)" "int (n - r) \<noteq> 1"
        using no_hit Suc.prems(2) by auto
      ultimately show ?thesis
        using True unused_i unfolding split by (simp add: free_step_def algebra_simps)
    qed
  qed
qed

lemma find_upt_Some:
  "List.find P [0..<n] = Some k \<longleftrightarrow> k < n \<and> P k \<and> (\<forall>j<k. \<not> P j)"
  by (auto simp: find_Some_iff)

lemma run_end_free_run:
  assumes "0 < n" and "k < index_size fs"
  shows "run_end (unused fs) n k \<longleftrightarrow> n \<le> Suc k \<and> free_run fs (Suc k - n) n"
proof -
  have "(\<forall>j<n. unused fs (k - j)) \<longleftrightarrow> (\<forall>j<n. unused fs (Suc k - n + j))" if "n \<le> Suc k"
  proof (intro iffI allI impI)
    fix j assume all: "\<forall>j<n. unused fs (k - j)" and j: "j < n"
    have "n - 1 - j < n" using j by simp
    then have "unused fs (k - (n - 1 - j))" by (rule all [rule_format])
    moreover have "k - (n - 1 - j) = Suc k - n + j" using that j by simp
    ultimately show "unused fs (Suc k - n + j)" by metis
  next
    fix j assume all: "\<forall>j<n. unused fs (Suc k - n + j)" and j: "j < n"
    have "n - 1 - j < n" using j by simp
    then have "unused fs (Suc k - n + (n - 1 - j))" by (rule all [rule_format])
    moreover have "Suc k - n + (n - 1 - j) = k - j" using that j by simp
    ultimately show "unused fs (k - j)" by metis
  qed
  then show ?thesis by (auto simp: run_end_def free_run_def)
qed

lemma run_back:
  assumes "fs_ok fs" and "n \<le> Suc k" and "k < index_size fs" and "0 < n"
  shows "index_off fs k - word_of_int (64 * (int n - 1)) = index_off fs (Suc k - n)"
proof -
  have eq: "index_off fs (i + m) = index_off fs i + 64 * word_of_nat m" for i m
    by (simp add: index_off_def algebra_simps)
  have w: "word_of_int (64 * (int n - 1)) = (64 * word_of_nat (n - 1) :: u64)"
  proof -
    obtain m where "n = Suc m" using assms(4) by (cases n) auto
    then have "64 * (int n - 1) = int 64 * int m" "n - 1 = m" by simp_all
    then show ?thesis by (simp only: of_int_mult of_int_of_nat_eq) simp
  qed
  have "Suc k - n + (n - 1) = k" using assms(2,4) by simp
  then have "index_off fs k = index_off fs (Suc k - n) + 64 * word_of_nat (n - 1)"
    using eq [of "Suc k - n" "n - 1"] by simp
  then show ?thesis unfolding w by simp
qed

lemma alloc_entry_ok:
  assumes ok: "fs_ok fs" and len: "length e = 64" and pos: "0 < n"
  obtains r e' fs' where "alloc_entry fs e (int n) = (r, e', fs')" "length e' = 64"
    "fs_ok fs'" "same_vol fs fs'"
    "r = 0 \<Longrightarrow> \<forall>i. \<not> free_run fs i n"
    "r \<noteq> 0 \<Longrightarrow> \<exists>i. r = index_off fs i \<and> i + n \<le> index_size fs \<and> free_run fs i n
       \<and> (\<forall>j<i. \<not> free_run fs j n) \<and> e' = entry_at fs (index_off fs (i + n - 1))"
proof -
  let ?f = "List.find (run_end (unused fs) n) [0..<index_size fs]"
  obtain h e' fs' d' where ep: "entry_parse fs e search_free_entry \<lparr>START = int n, CUR = int n\<rparr>
      = (found h, e', fs', d')"
    and sc: "scan (\<lambda>p. free_step p (entry_at fs p)) (index_offs fs) \<lparr>START = int n, CUR = int n\<rparr> = (h, d')"
    and rest: "h \<noteq> None \<Longrightarrow> e' = entry_at fs (found h)" "length e' = 64" "fs_ok fs'" "same_vol fs fs'"
    by (rule free_scan.entry_parse_scan [OF ok TrueI len]) blast
  have "h = map_option (index_off fs) ?f"
    using scan_runs [of n 0 0 "unused fs" "index_size fs" "entry_at fs" "index_off fs"] pos sc
    by (simp add: index_offs_def unused_def)
  note h = this
  show ?thesis
  proof (cases ?f)
    case None
    have "\<not> free_run fs i n" for i
    proof
      assume run: "free_run fs i n"
      then have "unused fs (i + (n - 1))" using pos unfolding free_run_def by (meson diff_less zero_less_one)
      then have lt: "i + n - 1 < index_size fs" using pos by (simp add: unused_def)
      then have "run_end (unused fs) n (i + n - 1)"
        using run run_end_free_run [of n "i + n - 1" fs] pos by simp
      with None lt show False by (auto simp: find_None_iff)
    qed
    moreover have "alloc_entry fs e (int n) = (0, e', fs')"
      using ep h None pos by (simp add: alloc_entry_def)
    ultimately show ?thesis using rest by (intro that) auto
  next
    case (Some k)
    then have k: "k < index_size fs" "run_end (unused fs) n k"
      and first: "\<And>j. j < k \<Longrightarrow> \<not> run_end (unused fs) n j"
      unfolding find_upt_Some by blast+
    have kn: "n \<le> Suc k" "free_run fs (Suc k - n) n"
      using k run_end_free_run [OF pos, of k fs] by auto
    have least: "\<not> free_run fs j n" if "j < Suc k - n" for j
      using first [of "j + n - 1"] run_end_free_run [OF pos, of "j + n - 1" fs] that pos k(1) by auto
    have ne: "index_off fs k \<noteq> 0" "index_off fs (Suc k - n) \<noteq> 0"
      using k(1) index_off_nonzero [OF ok, of k] index_off_nonzero [OF ok, of "Suc k - n"] pos by auto
    have al: "alloc_entry fs e (int n) = (index_off fs (Suc k - n), e', fs')"
      using ep h Some pos ne run_back [OF ok kn(1) k(1) pos] by (simp add: alloc_entry_def)
    show ?thesis
    proof (rule that [OF al rest(2) rest(3) rest(4)])
      assume "index_off fs (Suc k - n) = 0"
      then show "\<forall>i. \<not> free_run fs i n" using ne by simp
    next
      show "\<exists>i. index_off fs (Suc k - n) = index_off fs i \<and> i + n \<le> index_size fs \<and> free_run fs i n
         \<and> (\<forall>j<i. \<not> free_run fs j n) \<and> e' = entry_at fs (index_off fs (i + n - 1))"
        using kn k least rest(1) h Some pos by (intro exI [of _ "Suc k - n"]) auto
    qed
  qed
qed

section \<open>Giving entries back\<close>

lemma free_one_entry_ok:
  assumes "fs_ok fs" and "slot_valid fs p" and "length e = 64"
  obtains fs' where "free_one_entry fs e p = (0, set_entry_type (entry_code UNUSED_ENTRY) (entry_at fs p), fs')"
    "fs_ok fs'" "vol_upd fs ((entry_at fs)(p := set_entry_type (entry_code UNUSED_ENTRY) (entry_at fs p))) fs'"
proof -
  let ?u = "set_entry_type (entry_code UNUSED_ENTRY) (entry_at fs p)"
  obtain fs1 where rd: "read_entry fs p e = (64, entry_at fs p, fs1)" and ok1: "fs_ok fs1"
    and sv: "same_vol fs fs1"
    by (rule read_entry_fs [OF assms])
  have len: "length ?u = 64" using length_entry_at [OF assms(2)] by simp
  have valid: "slot_valid fs1 p" using same_vol_cong(2) [OF sv] assms(2) by simp
  obtain fs2 where wr: "write_entry fs1 p ?u = (64, fs2)" and ok2: "fs_ok fs2"
    and up: "vol_upd fs1 ((entry_at fs1)(p := ?u)) fs2"
    by (rule write_entry_fs [OF ok1 valid len])
  show ?thesis
    using that [of fs2] rd wr ok2 vol_upd_same [OF sv up] same_vol_cong(1) [OF sv]
    by (simp add: free_one_entry_def Let_def)
qed

definition free_slots :: "u64 \<Rightarrow> nat \<Rightarrow> (u64 \<Rightarrow> entry) \<Rightarrow> u64 \<Rightarrow> entry" where
  "free_slots p k at q =
     (if \<exists>j<k. q = p + 64 * word_of_nat j then set_entry_type (entry_code UNUSED_ENTRY) (at q) else at q)"

lemma set_entry_type_twice [simp]: "set_entry_type b (set_entry_type c e) = set_entry_type b e"
  by (simp add: put_u8_def patch_def)

lemma free_slots_0 [simp]: "free_slots p 0 at = at"
  by (simp add: free_slots_def fun_eq_iff)

lemma free_slots_Suc:
  "free_slots p (Suc k) at
     = free_slots (p + 64) k (at(p := set_entry_type (entry_code UNUSED_ENTRY) (at p)))"
proof
  fix q
  have "(\<exists>j<Suc k. q = p + 64 * word_of_nat j) \<longleftrightarrow> q = p \<or> (\<exists>j<k. q = p + 64 + 64 * word_of_nat j)"
    by (simp add: Ex_less_Suc2 algebra_simps)
  then show "free_slots p (Suc k) at q
      = free_slots (p + 64) k (at(p := set_entry_type (entry_code UNUSED_ENTRY) (at p))) q"
    by (auto simp: free_slots_def)
qed

lemma free_entries_ok:
  assumes "fs_ok fs" and "\<And>j. j < k \<Longrightarrow> slot_valid fs (p + 64 * word_of_nat j)" and "length e = 64"
  shows "\<exists>e' fs'. free_entries k fs e p = (0, e', fs') \<and> length e' = 64 \<and> fs_ok fs'
      \<and> vol_upd fs (free_slots p k (entry_at fs)) fs'"
  using assms
proof (induction k arbitrary: fs e p)
  case 0
  then show ?case using vol_upd_id [OF same_vol_refl] by auto
next
  case (Suc k)
  let ?u = "set_entry_type (entry_code UNUSED_ENTRY) (entry_at fs p)"
  have valid: "slot_valid fs p" using Suc.prems(2) [of 0] by simp
  obtain fs1 where fr: "free_one_entry fs e p = (0, ?u, fs1)" and ok1: "fs_ok fs1"
    and up: "vol_upd fs ((entry_at fs)(p := ?u)) fs1"
    by (rule free_one_entry_ok [OF Suc.prems(1) valid Suc.prems(3)])
  have "slot_valid fs1 (p + 64 + 64 * word_of_nat j)" if "j < k" for j
    using Suc.prems(2) [of "Suc j"] that vol_upd_sel(2) [OF up] by (simp add: algebra_simps)
  moreover have "length ?u = 64" using length_entry_at [OF valid] by simp
  ultimately obtain e' fs' where *: "free_entries k fs1 ?u (p + 64) = (0, e', fs')"
    "length e' = 64" "fs_ok fs'" "vol_upd fs1 (free_slots (p + 64) k (entry_at fs1)) fs'"
    using Suc.IH [OF ok1] by blast
  then show ?case
    using fr vol_upd_trans [OF up *(4)] vol_upd_sel(1) [OF up] by (simp add: free_slots_Suc)
qed

lemma free_entry_ok:
  assumes "fs_ok fs" and "\<And>j. j < n \<Longrightarrow> slot_valid fs (p + 64 * word_of_nat j)" and "length e = 64"
  obtains e' fs' where "free_entry fs e p (int n) = (0, e', fs')" "length e' = 64" "fs_ok fs'"
    "vol_upd fs (free_slots p n (entry_at fs)) fs'"
proof -
  have "\<exists>e' fs'. free_entries n fs e p = (0, e', fs') \<and> length e' = 64 \<and> fs_ok fs'
      \<and> vol_upd fs (free_slots p n (entry_at fs)) fs'"
    using assms by (intro free_entries_ok) auto
  then show ?thesis using that by (auto simp: free_entry_def)
qed

end
