(* ===== verification/Names.thy ===== *)
theory Names
  imports Alloc
begin

text \<open>
  src/lib/sfs/fsutils.c, first half: the names of files and directories. A name starts in its
  entry and goes on in the continuation entries that follow; the routines compare a path with it,
  search the index for a path or for a prefix, check the directories of a path, and read a name
  back into a buffer.

  A pointer into a buffer is the list of what follows it; \<open>*cur\<close> is \<open>hd0 cur\<close> and \<open>cur++\<close> is
  \<open>tl cur\<close>.
\<close>

section \<open>Comparing a path with a name\<close>

text \<open>\<open>while (*curin != '\0' && c != 0) { if (*cur != *curin) return 0; c--; cur++; curin++; }\<close>:
  \<open>None\<close> for the return, or the state after the loop.\<close>

fun match_first :: "bytes \<Rightarrow> bytes \<Rightarrow> nat \<Rightarrow> (bytes \<times> bytes \<times> nat) option" where
  "match_first curin cur 0 = Some (curin, cur, 0)"
| "match_first curin cur (Suc c) =
     (if hd0 curin = 0 then Some (curin, cur, Suc c)
      else if hd0 cur \<noteq> hd0 curin then None
      else match_first (tl curin) (tl cur) c)"

text \<open>The loop of \<open>check_file_mask\<close> over the continuation entries.\<close>

fun match_mask :: "bytes \<Rightarrow> bytes \<Rightarrow> nat \<Rightarrow> u64 \<Rightarrow> entry \<Rightarrow> fs \<Rightarrow> bool \<times> entry \<times> fs" where
  "match_mask [] cur c entry_off entr fs = (True, entr, fs)"
| "match_mask (x # curin) cur c entry_off entr fs =
     (if x \<noteq> 0 \<and> c \<noteq> 0 then
        (if hd0 cur \<noteq> x then (False, entr, fs)
         else
           let c = c - 1; cur = tl cur in
           if c = 0 then
             let entry_off = entry_off + INDEX_ENTRY_SIZE in
             (case read_entry fs entry_off entr of
                (_, entr, fs) \<Rightarrow> match_mask curin entr INDEX_ENTRY_SIZE entry_off entr fs)
           else match_mask curin cur c entry_off entr fs)
      else (True, entr, fs))"

definition check_file_mask :: "bytes callback" where
  "check_file_mask fs entr entry_off data =
     (if entry_type entr \<noteq> entry_code FILE_ENTRY \<and> entry_type entr \<noteq> entry_code DIR_ENTRY then
        (0, entr, fs, data)
      else if hd0 data = 0 then (1, entr, fs, data)
      else
        (case (if entry_type entr = entry_code FILE_ENTRY
               then match_first data (drop 34 entr) FIRST_FILE_NAME_SIZE
               else match_first data (drop 10 entr) FIRST_DIR_NAME_SIZE) of
           None \<Rightarrow> (0, entr, fs, data)
         | Some (curin, _, _) \<Rightarrow>
             let entry_off = entry_off + INDEX_ENTRY_SIZE in
             (case read_entry fs entry_off entr of
                (_, entr, fs) \<Rightarrow>
                  (case match_mask curin entr INDEX_ENTRY_SIZE entry_off entr fs of
                     (ok, entr, fs) \<Rightarrow> (if ok then 1 else 0, entr, fs, data)))))"

text \<open>The loop of \<open>read_file_entry\<close> and \<open>read_dir_entry\<close> over \<open>ce\<close> continuation entries, with the
  test \<open>*cur != *curin\<close> that follows it. \<open>None\<close> is the \<open>return 0\<close> for a read that returns 0.\<close>

fun match_cont :: "bytes \<Rightarrow> bytes \<Rightarrow> nat \<Rightarrow> nat \<Rightarrow> u64 \<Rightarrow> entry \<Rightarrow> fs \<Rightarrow> bool \<times> entry \<times> fs" where
  "match_cont [] cur c ce entry_off entr fs = (hd0 cur = 0, entr, fs)"
| "match_cont (x # curin) cur c ce entry_off entr fs =
     (if hd0 cur \<noteq> 0 \<and> x \<noteq> 0 \<and> ce \<noteq> 0 then
        (if hd0 cur \<noteq> x then (False, entr, fs)
         else
           let c = c - 1; cur = tl cur in
           if c = 0 then
             let entry_off = entry_off + INDEX_ENTRY_SIZE in
             (case read_entry fs entry_off entr of
                (r, entr, fs) \<Rightarrow>
                  if r = 0 then (False, entr, fs)
                  else match_cont curin entr INDEX_ENTRY_SIZE (ce - 1) entry_off entr fs)
           else match_cont curin cur c ce entry_off entr fs)
      else (hd0 cur = x, entr, fs))"

text \<open>\<open>read_file_entry\<close> and \<open>read_dir_entry\<close> differ in the entry type and in the place and size of
  the first part of the name.\<close>

definition read_name_entry :: "entry_kind \<Rightarrow> nat \<Rightarrow> nat \<Rightarrow> bytes callback" where
  "read_name_entry kind first_off first_size fs entr entry_off data =
     (let curin = data; start = entry_off in
      if entry_type entr \<noteq> entry_code kind then (0, entr, fs, data)
      else
        let cur = drop first_off entr in
        if hd0 curin = 0 then (if hd0 cur \<noteq> 0 then 0 else 1, entr, fs, data)
        else
          let ce = unat (cont_entries entr) in
          (case match_first curin cur first_size of
             None \<Rightarrow> (0, entr, fs, data)
           | Some (curin, cur, c) \<Rightarrow>
               if hd0 curin = 0 \<and> c \<noteq> 0 then (if hd0 cur = 0 then 1 else 0, entr, fs, data)
               else if hd0 curin = 0 \<and> ce = 0 then (if hd0 cur \<noteq> 0 then 0 else 1, entr, fs, data)
               else if ce = 0 then (0, entr, fs, data)
               else
                 let entry_off = entry_off + INDEX_ENTRY_SIZE in
                 (case read_entry fs entry_off entr of
                    (r, entr, fs) \<Rightarrow>
                      if r = 0 then (0, entr, fs, data)
                      else
                        (case match_cont curin entr INDEX_ENTRY_SIZE ce entry_off entr fs of
                           (same, entr, fs) \<Rightarrow>
                             if \<not> same then (0, entr, fs, data)
                             else
                               (case read_entry fs start entr of
                                  (r, entr, fs) \<Rightarrow> (if r = 0 then 0 else 1, entr, fs, data))))))"

definition read_file_entry :: "bytes callback" where
  "read_file_entry fs entr entry_off data =
     read_name_entry FILE_ENTRY 34 FIRST_FILE_NAME_SIZE fs entr entry_off data"

definition read_dir_entry :: "bytes callback" where
  "read_dir_entry fs entr entry_off data =
     read_name_entry DIR_ENTRY 10 FIRST_DIR_NAME_SIZE fs entr entry_off data"

section \<open>Searching the index\<close>

text \<open>The loop \<open>while (n--)\<close> of \<open>search_file\<close> and \<open>search_dir\<close>: \<open>0\<close> for the return, \<open>1\<close> when
  all continuation entries agree.\<close>

primrec match_rest :: "nat \<Rightarrow> fs \<Rightarrow> u64 \<Rightarrow> bytes \<Rightarrow> entry \<Rightarrow> bool \<times> entry \<times> fs" where
  "match_rest 0 fs cur_off filepath entr = (True, entr, fs)"
| "match_rest (Suc n) fs cur_off filepath entr =
     (case read_entry fs cur_off entr of
        (r, entr, fs) \<Rightarrow>
          if r = -1 then (False, entr, SET_ERRNO EIO fs)
          else if strncmp entr filepath INDEX_ENTRY_SIZE \<noteq> 0 then (False, entr, fs)
          else match_rest n fs (cur_off + INDEX_ENTRY_SIZE) (drop INDEX_ENTRY_SIZE filepath) entr)"

definition search_name :: "bytes callback \<Rightarrow> nat \<Rightarrow> fs \<Rightarrow> bytes \<Rightarrow> entry \<Rightarrow> u64 \<times> entry \<times> fs" where
  "search_name cb first_size fs filepath entr =
     (let fs = SET_ERRNO 0 fs in
      (case entry_parse fs entr cb filepath of
         (start_off, entr, fs, _) \<Rightarrow>
           if start_off = 0 then (0, entr, fs)
           else
             let n = cont_entries entr in
             if n = 0 then (start_off, entr, fs)
             else
               let cur_off = start_off + INDEX_ENTRY_SIZE;
                   filepath = drop first_size filepath in
               (case match_rest (unat n) fs cur_off filepath entr of
                  (ok, entr, fs) \<Rightarrow>
                    if \<not> ok then (0, entr, fs)
                    else (case read_entry fs start_off entr of
                            (_, entr, fs) \<Rightarrow> (start_off, entr, fs)))))"

definition search_file :: "fs \<Rightarrow> bytes \<Rightarrow> entry \<Rightarrow> u64 \<times> entry \<times> fs" where
  "search_file fs filepath entr = search_name read_file_entry FIRST_FILE_NAME_SIZE fs filepath entr"

definition search_dir :: "fs \<Rightarrow> bytes \<Rightarrow> entry \<Rightarrow> u64 \<times> entry \<times> fs" where
  "search_dir fs filepath entr = search_name read_dir_entry FIRST_DIR_NAME_SIZE fs filepath entr"

text \<open>Where \<open>entr_off += INDEX_ENTRY_SIZE\<close> would wrap, the loop ends.\<close>

function mask_loop :: "fs \<Rightarrow> bytes \<Rightarrow> entry \<Rightarrow> u64 \<Rightarrow> u64 \<times> entry \<times> fs" where
  "mask_loop fs filepath entr entr_off =
     (if entr_off \<noteq> vol_ident fs then
        (case read_entry fs entr_off entr of
           (_, entr, fs) \<Rightarrow>
             if entry_type entr = entry_code FILE_ENTRY \<or> entry_type entr = entry_code DIR_ENTRY then
               (case check_file_mask fs entr entr_off filepath of
                  (c, entr, fs, _) \<Rightarrow>
                    if c \<noteq> 0 then
                      (case read_entry fs entr_off entr of (_, entr, fs) \<Rightarrow> (entr_off, entr, fs))
                    else if entr_off + INDEX_ENTRY_SIZE < entr_off then (0, entr, fs)
                    else mask_loop fs filepath entr (entr_off + INDEX_ENTRY_SIZE))
             else if entr_off + INDEX_ENTRY_SIZE < entr_off then (0, entr, fs)
             else mask_loop fs filepath entr (entr_off + INDEX_ENTRY_SIZE))
      else (0, entr, fs))"
  by pat_completeness auto
termination mask_loop
  by (relation "measure (\<lambda>(fs, filepath, entr, entr_off). 2 ^ 64 - unat entr_off)")
    (auto dest: unat_step_measure)

declare mask_loop.simps [simp del]

definition search_file_mask :: "fs \<Rightarrow> bytes \<Rightarrow> entry \<Rightarrow> u64 \<Rightarrow> u64 \<times> entry \<times> fs" where
  "search_file_mask fs filepath entr entr_off = mask_loop (SET_ERRNO 0 fs) filepath entr entr_off"

section \<open>The directories of a path\<close>

text \<open>\<open>search_dir\<close> returns an \<open>off_t\<close>, which \<open>ret\<close>, an \<open>int\<close>, keeps the low 32 bits of.\<close>

primrec dirs_loop :: "nat \<Rightarrow> fs \<Rightarrow> bytes \<Rightarrow> nat \<Rightarrow> entry \<Rightarrow> int \<times> entry \<times> fs" where
  "dirs_loop 0 fs filepath i entr = (0, entr, fs)"
| "dirs_loop (Suc k) fs filepath i entr =
     (if cs_at filepath i = 0x2F then
        (case search_dir fs (filepath[i := 0]) entr of
           (off, entr, fs) \<Rightarrow>
             if (ucast off :: u32) = 0 then (-1, entr, fs)
             else dirs_loop k fs filepath (Suc i) entr)
      else dirs_loop k fs filepath (Suc i) entr)"

definition check_dirs :: "fs \<Rightarrow> bytes \<Rightarrow> entry \<Rightarrow> int \<times> entry \<times> fs" where
  "check_dirs fs filepath entr = dirs_loop (strlen filepath + 1) fs filepath 0 entr"

section \<open>Reading a name\<close>

text \<open>The loop \<open>while (len > 1 && *curin != '\0')\<close>; \<open>k\<close> is \<open>len - 1\<close>. The result has the number of
  bytes left, the position reached in \<open>str\<close>, and \<open>str\<close>.\<close>

primrec name_loop :: "nat \<Rightarrow> bytes \<Rightarrow> nat \<Rightarrow> u64 \<Rightarrow> nat \<Rightarrow> bytes \<Rightarrow> entry \<Rightarrow> fs
    \<Rightarrow> nat \<times> nat \<times> bytes \<times> entry \<times> fs" where
  "name_loop 0 curin curpos off out str entr fs = (0, out, str, entr, fs)"
| "name_loop (Suc k) curin curpos off out str entr fs =
     (if hd0 curin \<noteq> 0 then
        let str = mem_put out [hd0 curin] str;
            curin = tl curin; out = out + 1; curpos = curpos - 1 in
        if curpos = 0 then
          let off = off + INDEX_ENTRY_SIZE in
          (case read_entry fs off entr of
             (_, entr, fs) \<Rightarrow> name_loop k entr INDEX_ENTRY_SIZE off out str entr fs)
        else name_loop k curin curpos off out str entr fs
      else (Suc k, out, str, entr, fs))"

text \<open>\<open>curin == '\0'\<close> compares the pointer, which is not \<open>NULL\<close>: with \<open>len == 1\<close> the call fails.\<close>

definition read_name :: "nat \<Rightarrow> nat \<Rightarrow> fs \<Rightarrow> entry \<Rightarrow> u64 \<Rightarrow> bytes \<Rightarrow> u64 \<Rightarrow> int \<times> bytes \<times> entry \<times> fs" where
  "read_name first_off first_size fs entr off str len =
     (if len = 0 then (0, mem_put 0 [0] str, entr, fs)
      else
        (case name_loop (unat len - 1) (drop first_off entr) first_size off 0 str entr fs of
           (k, out, str, entr, fs) \<Rightarrow>
             if k = 0 then (-1, str, entr, SET_ERRNO ENOMEM fs)
             else (0, mem_put out [0] str, entr, fs)))"

definition read_file_name :: "fs \<Rightarrow> entry \<Rightarrow> u64 \<Rightarrow> bytes \<Rightarrow> u64 \<Rightarrow> int \<times> bytes \<times> entry \<times> fs" where
  "read_file_name fs entr file_off str len = read_name 34 FIRST_FILE_NAME_SIZE fs entr file_off str len"

definition read_dir_name :: "fs \<Rightarrow> entry \<Rightarrow> u64 \<Rightarrow> bytes \<Rightarrow> u64 \<Rightarrow> int \<times> bytes \<times> entry \<times> fs" where
  "read_dir_name fs entr dir_off str len = read_name 10 FIRST_DIR_NAME_SIZE fs entr dir_off str len"

end
