(* ===== verification/FreeList.thy ===== *)
theory FreeList
  imports Names "HOL-Library.Signed_Division"
begin

text \<open>
  src/lib/sfs/fsutils.c, second half, and src/lib/sfs/statfs.c: the list of free extents. Each
  deleted-file entry describes an extent of free blocks; the entries form a doubly linked list
  from \<open>del_begin\<close>.
\<close>

section \<open>The routines\<close>

definition get_real_size :: "fs \<Rightarrow> u64 \<Rightarrow> u64" where
  "get_real_size fs sz =
     block_size fs * (sz div block_size fs + (if sz mod block_size fs \<noteq> 0 then 1 else 0))"

definition get_size :: "fs \<Rightarrow> entry \<Rightarrow> u64" where
  "get_size fs entr = block_size fs * (end_block entr - start_block entr + 1)"

definition del_next :: "fs \<Rightarrow> entry \<Rightarrow> u64 \<times> entry \<times> fs" where
  "del_next fs entr =
     (let ret = NEXT_DEL entr in
      if ret = 0 then (0, entr, fs)
      else (case read_entry fs ret entr of
              (r, entr, fs) \<Rightarrow> if r = -1 then (-1, entr, fs) else (ret, entr, fs)))"

text \<open>\<open>1 + (fs->vol_ident - fs->entry_start) / INDEX_ENTRY_SIZE\<close>, computed on \<open>off_t\<close>.\<close>

definition watchdog_init :: "fs \<Rightarrow> u64" where
  "watchdog_init fs = 1 + word_of_int (sint (vol_ident fs - entry_start fs) sdiv 64)"

text \<open>The loops \<open>while (off != 0 && watchdog--)\<close> below run on the number \<open>k\<close> that \<open>watchdog\<close> holds.
  The decrement happens also when it is 0: a loop that ends because of it leaves \<open>UINT64_MAX\<close>.\<close>

definition watchdog_exit :: "nat \<Rightarrow> u64 \<Rightarrow> u64" where
  "watchdog_exit k off = (if off \<noteq> 0 then word_of_nat k - 1 else word_of_nat k)"

definition del_file_list_remove :: "fs \<Rightarrow> u64 \<Rightarrow> entry \<Rightarrow> int \<times> entry \<times> fs" where
  "del_file_list_remove fs off entr =
     (case read_entry fs off entr of
        (_, entr, fs) \<Rightarrow>
          let prev = PREV_DEL entr; nxt = NEXT_DEL entr;
              (entr, fs) =
                (if prev \<noteq> 0 then
                   (case read_entry fs prev entr of
                      (_, entr, fs) \<Rightarrow>
                        let entr = set_NEXT_DEL nxt entr in
                        (case write_entry fs prev entr of (_, fs) \<Rightarrow> (entr, fs)))
                 else (entr, fs\<lparr>del_begin := nxt\<rparr>));
              (entr, fs) =
                (if nxt \<noteq> 0 then
                   (case read_entry fs nxt entr of
                      (_, entr, fs) \<Rightarrow>
                        let entr = set_PREV_DEL prev entr in
                        (case write_entry fs nxt entr of (_, fs) \<Rightarrow> (entr, fs)))
                 else (entr, fs))
          in (case free_entry fs entr off 1 of (_, entr, fs) \<Rightarrow> (0, entr, fs)))"

text \<open>The search loop of \<open>del_file_list_add\<close>; the first component is \<open>True\<close> for its \<open>return -1\<close>.\<close>

primrec add_loop :: "nat \<Rightarrow> fs \<Rightarrow> entry \<Rightarrow> u64 \<Rightarrow> u64 \<Rightarrow> u64 \<Rightarrow> u64 \<Rightarrow> u64
    \<Rightarrow> bool \<times> u64 \<times> u64 \<times> u64 \<times> entry \<times> fs" where
  "add_loop 0 fs entr s e off prev nxt = (False, watchdog_exit 0 off, prev, nxt, entr, fs)"
| "add_loop (Suc k) fs entr s e off prev nxt =
     (if off = 0 then (False, watchdog_exit (Suc k) off, prev, nxt, entr, fs)
      else if end_block entr + 1 = s then
        let prev = off in
        (case del_next fs entr of (off, entr, fs) \<Rightarrow> add_loop k fs entr s e off prev nxt)
      else
        let nxt = (if start_block entr - 1 = e then off else nxt) in
        (case del_next fs entr of
           (off, entr, fs) \<Rightarrow>
             if off = -1 then (True, word_of_nat k, prev, nxt, entr, fs)
             else if prev \<noteq> 0 \<and> nxt \<noteq> 0 then (False, word_of_nat k, prev, nxt, entr, fs)
             else add_loop k fs entr s e off prev nxt))"

definition free_label :: bytes where
  "free_label = [0x2A, 0x66, 0x72, 0x65, 0x65]"

text \<open>\<open>strcpy\<close> to a name at offset \<open>p\<close> of an entry.\<close>

definition put_name :: "nat \<Rightarrow> bytes \<Rightarrow> entry \<Rightarrow> entry" where
  "put_name p s e = take p e @ strcpy (drop p e) s"

definition del_file_list_add :: "fs \<Rightarrow> entry \<Rightarrow> u64 \<Rightarrow> u64 \<Rightarrow> int \<times> entry \<times> fs" where
  "del_file_list_add fs entr s e =
     (if s = 0 \<and> e = 0 then (0, entr, fs)
      else
      (case read_entry fs (del_begin fs) entr of
        (_, entr, fs) \<Rightarrow>
      (case add_loop (unat (watchdog_init fs)) fs entr s e (del_begin fs) 0 0 of
        (failed, watchdog, prev, nxt, entr, fs) \<Rightarrow>
          if failed then (-1, entr, fs)
          else if watchdog = 0 then (-1, entr, fs)
          else if nxt \<noteq> 0 then
            (case read_entry fs nxt entr of
               (_, entr, fs) \<Rightarrow>
                 let entr = set_start_block s entr in
                 if prev \<noteq> 0 then
                   (case read_entry fs prev entr of
                      (_, entr, fs) \<Rightarrow>
                        let prev_start = start_block entr in
                        (case del_file_list_remove fs prev entr of
                           (_, entr, fs) \<Rightarrow>
                             (case read_entry fs nxt entr of
                                (_, entr, fs) \<Rightarrow>
                                  let entr = set_start_block prev_start entr in
                                  (case write_entry fs nxt entr of (_, fs) \<Rightarrow> (0, entr, fs)))))
                 else (case write_entry fs nxt entr of (_, fs) \<Rightarrow> (0, entr, fs)))
          else if prev \<noteq> 0 then
            (case read_entry fs prev entr of
               (_, entr, fs) \<Rightarrow>
                 let entr = set_end_block e entr in
                 (case write_entry fs prev entr of (_, fs) \<Rightarrow> (0, entr, fs)))
          else
            (case alloc_entry fs entr 1 of
               (new, entr, fs) \<Rightarrow>
                 if new = 0 then (-1, entr, SET_ERRNO ENOMEM fs)
                 else
                   let entr = set_entry_type (entry_code DEL_FILE_ENTRY) entr;
                       entr = set_cont_entries 0 entr;
                       entr = set_PREV_DEL 0 entr;
                       entr = set_NEXT_DEL (del_begin fs) entr;
                       entr = set_start_block s entr;
                       entr = set_end_block e entr;
                       entr = put_name 34 free_label entr
                   in
                   (case write_entry fs new entr of
                      (_, fs) \<Rightarrow>
                        (case (if del_begin fs \<noteq> 0 then
                                 (case read_entry fs (del_begin fs) entr of
                                    (_, entr, fs) \<Rightarrow>
                                      let entr = set_PREV_DEL new entr in
                                      (case write_entry fs (del_begin fs) entr of (_, fs) \<Rightarrow> (entr, fs)))
                               else (entr, fs)) of
                           (entr, fs) \<Rightarrow> (0, entr, fs\<lparr>del_begin := new\<rparr>)))))))"

text \<open>The search for the largest extent. \<open>None\<close> is the \<open>return 0\<close> for a read that returns 0.\<close>

primrec max_loop :: "nat \<Rightarrow> fs \<Rightarrow> entry \<Rightarrow> u64 \<Rightarrow> u64 \<Rightarrow> u64 \<Rightarrow> (u64 \<times> u64 \<times> u64) option \<times> entry \<times> fs" where
  "max_loop 0 fs entr off cur_max cur_max_entr =
     (Some (watchdog_exit 0 off, cur_max, cur_max_entr), entr, fs)"
| "max_loop (Suc k) fs entr off cur_max cur_max_entr =
     (if off = 0 then (Some (watchdog_exit (Suc k) off, cur_max, cur_max_entr), entr, fs)
      else
        (case read_entry fs off entr of
           (r, entr, fs) \<Rightarrow>
             if r = 0 then (None, entr, fs)
             else
               let cur_size = get_size fs entr;
                   (cur_max, cur_max_entr) =
                     (if cur_size > cur_max then (cur_size, off) else (cur_max, cur_max_entr))
               in (case del_next fs entr of
                     (off, entr, fs) \<Rightarrow> max_loop k fs entr off cur_max cur_max_entr)))"

definition del_file_list_alloc :: "fs \<Rightarrow> entry \<Rightarrow> u64 \<Rightarrow> u64 \<times> entry \<times> fs" where
  "del_file_list_alloc fs entr sz =
     (let real_size = get_real_size fs sz in
      (case max_loop (unat (watchdog_init fs)) fs entr (del_begin fs) 0 (del_begin fs) of
         (None, entr, fs) \<Rightarrow> (0, entr, fs)
       | (Some (watchdog, cur_max, cur_max_entr), entr, fs) \<Rightarrow>
           if watchdog = 0 then (0, entr, fs)
           else if real_size > cur_max then (0, entr, SET_ERRNO ENOSPC fs)
           else if real_size = cur_max then
             (case read_entry fs cur_max_entr entr of
                (_, entr, fs) \<Rightarrow>
                  let ret = start_block entr in
                  (case del_file_list_remove fs cur_max_entr entr of (_, entr, fs) \<Rightarrow> (ret, entr, fs)))
           else
             (case read_entry fs cur_max_entr entr of
                (_, entr, fs) \<Rightarrow>
                  let ret = start_block entr;
                      entr = set_start_block (start_block entr + real_size div block_size fs) entr
                  in (case write_entry fs cur_max_entr entr of (_, fs) \<Rightarrow> (ret, entr, fs)))))"

text \<open>The search for an extent that starts after block \<open>e\<close>. \<open>None\<close> is the \<open>return -1\<close>.\<close>

primrec donor_loop :: "nat \<Rightarrow> fs \<Rightarrow> entry \<Rightarrow> u64 \<Rightarrow> u64 \<Rightarrow> u64 \<Rightarrow> (u64 \<times> u64) option \<times> entry \<times> fs" where
  "donor_loop 0 fs entr off e delta_block = (Some (watchdog_exit 0 off, off), entr, fs)"
| "donor_loop (Suc k) fs entr off e delta_block =
     (if off = 0 then (Some (watchdog_exit (Suc k) off, off), entr, fs)
      else
        (case read_entry fs off entr of
           (r, entr, fs) \<Rightarrow>
             if r = 0 then (None, entr, fs)
             else if start_block entr = e + 1 \<and> get_size fs entr \<ge> delta_block then
               (Some (word_of_nat k, off), entr, fs)
             else (case del_next fs entr of
                     (off, entr, fs) \<Rightarrow> donor_loop k fs entr off e delta_block)))"

definition try_expand :: "fs \<Rightarrow> u64 \<Rightarrow> u64 \<Rightarrow> entry \<Rightarrow> int \<times> entry \<times> fs" where
  "try_expand fs off new_size entr =
     (case read_entry fs off entr of
        (_, entr, fs) \<Rightarrow>
          let e = end_block entr;
              delta_block = get_real_size fs new_size - get_real_size fs (file_size entr)
          in (case donor_loop (unat (watchdog_init fs)) fs entr (del_begin fs) e delta_block of
                (None, entr, fs) \<Rightarrow> (-1, entr, fs)
              | (Some (watchdog, off), entr, fs) \<Rightarrow>
                  if watchdog = 0 then (-1, entr, fs)
                  else if off = 0 then (1, entr, fs)
                  else if get_size fs entr = delta_block then
                    (case del_file_list_remove fs off entr of (_, entr, fs) \<Rightarrow> (0, entr, fs))
                  else if get_size fs entr > delta_block then
                    let entr = set_start_block (start_block entr + delta_block div block_size fs) entr in
                    (case write_entry fs off entr of (_, fs) \<Rightarrow> (0, entr, fs))
                  else (0, entr, fs)))"

definition file_shrink :: "fs \<Rightarrow> u64 \<Rightarrow> u64 \<Rightarrow> entry \<Rightarrow> int \<times> entry \<times> fs" where
  "file_shrink fs off new_size entr =
     (case read_entry fs off entr of
        (_, entr, fs) \<Rightarrow>
          let e = end_block entr;
              delta_block = get_real_size fs (file_size entr) - get_real_size fs new_size
          in if delta_block = 0 then (0, entr, fs)
             else (case del_file_list_add fs entr (e - delta_block + 1) e of
                     (_, entr, fs) \<Rightarrow> (0, entr, fs)))"

section \<open>Statistics\<close>

text \<open>The loop of \<open>scan_del_file_list\<close>. \<open>Inl\<close> is a \<open>return -1\<close> with the error number.\<close>

primrec sum_loop :: "nat \<Rightarrow> fs \<Rightarrow> entry \<Rightarrow> u64 \<Rightarrow> u64 \<Rightarrow> (int + (u64 \<times> u64)) \<times> entry \<times> fs" where
  "sum_loop 0 fs entr off cur_size = (Inr (watchdog_exit 0 off, cur_size), entr, fs)"
| "sum_loop (Suc k) fs entr off cur_size =
     (if off = 0 then (Inr (watchdog_exit (Suc k) off, cur_size), entr, fs)
      else
        (case read_entry fs off entr of
           (r, entr, fs) \<Rightarrow>
             if r = 0 then (Inl EIO, entr, fs)
             else
               let cur_size = cur_size + get_size fs entr in
               (case del_next fs entr of
                  (off, entr, fs) \<Rightarrow>
                    if off = -1 then (Inl EFAULT, entr, fs)
                    else sum_loop k fs entr off cur_size)))"

definition scan_del_file_list :: "fs \<Rightarrow> entry \<Rightarrow> u64 \<times> entry \<times> fs" where
  "scan_del_file_list fs entr =
     (case sum_loop (unat (watchdog_init fs)) fs entr (del_begin fs) 0 of
        (Inl err, entr, fs) \<Rightarrow> (-1, entr, SET_ERRNO err fs)
      | (Inr (watchdog, cur_size), entr, fs) \<Rightarrow>
          if watchdog = 0 then (-1, entr, SET_ERRNO ETIMEDOUT fs)
          else (cur_size, entr, SET_ERRNO 0 fs))"

definition count_space :: "u64 callback" where
  "count_space fs entr entry_off data =
     (if entry_type entr \<noteq> entry_code FILE_ENTRY then (0, entr, fs, data)
      else (0, entr, fs, data + get_size fs entr))"

definition scan_used_space :: "fs \<Rightarrow> entry \<Rightarrow> u64 \<times> entry \<times> fs" where
  "scan_used_space fs entr =
     (case entry_parse fs entr count_space 0 of (_, entr, fs, sz) \<Rightarrow> (sz, entr, fs))"

definition count_unused_entry :: "u64 callback" where
  "count_unused_entry fs entr entry_off data =
     (if entry_type entr = entry_code UNUSED_ENTRY then (0, entr, fs, data + 1) else (0, entr, fs, data))"

definition scan_free_inode :: "fs \<Rightarrow> entry \<Rightarrow> u64 \<times> entry \<times> fs" where
  "scan_free_inode fs entr =
     (case entry_parse fs entr count_unused_entry 0 of (_, entr, fs, sz) \<Rightarrow> (sz, entr, fs))"

end
