(* ===== verification/NameSearch.thy ===== *)
theory NameSearch
  imports Names
begin

text \<open>
  What the name routines of fsutils.c compute: the name an entry stores, and the search for a path
  as the first entry of a kind with that name.
\<close>

section \<open>Stored names\<close>

definition conts :: "(u64 \<Rightarrow> entry) \<Rightarrow> u64 \<Rightarrow> nat \<Rightarrow> bytes" where
  "conts at p n = concat (map (\<lambda>k. at (p + 64 * word_of_nat k)) [0..<n])"

definition name_bytes :: "nat \<Rightarrow> (u64 \<Rightarrow> entry) \<Rightarrow> u64 \<Rightarrow> bytes" where
  "name_bytes first_off at p = drop first_off (at p) @ conts at (p + 64) (unat (cont_entries (at p)))"

definition entry_name :: "nat \<Rightarrow> (u64 \<Rightarrow> entry) \<Rightarrow> u64 \<Rightarrow> bytes" where
  "entry_name first_off at p = cstr (name_bytes first_off at p)"

text \<open>A name is in order when it ends within its continuation entries and they are in the image.\<close>

definition name_ok :: "nat \<Rightarrow> fs \<Rightarrow> u64 \<Rightarrow> bool" where
  "name_ok first_off fs p \<longleftrightarrow>
     (\<forall>k \<le> unat (cont_entries (entry_at fs p)). slot_valid fs (p + 64 * word_of_nat k))
     \<and> 0 \<in> set (name_bytes first_off (entry_at fs) p)"

definition names_ok :: "entry_kind \<Rightarrow> nat \<Rightarrow> fs \<Rightarrow> bool" where
  "names_ok kind first_off fs \<longleftrightarrow>
     (\<forall>p \<in> set (index_offs fs). entry_type (entry_at fs p) = entry_code kind \<longrightarrow> name_ok first_off fs p)"

lemma conts_0 [simp]: "conts at p 0 = []"
  by (simp add: conts_def)

lemma conts_Suc: "conts at p (Suc n) = at p @ conts at (p + 64) n"
proof -
  have "[0..<Suc n] = 0 # map Suc [0..<n]" by (simp add: map_Suc_upt upt_conv_Cons del: upt_Suc)
  then show ?thesis by (simp add: conts_def comp_def algebra_simps)
qed

lemma names_ok_same_vol: "same_vol fs fs' \<Longrightarrow> names_ok kind b fs' = names_ok kind b fs"
  using same_vol_cong [of fs fs'] by (simp add: names_ok_def name_ok_def)

section \<open>Comparing\<close>

lemma cstr_append: "cstr (xs @ ys) = (if 0 \<in> set xs then cstr xs else xs @ cstr ys)"
  by (induction xs) (auto simp: cstr_def)

lemma cstr_Nil_iff: "cstr s = [] \<longleftrightarrow> hd0 s = 0"
  by (cases s) (auto simp: cstr_def)

lemma cstr_cons: "cstr (x # xs) = (if x = 0 then [] else x # cstr xs)"
  by (simp add: cstr_def)

lemma match_first_props:
  assumes "length cur = c"
  shows "case match_first curin cur c of
      None \<Rightarrow> cstr curin \<noteq> cstr (cur @ q)
    | Some (curin', cur', c') \<Rightarrow>
        length cur' = c' \<and> (cstr curin = cstr (cur @ q) \<longleftrightarrow> cstr curin' = cstr (cur' @ q))
        \<and> (c' \<noteq> 0 \<longrightarrow> hd0 curin' = 0) \<and> (0 \<in> set (cur @ q) \<longrightarrow> 0 \<in> set (cur' @ q))"
  using assms
proof (induction curin cur c rule: match_first.induct)
  case (2 curin cur c)
  then obtain x xs where cur: "cur = x # xs" by (cases cur) auto
  show ?case
    using 2 cur cstr_hd0 [of curin] by (auto simp: cstr_cons split: option.splits)
qed simp

text \<open>The rest of a name, from the middle of a continuation entry at \<open>off\<close> with \<open>ce - 1\<close> entries
  after it.\<close>

lemma match_cont_props:
  assumes "fs_ok fs" and "\<forall>k<ce. slot_valid fs (off + 64 * word_of_nat k)"
    and "0 < c" and "length cur = c" and "length e = 64" and "0 < ce"
    and "0 \<in> set (cur @ conts (entry_at fs) (off + 64) (ce - 1))"
  shows "\<exists>e' fs'. match_cont curin cur c ce off e fs
        = (cstr curin = cstr (cur @ conts (entry_at fs) (off + 64) (ce - 1)), e', fs')
      \<and> length e' = 64 \<and> fs_ok fs' \<and> same_vol fs fs'"
  using assms
proof (induction curin arbitrary: cur c ce off e fs)
  case Nil
  then show ?case by (cases cur) (auto simp: cstr_cons cstr_def)
next
  case (Cons x curin)
  then obtain y ys where cur: "cur = y # ys" by (cases cur) auto
  show ?case
  proof (cases "y \<noteq> 0 \<and> x = y")
    case False
    then show ?thesis using Cons.prems cur by (auto simp: cstr_cons)
  next
    case same: True
    show ?thesis
    proof (cases "c = 1")
      case False
      then have "0 < c - 1" "length ys = c - 1" "0 \<in> set (ys @ conts (entry_at fs) (off + 64) (ce - 1))"
        using Cons.prems cur same by auto
      then obtain e' fs' where "match_cont curin ys (c - 1) ce off e fs
          = (cstr curin = cstr (ys @ conts (entry_at fs) (off + 64) (ce - 1)), e', fs')"
        "length e' = 64" "fs_ok fs'" "same_vol fs fs'"
        using Cons.IH [of fs ce off "c - 1" ys e] Cons.prems by blast
      then show ?thesis using Cons.prems cur same False by (simp add: cstr_cons)
    next
      case True
      then have ys: "ys = []" using Cons.prems(4) cur by simp
      then obtain m where m: "ce = Suc (Suc m)"
        using Cons.prems(6,7) cur same by (cases ce; cases "ce - 1") auto
      have valid: "slot_valid fs (off + 64)"
        using Cons.prems(2) m by (auto dest: spec [of _ 1])
      obtain fs1 where rd: "read_entry fs (off + 64) e = (64, entry_at fs (off + 64), fs1)"
        and ok1: "fs_ok fs1" and sv: "same_vol fs fs1"
        by (rule read_entry_fs [OF Cons.prems(1) valid Cons.prems(5)])
      have len: "length (entry_at fs (off + 64)) = 64" by (rule length_entry_at [OF valid])
      have valid1: "\<forall>k<ce - 1. slot_valid fs1 (off + 64 + 64 * word_of_nat k)"
      proof (intro allI impI)
        fix k assume "k < ce - 1"
        then show "slot_valid fs1 (off + 64 + 64 * word_of_nat k)"
          using Cons.prems(2) [rule_format, of "Suc k"] same_vol_cong(2) [OF sv]
          by (simp add: algebra_simps)
      qed
      have "0 \<in> set (entry_at fs (off + 64) @ conts (entry_at fs1) (off + 64 + 64) (ce - 1 - 1))"
        using Cons.prems(7) cur same ys m same_vol_cong(1) [OF sv] by (simp add: conts_Suc)
      then obtain e' fs' where "match_cont curin (entry_at fs (off + 64)) 64 (ce - 1) (off + 64) (entry_at fs (off + 64)) fs1
          = (cstr curin = cstr (entry_at fs (off + 64) @ conts (entry_at fs1) (off + 64 + 64) (ce - 1 - 1)), e', fs')"
        "length e' = 64" "fs_ok fs'" "same_vol fs1 fs'"
        using Cons.IH [OF ok1 valid1 _ len len] m by auto
      then show ?thesis
        using Cons.prems cur same True ys rd m same_vol_cong(1) [OF sv] same_vol_trans [OF sv]
        by (simp add: cstr_cons conts_Suc)
    qed
  qed
qed

lemma read_name_entry_ok:
  assumes ok: "fs_ok fs" and valid: "slot_valid fs p"
    and name: "entry_type (entry_at fs p) = entry_code kind \<longrightarrow> name_ok first_off fs p"
    and size: "first_off + first_size = 64" "0 < first_size"
  shows "\<exists>c e' fs'. read_name_entry kind first_off first_size fs (entry_at fs p) p path = (c, e', fs', path)
      \<and> (c \<noteq> 0 \<longleftrightarrow> entry_type (entry_at fs p) = entry_code kind \<and> cstr path = entry_name first_off (entry_at fs) p)
      \<and> (c \<noteq> 0 \<longrightarrow> e' = entry_at fs p) \<and> length e' = 64 \<and> fs_ok fs' \<and> same_vol fs fs'"
proof (cases "entry_type (entry_at fs p) = entry_code kind")
  case False
  then show ?thesis using ok length_entry_at [OF valid] by (auto simp: read_name_entry_def Let_def)
next
  case True
  let ?e = "entry_at fs p"
  let ?cur = "drop first_off ?e" and ?ce = "unat (cont_entries ?e)"
  let ?q = "conts (entry_at fs) (p + 64) ?ce"
  have len: "length ?e = 64" by (rule length_entry_at [OF valid])
  have curlen: "length ?cur = first_size" using len size by simp
  then obtain y ys where cur: "?cur = y # ys" using size by (cases ?cur) auto
  have nul: "0 \<in> set (?cur @ ?q)" and slots: "\<forall>k\<le>?ce. slot_valid fs (p + 64 * word_of_nat k)"
    using name True by (auto simp: name_ok_def name_bytes_def)
  have name_eq: "entry_name first_off (entry_at fs) p = cstr (?cur @ ?q)"
    by (simp add: entry_name_def name_bytes_def)
  note mf = match_first_props [OF curlen, of path ?q]
  show ?thesis
  proof (cases "hd0 path = 0")
    case empty: True
    then have "cstr path = []" by (simp add: cstr_Nil_iff)
    moreover have "cstr (?cur @ ?q) = [] \<longleftrightarrow> hd0 ?cur = 0" unfolding cur by (simp add: cstr_cons)
    ultimately show ?thesis
      using True empty ok len name_eq by (auto simp: read_name_entry_def Let_def)
  next
    case path: False
    show ?thesis
    proof (cases "match_first path ?cur first_size")
      case None
      then show ?thesis
        using True path ok len name_eq mf by (auto simp: read_name_entry_def Let_def)
    next
      case (Some t)
      then obtain path' cur' c' where t: "match_first path ?cur first_size = Some (path', cur', c')"
        by (cases t) auto
      then have m: "length cur' = c'" "cstr path = cstr (?cur @ ?q) \<longleftrightarrow> cstr path' = cstr (cur' @ ?q)"
        "c' \<noteq> 0 \<longrightarrow> hd0 path' = 0" "0 \<in> set (cur' @ ?q)"
        using mf nul by auto
      have mcur: "c' \<noteq> 0 \<Longrightarrow> cstr (cur' @ ?q) = [] \<longleftrightarrow> hd0 cur' = 0"
        using m(1) by (cases cur') (auto simp: cstr_cons)
      show ?thesis
      proof (cases "c' = 0 \<and> ?ce \<noteq> 0")
        case False
        then have "cstr (cur' @ ?q) = [] \<longleftrightarrow> hd0 cur' = 0"
          using mcur m(1) by (cases "c' = 0") (auto simp: cstr_def)
        moreover have "hd0 path' = 0 \<longleftrightarrow> cstr path' = []" by (simp add: cstr_Nil_iff)
        moreover have "c' = 0 \<Longrightarrow> cstr (cur' @ ?q) = []" using False m(1) by (simp add: cstr_def)
        ultimately show ?thesis
          using True path ok len name_eq t m False by (auto simp: read_name_entry_def Let_def)
      next
        case rest: True
        then have cur': "cur' = []" using m(1) by simp
        have v1: "slot_valid fs (p + 64)" using slots rest by (auto dest: spec [of _ 1])
        obtain fs1 where rd: "read_entry fs (p + 64) ?e = (64, entry_at fs (p + 64), fs1)"
          and ok1: "fs_ok fs1" and sv1: "same_vol fs fs1"
          by (rule read_entry_fs [OF ok v1 len])
        have len1: "length (entry_at fs (p + 64)) = 64" by (rule length_entry_at [OF v1])
        obtain n where n: "?ce = Suc n" using rest by (cases ?ce) auto
        have slots1: "\<forall>k<?ce. slot_valid fs1 (p + 64 + 64 * word_of_nat k)"
        proof (intro allI impI)
          fix k assume "k < ?ce"
          then show "slot_valid fs1 (p + 64 + 64 * word_of_nat k)"
            using slots [rule_format, of "Suc k"] same_vol_cong(2) [OF sv1] by (simp add: algebra_simps)
        qed
        have q: "?q = entry_at fs (p + 64) @ conts (entry_at fs1) (p + 64 + 64) (?ce - 1)"
          using n same_vol_cong(1) [OF sv1] by (simp add: conts_Suc)
        have nul1: "0 \<in> set (entry_at fs (p + 64) @ conts (entry_at fs1) (p + 64 + 64) (?ce - 1))"
          using m(4) cur' q by simp
        obtain e2 fs2 where mc: "match_cont path' (entry_at fs (p + 64)) 64 ?ce (p + 64) (entry_at fs (p + 64)) fs1
            = (cstr path' = cstr ?q, e2, fs2)" "length e2 = 64" "fs_ok fs2" "same_vol fs1 fs2"
          using match_cont_props [OF ok1 slots1 _ len1 len1 _ nul1, of path'] n q by auto
        have sv2: "same_vol fs fs2" by (rule same_vol_trans [OF sv1 mc(4)])
        have v2: "slot_valid fs2 p" using same_vol_cong(2) [OF sv2] valid by simp
        obtain fs3 where rd3: "read_entry fs2 p e2 = (64, entry_at fs2 p, fs3)" and ok3: "fs_ok fs3"
          and sv3: "same_vol fs2 fs3"
          by (rule read_entry_fs [OF mc(3) v2 mc(2)])
        show ?thesis
          using True path t rest rd mc rd3 ok3 name_eq m(2) cur' same_vol_cong(1) [OF sv2] len
            same_vol_trans [OF sv2 sv3] sv2
          by (auto simp: read_name_entry_def Let_def)
      qed
    qed
  qed
qed

definition has_name :: "entry_kind \<Rightarrow> nat \<Rightarrow> (u64 \<Rightarrow> entry) \<Rightarrow> bytes \<Rightarrow> u64 \<Rightarrow> bool" where
  "has_name kind first_off at path p \<longleftrightarrow>
     entry_type (at p) = entry_code kind \<and> entry_name first_off at p = cstr path"

lemma name_scan_callback:
  assumes "first_off + first_size = 64" and "0 < first_size"
  shows "scan_callback (read_name_entry kind first_off first_size)
    (\<lambda>at p path. (has_name kind first_off at path p, path)) (\<lambda>fs path. names_ok kind first_off fs)"
proof (unfold_locales, goal_cases)
  case (1 fs i path p)
  have "p \<in> set (index_offs fs)" using 1(2,4) by (simp add: index_offs_def)
  then have "entry_type (entry_at fs p) = entry_code kind \<longrightarrow> name_ok first_off fs p"
    using 1(3) by (simp add: names_ok_def)
  then show ?case
    using read_name_entry_ok [OF 1(1) index_off_valid [of fs i], of kind first_off first_size path] 1 assms
    by (auto simp: has_name_def)
next
  case (2 fs fs' path)
  then show ?case by (simp add: names_ok_same_vol)
qed

interpretation file_scan: scan_callback read_file_entry
  "\<lambda>at p path. (has_name FILE_ENTRY 34 at path p, path)" "\<lambda>fs path. names_ok FILE_ENTRY 34 fs"
proof -
  have "read_file_entry = read_name_entry FILE_ENTRY 34 30"
    by (simp add: fun_eq_iff read_file_entry_def)
  then show "scan_callback read_file_entry
      (\<lambda>at p path. (has_name FILE_ENTRY 34 at path p, path)) (\<lambda>fs path. names_ok FILE_ENTRY 34 fs)"
    using name_scan_callback [of 34 30 FILE_ENTRY] by simp
qed

interpretation dir_scan: scan_callback read_dir_entry
  "\<lambda>at p path. (has_name DIR_ENTRY 10 at path p, path)" "\<lambda>fs path. names_ok DIR_ENTRY 10 fs"
proof -
  have "read_dir_entry = read_name_entry DIR_ENTRY 10 54"
    by (simp add: fun_eq_iff read_dir_entry_def)
  then show "scan_callback read_dir_entry
      (\<lambda>at p path. (has_name DIR_ENTRY 10 at path p, path)) (\<lambda>fs path. names_ok DIR_ENTRY 10 fs)"
    using name_scan_callback [of 10 54 DIR_ENTRY] by simp
qed

section \<open>Searching\<close>

lemma strncmp_zero_iff:
  "strncmp s1 s2 n = 0 \<longleftrightarrow>
     (let m = min n (min (length (cstr s1)) (length (cstr s2))) in take m (cstr s1) = take m (cstr s2))"
proof (induction s1 s2 n rule: strncmp.induct)
  case (1 s2 n)
  then show ?case by (simp add: cstr_def Let_def)
next
  case (2 a s1 s2 n)
  have "sint a - sint (hd0 s2) = 0 \<longleftrightarrow> a = hd0 s2" by (auto intro: signed_word_eqI)
  with 2 show ?case
    by (cases s2; cases n) (auto simp: cstr_def Let_def min_def)
qed

text \<open>A path buffer as FUSE passes it: the string, and zeros after it if anything.\<close>

definition padded :: "bytes \<Rightarrow> bool" where
  "padded s \<longleftrightarrow> (\<exists>t n. s = t @ replicate n 0 \<and> 0 \<notin> set t)"

lemma cstr_padded: "0 \<notin> set t \<Longrightarrow> cstr (t @ replicate n 0) = t"
  by (cases n) (auto simp: cstr_append_nul cstr_id)

lemma drop_padded:
  assumes "padded s"
  obtains t n m where "s = t @ replicate n 0" "0 \<notin> set t" "drop k s = drop k t @ replicate m 0"
    "0 \<notin> set (drop k t)"
  using assms by (auto simp: padded_def intro: that dest: in_set_dropD)

lemma padded_drop: "padded s \<Longrightarrow> padded (drop k s)"
  by (erule drop_padded [of s k]) (unfold padded_def, blast)

lemma cstr_drop: "padded s \<Longrightarrow> cstr (drop k s) = drop k (cstr s)"
  by (erule drop_padded [of s k]) (simp add: cstr_padded)

lemma padded_pure: "0 \<notin> set s \<Longrightarrow> padded s"
  unfolding padded_def by (intro exI [of _ s] exI [of _ 0]) simp

lemma padded_nul: "0 \<notin> set s \<Longrightarrow> padded (s @ replicate n 0)"
  by (auto simp: padded_def)

lemma padded_cstr: "padded s \<Longrightarrow> s = cstr s @ replicate (length s - length (cstr s)) 0"
  by (auto simp: padded_def cstr_padded)

text \<open>All continuation entries agree with a path that is the name.\<close>

lemma match_rest_props:
  assumes "fs_ok fs" and "\<forall>k<n. slot_valid fs (off + 64 * word_of_nat k)"
    and "length e = 64" and "padded path"
    and "path = [] \<or> hd0 path = 0 \<or> cstr path = cstr (conts (entry_at fs) off n)"
  shows "\<exists>e' fs'. match_rest n fs off path e = (True, e', fs') \<and> length e' = 64 \<and> fs_ok fs'
      \<and> same_vol fs fs'"
  using assms
proof (induction n arbitrary: fs off path e)
  case 0
  then show ?case by auto
next
  case (Suc n)
  let ?e = "entry_at fs off"
  have valid: "slot_valid fs off" using Suc.prems(2) by (auto dest: spec [of _ 0])
  obtain fs1 where rd: "read_entry fs off e = (64, ?e, fs1)" and ok1: "fs_ok fs1"
    and sv: "same_vol fs fs1"
    by (rule read_entry_fs [OF Suc.prems(1) valid Suc.prems(3)])
  have len: "length ?e = 64" by (rule length_entry_at [OF valid])
  have alt: "cstr path = [] \<or> cstr path = cstr (?e @ conts (entry_at fs) (off + 64) n)"
    using Suc.prems(5) by (auto simp: conts_Suc cstr_Nil_iff)
  have cmp: "strncmp ?e path 64 = 0"
    using alt cstr_no_nul [of ?e] len
    by (auto simp: strncmp_zero_iff Let_def cstr_append cstr_id split: if_splits)
  have next_slots: "\<forall>k<n. slot_valid fs1 (off + 64 + 64 * word_of_nat k)"
  proof (intro allI impI)
    fix k assume "k < n"
    then show "slot_valid fs1 (off + 64 + 64 * word_of_nat k)"
      using Suc.prems(2) [rule_format, of "Suc k"] same_vol_cong(2) [OF sv] by (simp add: algebra_simps)
  qed
  have dr: "cstr (drop 64 path) = drop 64 (cstr path)" by (rule cstr_drop [OF Suc.prems(4)])
  have "cstr (drop 64 path) = [] \<or> cstr (drop 64 path) = cstr (conts (entry_at fs1) (off + 64) n)"
  proof (cases "cstr path = []")
    case False
    then have eq: "cstr path = cstr (?e @ conts (entry_at fs) (off + 64) n)" using alt by blast
    show ?thesis
    proof (cases "0 \<in> set ?e")
      case True
      then have "length (cstr ?e) \<le> 64" using len by (simp add: cstr_def length_takeWhile_le [THEN order.trans])
      then show ?thesis using dr eq True by (simp add: cstr_append)
    next
      case False
      then show ?thesis using dr eq len same_vol_cong(1) [OF sv] by (simp add: cstr_append)
    qed
  qed (simp add: dr)
  then have pre: "drop 64 path = [] \<or> hd0 (drop 64 path) = 0
      \<or> cstr (drop 64 path) = cstr (conts (entry_at fs1) (off + 64) n)"
    by (auto simp: cstr_Nil_iff)
  obtain e' fs' where "match_rest n fs1 (off + 64) (drop 64 path) ?e = (True, e', fs')" "length e' = 64"
    "fs_ok fs'" "same_vol fs1 fs'"
    using Suc.IH [OF ok1 next_slots len padded_drop [OF Suc.prems(4)] pre] by blast
  then show ?case using rd cmp same_vol_trans [OF sv] by simp
qed

text \<open>The first entry of a kind with the name of a path.\<close>

definition lookup :: "entry_kind \<Rightarrow> nat \<Rightarrow> fs \<Rightarrow> bytes \<Rightarrow> u64 option" where
  "lookup kind first_off fs path = List.find (has_name kind first_off (entry_at fs) path) (index_offs fs)"

lemma lookup_same_vol: "same_vol fs fs' \<Longrightarrow> lookup kind b fs' = lookup kind b fs"
  by (rule ext) (simp only: lookup_def same_vol_cong)

lemma set_errno_upd [simp]:
  "host_file (SET_ERRNO e d) = host_file d" "io_fail (SET_ERRNO e d) = io_fail d"
  "buf (SET_ERRNO e d) = buf d" "buf_num (SET_ERRNO e d) = buf_num d"
  "block_size (SET_ERRNO e d) = block_size d" "bdev_size (SET_ERRNO e d) = bdev_size d"
  "fd (SET_ERRNO e d) = fd d" "entry_start (SET_ERRNO e fs) = entry_start fs"
  "vol_ident (SET_ERRNO e fs) = vol_ident fs" "del_begin (SET_ERRNO e fs) = del_begin fs"
  "fs_time (SET_ERRNO e fs) = fs_time fs" "sfs_errno (SET_ERRNO e d) = e"
  "clock (SET_ERRNO e d) = clock d" "ticks (SET_ERRNO e d) = ticks d"
  by (simp_all add: SET_ERRNO_def)

lemma core_errno: "core (SET_ERRNO e d) = (core d)\<lparr>sfs_errno := e\<rparr>"
  by (simp add: core_def SET_ERRNO_def)

lemma same_vol_errno: "same_vol fs fs' \<Longrightarrow> same_vol (SET_ERRNO e fs) (SET_ERRNO e fs')"
  by (simp add: same_vol_def core_errno)

lemma disk_block_errno [simp]: "disk_block (SET_ERRNO e d) = disk_block d"
  by (simp add: disk_block_def fun_eq_iff)

lemma fs_ok_errno [simp]: "fs_ok (SET_ERRNO e fs) = fs_ok fs"
  by (simp add: fs_ok_def entry_dev_ok_def dev_ok_def geom_ok_def cache_ok_def)

lemma entry_at_errno [simp]:
  "entry_at (SET_ERRNO e d) = entry_at d" "slot_valid (SET_ERRNO e d) = slot_valid d"
  by (simp_all add: entry_at_def slot_valid_def fun_eq_iff)

lemma index_errno [simp]:
  "index_size (SET_ERRNO e fs) = index_size fs" "index_off (SET_ERRNO e fs) = index_off fs"
  "index_offs (SET_ERRNO e fs) = index_offs fs"
  by (simp_all add: index_size_def index_off_def index_offs_def fun_eq_iff)

lemma names_ok_errno [simp]: "names_ok kind b (SET_ERRNO e fs) = names_ok kind b fs"
  by (simp add: names_ok_def name_ok_def)

lemma in_index_offs:
  "fs_ok fs \<Longrightarrow> p \<in> set (index_offs fs) \<Longrightarrow> slot_valid fs p \<and> p \<noteq> 0"
  using index_off_valid [of fs] index_off_nonzero [of fs] by (force simp: index_offs_def)

text \<open>A path the search may be given: padded, or the names of its kind need no continuation entry.\<close>

definition path_ok :: "entry_kind \<Rightarrow> fs \<Rightarrow> bytes \<Rightarrow> bool" where
  "path_ok kind fs path \<longleftrightarrow> padded path
     \<or> (\<forall>p \<in> set (index_offs fs). entry_type (entry_at fs p) = entry_code kind \<longrightarrow> cont_entries (entry_at fs p) = 0)"

lemma path_ok_same_vol: "same_vol fs fs' \<Longrightarrow> path_ok kind fs' path = path_ok kind fs path"
  using same_vol_cong [of fs fs'] by (simp add: path_ok_def)

lemma path_ok_errno [simp]: "path_ok kind (SET_ERRNO e fs) path = path_ok kind fs path"
  by (simp add: path_ok_def)

lemma search_name_ok:
  assumes sc: "scan_callback cb (\<lambda>at p path. (has_name kind first_off at path p, path))
      (\<lambda>fs path. names_ok kind first_off fs)"
    and size: "first_off + first_size = 64"
    and ok: "fs_ok fs" and names: "names_ok kind first_off fs" and len: "length e = 64"
    and path: "padded path \<or> (\<forall>p. lookup kind first_off fs path = Some p \<longrightarrow> cont_entries (entry_at fs p) = 0)"
  obtains e' fs' where "search_name cb first_size fs path e = (found (lookup kind first_off fs path), e', fs')"
    "length e' = 64" "fs_ok fs'" "same_vol (SET_ERRNO 0 fs) fs'"
    "lookup kind first_off fs path \<noteq> None \<longrightarrow> e' = entry_at fs (found (lookup kind first_off fs path))"
proof -
  let ?fs = "SET_ERRNO 0 fs"
  obtain r e1 fs1 d' where ep: "entry_parse ?fs e cb path = (found r, e1, fs1, d')"
    and sn: "scan (\<lambda>p path. (has_name kind first_off (entry_at ?fs) path p, path)) (index_offs ?fs) path = (r, d')"
    and e1: "r \<noteq> None \<Longrightarrow> e1 = entry_at ?fs (found r)" and len1: "length e1 = 64"
    and ok1: "fs_ok fs1" and sv1: "same_vol ?fs fs1"
    by (rule scan_callback.entry_parse_scan [OF sc _ _ len, of ?fs path]) (use ok names in auto)
  have sf: "scan (\<lambda>p path'. (has_name kind first_off at path' p, path')) ps path
      = (List.find (has_name kind first_off at path) ps, path)" for at ps
    by (induction ps) auto
  have r: "r = lookup kind first_off fs path" using sn by (auto simp: sf lookup_def)
  show ?thesis
  proof (cases r)
    case None
    then show ?thesis
      using ep r len1 ok1 sv1 by (intro that [of e1 fs1]) (simp_all add: search_name_def Let_def)
  next
    case (Some p)
    then have lk: "lookup kind first_off fs path = Some p" using r by simp
    then have hit: "has_name kind first_off (entry_at fs) path p" and p: "p \<in> set (index_offs fs)"
      by (auto simp: lookup_def find_Some_iff)
    have pv: "slot_valid fs p" "p \<noteq> 0" using in_index_offs [OF ok p] by auto
    have e1p: "e1 = entry_at fs p" using e1 Some by simp
    have nok: "name_ok first_off fs p" using names p hit by (simp add: names_ok_def has_name_def)
    let ?n = "unat (cont_entries (entry_at fs p))"
    show ?thesis
    proof (cases "cont_entries (entry_at fs p) = 0")
      case True
      then show ?thesis
        using ep lk Some pv e1p len1 ok1 sv1
        by (intro that [of e1 fs1]) (simp_all add: search_name_def Let_def)
    next
      case False
      then have pad: "padded path" using path lk by blast
      have slots: "\<forall>k<?n. slot_valid fs1 (p + 64 + 64 * word_of_nat k)"
      proof (intro allI impI)
        fix k assume "k < ?n"
        then have "slot_valid fs (p + 64 * word_of_nat (Suc k))"
          using nok unfolding name_ok_def by (meson Suc_leI)
        then show "slot_valid fs1 (p + 64 + 64 * word_of_nat k)"
          using same_vol_cong(2) [OF sv1] by (simp add: algebra_simps)
      qed
      have nm: "cstr path = cstr (drop first_off (entry_at fs p) @ conts (entry_at fs) (p + 64) ?n)"
        using hit by (simp add: has_name_def entry_name_def name_bytes_def)
      have lf: "length (drop first_off (entry_at fs p)) = first_size"
        using length_entry_at [OF pv(1)] size by simp
      have "drop first_size (cstr path) = [] \<or> drop first_size (cstr path) = cstr (conts (entry_at fs) (p + 64) ?n)"
      proof (cases "0 \<in> set (drop first_off (entry_at fs p))")
        case True
        then have "length (cstr (drop first_off (entry_at fs p))) \<le> first_size"
          using lf by (metis cstr_def length_takeWhile_le)
        then show ?thesis using nm True by (simp add: cstr_append)
      next
        case False
        then show ?thesis using nm lf by (simp add: cstr_append)
      qed
      then have pre: "drop first_size path = [] \<or> hd0 (drop first_size path) = 0
          \<or> cstr (drop first_size path) = cstr (conts (entry_at fs1) (p + 64) ?n)"
        using cstr_drop [OF pad, of first_size] same_vol_cong(1) [OF sv1]
        by (auto simp: cstr_Nil_iff)
      obtain e2 fs2 where mr: "match_rest ?n fs1 (p + 64) (drop first_size path) e1 = (True, e2, fs2)"
        "length e2 = 64" "fs_ok fs2" "same_vol fs1 fs2"
        using match_rest_props [OF ok1 slots len1 padded_drop [OF pad] pre] by blast
      have sv2: "same_vol ?fs fs2" by (rule same_vol_trans [OF sv1 mr(4)])
      have v2: "slot_valid fs2 p" using same_vol_cong(2) [OF sv2] pv by simp
      obtain fs3 where rd: "read_entry fs2 p e2 = (64, entry_at fs2 p, fs3)" and ok3: "fs_ok fs3"
        and sv3: "same_vol fs2 fs3"
        by (rule read_entry_fs [OF mr(3) v2 mr(2)])
      have "search_name cb first_size fs path e = (p, entry_at fs2 p, fs3)"
        using ep Some pv False e1p mr(1) rd by (simp add: search_name_def Let_def)
      then show ?thesis
        using lk ok3 same_vol_trans [OF sv2 sv3] same_vol_cong(1) [OF sv2] length_entry_at [OF pv(1)]
        by (intro that [of "entry_at fs p" fs3]) simp_all
    qed
  qed
qed

lemma path_ok_search:
  "path_ok kind fs path \<Longrightarrow> padded path \<or> (\<forall>p. lookup kind b fs path = Some p \<longrightarrow> cont_entries (entry_at fs p) = 0)"
  by (auto simp: path_ok_def lookup_def has_name_def find_Some_iff)

text \<open>The two searches of the library.\<close>

abbreviation "lookup_file \<equiv> lookup FILE_ENTRY 34"
abbreviation "lookup_dir \<equiv> lookup DIR_ENTRY 10"

definition dir_names_ok :: "fs \<Rightarrow> bool" where
  "dir_names_ok fs \<longleftrightarrow> names_ok FILE_ENTRY 34 fs \<and> names_ok DIR_ENTRY 10 fs"

lemma dir_names_ok_same_vol: "same_vol fs fs' \<Longrightarrow> dir_names_ok fs' = dir_names_ok fs"
  by (simp add: dir_names_ok_def names_ok_same_vol)

lemma search_file_ok:
  assumes "fs_ok fs" and "dir_names_ok fs" and "length e = 64" and "path_ok FILE_ENTRY fs path"
  obtains e' fs' where "search_file fs path e = (found (lookup_file fs path), e', fs')" "length e' = 64"
    "fs_ok fs'" "same_vol (SET_ERRNO 0 fs) fs'"
    "lookup_file fs path \<noteq> None \<longrightarrow> e' = entry_at fs (found (lookup_file fs path))"
  by (rule search_name_ok [OF file_scan.scan_callback_axioms _ assms(1) _ assms(3) path_ok_search [OF assms(4)], of 30])
    (use assms(2) in \<open>auto simp: search_file_def dir_names_ok_def\<close>)

text \<open>A directory whose name needs no continuation entry is found whatever the buffer holds after the path.\<close>

lemma search_dir_plain:
  assumes "fs_ok fs" and "dir_names_ok fs" and "length e = 64"
    and "padded path \<or> (\<forall>p. lookup_dir fs path = Some p \<longrightarrow> cont_entries (entry_at fs p) = 0)"
  obtains e' fs' where "search_dir fs path e = (found (lookup_dir fs path), e', fs')" "length e' = 64"
    "fs_ok fs'" "same_vol (SET_ERRNO 0 fs) fs'"
    "lookup_dir fs path \<noteq> None \<longrightarrow> e' = entry_at fs (found (lookup_dir fs path))"
  by (rule search_name_ok [OF dir_scan.scan_callback_axioms _ assms(1) _ assms(3,4), of 54])
    (use assms(2) in \<open>auto simp: search_dir_def dir_names_ok_def\<close>)

lemma search_dir_ok:
  assumes "fs_ok fs" and "dir_names_ok fs" and "length e = 64" and "path_ok DIR_ENTRY fs path"
  obtains e' fs' where "search_dir fs path e = (found (lookup_dir fs path), e', fs')" "length e' = 64"
    "fs_ok fs'" "same_vol (SET_ERRNO 0 fs) fs'"
    "lookup_dir fs path \<noteq> None \<longrightarrow> e' = entry_at fs (found (lookup_dir fs path))"
  by (rule search_dir_plain [OF assms(1-3) path_ok_search [OF assms(4)]])

lemma lookup_nonzero:
  "fs_ok fs \<Longrightarrow> found (lookup kind b fs path) = 0 \<longleftrightarrow> lookup kind b fs path = None"
proof (cases "lookup kind b fs path")
  case (Some p)
  assume "fs_ok fs"
  moreover have "p \<in> set (index_offs fs)" using Some by (auto simp: lookup_def find_Some_iff)
  ultimately show ?thesis using in_index_offs [of fs p] Some by simp
qed simp

section \<open>The directories of a path\<close>

text \<open>Every prefix of the path that ends before a \<open>/\<close> names a directory, at an offset that does not
  become 0 as an \<open>int\<close>.\<close>

definition dirs_exist :: "fs \<Rightarrow> bytes \<Rightarrow> nat \<Rightarrow> nat \<Rightarrow> bool" where
  "dirs_exist fs path i k \<longleftrightarrow> (\<forall>j. i \<le> j \<and> j < i + k \<and> cs_at path j = 0x2F \<longrightarrow>
     (ucast (found (lookup_dir fs (path[j := 0]))) :: u32) \<noteq> 0)"

lemma dirs_exist_Suc:
  "dirs_exist fs path i (Suc k) \<longleftrightarrow>
     (cs_at path i = 0x2F \<longrightarrow> (ucast (found (lookup_dir fs (path[i := 0]))) :: u32) \<noteq> 0) \<and> dirs_exist fs path (Suc i) k"
proof -
  have "i \<le> j \<and> j < i + Suc k \<longleftrightarrow> j = i \<or> Suc i \<le> j \<and> j < Suc i + k" for j by arith
  then show ?thesis unfolding dirs_exist_def by (metis (no_types, lifting))
qed

lemma dirs_exist_same_vol: "same_vol fs fs' \<Longrightarrow> dirs_exist fs' path i k = dirs_exist fs path i k"
  by (simp add: dirs_exist_def lookup_same_vol)

lemma lookup_errno [simp]: "lookup kind b (SET_ERRNO e fs) = lookup kind b fs"
  by (simp add: lookup_def fun_eq_iff)

lemma dirs_exist_errno [simp]: "dirs_exist (SET_ERRNO e fs) = dirs_exist fs"
  by (simp add: dirs_exist_def fun_eq_iff)

lemma dir_names_ok_errno [simp]: "dir_names_ok (SET_ERRNO e fs) = dir_names_ok fs"
  by (simp add: dir_names_ok_def)

text \<open>The state afterwards is as before, except for the error variable, which is 0 after a search.\<close>

lemma dirs_loop_ok:
  assumes "fs_ok fs" and "dir_names_ok fs" and "length e = 64"
    and "\<And>j. cs_at path j = 0x2F \<Longrightarrow> path_ok DIR_ENTRY fs (path[j := 0])"
  shows "\<exists>e' fs'. dirs_loop k fs path i e = (if dirs_exist fs path i k then 0 else -1, e', fs')
      \<and> length e' = 64 \<and> fs_ok fs' \<and> (same_vol fs fs' \<or> same_vol (SET_ERRNO 0 fs) fs')"
  using assms
proof (induction k arbitrary: fs i e)
  case 0
  then show ?case by (auto simp: dirs_exist_def)
next
  case (Suc k)
  show ?case
  proof (cases "cs_at path i = 0x2F")
    case False
    then show ?thesis using Suc.IH [of fs e "Suc i"] Suc.prems by (simp add: dirs_exist_Suc)
  next
    case True
    obtain e1 fs1 where sd: "search_dir fs (path[i := 0]) e = (found (lookup_dir fs (path[i := 0])), e1, fs1)"
      and l1: "length e1 = 64" and ok1: "fs_ok fs1" and sv: "same_vol (SET_ERRNO 0 fs) fs1"
      by (rule search_dir_ok [OF Suc.prems(1-3) Suc.prems(4) [OF True]])
    show ?thesis
    proof (cases "(ucast (found (lookup_dir fs (path[i := 0]))) :: u32) = 0")
      case zero: True
      then show ?thesis using True sd l1 ok1 sv by (simp add: dirs_exist_Suc)
    next
      case False
      have "path_ok DIR_ENTRY fs1 (path[j := 0])" if "cs_at path j = 0x2F" for j
        using Suc.prems(4) [OF that] path_ok_same_vol [OF sv] by simp
      moreover have "dir_names_ok fs1" using dir_names_ok_same_vol [OF sv] Suc.prems(2) by simp
      ultimately obtain e' fs' where "dirs_loop k fs1 path (Suc i) e1
          = (if dirs_exist fs1 path (Suc i) k then 0 else -1, e', fs')" "length e' = 64" "fs_ok fs'"
        "same_vol fs1 fs' \<or> same_vol (SET_ERRNO 0 fs1) fs'"
        using Suc.IH [OF ok1 _ l1, of "Suc i"] by blast
      moreover have "same_vol (SET_ERRNO 0 fs) fs'"
        using calculation(4) sv same_vol_errno [OF sv, of 0] same_vol_trans by (fastforce simp: SET_ERRNO_def)
      moreover have "dirs_exist fs1 path (Suc i) k = dirs_exist fs path (Suc i) k"
        using dirs_exist_same_vol [OF sv] by simp
      ultimately show ?thesis using True False sd by (simp add: dirs_exist_Suc)
    qed
  qed
qed

lemma check_dirs_ok:
  assumes "fs_ok fs" and "dir_names_ok fs" and "length e = 64"
    and "\<And>j. cs_at path j = 0x2F \<Longrightarrow> path_ok DIR_ENTRY fs (path[j := 0])"
  obtains e' fs' where "check_dirs fs path e = (if dirs_exist fs path 0 (strlen path + 1) then 0 else -1, e', fs')"
    "length e' = 64" "fs_ok fs'" "same_vol fs fs' \<or> same_vol (SET_ERRNO 0 fs) fs'"
  using dirs_loop_ok [OF assms, of "strlen path + 1" 0] by (auto simp: check_dirs_def)

end
