(* ===== verification/ExtentList.thy ===== *)
theory ExtentList
  imports FreeList NameSearch
begin

text \<open>
  The list of free extents as an abstract object: a doubly linked list of entries
  (\<open>free_list\<close>) that stands for a set of blocks (\<open>blocks\<close>), and what the list operations of
  fsutils.c do to it.
\<close>

section \<open>Volumes up to the head of the list\<close>

definition vol_to :: "fs \<Rightarrow> (u64 \<Rightarrow> entry) \<Rightarrow> u64 \<Rightarrow> fs \<Rightarrow> bool" where
  "vol_to fs at b fs' \<longleftrightarrow>
     entry_at fs' = at \<and> slot_valid fs' = slot_valid fs \<and> rest fs' = (rest fs)\<lparr>del_begin := b\<rparr>"

lemma rest_eqD:
  assumes "rest fs' = (rest fs)\<lparr>del_begin := b\<rparr>"
  shows "entry_start fs' = entry_start fs" "vol_ident fs' = vol_ident fs" "del_begin fs' = b"
    "fs_time fs' = fs_time fs" "block_size fs' = block_size fs" "sfs_errno fs' = sfs_errno fs"
    "ticks fs' = ticks fs" "clock fs' = clock fs"
  using arg_cong [OF assms, of entry_start] arg_cong [OF assms, of vol_ident]
    arg_cong [OF assms, of del_begin] arg_cong [OF assms, of fs_time]
    arg_cong [OF assms, of block_size] arg_cong [OF assms, of sfs_errno]
    arg_cong [OF assms, of ticks] arg_cong [OF assms, of clock]
  by simp_all

lemma vol_to_sel:
  assumes "vol_to fs at b fs'"
  shows "entry_at fs' = at" "slot_valid fs' = slot_valid fs" "del_begin fs' = b"
    "entry_start fs' = entry_start fs" "vol_ident fs' = vol_ident fs"
    "block_size fs' = block_size fs" "sfs_errno fs' = sfs_errno fs"
    "index_size fs' = index_size fs" "index_off fs' = index_off fs" "index_offs fs' = index_offs fs"
proof -
  have r: "rest fs' = (rest fs)\<lparr>del_begin := b\<rparr>" using assms by (simp add: vol_to_def)
  show "entry_at fs' = at" "slot_valid fs' = slot_valid fs" using assms by (simp_all add: vol_to_def)
  show "del_begin fs' = b" "block_size fs' = block_size fs" "sfs_errno fs' = sfs_errno fs"
    by (rule rest_eqD [OF r])+
  show "entry_start fs' = entry_start fs" "vol_ident fs' = vol_ident fs" by (rule rest_eqD [OF r])+
  then show "index_size fs' = index_size fs" "index_off fs' = index_off fs" "index_offs fs' = index_offs fs"
    by (simp_all add: index_size_def index_off_def index_offs_def fun_eq_iff)
qed

lemma rest_del_begin_id [simp]: "(rest fs)\<lparr>del_begin := del_begin fs\<rparr> = rest fs"
  by (simp add: rest_def core_def)

lemma vol_upd_to: "vol_upd fs at fs' \<longleftrightarrow> vol_to fs at (del_begin fs) fs'"
  by (simp add: vol_upd_def vol_to_def)

lemma vol_to_trans: "vol_to fs at b fs1 \<Longrightarrow> vol_to fs1 at' b' fs' \<Longrightarrow> vol_to fs at' b' fs'"
  by (simp add: vol_to_def)

lemma vol_to_upd: "vol_to fs at b fs1 \<Longrightarrow> vol_upd fs1 at' fs' \<Longrightarrow> vol_to fs at' b fs'"
  using vol_to_trans [of fs at b fs1 at' "del_begin fs1" fs'] vol_to_sel(3) [of fs at b fs1]
  by (simp add: vol_upd_to)

lemma vol_to_same: "same_vol fs fs1 \<Longrightarrow> vol_to fs1 at b fs' \<Longrightarrow> vol_to fs at b fs'"
  using same_vol_cong [of fs fs1] same_vol_rest [of fs fs1] by (simp add: vol_to_def)

lemma vol_to_same_right: "vol_to fs at b fs1 \<Longrightarrow> same_vol fs1 fs' \<Longrightarrow> vol_to fs at b fs'"
  using same_vol_cong [of fs1 fs'] same_vol_rest [of fs1 fs'] by (simp add: vol_to_def)

lemma vol_to_refl: "same_vol fs fs' \<Longrightarrow> vol_to fs (entry_at fs) (del_begin fs) fs'"
  using vol_upd_id [of fs fs'] by (simp add: vol_upd_to)

lemma vol_to_head: "vol_to fs (entry_at fs) b (fs\<lparr>del_begin := b\<rparr>)"
  by (simp add: vol_to_def entry_at_def slot_valid_def rest_def core_def fun_eq_iff)

lemma fs_ok_head [simp]: "fs_ok (fs\<lparr>del_begin := b\<rparr>) = fs_ok fs"
  by (simp add: fs_ok_def entry_dev_ok_def dev_ok_def geom_ok_def cache_ok_def disk_block_def)

section \<open>The linked list\<close>

text \<open>\<open>dpath at prev p qs l n\<close>: from \<open>p\<close>, whose predecessor is \<open>prev\<close>, the links go through \<open>qs\<close>
  and leave to \<open>n\<close>, after the entry \<open>l\<close>.\<close>

primrec dpath :: "(u64 \<Rightarrow> entry) \<Rightarrow> u64 \<Rightarrow> u64 \<Rightarrow> u64 list \<Rightarrow> u64 \<Rightarrow> u64 \<Rightarrow> bool" where
  "dpath at prev p [] l n \<longleftrightarrow> prev = l \<and> p = n"
| "dpath at prev p (q # qs) l n \<longleftrightarrow>
     p = q \<and> q \<noteq> 0 \<and> PREV_DEL (at q) = prev \<and> dpath at q (NEXT_DEL (at q)) qs l n"

definition free_list :: "fs \<Rightarrow> u64 list \<Rightarrow> bool" where
  "free_list fs ps \<longleftrightarrow> (\<exists>l. dpath (entry_at fs) 0 (del_begin fs) ps l 0)
     \<and> set ps \<subseteq> set (index_offs fs)
     \<and> (\<forall>p \<in> set ps. entry_type (entry_at fs p) = entry_code DEL_FILE_ENTRY)"

lemma dpath_append:
  "dpath at prev p (xs @ ys) l n \<longleftrightarrow> (\<exists>l' n'. dpath at prev p xs l' n' \<and> dpath at l' n' ys l n)"
  by (induction xs arbitrary: prev p) auto

lemma dpath_last: "dpath at prev p xs l n \<Longrightarrow> l = (if xs = [] then prev else last xs)"
  by (induction xs arbitrary: prev p) auto

lemma dpath_det:
  "dpath at prev p xs l 0 \<Longrightarrow> dpath at prev' p ys l' 0 \<Longrightarrow> xs = ys"
proof (induction xs arbitrary: prev p ys prev')
  case Nil
  then show ?case by (cases ys) auto
next
  case (Cons x xs)
  then show ?case by (cases ys) auto
qed

lemma dpath_distinct: "dpath at prev p xs l 0 \<Longrightarrow> distinct xs"
proof (induction xs arbitrary: prev p)
  case (Cons x xs)
  have "x \<notin> set xs"
  proof
    assume "x \<in> set xs"
    then obtain us vs where xs: "xs = us @ x # vs" by (meson split_list)
    then have "\<exists>l' n'. dpath at l' n' (x # vs) l 0" using Cons.prems by (auto simp: dpath_append)
    then obtain l' where "dpath at l' x (x # vs) l 0" by auto
    moreover have "dpath at prev x (x # xs) l 0" using Cons.prems by simp
    ultimately have "x # xs = x # vs" by (rule dpath_det [rotated])
    then show False using xs by simp
  qed
  with Cons show ?case by auto
qed simp

lemma dpath_cong:
  "(\<And>q. q \<in> set xs \<Longrightarrow> PREV_DEL (at' q) = PREV_DEL (at q) \<and> NEXT_DEL (at' q) = NEXT_DEL (at q)) \<Longrightarrow>
     dpath at' prev p xs l n = dpath at prev p xs l n"
  by (induction xs arbitrary: prev p) auto

text \<open>A new link out of the last entry, a new link back from the first.\<close>

lemma dpath_new_next:
  assumes "dpath at prev p (xs @ [l]) l n" and "l \<notin> set xs"
    and "\<And>q. q \<in> set xs \<Longrightarrow> PREV_DEL (at' q) = PREV_DEL (at q) \<and> NEXT_DEL (at' q) = NEXT_DEL (at q)"
    and "PREV_DEL (at' l) = PREV_DEL (at l)" and "NEXT_DEL (at' l) = n'"
  shows "dpath at' prev p (xs @ [l]) l n'"
  using assms by (auto simp: dpath_append dpath_cong [of xs at' at])

lemma dpath_new_prev:
  assumes "dpath at prev p (p # xs) l n" and "p \<notin> set xs"
    and "\<And>q. q \<in> set xs \<Longrightarrow> PREV_DEL (at' q) = PREV_DEL (at q) \<and> NEXT_DEL (at' q) = NEXT_DEL (at q)"
    and "PREV_DEL (at' p) = prev'" and "NEXT_DEL (at' p) = NEXT_DEL (at p)"
  shows "dpath at' prev' p (p # xs) l n"
  using assms by (auto simp: dpath_cong [of xs at' at])

lemma free_list_distinct: "free_list fs ps \<Longrightarrow> distinct ps"
  by (auto simp: free_list_def dest: dpath_distinct)

lemma free_list_valid:
  assumes "fs_ok fs" and "free_list fs ps" and "p \<in> set ps"
  shows "slot_valid fs p" and "p \<noteq> 0" and "length (entry_at fs p) = 64"
    and "entry_type (entry_at fs p) = entry_code DEL_FILE_ENTRY"
proof -
  have "p \<in> set (index_offs fs)" using assms(2,3) by (auto simp: free_list_def)
  then show "slot_valid fs p" "p \<noteq> 0" using in_index_offs [OF assms(1)] by auto
  then show "length (entry_at fs p) = 64" by (rule_tac length_entry_at)
  show "entry_type (entry_at fs p) = entry_code DEL_FILE_ENTRY" using assms(2,3) by (simp add: free_list_def)
qed

lemma length_index_offs: "length (index_offs fs) = index_size fs"
  by (simp add: index_offs_def)

lemma free_list_length: "free_list fs ps \<Longrightarrow> length ps \<le> index_size fs"
proof -
  assume fl: "free_list fs ps"
  have "length ps = card (set ps)" using free_list_distinct [OF fl] by (simp add: distinct_card)
  also have "\<dots> \<le> card (set (index_offs fs))" using fl by (intro card_mono) (auto simp: free_list_def)
  also have "\<dots> \<le> index_size fs" using card_length [of "index_offs fs"] by (simp add: length_index_offs)
  finally show ?thesis .
qed

lemma watchdog_init_ok:
  assumes "fs_ok fs"
  shows "unat (watchdog_init fs) = Suc (index_size fs)"
proof -
  note b = index_bounds [OF assms]
  have le: "unat (entry_start fs) \<le> unat (vol_ident fs)" using b(1) by linarith
  have d: "unat (vol_ident fs - entry_start fs) = 64 * index_size fs"
    using unat_sub_small [OF le] b(1) by linarith
  then have "sint (vol_ident fs - entry_start fs) = int (64 * index_size fs)"
    using b by (subst sint_nonneg_small) linarith+
  moreover have "int (64 * n) sdiv 64 = int n" for n
    by (cases "n = 0") (simp_all add: signed_divide_int_def sgn_if)
  ultimately have w: "watchdog_init fs = 1 + word_of_nat (index_size fs)"
    by (simp add: watchdog_init_def)
  have small: "index_size fs < 2 ^ 63" using b by linarith
  then have u: "unat (word_of_nat (index_size fs) :: u64) = index_size fs"
    by (subst unat_of_nat) simp
  show ?thesis unfolding w using u small by (subst unat_add_small) auto
qed

lemma del_next_ok:
  assumes "fs_ok fs" and "length e = 64" and "NEXT_DEL e = 0 \<or> slot_valid fs (NEXT_DEL e)"
  obtains fs' where "del_next fs e
      = (NEXT_DEL e, if NEXT_DEL e = 0 then e else entry_at fs (NEXT_DEL e), fs')"
    "fs_ok fs'" "same_vol fs fs'"
proof (cases "NEXT_DEL e = 0")
  case True
  then show ?thesis using that [of fs] assms by (simp add: del_next_def Let_def)
next
  case False
  then have "slot_valid fs (NEXT_DEL e)" using assms(3) by simp
  then obtain fs' where "read_entry fs (NEXT_DEL e) e = (64, entry_at fs (NEXT_DEL e), fs')"
    "fs_ok fs'" "same_vol fs fs'"
    by (rule read_entry_fs [OF assms(1) _ assms(2)])
  then show ?thesis using that [of fs'] False by (simp add: del_next_def Let_def)
qed

lemma dpath_next_valid:
  "dpath at l p qs l' 0 \<Longrightarrow> (\<And>q. q \<in> set qs \<Longrightarrow> slot_valid fs q) \<Longrightarrow> p = 0 \<or> slot_valid fs p"
  by (cases qs) auto

section \<open>Extents and the blocks they hold\<close>

definition ext :: "entry \<Rightarrow> nat set" where
  "ext e = {unat (start_block e) .. unat (end_block e)}"

definition blocks :: "(u64 \<Rightarrow> entry) \<Rightarrow> u64 list \<Rightarrow> nat set" where
  "blocks at ps = (\<Union>p \<in> set ps. ext (at p))"

text \<open>An extent in order: not empty, past the boot block, inside the image.\<close>

definition ext_ok :: "fs \<Rightarrow> entry \<Rightarrow> bool" where
  "ext_ok fs e \<longleftrightarrow> 0 < unat (start_block e) \<and> unat (start_block e) \<le> unat (end_block e)
     \<and> Suc (unat (end_block e)) * unat (block_size fs) \<le> length (host_file fs)"

definition free_ok :: "fs \<Rightarrow> u64 list \<Rightarrow> bool" where
  "free_ok fs ps \<longleftrightarrow> free_list fs ps \<and> (\<forall>p \<in> set ps. ext_ok fs (entry_at fs p))
     \<and> (\<forall>p \<in> set ps. \<forall>q \<in> set ps. p \<noteq> q \<longrightarrow> ext (entry_at fs p) \<inter> ext (entry_at fs q) = {})"

lemma ext_ok_bounds:
  assumes "fs_ok fs" and "ext_ok fs e"
  shows "unat (end_block e) < 2 ^ 63 - 1" and "0 < unat (block_size fs)"
    and "unat (end_block e - start_block e + 1) = card (ext e)"
    and "unat (get_size fs e) = unat (block_size fs) * card (ext e)"
    and "unat (block_size fs) * card (ext e) < 2 ^ 63" and "0 < card (ext e)"
proof -
  let ?bs = "unat (block_size fs)"
  have g: "0 < ?bs" "length (host_file fs) < 2 ^ 63"
    using assms(1) by (auto simp: fs_ok_def entry_dev_ok_def dev_ok_def geom_ok_def)
  have e: "0 < unat (start_block e)" "unat (start_block e) \<le> unat (end_block e)"
    "Suc (unat (end_block e)) * ?bs \<le> length (host_file fs)"
    using assms(2) by (auto simp: ext_ok_def)
  show pos: "0 < ?bs" by (rule g(1))
  have "Suc (unat (end_block e)) * 1 \<le> Suc (unat (end_block e)) * ?bs"
    using g(1) by (intro mult_le_mono) auto
  also note e(3)
  also note g(2)
  finally have small: "Suc (unat (end_block e)) < 2 ^ 63" by simp
  then show "unat (end_block e) < 2 ^ 63 - 1" by simp
  have c: "card (ext e) = unat (end_block e) - unat (start_block e) + 1"
    using e(2) by (simp add: ext_def)
  show w: "unat (end_block e - start_block e + 1) = card (ext e)"
    using e(2) small c by (subst unat_add_small) (simp_all add: unat_sub_small)
  have "?bs * card (ext e) \<le> Suc (unat (end_block e)) * ?bs"
    unfolding c using e(1) by (subst mult.commute, intro mult_le_mono) auto
  also note e(3)
  also note g(2)
  finally show lt: "?bs * card (ext e) < 2 ^ 63" .
  show "unat (get_size fs e) = ?bs * card (ext e)"
    unfolding get_size_def using w lt by (subst unat_mult_small) simp_all
  show "0 < card (ext e)" using c by simp
qed

lemma finite_ext [simp]: "finite (ext e)"
  by (simp add: ext_def)

lemma finite_blocks [simp]: "finite (blocks at ps)"
  by (simp add: blocks_def)

lemma blocks_simps [simp]: "blocks at [] = {}" "blocks at (p # ps) = ext (at p) \<union> blocks at ps"
  "blocks at (xs @ ys) = blocks at xs \<union> blocks at ys"
  by (auto simp: blocks_def)

lemma ext_same_vol: "same_vol fs fs' \<Longrightarrow> ext_ok fs' e = ext_ok fs e"
  using same_vol_sel [of fs fs'] by (simp add: ext_ok_def)

lemma free_ok_same_vol: "same_vol fs fs' \<Longrightarrow> free_ok fs' ps = free_ok fs ps"
  using same_vol_cong [of fs fs'] same_vol_sel [of fs fs']
  by (simp add: free_ok_def free_list_def ext_same_vol)

lemma free_ok_errno [simp]: "free_ok (SET_ERRNO e fs) ps = free_ok fs ps"
  by (simp add: free_ok_def free_list_def ext_ok_def)

lemma get_size_same: "same_vol fs fs' \<Longrightarrow> get_size fs' e = get_size fs e"
  using same_vol_sel [of fs fs'] by (simp add: get_size_def)

section \<open>Measuring the free space\<close>

lemma sum_loop_ok:
  assumes "fs_ok fs" and "dpath (entry_at fs) pr off qs l 0" and "length e = 64"
    and "\<forall>q \<in> set qs. slot_valid fs q" and "length qs < k" and "k < 2 ^ 63" and "-1 \<notin> set qs"
  shows "\<exists>w e' fs'. sum_loop k fs e off sz
        = (Inr (w, sz + (\<Sum>q \<leftarrow> qs. get_size fs (entry_at fs q))), e', fs')
      \<and> w \<noteq> 0 \<and> length e' = 64 \<and> fs_ok fs' \<and> same_vol fs fs'"
  using assms
proof (induction qs arbitrary: fs e off k sz pr)
  case Nil
  then obtain m where k: "k = Suc m" by (cases k) auto
  have "(word_of_nat (Suc m) :: u64) \<noteq> 0"
    using Nil.prems(6) unfolding k by (simp add: word_of_nat_eq_0_iff nat_dvd_not_less del: of_nat_Suc)
  then show ?case using Nil k by (auto simp: watchdog_exit_def)
next
  case (Cons q qs)
  then obtain m where k: "k = Suc m" by (cases k) auto
  let ?e = "entry_at fs q"
  have q: "off = q" "q \<noteq> 0" "dpath (entry_at fs) q (NEXT_DEL ?e) qs l 0" using Cons.prems(2) by auto
  have valid: "slot_valid fs q" using Cons.prems(4) by simp
  obtain fs1 where rd: "read_entry fs q e = (64, ?e, fs1)" "fs_ok fs1" and sv1: "same_vol fs fs1"
    by (rule read_entry_fs [OF Cons.prems(1) valid Cons.prems(3)])
  have len: "length ?e = 64" by (rule length_entry_at [OF valid])
  have nv: "NEXT_DEL ?e = 0 \<or> slot_valid fs1 (NEXT_DEL ?e)"
    using dpath_next_valid [OF q(3), of fs] Cons.prems(4) same_vol_cong(2) [OF sv1] by auto
  obtain fs2 where dn: "del_next fs1 ?e
      = (NEXT_DEL ?e, if NEXT_DEL ?e = 0 then ?e else entry_at fs1 (NEXT_DEL ?e), fs2)"
    "fs_ok fs2" and sv2': "same_vol fs1 fs2"
    by (rule del_next_ok [OF rd(2) len nv])
  let ?e2 = "if NEXT_DEL ?e = 0 then ?e else entry_at fs1 (NEXT_DEL ?e)"
  have sv2: "same_vol fs fs2" by (rule same_vol_trans [OF sv1 sv2'])
  note c2 = same_vol_cong [OF sv2]
  have len2: "length ?e2 = 64" using len nv by (auto simp: length_entry_at)
  have ne: "NEXT_DEL ?e \<noteq> -1"
    using q(3) Cons.prems(7) by (cases qs) auto
  have ih: "\<exists>w e' fs'. sum_loop m fs2 ?e2 (NEXT_DEL ?e) (sz + get_size fs ?e)
        = (Inr (w, sz + get_size fs ?e + (\<Sum>q \<leftarrow> qs. get_size fs2 (entry_at fs2 q))), e', fs')
      \<and> w \<noteq> 0 \<and> length e' = 64 \<and> fs_ok fs' \<and> same_vol fs2 fs'"
    using Cons.prems q(3) k c2 by (intro Cons.IH [OF dn(2) _ len2]) auto
  then show ?case
    using rd dn ne q k same_vol_trans [OF sv2] c2(1) get_size_same [OF sv2] get_size_same [OF sv1]
    by (auto simp: add.assoc)
qed

lemma blocks_bound:
  assumes "fs_ok fs" and "\<forall>p \<in> set ps. ext_ok fs (entry_at fs p)"
  shows "unat (block_size fs) * card (blocks (entry_at fs) ps) \<le> length (host_file fs)"
proof -
  let ?bs = "unat (block_size fs)" and ?n = "length (host_file fs) div unat (block_size fs)"
  have pos: "0 < ?bs"
    using assms(1) by (auto simp: fs_ok_def entry_dev_ok_def dev_ok_def geom_ok_def)
  have "blocks (entry_at fs) ps \<subseteq> {0..<?n}"
  proof
    fix b assume "b \<in> blocks (entry_at fs) ps"
    then obtain p where p: "p \<in> set ps" "b \<le> unat (end_block (entry_at fs p))"
      by (auto simp: blocks_def ext_def)
    then have "Suc (unat (end_block (entry_at fs p))) * ?bs \<le> length (host_file fs)"
      using assms(2) by (simp add: ext_ok_def)
    then have "Suc (unat (end_block (entry_at fs p))) \<le> ?n"
      using pos by (simp only: less_eq_div_iff_mult_less_eq)
    then show "b \<in> {0..<?n}" using p(2) by simp
  qed
  then have "card (blocks (entry_at fs) ps) \<le> ?n" by (metis card_mono card_atLeastLessThan finite_atLeastLessThan minus_nat.diff_0)
  then have "card (blocks (entry_at fs) ps) * ?bs \<le> length (host_file fs)"
    using pos by (simp only: less_eq_div_iff_mult_less_eq)
  then show ?thesis by (simp only: mult.commute)
qed

lemma sum_sizes:
  assumes "fs_ok fs" and "distinct ps" and "\<forall>p \<in> set ps. ext_ok fs (entry_at fs p)"
    and "\<forall>p \<in> set ps. \<forall>q \<in> set ps. p \<noteq> q \<longrightarrow> ext (entry_at fs p) \<inter> ext (entry_at fs q) = {}"
  shows "unat (\<Sum>q \<leftarrow> ps. get_size fs (entry_at fs q))
       = unat (block_size fs) * card (blocks (entry_at fs) ps)"
  using assms
proof (induction ps)
  case (Cons p ps)
  let ?bs = "unat (block_size fs)"
  have ih: "unat (\<Sum>q \<leftarrow> ps. get_size fs (entry_at fs q)) = ?bs * card (blocks (entry_at fs) ps)"
    using Cons by auto
  have "ext (entry_at fs p) \<inter> blocks (entry_at fs) ps = {}"
    using Cons.prems(2,4) by (auto simp: blocks_def)
  then have c: "card (blocks (entry_at fs) (p # ps))
      = card (ext (entry_at fs p)) + card (blocks (entry_at fs) ps)"
    by (simp add: card_Un_disjoint)
  have g: "unat (get_size fs (entry_at fs p)) = ?bs * card (ext (entry_at fs p))"
    using ext_ok_bounds(4) [OF Cons.prems(1)] Cons.prems(3) by simp
  have len: "length (host_file fs) < 2 ^ 63"
    using Cons.prems(1) by (auto simp: fs_ok_def entry_dev_ok_def dev_ok_def geom_ok_def)
  have "?bs * card (blocks (entry_at fs) (p # ps)) \<le> length (host_file fs)"
    by (rule blocks_bound [OF Cons.prems(1,3)])
  then have "unat (get_size fs (entry_at fs p)) + unat (\<Sum>q \<leftarrow> ps. get_size fs (entry_at fs q)) < 2 ^ 64"
    using len unfolding g ih c by (simp add: distrib_left)
  then show ?case
    unfolding c list.map sum_list.Cons by (subst unat_add_small) (simp_all add: g ih distrib_left)
qed simp

lemma free_list_small:
  assumes "fs_ok fs" and "free_list fs ps"
  shows "length ps < unat (watchdog_init fs)" and "unat (watchdog_init fs) < 2 ^ 63" and "-1 \<notin> set ps"
    and "\<forall>p \<in> set ps. slot_valid fs p"
proof -
  note b = index_bounds [OF assms(1)]
  show "length ps < unat (watchdog_init fs)"
    using free_list_length [OF assms(2)] watchdog_init_ok [OF assms(1)] by simp
  show "unat (watchdog_init fs) < 2 ^ 63"
  proof -
    have "64 * index_size fs < 9223372036854775808" using b by simp
    then show ?thesis using watchdog_init_ok [OF assms(1)] by simp
  qed
  show v: "\<forall>p \<in> set ps. slot_valid fs p" using free_list_valid [OF assms] by blast
  have "length (host_file fs) < 2 ^ 63"
    using assms(1) by (auto simp: fs_ok_def entry_dev_ok_def dev_ok_def geom_ok_def)
  then have "\<not> slot_valid fs (-1)"
    using unat_minus_one_u64 by (auto simp: slot_valid_def)
  then show "-1 \<notin> set ps" using v by blast
qed

text \<open>The amount of free space is the size of the set of free blocks.\<close>

lemma scan_del_file_list_ok:
  assumes "fs_ok fs" and "free_ok fs ps" and "length e = 64"
  obtains r e' fs' where "scan_del_file_list fs e = (r, e', fs')" "length e' = 64" "fs_ok fs'"
    "same_vol (SET_ERRNO 0 fs) fs'"
    "unat r = unat (block_size fs) * card (blocks (entry_at fs) ps)"
proof -
  have fl: "free_list fs ps" using assms(2) by (simp add: free_ok_def)
  then obtain l where dp: "dpath (entry_at fs) 0 (del_begin fs) ps l 0" by (auto simp: free_list_def)
  note sm = free_list_small [OF assms(1) fl]
  obtain w e' fs' where lp: "sum_loop (unat (watchdog_init fs)) fs e (del_begin fs) 0
      = (Inr (w, 0 + (\<Sum>q \<leftarrow> ps. get_size fs (entry_at fs q))), e', fs')" "w \<noteq> 0" "length e' = 64" "fs_ok fs'"
    "same_vol fs fs'"
    using sum_loop_ok [OF assms(1) dp assms(3) sm(4) sm(1,2,3), of 0] by blast
  have "same_vol (SET_ERRNO 0 fs) (SET_ERRNO 0 fs')"
    by (rule same_vol_errno [OF lp(5)])
  then show ?thesis
    using that [of "\<Sum>q \<leftarrow> ps. get_size fs (entry_at fs q)" e' "SET_ERRNO 0 fs'"] lp sum_sizes [OF assms(1)]
      free_list_distinct [OF fl] assms(2)
    by (simp add: scan_del_file_list_def free_ok_def)
qed

text \<open>A list that runs into a cycle.  \<open>free_link fs k\<close> is the address the walk has reached after \<open>k\<close>
  links; when two of them are equal the walk visits only the nodes in front of the second one, for
  ever, and is cut off by the watchdog, which then holds \<open>UINT64_MAX\<close> and not 0.\<close>

definition free_link :: "fs \<Rightarrow> nat \<Rightarrow> u64" where
  "free_link fs k = ((\<lambda>p. NEXT_DEL (entry_at fs p)) ^^ k) (del_begin fs)"

lemma free_link_simps [simp]:
  "free_link fs 0 = del_begin fs"
  "free_link fs (Suc k) = NEXT_DEL (entry_at fs (free_link fs k))"
  by (simp_all add: free_link_def)

lemma free_link_shift:
  assumes "free_link fs i = free_link fs j"
  shows "free_link fs (i + n) = free_link fs (j + n)"
  using assms by (induction n) simp_all

lemma free_link_cycle:
  assumes "i < j" and "free_link fs j = free_link fs i"
  shows "\<exists>m < j. free_link fs k = free_link fs m"
proof (induction k)
  case (Suc k)
  then obtain m where m: "m < j" "free_link fs k = free_link fs m" by blast
  then have "free_link fs (Suc k) = free_link fs (Suc m)" by simp
  with m(1) assms show ?case
    by (cases "Suc m = j") (metis, metis Suc_lessI)
qed (use assms in \<open>auto intro: exI [of _ 0]\<close>)

lemma slot_valid_not_end:
  assumes "fs_ok fs" shows "\<not> slot_valid fs (-1)"
proof -
  have "length (host_file fs) < 2 ^ 63"
    using assms by (auto simp: fs_ok_def entry_dev_ok_def dev_ok_def geom_ok_def)
  then show ?thesis using unat_minus_one_u64 by (auto simp: slot_valid_def)
qed

lemma sum_loop_links:
  assumes "fs_ok fs" and "length e = 64"
    and "\<forall>i \<le> n + k. slot_valid fs (free_link fs i) \<and> free_link fs i \<noteq> 0"
  shows "\<exists>e' fs'. sum_loop k fs e (free_link fs n) sz
      = (Inr (-1, sz + (\<Sum>i \<leftarrow> [n..<n + k]. get_size fs (entry_at fs (free_link fs i)))), e', fs')
      \<and> length e' = 64 \<and> fs_ok fs' \<and> same_vol fs fs'"
  using assms
proof (induction k arbitrary: fs e n sz)
  case 0
  then show ?case by (auto simp: watchdog_exit_def)
next
  case (Suc k)
  let ?p = "entry_at fs (free_link fs n)" and ?q = "entry_at fs (free_link fs (Suc n))"
  have v: "slot_valid fs (free_link fs n)" "free_link fs n \<noteq> 0" "slot_valid fs (free_link fs (Suc n))"
    "free_link fs (Suc n) \<noteq> 0"
    using Suc.prems(3)[rule_format, of n] Suc.prems(3)[rule_format, of "Suc n"] by auto
  have lp: "length ?p = 64" "length ?q = 64" by (rule length_entry_at [OF v(1)] length_entry_at [OF v(3)])+
  obtain fs1 where rd: "read_entry fs (free_link fs n) e = (64, ?p, fs1)" and ok1: "fs_ok fs1" and sv1: "same_vol fs fs1"
    by (rule read_entry_fs [OF Suc.prems(1) v(1) Suc.prems(2)])
  note c1 = same_vol_cong [OF sv1]
  obtain fs2 where nx: "del_next fs1 ?p = (free_link fs (Suc n), ?q, fs2)" and ok2: "fs_ok fs2" and sv2: "same_vol fs1 fs2"
  proof (rule del_next_ok [OF ok1 lp(1)])
    show "NEXT_DEL ?p = 0 \<or> slot_valid fs1 (NEXT_DEL ?p)" using v(3) c1 by simp
  qed (use v c1 in auto)
  have sv: "same_vol fs fs2" using sv1 sv2 by (rule same_vol_trans)
  note c = same_vol_cong [OF sv]
  have fl: "free_link fs2 i = free_link fs i" for i
    by (induction i) (simp_all add: c same_vol_sel(3) [OF sv])
  have at: "entry_at fs2 x = entry_at fs x" "get_size fs2 = get_size fs" for x
    using c get_size_same [OF sv] by (simp_all add: fun_eq_iff)
  obtain e' fs' where "sum_loop k fs2 ?q (free_link fs (Suc n)) (sz + get_size fs ?p)
      = (Inr (-1, (sz + get_size fs ?p) + (\<Sum>i \<leftarrow> [Suc n..<Suc n + k]. get_size fs (entry_at fs (free_link fs i)))), e', fs')"
    "length e' = 64" "fs_ok fs'" "same_vol fs2 fs'"
    using Suc.IH [of fs2 ?q "Suc n" "sz + get_size fs ?p"] ok2 Suc.prems lp unfolding fl at
    by (auto simp: c simp del: free_link_simps(2))
  moreover have "[n..<n + Suc k] = n # [Suc n..<Suc n + k]" by (simp add: upt_rec)
  ultimately show ?case
    using rd nx v slot_valid_not_end [OF Suc.prems(1)] same_vol_trans [OF sv] get_size_same [OF sv1]
    by (auto simp: Let_def add.assoc simp del: free_link_simps(2))
qed

end
