(* ===== verification/ExtentOps.thy ===== *)
theory ExtentOps
  imports ExtentList
begin

text \<open>
  The operations on the list of free extents refine operations on the set of free blocks:
  allocation takes blocks out of the set, freeing puts them in, and the entries outside the list
  stay as they are.
\<close>

section \<open>Reading and changing one entry\<close>

lemma modify_entry:
  assumes "fs_ok fs" and "slot_valid fs q" and "length e = 64" and "length (f (entry_at fs q)) = 64"
  obtains fs1 fs' where "read_entry fs q e = (64, entry_at fs q, fs1)"
    "write_entry fs1 q (f (entry_at fs q)) = (64, fs')" "fs_ok fs1" "same_vol fs fs1" "fs_ok fs'"
    "vol_upd fs ((entry_at fs)(q := f (entry_at fs q))) fs'"
proof -
  obtain fs1 where r: "read_entry fs q e = (64, entry_at fs q, fs1)" "fs_ok fs1" and sv: "same_vol fs fs1"
    by (rule read_entry_fs [OF assms(1-3)])
  have v: "slot_valid fs1 q" using assms(2) same_vol_cong(2) [OF sv] by simp
  obtain fs' where w: "write_entry fs1 q (f (entry_at fs q)) = (64, fs')" "fs_ok fs'"
    "vol_upd fs1 ((entry_at fs1)(q := f (entry_at fs q))) fs'"
    by (rule write_entry_fs [OF r(2) v assms(4)])
  show ?thesis
    using that [OF r(1) w(1) r(2) sv w(2)] vol_upd_same [OF sv w(3)] same_vol_cong(1) [OF sv] by simp
qed

section \<open>Removing an extent from the list\<close>

definition unlinked :: "(u64 \<Rightarrow> entry) \<Rightarrow> u64 \<Rightarrow> u64 \<Rightarrow> entry" where
  "unlinked at p =
     (let prev = PREV_DEL (at p); nxt = NEXT_DEL (at p);
          at1 = (if prev \<noteq> 0 then at(prev := set_NEXT_DEL nxt (at prev)) else at);
          at2 = (if nxt \<noteq> 0 then at1(nxt := set_PREV_DEL prev (at1 nxt)) else at1)
      in at2(p := set_entry_type (entry_code UNUSED_ENTRY) (at2 p)))"

lemma del_file_list_remove_run:
  assumes ok: "fs_ok fs" and p: "slot_valid fs p" and len: "length e = 64"
    and pv: "PREV_DEL (entry_at fs p) = 0 \<or> slot_valid fs (PREV_DEL (entry_at fs p))"
    and nv: "NEXT_DEL (entry_at fs p) = 0 \<or> slot_valid fs (NEXT_DEL (entry_at fs p))"
  obtains e' fs' where "del_file_list_remove fs p e = (0, e', fs')" "length e' = 64" "fs_ok fs'"
    "vol_to fs (unlinked (entry_at fs) p)
       (if PREV_DEL (entry_at fs p) = 0 then NEXT_DEL (entry_at fs p) else del_begin fs) fs'"
proof -
  let ?at = "entry_at fs"
  let ?prev = "PREV_DEL (?at p)" and ?nxt = "NEXT_DEL (?at p)"
  let ?at1 = "if ?prev \<noteq> 0 then ?at(?prev := set_NEXT_DEL ?nxt (?at ?prev)) else ?at"
  let ?b1 = "if ?prev = 0 then ?nxt else del_begin fs"
  let ?at2 = "if ?nxt \<noteq> 0 then ?at1(?nxt := set_PREV_DEL ?prev (?at1 ?nxt)) else ?at1"
  obtain fs0 where rd: "read_entry fs p e = (64, ?at p, fs0)" "fs_ok fs0" and sv0: "same_vol fs fs0"
    by (rule read_entry_fs [OF ok p len])
  note c0 = same_vol_cong [OF sv0]
  have lp: "length (?at p) = 64" by (rule length_entry_at [OF p])
  obtain e1 fs1 where s1: "(if ?prev \<noteq> 0 then
                   (case read_entry fs0 ?prev (?at p) of
                      (_, entr, fs) \<Rightarrow>
                        let entr = set_NEXT_DEL ?nxt entr in
                        (case write_entry fs ?prev entr of (_, fs) \<Rightarrow> (entr, fs)))
                 else (?at p, fs0\<lparr>del_begin := ?nxt\<rparr>)) = (e1, fs1)"
    "length e1 = 64" "fs_ok fs1" and v1: "vol_to fs ?at1 ?b1 fs1"
  proof (cases "?prev = 0")
    case True
    then show ?thesis
      using that [of "?at p" "fs0\<lparr>del_begin := ?nxt\<rparr>"] lp rd(2)
        vol_to_same [OF sv0 vol_to_head] c0(1) by simp
  next
    case False
    then have pv0: "slot_valid fs0 ?prev" using pv c0(2) by auto
    have l: "length (set_NEXT_DEL ?nxt (entry_at fs0 ?prev)) = 64"
      using length_entry_at [OF pv0] by simp
    obtain fsa fsb where m: "read_entry fs0 ?prev (?at p) = (64, entry_at fs0 ?prev, fsa)"
      "write_entry fsa ?prev (set_NEXT_DEL ?nxt (entry_at fs0 ?prev)) = (64, fsb)" "fs_ok fsb"
      "vol_upd fs0 ((entry_at fs0)(?prev := set_NEXT_DEL ?nxt (entry_at fs0 ?prev))) fsb"
      by (rule modify_entry [OF rd(2) pv0 lp, of "set_NEXT_DEL ?nxt"]) (use l in auto)
    then show ?thesis
      using that [of "set_NEXT_DEL ?nxt (entry_at fs0 ?prev)" fsb] False l
        vol_upd_same [OF sv0 m(4)] c0(1) by (simp add: vol_upd_to Let_def)
  qed
  obtain e2 fs2 where s2: "(if ?nxt \<noteq> 0 then
                   (case read_entry fs1 ?nxt e1 of
                      (_, entr, fs) \<Rightarrow>
                        let entr = set_PREV_DEL ?prev entr in
                        (case write_entry fs ?nxt entr of (_, fs) \<Rightarrow> (entr, fs)))
                 else (e1, fs1)) = (e2, fs2)"
    "length e2 = 64" "fs_ok fs2" and v2: "vol_to fs ?at2 ?b1 fs2"
  proof (cases "?nxt = 0")
    case True
    then show ?thesis using that [of e1 fs1] s1 v1 by simp
  next
    case False
    then have nv1: "slot_valid fs1 ?nxt" using nv vol_to_sel(2) [OF v1] by auto
    have l: "length (set_PREV_DEL ?prev (entry_at fs1 ?nxt)) = 64"
      using length_entry_at [OF nv1] by simp
    obtain fsa fsb where m: "read_entry fs1 ?nxt e1 = (64, entry_at fs1 ?nxt, fsa)"
      "write_entry fsa ?nxt (set_PREV_DEL ?prev (entry_at fs1 ?nxt)) = (64, fsb)" "fs_ok fsb"
      "vol_upd fs1 ((entry_at fs1)(?nxt := set_PREV_DEL ?prev (entry_at fs1 ?nxt))) fsb"
      by (rule modify_entry [OF s1(3) nv1 s1(2), of "set_PREV_DEL ?prev"]) (use l in auto)
    then show ?thesis
      using that [of "set_PREV_DEL ?prev (entry_at fs1 ?nxt)" fsb] False l
        vol_to_upd [OF v1 m(4)] vol_to_sel(1) [OF v1] by (simp add: Let_def)
  qed
  have sv2: "slot_valid fs2 (p + 64 * word_of_nat j)" if "j < 1" for j
    using that p vol_to_sel(2) [OF v2] by simp
  obtain e3 fs3 where f: "free_entry fs2 e2 p (int 1) = (0, e3, fs3)" "length e3 = 64" "fs_ok fs3"
    "vol_upd fs2 (free_slots p 1 (entry_at fs2)) fs3"
    by (rule free_entry_ok [OF s2(3) sv2 s2(2)])
  have fr: "free_slots p 1 at = at(p := set_entry_type (entry_code UNUSED_ENTRY) (at p))" for at
    by (simp add: free_slots_Suc [of p 0, simplified])
  have "unlinked ?at p = free_slots p 1 (entry_at fs2)"
    unfolding fr vol_to_sel(1) [OF v2] unlinked_def Let_def ..
  moreover have "del_file_list_remove fs p e = (0, e3, fs3)"
    unfolding del_file_list_remove_def Let_def
    by (simp only: rd(1) prod.case s1(1) [unfolded Let_def] s2(1) [unfolded Let_def]
        f(1) [unfolded of_nat_1])
  ultimately show ?thesis
    using that f vol_to_upd [OF v2 f(4)] by simp
qed

lemma free_list_split:
  assumes "fs_ok fs" and "free_list fs (xs @ p # ys)"
  shows "PREV_DEL (entry_at fs p) = (if xs = [] then 0 else last xs)"
    and "NEXT_DEL (entry_at fs p) = (if ys = [] then 0 else hd ys)"
    and "p \<noteq> 0" and "0 \<notin> set (xs @ ys)"
    and "\<exists>l. dpath (entry_at fs) 0 (del_begin fs) xs (PREV_DEL (entry_at fs p)) p
       \<and> dpath (entry_at fs) p (NEXT_DEL (entry_at fs p)) ys l 0"
proof -
  obtain l where "dpath (entry_at fs) 0 (del_begin fs) (xs @ p # ys) l 0"
    using assms(2) by (auto simp: free_list_def)
  then have d: "dpath (entry_at fs) 0 (del_begin fs) xs (PREV_DEL (entry_at fs p)) p"
    "dpath (entry_at fs) p (NEXT_DEL (entry_at fs p)) ys l 0"
    by (auto simp: dpath_append)
  show "PREV_DEL (entry_at fs p) = (if xs = [] then 0 else last xs)"
    using dpath_last [OF d(1)] by simp
  show "NEXT_DEL (entry_at fs p) = (if ys = [] then 0 else hd ys)"
    using d(2) by (cases ys) auto
  show "p \<noteq> 0" "0 \<notin> set (xs @ ys)"
    using free_list_valid(2) [OF assms] by auto
  show "\<exists>l. dpath (entry_at fs) 0 (del_begin fs) xs (PREV_DEL (entry_at fs p)) p
       \<and> dpath (entry_at fs) p (NEXT_DEL (entry_at fs p)) ys l 0"
    using d by blast
qed

text \<open>What removing \<open>p\<close> leaves of each entry.\<close>

lemma unlinked_entries:
  assumes ok: "fs_ok fs" and fl: "free_list fs (xs @ p # ys)"
  shows "q \<in> set (xs @ ys) \<Longrightarrow> start_block (unlinked (entry_at fs) p q) = start_block (entry_at fs q)
      \<and> end_block (unlinked (entry_at fs) p q) = end_block (entry_at fs q)
      \<and> entry_type (unlinked (entry_at fs) p q) = entry_type (entry_at fs q)
      \<and> cont_entries (unlinked (entry_at fs) p q) = cont_entries (entry_at fs q)"
    and "q \<notin> set (xs @ p # ys) \<Longrightarrow> unlinked (entry_at fs) p q = entry_at fs q"
    and "q \<in> set (xs @ ys) \<Longrightarrow> PREV_DEL (unlinked (entry_at fs) p q)
      = (if ys \<noteq> [] \<and> q = hd ys then PREV_DEL (entry_at fs p) else PREV_DEL (entry_at fs q))"
    and "q \<in> set (xs @ ys) \<Longrightarrow> NEXT_DEL (unlinked (entry_at fs) p q)
      = (if xs \<noteq> [] \<and> q = last xs then NEXT_DEL (entry_at fs p) else NEXT_DEL (entry_at fs q))"
    and "entry_type (unlinked (entry_at fs) p p) = entry_code UNUSED_ENTRY"
proof -
  let ?at = "entry_at fs"
  note sp = free_list_split [OF ok fl]
  have dist: "distinct (xs @ p # ys)" by (rule free_list_distinct [OF fl])
  have len: "length (?at q) = 64" if "q \<in> set (xs @ p # ys)" for q
    using free_list_valid(3) [OF ok fl that] .
  have lx: "xs \<noteq> [] \<Longrightarrow> last xs \<in> set xs \<and> last xs \<notin> set ys \<and> last xs \<noteq> p \<and> last xs \<noteq> 0"
    using dist sp(4) by (cases xs rule: rev_cases) auto
  have ly: "ys \<noteq> [] \<Longrightarrow> hd ys \<in> set ys \<and> hd ys \<notin> set xs \<and> hd ys \<noteq> p \<and> hd ys \<noteq> 0"
    using dist sp(4) by (cases ys) auto
  note lp = lx ly
  have ne: "xs \<noteq> [] \<Longrightarrow> last xs \<noteq> 0" "ys \<noteq> [] \<Longrightarrow> hd ys \<noteq> 0"
    "xs \<noteq> [] \<Longrightarrow> ys \<noteq> [] \<Longrightarrow> last xs \<noteq> hd ys" "xs \<noteq> [] \<Longrightarrow> last xs \<noteq> p" "ys \<noteq> [] \<Longrightarrow> hd ys \<noteq> p"
    using lp by auto
  have eq: "unlinked ?at p q =
      (if q = p then set_entry_type (entry_code UNUSED_ENTRY) (?at p)
       else if xs \<noteq> [] \<and> q = last xs then set_NEXT_DEL (NEXT_DEL (?at p)) (?at q)
       else if ys \<noteq> [] \<and> q = hd ys then set_PREV_DEL (PREV_DEL (?at p)) (?at q)
       else ?at q)" for q
    unfolding unlinked_def Let_def sp(1,2) using ne by (cases xs; cases ys) auto
  { assume q: "q \<in> set (xs @ ys)"
    then have l: "length (?at q) = 64" "q \<noteq> p" using len dist by auto
    show "start_block (unlinked ?at p q) = start_block (?at q)
        \<and> end_block (unlinked ?at p q) = end_block (?at q)
        \<and> entry_type (unlinked ?at p q) = entry_type (?at q)
        \<and> cont_entries (unlinked ?at p q) = cont_entries (?at q)"
      unfolding eq using l by (auto simp: layout_simps simp del: One_nat_def)
    show "PREV_DEL (unlinked ?at p q)
        = (if ys \<noteq> [] \<and> q = hd ys then PREV_DEL (?at p) else PREV_DEL (?at q))"
      unfolding eq using l ne by (auto simp: layout_simps)
    show "NEXT_DEL (unlinked ?at p q)
        = (if xs \<noteq> [] \<and> q = last xs then NEXT_DEL (?at p) else NEXT_DEL (?at q))"
      unfolding eq using l ne by (auto simp: layout_simps) }
  { assume "q \<notin> set (xs @ p # ys)"
    then show "unlinked ?at p q = ?at q" unfolding eq using lp by auto }
  show "entry_type (unlinked ?at p p) = entry_code UNUSED_ENTRY"
    unfolding eq using len [of p] by (simp add: layout_simps)
qed

lemma free_list_unlinked:
  assumes ok: "fs_ok fs" and fl: "free_list fs (xs @ p # ys)"
    and up: "vol_to fs (unlinked (entry_at fs) p)
       (if PREV_DEL (entry_at fs p) = 0 then NEXT_DEL (entry_at fs p) else del_begin fs) fs'"
  shows "free_list fs' (xs @ ys)"
proof -
  let ?at = "entry_at fs" and ?at' = "unlinked (entry_at fs) p"
  note sp = free_list_split [OF ok fl] and un = unlinked_entries [OF ok fl]
  obtain l where dx: "dpath ?at 0 (del_begin fs) xs (PREV_DEL (?at p)) p"
    and dy: "dpath ?at p (NEXT_DEL (?at p)) ys l 0" using sp(5) by blast
  have dist: "distinct (xs @ p # ys)" by (rule free_list_distinct [OF fl])
  have px: "dpath ?at' 0 (if xs = [] then NEXT_DEL (?at p) else del_begin fs) xs (PREV_DEL (?at p)) (NEXT_DEL (?at p))"
  proof (cases xs rule: rev_cases)
    case Nil
    then show ?thesis using sp(1) by simp
  next
    case (snoc us u)
    have h: "ys \<noteq> [] \<Longrightarrow> hd ys \<notin> set xs" using dist by (cases ys) auto
    have same: "PREV_DEL (?at' q) = PREV_DEL (?at q)" if "q \<in> set xs" for q
      using un(3) [of q] that h by auto
    have next_same: "NEXT_DEL (?at' q) = NEXT_DEL (?at q)" if "q \<in> set us" for q
      using un(4) [of q] that snoc dist by auto
    have "dpath ?at' 0 (del_begin fs) (us @ [u]) u (NEXT_DEL (?at p))"
    proof (rule dpath_new_next)
      show "dpath ?at 0 (del_begin fs) (us @ [u]) u p" using dx sp(1) snoc by simp
      show "u \<notin> set us" using dist snoc by auto
      show "NEXT_DEL (?at' u) = NEXT_DEL (?at p)" using un(4) [of u] snoc by simp
    qed (use same next_same snoc in auto)
    then show ?thesis using sp(1) snoc by simp
  qed
  have py: "\<exists>l'. dpath ?at' (PREV_DEL (?at p)) (NEXT_DEL (?at p)) ys l' 0"
  proof (cases ys)
    case Nil
    then show ?thesis using sp(2) by simp
  next
    case (Cons y vs)
    then have n: "NEXT_DEL (?at p) = y" using sp(2) by simp
    have h: "xs \<noteq> [] \<Longrightarrow> last xs \<notin> set ys" using dist by (cases xs rule: rev_cases) auto
    have same: "NEXT_DEL (?at' q) = NEXT_DEL (?at q)" if "q \<in> set ys" for q
      using un(4) [of q] that h by auto
    have prev_same: "PREV_DEL (?at' q) = PREV_DEL (?at q)" if "q \<in> set vs" for q
      using un(3) [of q] that Cons dist by auto
    have "dpath ?at' (PREV_DEL (?at p)) y (y # vs) l 0"
    proof (rule dpath_new_prev)
      show "dpath ?at p y (y # vs) l 0" using dy Cons n by simp
      show "y \<notin> set vs" using dist Cons by auto
      show "PREV_DEL (?at' y) = PREV_DEL (?at p)" using un(3) [of y] Cons by simp
    qed (use same prev_same Cons in auto)
    then show ?thesis using Cons n by blast
  qed
  have head: "(if PREV_DEL (?at p) = 0 then NEXT_DEL (?at p) else del_begin fs)
      = (if xs = [] then NEXT_DEL (?at p) else del_begin fs)"
    using sp(1,4) by (cases xs rule: rev_cases) auto
  have "\<exists>l. dpath ?at' 0 (if xs = [] then NEXT_DEL (?at p) else del_begin fs) (xs @ ys) l 0"
    using px py unfolding dpath_append by blast
  moreover have "set (xs @ ys) \<subseteq> set (index_offs fs)" using fl by (simp add: free_list_def)
  moreover have "\<forall>q \<in> set (xs @ ys). entry_type (?at' q) = entry_code DEL_FILE_ENTRY"
    using un(1) fl by (simp add: free_list_def)
  ultimately show ?thesis
    unfolding free_list_def vol_to_sel [OF up] head by blast
qed

section \<open>The state of the list\<close>

lemma vol_to_length:
  assumes "fs_ok fs" and "fs_ok fs'" and "vol_to fs at b fs'"
  shows "length (host_file fs') = length (host_file fs)"
proof -
  have "rest fs' = (rest fs)\<lparr>del_begin := b\<rparr>" using assms(3) by (simp add: vol_to_def)
  then have "bdev_size fs' = bdev_size fs"
    by (drule_tac arg_cong [of _ _ bdev_size]) (simp add: rest_def)
  moreover have "unat (bdev_size f) = length (host_file f)" if "fs_ok f" for f
    using that by (simp add: fs_ok_def entry_dev_ok_def dev_ok_def geom_ok_def)
  ultimately show ?thesis using assms(1,2) by metis
qed

lemma free_ok_transfer:
  assumes "fs_ok fs" and "fs_ok fs'" and "vol_to fs at b fs'" and "free_list fs' ps'"
    and "\<And>q. q \<in> set ps' \<Longrightarrow> ext_ok fs (at q)"
    and "\<And>p q. p \<in> set ps' \<Longrightarrow> q \<in> set ps' \<Longrightarrow> p \<noteq> q \<Longrightarrow> ext (at p) \<inter> ext (at q) = {}"
  shows "free_ok fs' ps'"
  using assms(4-6) vol_to_length [OF assms(1-3)] vol_to_sel [OF assms(3)]
  by (simp add: free_ok_def ext_ok_def)

text \<open>\<open>list_step fs ps fs' ps'\<close>: the list operation took \<open>fs\<close> with the list \<open>ps\<close> to \<open>fs'\<close> with the list
  \<open>ps'\<close>; entries outside both lists, and everything else of the volume, are as before.\<close>

definition bare :: "(u64 \<Rightarrow> entry) \<Rightarrow> u64 list \<Rightarrow> bool" where
  "bare at ps \<longleftrightarrow> (\<forall>p \<in> set ps. cont_entries (at p) = 0)"

definition list_step :: "fs \<Rightarrow> u64 list \<Rightarrow> fs \<Rightarrow> u64 list \<Rightarrow> bool" where
  "list_step fs ps fs' ps' \<longleftrightarrow> fs_ok fs' \<and> free_ok fs' ps'
     \<and> (\<exists>at b. vol_to fs at b fs') \<and> (\<forall>q. q \<notin> set ps \<union> set ps' \<longrightarrow> entry_at fs' q = entry_at fs q)
     \<and> (\<forall>q \<in> set ps - set ps'. entry_type (entry_at fs' q) = entry_code UNUSED_ENTRY)
     \<and> (bare (entry_at fs) ps \<longrightarrow> bare (entry_at fs') ps')"

lemma list_step_refl:
  "fs_ok fs' \<Longrightarrow> free_ok fs ps \<Longrightarrow> same_vol fs fs' \<Longrightarrow> list_step fs ps fs' ps"
  using vol_to_refl [of fs fs'] same_vol_cong(1) [of fs fs'] free_ok_same_vol [of fs fs' ps]
  unfolding list_step_def by auto

lemma ext_ok_cong:
  "start_block e = start_block e' \<Longrightarrow> end_block e = end_block e' \<Longrightarrow> ext_ok fs e = ext_ok fs e' \<and> ext e = ext e'"
  by (simp add: ext_ok_def ext_def)

lemma list_step_same_vol: "same_vol fs fs1 \<Longrightarrow> list_step fs1 ps fs' ps' \<Longrightarrow> list_step fs ps fs' ps'"
  using vol_to_same [of fs fs1] same_vol_cong(1) [of fs fs1] unfolding list_step_def by fastforce

lemma blocks_cong:
  "(\<And>q. q \<in> set ps \<Longrightarrow> ext (at' q) = ext (at q)) \<Longrightarrow> blocks at' ps = blocks at ps"
  by (simp add: blocks_def)

lemma blocks_split: "p \<in> set ps \<Longrightarrow> ext (at p) \<subseteq> blocks at ps"
  by (auto simp: blocks_def)

lemma blocks_minus:
  assumes "free_ok fs (xs @ p # ys)"
  shows "blocks (entry_at fs) (xs @ ys) = blocks (entry_at fs) (xs @ p # ys) - ext (entry_at fs p)"
proof -
  have fl: "free_list fs (xs @ p # ys)" using assms by (simp add: free_ok_def)
  have "ext (entry_at fs q) \<inter> ext (entry_at fs p) = {}" if "q \<in> set (xs @ ys)" for q
    using that assms free_list_distinct [OF fl] unfolding free_ok_def by auto
  then show ?thesis by (auto simp: blocks_def)
qed

text \<open>Removing an extent takes its blocks out of the set.\<close>

lemma del_file_list_remove_ok:
  assumes ok: "fs_ok fs" and fr: "free_ok fs (xs @ p # ys)" and len: "length e = 64"
  obtains e' fs' where "del_file_list_remove fs p e = (0, e', fs')" "length e' = 64"
    "list_step fs (xs @ p # ys) fs' (xs @ ys)"
    "blocks (entry_at fs') (xs @ ys) = blocks (entry_at fs) (xs @ p # ys) - ext (entry_at fs p)"
    "\<forall>q \<in> set (xs @ ys). ext (entry_at fs' q) = ext (entry_at fs q)"
proof -
  have fl: "free_list fs (xs @ p # ys)" using fr by (simp add: free_ok_def)
  note sp = free_list_split [OF ok fl] and un = unlinked_entries [OF ok fl]
  have valid: "q \<in> set (xs @ p # ys) \<Longrightarrow> slot_valid fs q" for q by (rule free_list_valid(1) [OF ok fl])
  have pv: "PREV_DEL (entry_at fs p) = 0 \<or> slot_valid fs (PREV_DEL (entry_at fs p))"
    unfolding sp(1) using valid by (cases xs rule: rev_cases) auto
  have nv: "NEXT_DEL (entry_at fs p) = 0 \<or> slot_valid fs (NEXT_DEL (entry_at fs p))"
    unfolding sp(2) using valid by (cases ys) auto
  obtain e' fs' where r: "del_file_list_remove fs p e = (0, e', fs')" "length e' = 64" "fs_ok fs'"
    and up: "vol_to fs (unlinked (entry_at fs) p)
       (if PREV_DEL (entry_at fs p) = 0 then NEXT_DEL (entry_at fs p) else del_begin fs) fs'"
    by (rule del_file_list_remove_run [OF ok valid len pv nv]) auto
  have same: "ext (unlinked (entry_at fs) p q) = ext (entry_at fs q)"
    "ext_ok fs (unlinked (entry_at fs) p q) = ext_ok fs (entry_at fs q)" if "q \<in> set (xs @ ys)" for q
    using un(1) [OF that] ext_ok_cong by blast+
  have fl': "free_list fs' (xs @ ys)" by (rule free_list_unlinked [OF ok fl up])
  have fr': "free_ok fs' (xs @ ys)"
    by (rule free_ok_transfer [OF ok r(3) up fl']) (use same fr in \<open>auto simp: free_ok_def\<close>)
  note at' = vol_to_sel(1) [OF up]
  have step: "list_step fs (xs @ p # ys) fs' (xs @ ys)"
    unfolding list_step_def at' using r(3) fr' up un(1,2,5) free_list_distinct [OF fl]
    by (auto simp: bare_def simp del: One_nat_def)
  have "blocks (entry_at fs') (xs @ ys) = blocks (entry_at fs) (xs @ ys)"
    unfolding at' using same(1) by (rule blocks_cong)
  then show ?thesis using that [OF r(1,2) step] blocks_minus [OF fr] same(1) at' by simp
qed

section \<open>Changing an extent in place\<close>

text \<open>An entry of the list gets other bounds; the links stay.\<close>

lemma rebound_ok:
  assumes ok: "fs_ok fs" and fr: "free_ok fs ps" and p: "p \<in> set ps"
    and ok': "fs_ok fs'" and up: "vol_upd fs ((entry_at fs)(p := e')) fs'"
    and links: "PREV_DEL e' = PREV_DEL (entry_at fs p)" "NEXT_DEL e' = NEXT_DEL (entry_at fs p)"
      "entry_type e' = entry_type (entry_at fs p)" "cont_entries e' = cont_entries (entry_at fs p)"
    and e': "ext_ok fs e'" "\<And>q. q \<in> set ps \<Longrightarrow> q \<noteq> p \<Longrightarrow> ext (entry_at fs q) \<inter> ext e' = {}"
  shows "list_step fs ps fs' ps"
    and "blocks (entry_at fs') ps = (blocks (entry_at fs) ps - ext (entry_at fs p)) \<union> ext e'"
proof -
  let ?at' = "(entry_at fs)(p := e')"
  have up': "vol_to fs ?at' (del_begin fs) fs'" using up by (simp add: vol_upd_to)
  have fl: "free_list fs ps" and eo: "\<forall>q \<in> set ps. ext_ok fs (entry_at fs q)"
    and dj: "\<forall>p \<in> set ps. \<forall>q \<in> set ps. p \<noteq> q \<longrightarrow> ext (entry_at fs p) \<inter> ext (entry_at fs q) = {}"
    using fr by (auto simp: free_ok_def)
  have "dpath ?at' 0 b ps l 0 = dpath (entry_at fs) 0 b ps l 0" for b l
    using links by (intro dpath_cong) auto
  then have fl': "free_list fs' ps"
    using fl links(3) p unfolding free_list_def vol_to_sel [OF up'] by auto
  have fr': "free_ok fs' ps"
    by (rule free_ok_transfer [OF ok ok' up' fl']) (use eo dj e' p in \<open>auto simp: Int_commute\<close>)
  then show "list_step fs ps fs' ps"
    unfolding list_step_def using ok' up' vol_to_sel(1) [OF up'] p links(4)
    by (auto simp: bare_def simp del: One_nat_def)
  have "blocks ?at' ps = (blocks (entry_at fs) ps - ext (entry_at fs p)) \<union> ext e'"
    using p dj by (fastforce simp: blocks_def split: if_splits)
  then show "blocks (entry_at fs') ps = (blocks (entry_at fs) ps - ext (entry_at fs p)) \<union> ext e'"
    using vol_to_sel(1) [OF up'] by simp
qed

text \<open>The first \<open>n\<close> blocks of an extent are taken.\<close>

lemma trim_step:
  assumes ok: "fs_ok fs" and fr: "free_ok fs ps" and p: "p \<in> set ps"
    and n: "0 < unat n" "unat n < card (ext (entry_at fs p))" and ok': "fs_ok fs'"
    and up: "vol_upd fs ((entry_at fs)(p := set_start_block (start_block (entry_at fs p) + n) (entry_at fs p))) fs'"
  shows "list_step fs ps fs' ps"
    and "blocks (entry_at fs') ps
       = blocks (entry_at fs) ps - {unat (start_block (entry_at fs p)) ..< unat (start_block (entry_at fs p)) + unat n}"
proof -
  let ?e = "entry_at fs p"
  let ?e' = "set_start_block (start_block ?e + n) ?e"
  have fl: "free_list fs ps" using fr by (simp add: free_ok_def)
  note v = free_list_valid [OF ok fl p]
  have eo: "ext_ok fs ?e" using fr p by (simp add: free_ok_def)
  have dj: "\<And>q. q \<in> set ps \<Longrightarrow> q \<noteq> p \<Longrightarrow> ext (entry_at fs q) \<inter> ext ?e = {}"
    using fr p by (auto simp: free_ok_def)
  have b: "0 < unat (start_block ?e)" "unat (start_block ?e) \<le> unat (end_block ?e)"
    "unat (end_block ?e) < 2 ^ 63 - 1"
    using eo ext_ok_bounds(1) [OF ok eo] by (auto simp: ext_ok_def)
  have card: "card (ext ?e) = unat (end_block ?e) - unat (start_block ?e) + 1"
    using b by (simp add: ext_def)
  have u: "unat (start_block ?e + n) = unat (start_block ?e) + unat n"
    using b n card by (subst unat_add_small) auto
  have f: "start_block ?e' = start_block ?e + n" "end_block ?e' = end_block ?e"
    "PREV_DEL ?e' = PREV_DEL ?e" "NEXT_DEL ?e' = NEXT_DEL ?e" "entry_type ?e' = entry_type ?e"
    "cont_entries ?e' = cont_entries ?e"
    using v(3) by (simp_all add: layout_simps del: One_nat_def)
  have ext': "ext ?e' = ext ?e - {unat (start_block ?e) ..< unat (start_block ?e) + unat n}"
    unfolding ext_def f u by auto
  have eo': "ext_ok fs ?e'" using eo b n card unfolding ext_ok_def f u by auto
  have dj': "ext (entry_at fs q) \<inter> ext ?e' = {}" if "q \<in> set ps" "q \<noteq> p" for q
    using dj [OF that] ext' by auto
  note rb = rebound_ok [OF ok fr p ok' up f(3,4,5,6) eo' dj']
  have "ext ?e \<subseteq> blocks (entry_at fs) ps" using blocks_split [OF p] .
  moreover have "{unat (start_block ?e) ..< unat (start_block ?e) + unat n} \<subseteq> ext ?e"
    using n card b by (auto simp: ext_def)
  ultimately show "blocks (entry_at fs') ps
      = blocks (entry_at fs) ps - {unat (start_block ?e) ..< unat (start_block ?e) + unat n}"
    using rb(2) ext' by blast
  show "list_step fs ps fs' ps" by (rule rb(1))
qed

lemma trim_ok:
  assumes ok: "fs_ok fs" and fr: "free_ok fs ps" and p: "p \<in> set ps" and len: "length e = 64"
    and n: "0 < unat n" "unat n < card (ext (entry_at fs p))"
  obtains fs1 fs' where "read_entry fs p e = (64, entry_at fs p, fs1)" "same_vol fs fs1"
    "write_entry fs1 p (set_start_block (start_block (entry_at fs p) + n) (entry_at fs p)) = (64, fs')"
    "length (set_start_block (start_block (entry_at fs p) + n) (entry_at fs p)) = 64"
    "list_step fs ps fs' ps"
    "blocks (entry_at fs') ps
       = blocks (entry_at fs) ps - {unat (start_block (entry_at fs p)) ..< unat (start_block (entry_at fs p)) + unat n}"
proof -
  let ?e' = "set_start_block (start_block (entry_at fs p) + n) (entry_at fs p)"
  have fl: "free_list fs ps" using fr by (simp add: free_ok_def)
  note v = free_list_valid [OF ok fl p]
  have len': "length ?e' = 64" using v(3) by simp
  obtain fs1 fs' where m: "read_entry fs p e = (64, entry_at fs p, fs1)" "write_entry fs1 p ?e' = (64, fs')"
    "fs_ok fs1" "same_vol fs fs1" "fs_ok fs'" "vol_upd fs ((entry_at fs)(p := ?e')) fs'"
    by (rule modify_entry [OF ok v(1) len, of "\<lambda>_. ?e'"]) (use len' in auto)
  show ?thesis by (rule that [OF m(1,4,2) len' trim_step [OF ok fr p n m(5,6)]])
qed

section \<open>Allocating blocks\<close>

definition needed :: "fs \<Rightarrow> u64 \<Rightarrow> nat" where
  "needed fs sz = (unat sz + (unat (block_size fs) - 1)) div unat (block_size fs)"

lemma block_size_bounds:
  assumes "fs_ok fs"
  shows "0 < unat (block_size fs)" and "unat (block_size fs) < 2 ^ 63"
proof -
  have g: "0 < unat (block_size fs)" "unat (block_size fs) dvd length (host_file fs)"
    "length (host_file fs) < 2 ^ 63" "0 < length (host_file fs)"
    using assms by (auto simp: fs_ok_def entry_dev_ok_def dev_ok_def geom_ok_def)
  show "0 < unat (block_size fs)" by (rule g(1))
  have "unat (block_size fs) \<le> length (host_file fs)" using g(2,4) by (rule dvd_imp_le)
  with g(3) show "unat (block_size fs) < 2 ^ 63" by linarith
qed

lemma get_real_size_ok:
  assumes "fs_ok fs" and "unat sz < 2 ^ 63"
  shows "unat (get_real_size fs sz) = unat (block_size fs) * needed fs sz"
    and "get_real_size fs sz div block_size fs = word_of_nat (needed fs sz)"
    and "unat (word_of_nat (needed fs sz) :: u64) = needed fs sz"
    and "0 < unat sz \<Longrightarrow> 0 < needed fs sz"
    and "unat sz \<le> unat (block_size fs) * needed fs sz"
proof -
  let ?bs = "unat (block_size fs)"
  note b = block_size_bounds [OF assms(1)]
  obtain m where m: "?bs = Suc m" using b(1) by (cases ?bs) auto
  have nd: "needed fs sz = unat sz div ?bs + (if unat sz mod ?bs = 0 then 0 else 1)"
  proof -
    have eq: "unat sz + m = unat sz div Suc m * Suc m + (unat sz mod Suc m + m)"
      using div_mult_mod_eq [of "unat sz" "Suc m"] by linarith
    have lt: "unat sz mod Suc m < Suc m" by simp
    have "(unat sz + m) div Suc m = unat sz div Suc m + (unat sz mod Suc m + m) div Suc m"
      unfolding eq by (rule div_mult_self3) simp
    also have "(unat sz mod Suc m + m) div Suc m = (if unat sz mod Suc m = 0 then 0 else 1)"
      using less_SucI [OF lt] by (auto intro!: div_nat_eqI)
    finally show ?thesis unfolding needed_def m by simp
  qed
  have z: "sz mod block_size fs = 0 \<longleftrightarrow> unat sz mod ?bs = 0"
    by (simp add: word_unat_eq_iff unat_mod)
  have le: "unat sz div ?bs \<le> unat sz" by (rule div_le_dividend)
  have w: "unat (sz div block_size fs + (if sz mod block_size fs \<noteq> 0 then 1 else 0)) = needed fs sz"
  proof -
    have "unat sz div ?bs < 9223372036854775808" using le assms(2) by (rule_tac le_less_trans) simp_all
    then show ?thesis unfolding nd using z by (subst unat_add_small) (auto simp: unat_div)
  qed
  have bound: "?bs * needed fs sz < 2 ^ 64"
  proof -
    have "?bs * needed fs sz = ?bs * ((unat sz + (?bs - 1)) div ?bs)" by (simp add: needed_def)
    also have "\<dots> \<le> unat sz + (?bs - 1)" by (rule times_div_less_eq_dividend)
    also have "\<dots> < 2 ^ 63 + 2 ^ 63" using assms(2) b(2) by linarith
    finally show ?thesis by simp
  qed
  show u: "unat (get_real_size fs sz) = ?bs * needed fs sz"
    unfolding get_real_size_def using w bound by (subst unat_mult_small) simp_all
  show s: "unat (word_of_nat (needed fs sz) :: u64) = needed fs sz"
    by (simp flip: w)
  have "unat (get_real_size fs sz div block_size fs) = needed fs sz"
    unfolding unat_div u using b(1) by simp
  then show "get_real_size fs sz div block_size fs = word_of_nat (needed fs sz)"
    by (simp flip: \<open>unat (_ div _) = _\<close>)
  show "0 < unat sz \<Longrightarrow> 0 < needed fs sz" unfolding nd using b(1)
    by (cases "unat sz div ?bs = 0") (auto simp: div_eq_0_iff)
  have dm: "unat sz = ?bs * (unat sz div ?bs) + unat sz mod ?bs" by simp
  have "unat sz mod ?bs \<le> ?bs" using b(1) by (intro less_imp_le mod_less_divisor)
  then have "unat sz mod ?bs \<le> ?bs * (if unat sz mod ?bs = 0 then 0 else 1)" by simp
  then show "unat sz \<le> ?bs * needed fs sz"
    unfolding nd distrib_left using dm by linarith
qed

text \<open>The search for the largest extent, as a fold over the list.\<close>

definition max_step :: "fs \<Rightarrow> (u64 \<Rightarrow> entry) \<Rightarrow> u64 \<times> u64 \<Rightarrow> u64 \<Rightarrow> u64 \<times> u64" where
  "max_step fs at acc q = (if get_size fs (at q) > fst acc then (get_size fs (at q), q) else acc)"

lemma max_loop_ok:
  assumes "fs_ok fs" and "dpath (entry_at fs) pr off qs l 0" and "length e = 64"
    and "\<forall>q \<in> set qs. slot_valid fs q" and "length qs < k" and "k < 2 ^ 63"
  shows "\<exists>w e' fs'. max_loop k fs e off m me
        = (Some (w, foldl (max_step fs (entry_at fs)) (m, me) qs), e', fs')
      \<and> w \<noteq> 0 \<and> length e' = 64 \<and> fs_ok fs' \<and> same_vol fs fs'"
  using assms
proof (induction qs arbitrary: fs e off k m me pr)
  case Nil
  then obtain j where k: "k = Suc j" by (cases k) auto
  have "(word_of_nat (Suc j) :: u64) \<noteq> 0"
    using Nil.prems(6) unfolding k by (simp add: word_of_nat_eq_0_iff nat_dvd_not_less del: of_nat_Suc)
  then show ?case using Nil k by (auto simp: watchdog_exit_def)
next
  case (Cons q qs)
  then obtain j where k: "k = Suc j" by (cases k) auto
  let ?e = "entry_at fs q"
  have q: "off = q" "q \<noteq> 0" "dpath (entry_at fs) q (NEXT_DEL ?e) qs l 0" using Cons.prems(2) by auto
  have valid: "slot_valid fs q" using Cons.prems(4) by simp
  obtain fs1 where rd: "read_entry fs q e = (64, ?e, fs1)" "fs_ok fs1" and sv1: "same_vol fs fs1"
    by (rule read_entry_fs [OF Cons.prems(1) valid Cons.prems(3)])
  have len: "length ?e = 64" by (rule length_entry_at [OF valid])
  have nv: "NEXT_DEL ?e = 0 \<or> slot_valid fs1 (NEXT_DEL ?e)"
    using dpath_next_valid [OF q(3), of fs] Cons.prems(4) same_vol_cong(2) [OF sv1] by auto
  obtain fs2 where dn: "del_next fs1 ?e
      = (NEXT_DEL ?e, if NEXT_DEL ?e = 0 then ?e else entry_at fs1 (NEXT_DEL ?e), fs2)"
    "fs_ok fs2" and sv2': "same_vol fs1 fs2"
    by (rule del_next_ok [OF rd(2) len nv])
  let ?e2 = "if NEXT_DEL ?e = 0 then ?e else entry_at fs1 (NEXT_DEL ?e)"
  have sv2: "same_vol fs fs2" by (rule same_vol_trans [OF sv1 sv2'])
  note c2 = same_vol_cong [OF sv2]
  have len2: "length ?e2 = 64" using len nv by (auto simp: length_entry_at)
  have st: "max_step fs2 = max_step fs"
    using get_size_same [OF sv2] by (simp add: max_step_def fun_eq_iff)
  have ih: "\<exists>w e' fs'. max_loop j fs2 ?e2 (NEXT_DEL ?e) m2 me2
        = (Some (w, foldl (max_step fs2 (entry_at fs2)) (m2, me2) qs), e', fs')
      \<and> w \<noteq> 0 \<and> length e' = 64 \<and> fs_ok fs' \<and> same_vol fs2 fs'" for m2 me2
    using Cons.prems q(3) k c2 by (intro Cons.IH [OF dn(2) _ len2]) auto
  have nxt: "max_step fs (entry_at fs) (m, me) q
      = (if get_size fs1 ?e > m then (get_size fs1 ?e, off) else (m, me))"
    using q(1) get_size_same [OF sv1] by (simp add: max_step_def)
  obtain m2 me2 where acc: "(if get_size fs1 ?e > m then (get_size fs1 ?e, off) else (m, me)) = (m2, me2)"
    by (metis surj_pair)
  have step: "max_loop k fs e off m me = max_loop j fs2 ?e2 (NEXT_DEL ?e) m2 me2"
    unfolding k using rd q(1,2) dn acc by (auto simp: Let_def split: if_splits)
  show ?case
    using ih [of m2 me2] step nxt acc st c2(1) same_vol_trans [OF sv2] by auto
qed

lemma max_fold:
  "foldl (max_step fs at) (m, me) qs = (m', me') \<Longrightarrow>
     m \<le> m' \<and> (\<forall>q \<in> set qs. get_size fs (at q) \<le> m')
     \<and> ((m', me') = (m, me) \<or> me' \<in> set qs \<and> get_size fs (at me') = m')"
proof (induction qs arbitrary: m me)
  case (Cons q qs)
  obtain a b where ab: "max_step fs at (m, me) q = (a, b)" by (metis surj_pair)
  have "foldl (max_step fs at) (a, b) qs = (m', me')" using Cons.prems ab by simp
  note ih = Cons.IH [OF this]
  show ?case
  proof (cases "get_size fs (at q) > m")
    case True
    then have "a = get_size fs (at q)" "b = q" using ab by (auto simp: max_step_def)
    with ih True show ?thesis by auto
  next
    case False
    then have "a = m" "b = me" using ab by (simp_all add: max_step_def)
    moreover have "get_size fs (at q) \<le> m'" using ih False calculation by auto
    ultimately show ?thesis using ih by auto
  qed
qed simp

text \<open>An entry that leaves the list becomes an unused slot of the index.\<close>

lemma list_step_unused:
  assumes "free_list fs ps" and "list_step fs ps fs' ps'" and "q \<in> set ps" and "q \<notin> set ps'"
  shows "\<exists>i. unused fs' i"
proof -
  obtain at b where up: "vol_to fs at b fs'" using assms(2) by (auto simp: list_step_def)
  have "q \<in> set (index_offs fs)" using assms(1,3) by (auto simp: free_list_def)
  then obtain i where i: "i < index_size fs" "q = index_off fs i" by (auto simp: index_offs_def)
  moreover have "entry_type (entry_at fs' q) = entry_code UNUSED_ENTRY" using assms(2-4) by (simp add: list_step_def)
  ultimately have "unused fs' i" using vol_to_sel(8,9) [OF up] by (simp add: unused_def)
  then show ?thesis ..
qed

text \<open>Allocation: either no extent is large enough and nothing changes, or the blocks come from the
  free set and are no longer in it. Then either the rest of the extent they were taken from starts
  right behind them, or there was no rest and its index slot is unused now.\<close>

lemma del_file_list_alloc_ok:
  assumes ok: "fs_ok fs" and fr: "free_ok fs ps" and len: "length e = 64"
    and sz: "0 < unat sz" "unat sz < 2 ^ 63"
  obtains (full) e' fs' where "del_file_list_alloc fs e sz = (0, e', fs')" "length e' = 64" "fs_ok fs'"
      "same_vol (SET_ERRNO ENOSPC fs) fs'"
      "\<forall>p \<in> set ps. card (ext (entry_at fs p)) < needed fs sz"
  | (taken) r e' fs' ps' where "del_file_list_alloc fs e sz = (r, e', fs')" "length e' = 64"
      "list_step fs ps fs' ps'" "set ps' \<subseteq> set ps" "0 < unat r"
      "{unat r ..< unat r + needed fs sz} \<subseteq> blocks (entry_at fs) ps"
      "blocks (entry_at fs') ps' = blocks (entry_at fs) ps - {unat r ..< unat r + needed fs sz}"
      "unat r + needed fs sz \<in> blocks (entry_at fs') ps' \<or> (\<exists>i. unused fs' i)"
proof -
  let ?bs = "unat (block_size fs)" and ?n = "needed fs sz"
  have fl: "free_list fs ps" using fr by (simp add: free_ok_def)
  then obtain l where dp: "dpath (entry_at fs) 0 (del_begin fs) ps l 0" by (auto simp: free_list_def)
  note sm = free_list_small [OF ok fl] and rs = get_real_size_ok [OF ok sz(2)]
  have bpos: "0 < ?bs" and npos: "0 < ?n" using block_size_bounds [OF ok] rs(4) sz by auto
  obtain w m me e1 fs1 where ml: "max_loop (unat (watchdog_init fs)) fs e (del_begin fs) 0 (del_begin fs)
      = (Some (w, m, me), e1, fs1)" "w \<noteq> 0" "length e1 = 64" "fs_ok fs1" "same_vol fs fs1"
    and fo: "foldl (max_step fs (entry_at fs)) (0, del_begin fs) ps = (m, me)"
    using max_loop_ok [OF ok dp len sm(4,1,2), of 0 "del_begin fs"] by (metis surj_pair)
  note mf = max_fold [OF fo] and c1 = same_vol_cong [OF ml(5)] and s1 = same_vol_sel [OF ml(5)]
  have gs: "unat (get_size fs (entry_at fs p)) = ?bs * card (ext (entry_at fs p))" if "p \<in> set ps" for p
    using ext_ok_bounds(4) [OF ok] fr that by (simp add: free_ok_def)
  show ?thesis
  proof (cases "get_real_size fs sz > m")
    case True
    have "card (ext (entry_at fs p)) < ?n" if "p \<in> set ps" for p
    proof -
      have "unat (get_size fs (entry_at fs p)) \<le> unat m" using mf that by (simp add: word_le_nat_alt)
      moreover have "unat m < ?bs * ?n" using True rs(1) by (simp add: word_less_nat_alt)
      ultimately have "?bs * card (ext (entry_at fs p)) < ?bs * ?n" using gs [OF that] by linarith
      then show ?thesis by simp
    qed
    then show ?thesis
      using ml True same_vol_errno [OF ml(5)]
      by (intro full [of e1 "SET_ERRNO ENOSPC fs1"]) (simp_all add: del_file_list_alloc_def)
  next
    case False
    have "0 < unat (get_real_size fs sz)" unfolding rs(1) using bpos npos by simp
    then have "m \<noteq> 0" using False by (auto simp: word_less_nat_alt)
    then have me: "me \<in> set ps" "get_size fs (entry_at fs me) = m" using mf by auto
    have fr1: "free_ok fs1 ps" using free_ok_same_vol [OF ml(5)] fr by simp
    have um: "unat m = ?bs * card (ext (entry_at fs me))" using gs [OF me(1)] me(2) by simp
    let ?s = "start_block (entry_at fs me)"
    have eo: "ext_ok fs (entry_at fs me)" using fr me(1) by (simp add: free_ok_def)
    have es: "0 < unat ?s" "unat ?s \<le> unat (end_block (entry_at fs me))" using eo by (auto simp: ext_ok_def)
    have ce: "card (ext (entry_at fs me)) = unat (end_block (entry_at fs me)) - unat ?s + 1"
      using es by (simp add: ext_def)
    show ?thesis
    proof (cases "get_real_size fs sz = m")
      case exact: True
      have n: "?n = card (ext (entry_at fs me))" using exact rs(1) um bpos by simp
      have all: "{unat ?s ..< unat ?s + ?n} = ext (entry_at fs me)"
        unfolding n ce ext_def using es by auto
      obtain xs ys where ps: "ps = xs @ me # ys" using me(1) by (meson split_list)
      have v: "slot_valid fs1 me" using free_list_valid(1) [OF ok fl me(1)] c1(2) by simp
      obtain fs2 where rd: "read_entry fs1 me e1 = (64, entry_at fs1 me, fs2)" "fs_ok fs2" "same_vol fs1 fs2"
        by (rule read_entry_fs [OF ml(4) v ml(3)])
      have sv2: "same_vol fs fs2" by (rule same_vol_trans [OF ml(5) rd(3)])
      have fr2: "free_ok fs2 (xs @ me # ys)" using free_ok_same_vol [OF sv2] fr ps by simp
      obtain e3 fs3 where rm: "del_file_list_remove fs2 me (entry_at fs1 me) = (0, e3, fs3)" "length e3 = 64"
        "list_step fs2 (xs @ me # ys) fs3 (xs @ ys)"
        "blocks (entry_at fs3) (xs @ ys) = blocks (entry_at fs2) (xs @ me # ys) - ext (entry_at fs2 me)"
        by (rule del_file_list_remove_ok [OF rd(2) fr2 length_entry_at [OF v]])
      have "del_file_list_alloc fs e sz = (?s, e3, fs3)"
        using ml exact rd(1) rm(1) c1(1) by (simp add: del_file_list_alloc_def)
      moreover have "list_step fs ps fs3 (xs @ ys)"
        using list_step_same_vol [OF sv2 rm(3)] ps by simp
      moreover have "blocks (entry_at fs3) (xs @ ys) = blocks (entry_at fs) ps - {unat ?s ..< unat ?s + ?n}"
        unfolding rm(4) all same_vol_cong(1) [OF sv2] ps ..
      moreover have "{unat ?s ..< unat ?s + ?n} \<subseteq> blocks (entry_at fs) ps"
        unfolding all by (rule blocks_split [OF me(1)])
      moreover have "\<exists>i. unused fs3 i"
        using list_step_unused [OF fl calculation(2) me(1)] free_list_distinct [OF fl] ps by simp
      ultimately show ?thesis using rm(2) es(1) ps by (intro taken) auto
    next
      case more: False
      have lt: "?n < card (ext (entry_at fs me))"
      proof -
        have "get_real_size fs sz < m" using False more by (simp add: not_less order.strict_iff_order)
        then have "?bs * ?n < ?bs * card (ext (entry_at fs me))" using rs(1) um by (simp add: word_less_nat_alt)
        then show ?thesis by simp
      qed
      have un: "unat (word_of_nat ?n :: u64) = ?n" by (rule rs(3))
      obtain fs2 fs3 where tr: "read_entry fs1 me e1 = (64, entry_at fs1 me, fs2)" "same_vol fs1 fs2"
        "write_entry fs2 me (set_start_block (start_block (entry_at fs1 me) + word_of_nat ?n) (entry_at fs1 me)) = (64, fs3)"
        "length (set_start_block (start_block (entry_at fs1 me) + word_of_nat ?n) (entry_at fs1 me)) = 64"
        "list_step fs1 ps fs3 ps"
        "blocks (entry_at fs3) ps = blocks (entry_at fs1) ps
           - {unat (start_block (entry_at fs1 me)) ..< unat (start_block (entry_at fs1 me)) + unat (word_of_nat ?n :: u64)}"
        by (rule trim_ok [OF ml(4) fr1 me(1) ml(3), of "word_of_nat ?n"]) (use un npos lt c1 in auto)
      have bs2: "block_size fs2 = block_size fs" using same_vol_sel(5) [OF tr(2)] s1(5) by simp
      have "del_file_list_alloc fs e sz
          = (?s, set_start_block (?s + word_of_nat ?n) (entry_at fs me), fs3)"
        using ml False more tr(1,3) c1(1) rs(2) bs2 by (simp add: del_file_list_alloc_def Let_def)
      moreover have "{unat ?s ..< unat ?s + ?n} \<subseteq> ext (entry_at fs me)" "unat ?s + ?n \<in> ext (entry_at fs me)"
        using lt ce es by (auto simp: ext_def)
      then have "{unat ?s ..< unat ?s + ?n} \<subseteq> blocks (entry_at fs) ps" "unat ?s + ?n \<in> blocks (entry_at fs3) ps"
        using blocks_split [OF me(1)] tr(6) c1(1) un by auto
      ultimately show ?thesis
        using tr(4,6) list_step_same_vol [OF ml(5) tr(5)] c1(1) un es(1) by (intro taken) auto
    qed
  qed
qed

end
