(* ===== verification/ExtentAdd.thy ===== *)
theory ExtentAdd
  imports ExtentOps
begin

text \<open>
  Freeing blocks: \<open>del_file_list_add\<close> adds an extent to the set of free blocks, merging it with
  the extents it touches. The walk over the list looks for the one that ends before the new
  extent and the one that starts after it.
\<close>

section \<open>The search for neighbours\<close>

definition touches_prev :: "(u64 \<Rightarrow> entry) \<Rightarrow> u64 \<Rightarrow> u64 \<Rightarrow> bool" where
  "touches_prev at s q \<longleftrightarrow> end_block (at q) + 1 = s"

definition touches_next :: "(u64 \<Rightarrow> entry) \<Rightarrow> u64 \<Rightarrow> u64 \<Rightarrow> bool" where
  "touches_next at e q \<longleftrightarrow> start_block (at q) - 1 = e"

definition pick :: "(u64 \<Rightarrow> bool) \<Rightarrow> u64 list \<Rightarrow> u64 \<Rightarrow> u64" where
  "pick P qs d = (case List.find P qs of None \<Rightarrow> d | Some q \<Rightarrow> q)"

lemma pick_simps [simp]:
  "pick P [] d = d" "pick P (q # qs) d = (if P q then q else pick P qs d)"
  by (simp_all add: pick_def)

lemma pick_none: "\<forall>q \<in> set qs. \<not> P q \<Longrightarrow> pick P qs d = d"
  by (induction qs) auto

definition once :: "(u64 \<Rightarrow> bool) \<Rightarrow> u64 list \<Rightarrow> bool" where
  "once P qs \<longleftrightarrow> (\<forall>p \<in> set qs. \<forall>q \<in> set qs. P p \<longrightarrow> P q \<longrightarrow> p = q)"

lemma once_Cons: "once P (q # qs) \<Longrightarrow> once P qs"
  by (auto simp: once_def)

lemma add_loop_ok:
  assumes "fs_ok fs" and "dpath (entry_at fs) pr off qs l 0" and "length entr = 64"
    and "off \<noteq> 0 \<longrightarrow> entr = entry_at fs off"
    and "\<forall>q \<in> set qs. slot_valid fs q" and "length qs < k" and "k < 2 ^ 63" and "-1 \<notin> set qs"
    and "distinct qs" and "once (touches_prev (entry_at fs) s) qs" and "once (touches_next (entry_at fs) e) qs"
    and "\<forall>q \<in> set qs. \<not> (touches_prev (entry_at fs) s q \<and> touches_next (entry_at fs) e q)"
    and "prev = 0 \<or> (\<forall>q \<in> set qs. \<not> touches_prev (entry_at fs) s q)"
    and "nxt = 0 \<or> (\<forall>q \<in> set qs. \<not> touches_next (entry_at fs) e q)"
  shows "\<exists>w e' fs'. add_loop k fs entr s e off prev nxt
        = (False, w, pick (touches_prev (entry_at fs) s) qs prev, pick (touches_next (entry_at fs) e) qs nxt, e', fs')
      \<and> w \<noteq> 0 \<and> length e' = 64 \<and> fs_ok fs' \<and> same_vol fs fs'"
  using assms
proof (induction qs arbitrary: fs entr off k prev nxt pr)
  case Nil
  then obtain j where k: "k = Suc j" by (cases k) auto
  have "(word_of_nat (Suc j) :: u64) \<noteq> 0"
    using Nil.prems(7) unfolding k by (simp add: word_of_nat_eq_0_iff nat_dvd_not_less del: of_nat_Suc)
  then show ?case using Nil.prems k by (auto simp: watchdog_exit_def)
next
  case (Cons q qs)
  then obtain j where k: "k = Suc j" by (cases k) auto
  let ?e = "entry_at fs q"
  have q: "off = q" "q \<noteq> 0" "dpath (entry_at fs) q (NEXT_DEL ?e) qs l 0" using Cons.prems(2) by auto
  have entr: "entr = ?e" using Cons.prems(4) q by simp
  have valid: "slot_valid fs q" using Cons.prems(5) by simp
  have len: "length ?e = 64" by (rule length_entry_at [OF valid])
  have nv: "NEXT_DEL ?e = 0 \<or> slot_valid fs (NEXT_DEL ?e)"
    using dpath_next_valid [OF q(3), of fs] Cons.prems(5) by auto
  obtain fs2 where dn: "del_next fs ?e
      = (NEXT_DEL ?e, if NEXT_DEL ?e = 0 then ?e else entry_at fs (NEXT_DEL ?e), fs2)"
    "fs_ok fs2" and sv2: "same_vol fs fs2"
    by (rule del_next_ok [OF Cons.prems(1) len nv])
  let ?e2 = "if NEXT_DEL ?e = 0 then ?e else entry_at fs (NEXT_DEL ?e)"
  note c2 = same_vol_cong [OF sv2]
  have len2: "length ?e2 = 64" using len nv by (auto simp: length_entry_at)
  have ne: "NEXT_DEL ?e \<noteq> -1" using q(3) Cons.prems(8) by (cases qs) auto
  have q_in: "q \<notin> set qs" using Cons.prems(9) by simp
  have j: "length qs < j" "0 < j" "j < 2 ^ 63" using Cons.prems(6,7) k by auto
  have jw: "(word_of_nat j :: u64) \<noteq> 0"
    using j by (simp add: word_of_nat_eq_0_iff nat_dvd_not_less)
  have onces: "once (touches_prev (entry_at fs) s) qs" "once (touches_next (entry_at fs) e) qs"
    using Cons.prems(10,11) once_Cons by blast+
  have ih: "\<exists>w e' fs'. add_loop j fs2 ?e2 s e (NEXT_DEL ?e) p2 n2
        = (False, w, pick (touches_prev (entry_at fs2) s) qs p2, pick (touches_next (entry_at fs2) e) qs n2, e', fs')
      \<and> w \<noteq> 0 \<and> length e' = 64 \<and> fs_ok fs' \<and> same_vol fs2 fs'"
    if "p2 = 0 \<or> (\<forall>q \<in> set qs. \<not> touches_prev (entry_at fs) s q)"
      and "n2 = 0 \<or> (\<forall>q \<in> set qs. \<not> touches_next (entry_at fs) e q)" for p2 n2
    using Cons.prems q(3) c2 j onces that by (intro Cons.IH [OF dn(2) _ len2]) auto
  show ?case
  proof (cases "touches_prev (entry_at fs) s q")
    case True
    then have no_more: "\<forall>r \<in> set qs. \<not> touches_prev (entry_at fs) s r"
      using Cons.prems(10) q_in unfolding once_def by auto
    have nn: "nxt = 0 \<or> (\<forall>q \<in> set qs. \<not> touches_next (entry_at fs) e q)"
      using Cons.prems(14) by auto
    obtain w e' fs' where "add_loop j fs2 ?e2 s e (NEXT_DEL ?e) q nxt
        = (False, w, pick (touches_prev (entry_at fs2) s) qs q, pick (touches_next (entry_at fs2) e) qs nxt, e', fs')"
      "w \<noteq> 0" "length e' = 64" "fs_ok fs'" "same_vol fs2 fs'"
      using ih [of q nxt] no_more nn by blast
    then show ?thesis
      using True Cons.prems(12) q entr dn k c2(1) same_vol_trans [OF sv2] pick_none [OF no_more]
      by (auto simp: touches_prev_def [of _ _ q] Let_def)
  next
    case False
    let ?n2 = "if touches_next (entry_at fs) e q then q else nxt"
    have p2: "prev = 0 \<or> (\<forall>q \<in> set qs. \<not> touches_prev (entry_at fs) s q)"
      using Cons.prems(13) by auto
    have n2: "?n2 = 0 \<or> (\<forall>q \<in> set qs. \<not> touches_next (entry_at fs) e q)"
      using Cons.prems(11,14) q_in unfolding once_def by auto
    have pickn: "pick (touches_next (entry_at fs) e) (q # qs) nxt = pick (touches_next (entry_at fs) e) qs ?n2"
      using n2 q(2) by (auto simp: pick_none)
    show ?thesis
    proof (cases "prev \<noteq> 0 \<and> ?n2 \<noteq> 0")
      case True
      then have "pick (touches_prev (entry_at fs) s) qs prev = prev"
        "pick (touches_next (entry_at fs) e) qs ?n2 = ?n2"
        using p2 n2 pick_none by blast+
      moreover have "add_loop k fs entr s e off prev nxt = (False, word_of_nat j, prev, ?n2, ?e2, fs2)"
        unfolding k entr using False True q dn(1) ne
        by (auto simp: touches_prev_def touches_next_def Let_def split: if_splits)
      ultimately show ?thesis
        using False pickn jw len2 dn(2) sv2 by simp
    next
      case go: False
      obtain w e' fs' where "add_loop j fs2 ?e2 s e (NEXT_DEL ?e) prev ?n2
          = (False, w, pick (touches_prev (entry_at fs2) s) qs prev, pick (touches_next (entry_at fs2) e) qs ?n2, e', fs')"
        "w \<noteq> 0" "length e' = 64" "fs_ok fs'" "same_vol fs2 fs'"
        using ih [OF p2 n2] by blast
      moreover have "add_loop k fs entr s e off prev nxt = add_loop j fs2 ?e2 s e (NEXT_DEL ?e) prev ?n2"
        unfolding k entr using False go q dn(1) ne
        by (auto simp: touches_prev_def touches_next_def Let_def split: if_splits)
      ultimately show ?thesis
        using False pickn c2(1) same_vol_trans [OF sv2] by simp
    qed
  qed
qed

section \<open>A new extent at the head\<close>

definition pushed :: "(u64 \<Rightarrow> entry) \<Rightarrow> u64 \<Rightarrow> u64 \<Rightarrow> entry \<Rightarrow> u64 \<Rightarrow> entry" where
  "pushed at b new e =
     (let at1 = at(new := e) in if b \<noteq> 0 then at1(b := set_PREV_DEL new (at1 b)) else at1)"

lemma free_list_pushed:
  assumes ok: "fs_ok fs" and fl: "free_list fs ps" and new: "new \<in> set (index_offs fs)" "new \<notin> set ps"
    and up: "vol_to fs (pushed (entry_at fs) (del_begin fs) new e) new fs'"
    and e: "entry_type e = entry_code DEL_FILE_ENTRY" "PREV_DEL e = 0" "NEXT_DEL e = del_begin fs"
  shows "free_list fs' (new # ps)"
    and "pushed (entry_at fs) (del_begin fs) new e new = e"
    and "\<And>q. q \<in> set ps \<Longrightarrow> start_block (pushed (entry_at fs) (del_begin fs) new e q) = start_block (entry_at fs q)
      \<and> end_block (pushed (entry_at fs) (del_begin fs) new e q) = end_block (entry_at fs q)
      \<and> cont_entries (pushed (entry_at fs) (del_begin fs) new e q) = cont_entries (entry_at fs q)"
    and "\<And>q. q \<notin> set (new # ps) \<Longrightarrow> pushed (entry_at fs) (del_begin fs) new e q = entry_at fs q"
proof -
  let ?at = "entry_at fs" and ?b = "del_begin fs"
  let ?at' = "pushed ?at ?b new e"
  obtain l where dp: "dpath ?at 0 ?b ps l 0" using fl by (auto simp: free_list_def)
  have hb: "?b \<noteq> 0 \<Longrightarrow> ?b \<in> set ps" "?b = 0 \<Longrightarrow> ps = []" using dp by (cases ps; auto)+
  have nb: "new \<noteq> ?b" using new(2) hb in_index_offs [OF ok new(1)] by auto
  have len: "q \<in> set ps \<Longrightarrow> length (?at q) = 64" for q by (rule free_list_valid(3) [OF ok fl])
  have eq: "?at' q = (if q = new then e else if q = ?b \<and> ?b \<noteq> 0 then set_PREV_DEL new (?at q) else ?at q)" for q
    using nb by (auto simp: pushed_def Let_def)
  show "?at' new = e" unfolding eq by simp
  show same: "start_block (?at' q) = start_block (?at q) \<and> end_block (?at' q) = end_block (?at q)
      \<and> cont_entries (?at' q) = cont_entries (?at q)"
    if "q \<in> set ps" for q
    unfolding eq using that new(2) len [OF that] by (auto simp: layout_simps simp del: One_nat_def)
  show "?at' q = ?at q" if "q \<notin> set (new # ps)" for q
    unfolding eq using that hb by auto
  have nl: "NEXT_DEL (?at' q) = NEXT_DEL (?at q)" if "q \<in> set ps" for q
    unfolding eq using that new(2) len [OF that] by (auto simp: layout_simps)
  have ty: "entry_type (?at' q) = entry_type (?at q)" if "q \<in> set ps" for q
    unfolding eq using that new(2) len [OF that] by (auto simp: layout_simps)
  have "\<exists>l. dpath ?at' new ?b ps l 0"
  proof (cases ps)
    case Nil
    then show ?thesis using dp by simp
  next
    case (Cons p qs)
    then have p: "?b = p" "p \<noteq> 0" using dp by auto
    have dist: "distinct ps" by (rule free_list_distinct [OF fl])
    have "dpath ?at' new p (p # qs) l 0"
    proof (rule dpath_new_prev)
      show "dpath ?at 0 p (p # qs) l 0" using dp Cons p by simp
      show "p \<notin> set qs" using dist Cons by simp
      show "PREV_DEL (?at' p) = new" unfolding eq using p nb len [of p] Cons by (simp add: layout_simps)
      show "NEXT_DEL (?at' p) = NEXT_DEL (?at p)" using nl Cons by simp
      show "PREV_DEL (?at' q) = PREV_DEL (?at q) \<and> NEXT_DEL (?at' q) = NEXT_DEL (?at q)" if "q \<in> set qs" for q
        using that nl [of q] new(2) dist Cons p unfolding eq by auto
    qed
    then show ?thesis using Cons p by auto
  qed
  then have "\<exists>l. dpath ?at' 0 new (new # ps) l 0"
    using e in_index_offs [OF ok new(1)] \<open>?at' new = e\<close> by simp
  then show "free_list fs' (new # ps)"
    unfolding free_list_def vol_to_sel [OF up] using fl new(1) ty e(1) \<open>?at' new = e\<close>
    by (auto simp: free_list_def)
qed

lemma put_name_patch:
  assumes "p + length (cstr s) < length e"
  shows "put_name p s e = patch p (cstr s @ [0]) e"
  using assms by (simp add: put_name_def strcpy_eq mem_put_def patch_def add.commute)

lemma cstr_free_label [simp]: "cstr free_label = free_label"
  by (intro cstr_id) (simp add: free_label_def)

text \<open>The entry \<open>del_file_list_add\<close> writes for a new extent.\<close>

definition free_entry_bytes :: "u64 \<Rightarrow> u64 \<Rightarrow> u64 \<Rightarrow> entry \<Rightarrow> entry" where
  "free_entry_bytes b s e entr =
     put_name 34 free_label (set_end_block e (set_start_block s (set_NEXT_DEL b (set_PREV_DEL 0
       (set_cont_entries 0 (set_entry_type (entry_code DEL_FILE_ENTRY) entr))))))"

lemma free_entry_bytes_fields:
  assumes "length entr = 64"
  shows "length (free_entry_bytes b s e entr) = 64"
    and "entry_type (free_entry_bytes b s e entr) = entry_code DEL_FILE_ENTRY"
    and "PREV_DEL (free_entry_bytes b s e entr) = 0" and "NEXT_DEL (free_entry_bytes b s e entr) = b"
    and "start_block (free_entry_bytes b s e entr) = s" and "end_block (free_entry_bytes b s e entr) = e"
    and "cont_entries (free_entry_bytes b s e entr) = 0"
proof -
  let ?e = "set_end_block e (set_start_block s (set_NEXT_DEL b (set_PREV_DEL 0
       (set_cont_entries 0 (set_entry_type (entry_code DEL_FILE_ENTRY) entr)))))"
  have len: "length ?e = 64" using assms by simp
  have l5: "length free_label = 5" by (simp add: free_label_def)
  have f: "free_entry_bytes b s e entr = patch 34 (free_label @ [0]) ?e"
    unfolding free_entry_bytes_def using put_name_patch [of 34 free_label ?e] len l5 by simp
  have l6: "length (free_label @ [0]) = 6" by (simp add: free_label_def)
  show "length (free_entry_bytes b s e entr) = 64" unfolding f using len l6 by (subst length_patch) auto
  have g64: "get_u64 p (patch 34 (free_label @ [0]) ?e) = get_u64 p ?e" if "p + 8 \<le> 34" for p
    unfolding get_u64_def using that len l6 by (subst seg_patch_other) auto
  have g8: "get_u8 p (patch 34 (free_label @ [0]) ?e) = get_u8 p ?e" if "p < 34" for p
    using that len l6 by (simp add: get_u8_def cs_at_def seg_simps)
  show "entry_type (free_entry_bytes b s e entr) = entry_code DEL_FILE_ENTRY"
    unfolding f using assms g8 [of 0] by (simp add: layout_simps)
  show "cont_entries (free_entry_bytes b s e entr) = 0"
    unfolding f using assms g8 [of 1] by (simp add: layout_simps del: One_nat_def)
  show "PREV_DEL (free_entry_bytes b s e entr) = 0" "NEXT_DEL (free_entry_bytes b s e entr) = b"
    "start_block (free_entry_bytes b s e entr) = s" "end_block (free_entry_bytes b s e entr) = e"
    unfolding f using assms g64 [of 2] g64 [of 26] g64 [of 10] g64 [of 18] by (simp_all add: layout_simps)
qed

section \<open>Freeing blocks\<close>

lemma list_step_trans:
  assumes "list_step fs ps fs1 ps1" and "list_step fs1 ps1 fs2 ps2"
    and "set ps1 \<subseteq> set ps"
  shows "list_step fs ps fs2 ps2"
proof -
  obtain at b at' b' where "vol_to fs at b fs1" "vol_to fs1 at' b' fs2" using assms(1,2) by (auto simp: list_step_def)
  then have "vol_to fs at' b' fs2" by (rule vol_to_trans)
  moreover have "entry_type (entry_at fs2 q) = entry_code UNUSED_ENTRY" if "q \<in> set ps - set ps2" for q
    using that assms(1,2) by (cases "q \<in> set ps1") (auto simp: list_step_def)
  moreover have "entry_at fs2 q = entry_at fs q" if "q \<notin> set ps \<union> set ps2" for q
  proof -
    have "q \<notin> set ps1" using that assms(3) by auto
    then show ?thesis using that assms(1,2) by (simp add: list_step_def)
  qed
  ultimately show ?thesis using assms(1,2) by (auto simp: list_step_def)
qed

lemma slot_valid_0: "fs_ok fs \<Longrightarrow> slot_valid fs 0"
  by (simp add: fs_ok_def slot_valid_def)

definition new_ext_ok :: "fs \<Rightarrow> u64 list \<Rightarrow> u64 \<Rightarrow> u64 \<Rightarrow> bool" where
  "new_ext_ok fs ps s e \<longleftrightarrow> 0 < unat s \<and> unat s \<le> unat e
     \<and> Suc (unat e) * unat (block_size fs) \<le> length (host_file fs)
     \<and> {unat s .. unat e} \<inter> blocks (entry_at fs) ps = {}"

lemma neighbours:
  assumes ok: "fs_ok fs" and fr: "free_ok fs ps" and new: "new_ext_ok fs ps s e"
  shows "q \<in> set ps \<Longrightarrow> touches_prev (entry_at fs) s q \<Longrightarrow> Suc (unat (end_block (entry_at fs q))) = unat s"
    and "q \<in> set ps \<Longrightarrow> touches_next (entry_at fs) e q \<Longrightarrow> unat (start_block (entry_at fs q)) = Suc (unat e)"
    and "once (touches_prev (entry_at fs) s) ps" and "once (touches_next (entry_at fs) e) ps"
    and "\<forall>q \<in> set ps. \<not> (touches_prev (entry_at fs) s q \<and> touches_next (entry_at fs) e q)"
    and "Suc (unat e) \<in> blocks (entry_at fs) ps \<Longrightarrow> \<exists>q \<in> set ps. touches_next (entry_at fs) e q"
proof -
  have eo: "ext_ok fs (entry_at fs q)" if "q \<in> set ps" for q using fr that by (simp add: free_ok_def)
  show p1: "Suc (unat (end_block (entry_at fs q))) = unat s"
    if "q \<in> set ps" "touches_prev (entry_at fs) s q" for q
  proof -
    have "unat (end_block (entry_at fs q) + 1) = unat (end_block (entry_at fs q)) + 1"
      using ext_ok_bounds(1) [OF ok eo [OF that(1)]] by (subst unat_add_small) auto
    then show ?thesis using that(2) by (simp add: touches_prev_def)
  qed
  show n1: "unat (start_block (entry_at fs q)) = Suc (unat e)"
    if "q \<in> set ps" "touches_next (entry_at fs) e q" for q
  proof -
    have "0 < unat (start_block (entry_at fs q))" using eo [OF that(1)] by (simp add: ext_ok_def)
    moreover from this have "unat (start_block (entry_at fs q) - 1) = unat (start_block (entry_at fs q)) - 1"
      by (subst unat_sub_small) auto
    ultimately show ?thesis using that(2) by (simp add: touches_next_def)
  qed
  have mem: "unat (end_block (entry_at fs q)) \<in> ext (entry_at fs q)"
    "unat (start_block (entry_at fs q)) \<in> ext (entry_at fs q)" if "q \<in> set ps" for q
    using eo [OF that] by (auto simp: ext_ok_def ext_def)
  have dj: "\<And>p q. p \<in> set ps \<Longrightarrow> q \<in> set ps \<Longrightarrow> p \<noteq> q \<Longrightarrow> ext (entry_at fs p) \<inter> ext (entry_at fs q) = {}"
    using fr by (simp add: free_ok_def)
  show "once (touches_prev (entry_at fs) s) ps"
    unfolding once_def by (metis p1 mem(1) dj disjoint_iff Suc_inject)
  show "once (touches_next (entry_at fs) e) ps"
    unfolding once_def by (metis n1 mem(2) dj disjoint_iff)
  show "\<forall>q \<in> set ps. \<not> (touches_prev (entry_at fs) s q \<and> touches_next (entry_at fs) e q)"
  proof (intro ballI notI, elim conjE)
    fix q assume q: "q \<in> set ps" "touches_prev (entry_at fs) s q" "touches_next (entry_at fs) e q"
    have "unat (start_block (entry_at fs q)) \<le> unat (end_block (entry_at fs q))"
      using eo [OF q(1)] by (simp add: ext_ok_def)
    then show False using p1 [OF q(1,2)] n1 [OF q(1,3)] new by (simp add: new_ext_ok_def)
  qed
  show "\<exists>q \<in> set ps. touches_next (entry_at fs) e q" if h: "Suc (unat e) \<in> blocks (entry_at fs) ps"
  proof -
    obtain q where q: "q \<in> set ps" "Suc (unat e) \<in> ext (entry_at fs q)" using h by (auto simp: blocks_def)
    have "unat e \<notin> ext (entry_at fs q)" using new q(1) by (auto simp: new_ext_ok_def blocks_def)
    then have "unat (start_block (entry_at fs q)) = Suc (unat e)" using q(2) by (auto simp: ext_def)
    then have "unat (start_block (entry_at fs q) - 1) = unat e" by (subst unat_sub_small) auto
    then have "touches_next (entry_at fs) e q" by (simp add: touches_next_def word_unat_eq_iff)
    with q(1) show ?thesis ..
  qed
qed

lemma pick_cases:
  assumes "0 \<notin> set qs"
  shows "pick P qs 0 = 0 \<and> (\<forall>q \<in> set qs. \<not> P q) \<or> pick P qs 0 \<in> set qs \<and> P (pick P qs 0)"
  using assms by (induction qs) auto

text \<open>Setting one bound of an extent of the list.\<close>

lemma modify_flushes:
  assumes "fs_ok fs" and "slot_valid fs p" and "length e = 64" and r: "read_entry fs p e = (x, y, fs1)"
    and w: "write_entry fs1 p e' = (64, fs')"
  shows "buf_num fs' = -1"
proof (rule read_entry_fs [OF assms(1-3)])
  fix fs2 assume h: "read_entry fs p e = (64, entry_at fs p, fs2)" "fs_ok fs2" "same_vol fs fs2"
  then have "slot_valid fs1 p" "entry_dev_ok fs1" using r assms(2) same_vol_cong(2) [OF h(3)] by (simp_all add: fs_ok_def)
  then show ?thesis using w by (intro write_entry_flushes)
qed

lemma grow_ext_ok:
  assumes ok: "fs_ok fs" and fr: "free_ok fs ps" and p: "p \<in> set ps" and len: "length entr = 64"
    and len': "length e' = 64"
    and links: "PREV_DEL e' = PREV_DEL (entry_at fs p)" "NEXT_DEL e' = NEXT_DEL (entry_at fs p)"
      "entry_type e' = entry_type (entry_at fs p)" "cont_entries e' = cont_entries (entry_at fs p)"
    and eo': "ext_ok fs e'" and ex: "ext e' = ext (entry_at fs p) \<union> add" "add \<inter> blocks (entry_at fs) ps = {}"
  obtains fs1 fs' where "read_entry fs p entr = (64, entry_at fs p, fs1)"
    "write_entry fs1 p e' = (64, fs')" "list_step fs ps fs' ps" "fs_ok fs1" "same_vol fs fs1"
    "blocks (entry_at fs') ps = blocks (entry_at fs) ps \<union> add"
proof -
  have fl: "free_list fs ps" using fr by (simp add: free_ok_def)
  have v: "slot_valid fs p" by (rule free_list_valid(1) [OF ok fl p])
  obtain fs1 fs' where m: "read_entry fs p entr = (64, entry_at fs p, fs1)"
    "write_entry fs1 p e' = (64, fs')" "fs_ok fs1" "same_vol fs fs1" "fs_ok fs'"
    and up: "vol_upd fs ((entry_at fs)(p := e')) fs'"
    by (rule modify_entry [OF ok v len, of "\<lambda>_. e'"]) (use len' in auto)
  have dj': "ext (entry_at fs q) \<inter> ext e' = {}" if "q \<in> set ps" "q \<noteq> p" for q
  proof -
    have "ext (entry_at fs q) \<inter> ext (entry_at fs p) = {}" using fr p that by (simp add: free_ok_def)
    then show ?thesis using ex blocks_split [OF that(1), of "entry_at fs"] by blast
  qed
  have rb1: "list_step fs ps fs' ps"
    by (rule rebound_ok(1) [OF ok fr p m(5) up links eo']) (rule dj')
  have rb2: "blocks (entry_at fs') ps = (blocks (entry_at fs) ps - ext (entry_at fs p)) \<union> ext e'"
    by (rule rebound_ok(2) [OF ok fr p m(5) up links eo']) (rule dj')
  have "blocks (entry_at fs') ps = blocks (entry_at fs) ps \<union> add"
    unfolding rb2 ex(1) using blocks_split [OF p, of "entry_at fs"] by blast
  then show ?thesis using that [OF m(1,2) rb1 m(3,4)] by simp
qed

text \<open>The part of \<open>del_file_list_add\<close> after the search, with the neighbours \<open>prev\<close> and \<open>nxt\<close> found.\<close>

definition add_tail :: "fs \<Rightarrow> entry \<Rightarrow> u64 \<Rightarrow> u64 \<Rightarrow> u64 \<Rightarrow> u64 \<Rightarrow> int \<times> entry \<times> fs" where
  "add_tail fs entr s e prev nxt =
     (if nxt \<noteq> 0 then
            (case read_entry fs nxt entr of
               (_, entr, fs) \<Rightarrow>
                 let entr = set_start_block s entr in
                 if prev \<noteq> 0 then
                   (case read_entry fs prev entr of
                      (_, entr, fs) \<Rightarrow>
                        let prev_start = start_block entr in
                        (case del_file_list_remove fs prev entr of
                           (_, entr, fs) \<Rightarrow>
                             (case read_entry fs nxt entr of
                                (_, entr, fs) \<Rightarrow>
                                  let entr = set_start_block prev_start entr in
                                  (case write_entry fs nxt entr of (_, fs) \<Rightarrow> (0, entr, fs)))))
                 else (case write_entry fs nxt entr of (_, fs) \<Rightarrow> (0, entr, fs)))
          else if prev \<noteq> 0 then
            (case read_entry fs prev entr of
               (_, entr, fs) \<Rightarrow>
                 let entr = set_end_block e entr in
                 (case write_entry fs prev entr of (_, fs) \<Rightarrow> (0, entr, fs)))
          else
            (case alloc_entry fs entr 1 of
               (new, entr, fs) \<Rightarrow>
                 if new = 0 then (-1, entr, SET_ERRNO ENOMEM fs)
                 else
                   let entr = free_entry_bytes (del_begin fs) s e entr
                   in
                   (case write_entry fs new entr of
                      (_, fs) \<Rightarrow>
                        (case (if del_begin fs \<noteq> 0 then
                                 (case read_entry fs (del_begin fs) entr of
                                    (_, entr, fs) \<Rightarrow>
                                      let entr = set_PREV_DEL new entr in
                                      (case write_entry fs (del_begin fs) entr of (_, fs) \<Rightarrow> (entr, fs)))
                               else (entr, fs)) of
                           (entr, fs) \<Rightarrow> (0, entr, fs\<lparr>del_begin := new\<rparr>)))))"

lemma del_file_list_add_tail:
  "del_file_list_add fs entr s e =
     (if s = 0 \<and> e = 0 then (0, entr, fs)
      else
      (case read_entry fs (del_begin fs) entr of
        (_, entr, fs) \<Rightarrow>
      (case add_loop (unat (watchdog_init fs)) fs entr s e (del_begin fs) 0 0 of
        (failed, watchdog, prev, nxt, entr, fs) \<Rightarrow>
          if failed then (-1, entr, fs)
          else if watchdog = 0 then (-1, entr, fs)
          else add_tail fs entr s e prev nxt)))"
  unfolding del_file_list_add_def add_tail_def free_entry_bytes_def Let_def by (rule refl)

text \<open>Only an extent before it touches the new one.\<close>

lemma add_tail_prev:
  assumes ok: "fs_ok fs" and fr: "free_ok fs ps" and len: "length entr = 64" and new: "new_ext_ok fs ps s e"
    and p: "p \<in> set ps" "touches_prev (entry_at fs) s p"
  obtains e' fs' where "add_tail fs entr s e p 0 = (0, e', fs')" "length e' = 64"
    "list_step fs ps fs' ps" "blocks (entry_at fs') ps = blocks (entry_at fs) ps \<union> {unat s .. unat e}" "buf_num fs' = -1"
proof -
  let ?p = "entry_at fs p"
  let ?e' = "set_end_block e ?p"
  have fl: "free_list fs ps" using fr by (simp add: free_ok_def)
  note v = free_list_valid [OF ok fl p(1)] and nb = neighbours(1) [OF ok fr new p]
  have eo: "ext_ok fs ?p" using fr p(1) by (simp add: free_ok_def)
  have f: "start_block ?e' = start_block ?p" "end_block ?e' = e" "PREV_DEL ?e' = PREV_DEL ?p"
    "NEXT_DEL ?e' = NEXT_DEL ?p" "entry_type ?e' = entry_type ?p" "length ?e' = 64"
    "cont_entries ?e' = cont_entries ?p"
    using v(3) by (simp_all add: layout_simps del: One_nat_def)
  have ex: "ext ?e' = ext ?p \<union> {unat s .. unat e}"
    using nb new eo unfolding ext_def f new_ext_ok_def ext_ok_def by auto
  have eo': "ext_ok fs ?e'" using eo new nb unfolding ext_ok_def f new_ext_ok_def by auto
  have dj: "{unat s .. unat e} \<inter> blocks (entry_at fs) ps = {}" using new by (simp add: new_ext_ok_def)
  obtain fs1 fs' where w: "read_entry fs p entr = (64, ?p, fs1)"
    "write_entry fs1 p (set_end_block e ?p) = (64, fs')" "list_step fs ps fs' ps"
    "blocks (entry_at fs') ps = blocks (entry_at fs) ps \<union> {unat s .. unat e}"
    by (rule grow_ext_ok [OF ok fr p(1) len f(6,3,4,5,7) eo' ex dj])
  then show ?thesis
    using that [of ?e' fs'] modify_flushes [OF ok v(1) len w(1,2)] f(6) v(2) by (simp add: add_tail_def)
qed

text \<open>Only an extent after it touches the new one.\<close>

lemma add_tail_next:
  assumes ok: "fs_ok fs" and fr: "free_ok fs ps" and len: "length entr = 64" and new: "new_ext_ok fs ps s e"
    and p: "p \<in> set ps" "touches_next (entry_at fs) e p"
  obtains e' fs' where "add_tail fs entr s e 0 p = (0, e', fs')" "length e' = 64"
    "list_step fs ps fs' ps" "blocks (entry_at fs') ps = blocks (entry_at fs) ps \<union> {unat s .. unat e}" "buf_num fs' = -1"
proof -
  let ?p = "entry_at fs p"
  let ?e' = "set_start_block s ?p"
  have fl: "free_list fs ps" using fr by (simp add: free_ok_def)
  note v = free_list_valid [OF ok fl p(1)] and nb = neighbours(2) [OF ok fr new p]
  have eo: "ext_ok fs ?p" using fr p(1) by (simp add: free_ok_def)
  have f: "start_block ?e' = s" "end_block ?e' = end_block ?p" "PREV_DEL ?e' = PREV_DEL ?p"
    "NEXT_DEL ?e' = NEXT_DEL ?p" "entry_type ?e' = entry_type ?p" "length ?e' = 64"
    "cont_entries ?e' = cont_entries ?p"
    using v(3) by (simp_all add: layout_simps del: One_nat_def)
  have ex: "ext ?e' = ext ?p \<union> {unat s .. unat e}"
    using nb new eo unfolding ext_def f new_ext_ok_def ext_ok_def by auto
  have eo': "ext_ok fs ?e'" using eo new nb unfolding ext_ok_def f new_ext_ok_def by auto
  have dj: "{unat s .. unat e} \<inter> blocks (entry_at fs) ps = {}" using new by (simp add: new_ext_ok_def)
  obtain fs1 fs' where w: "read_entry fs p entr = (64, ?p, fs1)"
    "write_entry fs1 p (set_start_block s ?p) = (64, fs')" "list_step fs ps fs' ps"
    "blocks (entry_at fs') ps = blocks (entry_at fs) ps \<union> {unat s .. unat e}"
    by (rule grow_ext_ok [OF ok fr p(1) len f(6,3,4,5,7) eo' ex dj])
  then show ?thesis
    using that [of ?e' fs'] modify_flushes [OF ok v(1) len w(1,2)] f(6) v(2) by (simp add: add_tail_def)
qed

text \<open>The new extent closes the gap between two extents: one of them goes, the other grows over all
  three.\<close>

lemma add_tail_both:
  assumes ok: "fs_ok fs" and fr: "free_ok fs ps" and len: "length entr = 64" and new: "new_ext_ok fs ps s e"
    and p: "p \<in> set ps" "touches_prev (entry_at fs) s p"
    and n: "n \<in> set ps" "touches_next (entry_at fs) e n"
  obtains e' fs' ps' where "add_tail fs entr s e p n = (0, e', fs')" "length e' = 64"
    "list_step fs ps fs' ps'" "set ps' \<subseteq> set ps"
    "blocks (entry_at fs') ps' = blocks (entry_at fs) ps \<union> {unat s .. unat e}" "buf_num fs' = -1"
proof -
  let ?p = "entry_at fs p" and ?n = "entry_at fs n"
  have fl: "free_list fs ps" using fr by (simp add: free_ok_def)
  note vp = free_list_valid [OF ok fl p(1)] and vn = free_list_valid [OF ok fl n(1)]
  have np: "n \<noteq> p" using neighbours(5) [OF ok fr new] p n by auto
  obtain xs ys where ps: "ps = xs @ p # ys" using p(1) by (meson split_list)
  have n_in: "n \<in> set (xs @ ys)" using n(1) np ps by auto
  obtain fs1 where r1: "read_entry fs n entr = (64, ?n, fs1)" "fs_ok fs1" and sv1: "same_vol fs fs1"
    by (rule read_entry_fs [OF ok vn(1) len])
  have l1: "length (set_start_block s ?n) = 64" using vn(3) by simp
  have v1: "slot_valid fs1 p" using vp(1) same_vol_cong(2) [OF sv1] by simp
  obtain fs2 where r2: "read_entry fs1 p (set_start_block s ?n) = (64, entry_at fs1 p, fs2)" "fs_ok fs2"
    and sv2': "same_vol fs1 fs2"
    by (rule read_entry_fs [OF r1(2) v1 l1])
  have sv2: "same_vol fs fs2" by (rule same_vol_trans [OF sv1 sv2'])
  note c1 = same_vol_cong [OF sv1] and c2 = same_vol_cong [OF sv2]
  have fr2: "free_ok fs2 (xs @ p # ys)" using free_ok_same_vol [OF sv2] fr ps by simp
  have lp: "length (entry_at fs1 p) = 64" using vp(3) c1 by simp
  obtain e3 fs3 where rm: "del_file_list_remove fs2 p (entry_at fs1 p) = (0, e3, fs3)" "length e3 = 64"
    "list_step fs2 (xs @ p # ys) fs3 (xs @ ys)"
    "blocks (entry_at fs3) (xs @ ys) = blocks (entry_at fs2) (xs @ p # ys) - ext (entry_at fs2 p)"
    "\<forall>q \<in> set (xs @ ys). ext (entry_at fs3 q) = ext (entry_at fs2 q)"
    by (rule del_file_list_remove_ok [OF r2(2) fr2 lp])
  have ls3: "list_step fs ps fs3 (xs @ ys)" using list_step_same_vol [OF sv2 rm(3)] ps by simp
  have ok3: "fs_ok fs3" and fr3: "free_ok fs3 (xs @ ys)" using ls3 by (auto simp: list_step_def)
  obtain at b where up3: "vol_to fs at b fs3" using ls3 by (auto simp: list_step_def)
  note geo = vol_to_length [OF ok ok3 up3] vol_to_sel(6) [OF up3]
  let ?n3 = "entry_at fs3 n"
  let ?e' = "set_start_block (start_block ?p) ?n3"
  note v3 = free_list_valid [OF ok3 _ n_in]
  have fl3: "free_list fs3 (xs @ ys)" using fr3 by (simp add: free_ok_def)
  have l3: "length ?n3 = 64" by (rule v3(3) [OF fl3])
  have eo: "ext_ok fs ?p" "ext_ok fs ?n" using fr p(1) n(1) by (auto simp: free_ok_def)
  have eo3: "ext_ok fs3 ?n3" using fr3 n_in by (simp add: free_ok_def)
  have "ext ?n3 = ext ?n" using rm(5) n_in c2 by simp
  then have bn: "unat (start_block ?n3) = unat (start_block ?n)" "unat (end_block ?n3) = unat (end_block ?n)"
    using eo(2) eo3 by (auto simp: ext_def ext_ok_def Icc_eq_Icc)
  note nb = neighbours(1) [OF ok fr new p] neighbours(2) [OF ok fr new n]
  have f: "start_block ?e' = start_block ?p" "end_block ?e' = end_block ?n3" "PREV_DEL ?e' = PREV_DEL ?n3"
    "NEXT_DEL ?e' = NEXT_DEL ?n3" "entry_type ?e' = entry_type ?n3" "length ?e' = 64"
    "cont_entries ?e' = cont_entries ?n3"
    using l3 by (simp_all add: layout_simps del: One_nat_def)
  have ex: "ext ?e' = ext ?n3 \<union> (ext ?p \<union> {unat s .. unat e})"
    using nb new eo bn unfolding ext_def f new_ext_ok_def ext_ok_def by auto
  have eo': "ext_ok fs3 ?e'"
    using eo eo3 bn geo new nb unfolding ext_ok_def f new_ext_ok_def by auto
  have b3: "blocks (entry_at fs3) (xs @ ys) = blocks (entry_at fs) ps - ext ?p"
    unfolding rm(4) c2 ps ..
  have dj: "(ext ?p \<union> {unat s .. unat e}) \<inter> blocks (entry_at fs3) (xs @ ys) = {}"
    unfolding b3 using new by (auto simp: new_ext_ok_def)
  obtain fs4 fs5 where w: "read_entry fs3 n e3 = (64, ?n3, fs4)" "write_entry fs4 n ?e' = (64, fs5)"
    "list_step fs3 (xs @ ys) fs5 (xs @ ys)"
    "blocks (entry_at fs5) (xs @ ys) = blocks (entry_at fs3) (xs @ ys) \<union> (ext ?p \<union> {unat s .. unat e})"
    by (rule grow_ext_ok [OF ok3 fr3 n_in rm(2) f(6,3,4,5,7) eo' ex dj])
  have run: "add_tail fs entr s e p n = (0, ?e', fs5)"
    unfolding add_tail_def using vp(2) vn(2) r1(1) r2(1) rm(1) w(1,2) c1(1) by (simp add: Let_def)
  have step: "list_step fs ps fs5 (xs @ ys)"
    by (rule list_step_trans [OF ls3 w(3)]) (auto simp: ps)
  have "blocks (entry_at fs5) (xs @ ys) = blocks (entry_at fs) ps \<union> {unat s .. unat e}"
    unfolding w(4) b3 using blocks_split [OF p(1), of "entry_at fs"] by blast
  then show ?thesis using that [OF run f(6) step] modify_flushes [OF ok3 v3(1) [OF fl3] rm(2) w(1,2)] ps by auto
qed

text \<open>Nothing touches it: an unused entry becomes the new head of the list.\<close>

lemma add_tail_none:
  assumes ok: "fs_ok fs" and fr: "free_ok fs ps" and len: "length entr = 64" and new: "new_ext_ok fs ps s e"
  obtains (full) e' fs' where "add_tail fs entr s e 0 0 = (-1, e', fs')" "length e' = 64" "fs_ok fs'"
      "same_vol (SET_ERRNO ENOMEM fs) fs'" "\<forall>i. \<not> unused fs i"
  | (added) e' fs' ps' where "add_tail fs entr s e 0 0 = (0, e', fs')" "length e' = 64"
      "list_step fs ps fs' ps'"
      "\<forall>q \<in> set ps' - set ps. entry_type (entry_at fs q) = entry_code UNUSED_ENTRY"
      "blocks (entry_at fs') ps' = blocks (entry_at fs) ps \<union> {unat s .. unat e}" "buf_num fs' = -1"
proof -
  have fl: "free_list fs ps" using fr by (simp add: free_ok_def)
  obtain r e1 fs1 where al: "alloc_entry fs entr (int 1) = (r, e1, fs1)" "length e1 = 64" "fs_ok fs1"
    and sv1: "same_vol fs fs1"
    and no: "r = 0 \<Longrightarrow> \<forall>i. \<not> free_run fs i 1"
    and yes: "r \<noteq> 0 \<Longrightarrow> \<exists>i. r = index_off fs i \<and> i + 1 \<le> index_size fs \<and> free_run fs i 1
       \<and> (\<forall>j<i. \<not> free_run fs j 1) \<and> e1 = entry_at fs (index_off fs (i + 1 - 1))"
    by (rule alloc_entry_ok [OF ok len, of 1]) simp_all
  note c1 = same_vol_cong [OF sv1] and s1 = same_vol_sel [OF sv1]
  show ?thesis
  proof (cases "r = 0")
    case True
    then show ?thesis
      using al no same_vol_errno [OF sv1]
      by (intro full [of e1 "SET_ERRNO ENOMEM fs1"]) (simp_all add: add_tail_def free_run_def)
  next
    case False
    then obtain i where i: "r = index_off fs i" "i < index_size fs" "unused fs i"
      using yes by (auto simp: free_run_def)
    have r_in: "r \<in> set (index_offs fs)" using i by (simp add: index_offs_def)
    have r_new: "r \<notin> set ps"
    proof
      assume "r \<in> set ps"
      then have "entry_type (entry_at fs r) = entry_code DEL_FILE_ENTRY" by (rule free_list_valid(4) [OF ok fl])
      then show False using i by (simp add: unused_def)
    qed
    have rv: "slot_valid fs1 r" using in_index_offs [OF ok r_in] c1 by simp
    let ?b = "del_begin fs"
    let ?f = "free_entry_bytes ?b s e e1"
    note ff = free_entry_bytes_fields [OF al(2), of ?b s e]
    obtain fs2 where w: "write_entry fs1 r ?f = (64, fs2)" "fs_ok fs2"
      and up2': "vol_upd fs1 ((entry_at fs1)(r := ?f)) fs2"
      by (rule write_entry_fs [OF al(3) rv ff(1)])
    have up2: "vol_upd fs ((entry_at fs)(r := ?f)) fs2" using vol_upd_same [OF sv1 up2'] c1 by simp
    note u2 = vol_upd_sel [OF up2]
    have r_ne: "r \<noteq> ?b"
    proof
      assume rb: "r = ?b"
      obtain l where "dpath (entry_at fs) 0 ?b ps l 0" using fl by (auto simp: free_list_def)
      then show False using rb r_new False by (cases ps) auto
    qed
    have bv: "?b \<noteq> 0 \<Longrightarrow> slot_valid fs2 ?b"
    proof -
      assume "?b \<noteq> 0"
      moreover obtain l where "dpath (entry_at fs) 0 ?b ps l 0" using fl by (auto simp: free_list_def)
      ultimately have "?b \<in> set ps" by (cases ps) auto
      then show "slot_valid fs2 ?b" using free_list_valid(1) [OF ok fl] u2(2) by simp
    qed
    obtain e3 fs3 where hd: "(if ?b \<noteq> 0 then
                                 (case read_entry fs2 ?b ?f of
                                    (_, entr, fs) \<Rightarrow>
                                      let entr = set_PREV_DEL r entr in
                                      (case write_entry fs (del_begin fs) entr of (_, fs) \<Rightarrow> (entr, fs)))
                               else (?f, fs2)) = (e3, fs3)" "length e3 = 64" "fs_ok fs3"
      and up3: "vol_upd fs (pushed (entry_at fs) ?b r ?f) fs3" and fl3: "buf_num fs3 = -1"
    proof (cases "?b = 0")
      case True
      moreover have "buf_num fs2 = -1" by (rule write_entry_flushes [OF fs_ok_dev [OF al(3)] rv w(1)])
      ultimately show ?thesis using that [of ?f fs2] w(2) ff(1) up2 by (simp add: pushed_def Let_def)
    next
      case b: False
      have l: "length (set_PREV_DEL r (entry_at fs2 ?b)) = 64" using length_entry_at [OF bv [OF b]] by simp
      obtain fsa fsb where m: "read_entry fs2 ?b ?f = (64, entry_at fs2 ?b, fsa)"
        "write_entry fsa ?b (set_PREV_DEL r (entry_at fs2 ?b)) = (64, fsb)" "fs_ok fsb" "same_vol fs2 fsa"
        "vol_upd fs2 ((entry_at fs2)(?b := set_PREV_DEL r (entry_at fs2 ?b))) fsb"
        by (rule modify_entry [OF w(2) bv [OF b] ff(1), of "set_PREV_DEL r"]) (use l in auto)
      have "vol_upd fs (pushed (entry_at fs) ?b r ?f) fsb"
        using vol_upd_trans [OF up2 m(5)] u2(1) b by (simp add: pushed_def Let_def)
      moreover have "del_begin fsa = ?b" using same_vol_sel(3) [OF m(4)] u2(5) by simp
      ultimately show ?thesis
        using that [of "set_PREV_DEL r (entry_at fs2 ?b)" fsb] m(1,2,3) b l modify_flushes [OF w(2) bv [OF b] ff(1) m(1,2)]
        by (simp add: Let_def)
    qed
    let ?fs = "fs3\<lparr>del_begin := r\<rparr>"
    have ok4: "fs_ok ?fs" using hd(3) by simp
    have up4: "vol_to fs (pushed (entry_at fs) ?b r ?f) r ?fs"
      using vol_to_trans [of fs _ ?b fs3, OF _ vol_to_head] up3 vol_upd_sel(1) [OF up3]
      by (simp add: vol_upd_to)
    note pu = free_list_pushed [OF ok fl r_in r_new up4 ff(2,3,4)]
    have ep: "ext ?f = {unat s .. unat e}" unfolding ext_def ff ..
    have same: "ext (pushed (entry_at fs) ?b r ?f q) = ext (entry_at fs q)"
      "ext_ok fs (pushed (entry_at fs) ?b r ?f q) = ext_ok fs (entry_at fs q)" if "q \<in> set ps" for q
      using pu(3) [OF that] ext_ok_cong by blast+
    have dj: "ext (entry_at fs q) \<inter> ext ?f = {}" if "q \<in> set ps" for q
      using new blocks_split [OF that, of "entry_at fs"] unfolding ep new_ext_ok_def by blast
    have fok: "ext_ok fs ?f" using new unfolding ext_ok_def ff new_ext_ok_def by simp
    have fr4: "free_ok ?fs (r # ps)"
    proof (rule free_ok_transfer [OF ok ok4 up4 pu(1)])
      show "ext_ok fs (pushed (entry_at fs) ?b r ?f q)" if "q \<in> set (r # ps)" for q
        using that same(2) pu(2) fok fr by (auto simp: free_ok_def)
      show "ext (pushed (entry_at fs) ?b r ?f p) \<inter> ext (pushed (entry_at fs) ?b r ?f q) = {}"
        if "p \<in> set (r # ps)" "q \<in> set (r # ps)" "p \<noteq> q" for p q
      proof -
        have eqn: "ext (pushed (entry_at fs) ?b r ?f q) = (if q = r then ext ?f else ext (entry_at fs q))"
          if "q \<in> set (r # ps)" for q
          using that same(1) pu(2) by auto
        have old: "p \<in> set ps \<Longrightarrow> q \<in> set ps \<Longrightarrow> ext (entry_at fs p) \<inter> ext (entry_at fs q) = {}"
          using fr that(3) by (simp add: free_ok_def)
        show ?thesis
          unfolding eqn [OF that(1)] eqn [OF that(2)]
          using that dj [of p] dj [of q] old by (cases "p = r"; cases "q = r") (simp_all add: Int_commute)
      qed
    qed
    have step: "list_step fs ps ?fs (r # ps)"
      unfolding list_step_def vol_to_sel(1) [OF up4] using ok4 fr4 up4 pu(2-4) ff
      by (auto simp: bare_def simp del: One_nat_def)
    have bl: "blocks (entry_at ?fs) (r # ps) = blocks (entry_at fs) ps \<union> {unat s .. unat e}"
      unfolding vol_to_sel(1) [OF up4] using same(1) pu(2) ep by (auto simp: blocks_def)
    have run: "add_tail fs entr s e 0 0 = (0, e3, ?fs)"
    proof -
      have "add_tail fs entr s e 0 0 =
        (case (if ?b \<noteq> 0 then
                 (case read_entry fs2 ?b ?f of
                    (_, entr, fs) \<Rightarrow>
                      let entr = set_PREV_DEL r entr in
                      (case write_entry fs (del_begin fs) entr of (_, fs) \<Rightarrow> (entr, fs)))
               else (?f, fs2)) of
           (entr, fs) \<Rightarrow> (0, entr, fs\<lparr>del_begin := r\<rparr>))"
        unfolding add_tail_def using al(1) False s1(3) w(1) u2(5) by (simp add: Let_def)
      then show ?thesis unfolding hd(1) by simp
    qed
    have un: "\<forall>q \<in> set (r # ps) - set ps. entry_type (entry_at fs q) = entry_code UNUSED_ENTRY"
      using i by (auto simp: unused_def)
    show ?thesis by (rule added [OF run hd(2) step un bl]) (use fl3 in simp)
  qed
qed

text \<open>All of it.\<close>

lemma del_file_list_add_ok:
  assumes ok: "fs_ok fs" and fr: "free_ok fs ps" and len: "length entr = 64" and new: "new_ext_ok fs ps s e"
  obtains (full) e' fs' where "del_file_list_add fs entr s e = (-1, e', fs')" "length e' = 64" "fs_ok fs'"
      "same_vol (SET_ERRNO ENOMEM fs) fs'" "\<forall>i. \<not> unused fs i" "Suc (unat e) \<notin> blocks (entry_at fs) ps"
  | (added) e' fs' ps' where "del_file_list_add fs entr s e = (0, e', fs')" "length e' = 64"
      "list_step fs ps fs' ps'"
      "\<forall>q \<in> set ps' - set ps. entry_type (entry_at fs q) = entry_code UNUSED_ENTRY"
      "blocks (entry_at fs') ps' = blocks (entry_at fs) ps \<union> {unat s .. unat e}" "buf_num fs' = -1"
proof -
  have fl: "free_list fs ps" using fr by (simp add: free_ok_def)
  then obtain l where dp: "dpath (entry_at fs) 0 (del_begin fs) ps l 0" by (auto simp: free_list_def)
  note sm = free_list_small [OF ok fl]
  have z: "0 \<notin> set ps" using free_list_valid(2) [OF ok fl] by blast
  have bv: "slot_valid fs (del_begin fs)"
    using dpath_next_valid [OF dp, of fs] sm(4) slot_valid_0 [OF ok] by auto
  obtain fs0 where r0: "read_entry fs (del_begin fs) entr = (64, entry_at fs (del_begin fs), fs0)"
    "fs_ok fs0" and sv0: "same_vol fs fs0"
    by (rule read_entry_fs [OF ok bv len])
  note c0 = same_vol_cong [OF sv0] and s0 = same_vol_sel [OF sv0]
  have fr0: "free_ok fs0 ps" using free_ok_same_vol [OF sv0] fr by simp
  have new0: "new_ext_ok fs0 ps s e" using new s0 c0 by (simp add: new_ext_ok_def)
  note nb = neighbours [OF r0(2) fr0 new0]
  have wd: "watchdog_init fs0 = watchdog_init fs" by (simp add: watchdog_init_def s0)
  let ?P = "touches_prev (entry_at fs0) s" and ?N = "touches_next (entry_at fs0) e"
  have dp0: "dpath (entry_at fs0) 0 (del_begin fs0) ps l 0" using dp c0 s0 by simp
  have len0: "length (entry_at fs (del_begin fs)) = 64" by (rule length_entry_at [OF bv])
  obtain w e1 fs1 where al: "add_loop (unat (watchdog_init fs0)) fs0 (entry_at fs (del_begin fs)) s e (del_begin fs0) 0 0
      = (False, w, pick ?P ps 0, pick ?N ps 0, e1, fs1)" "w \<noteq> 0" "length e1 = 64" "fs_ok fs1" "same_vol fs0 fs1"
    using add_loop_ok [OF r0(2) dp0 len0 _ _ _ _ sm(3) free_list_distinct [OF fl] nb(3,4,5), of "unat (watchdog_init fs0)" 0 0]
      sm c0 s0 wd by auto
  have sv1: "same_vol fs fs1" by (rule same_vol_trans [OF sv0 al(5)])
  note c1 = same_vol_cong [OF sv1] and s1 = same_vol_sel [OF sv1]
  have fr1: "free_ok fs1 ps" using free_ok_same_vol [OF sv1] fr by simp
  have new1: "new_ext_ok fs1 ps s e" using new s1 c1 by (simp add: new_ext_ok_def)
  have PN: "?P = touches_prev (entry_at fs1) s" "?N = touches_next (entry_at fs1) e" using c0 c1 by simp_all
  have sz: "\<not> (s = 0 \<and> e = 0)" using new by (auto simp: new_ext_ok_def)
  have run: "del_file_list_add fs entr s e = add_tail fs1 e1 s e (pick ?P ps 0) (pick ?N ps 0)"
    unfolding del_file_list_add_tail using r0(1) al(1,2) sz by auto
  note pc = pick_cases [OF z, of ?P] and nc = pick_cases [OF z, of ?N]
  show ?thesis
  proof (cases "pick ?P ps 0 = 0")
    case p0: True
    show ?thesis
    proof (cases "pick ?N ps 0 = 0")
      case True
      show ?thesis
      proof (rule add_tail_none [OF al(4) fr1 al(3) new1])
        fix e' fs'
        assume h: "add_tail fs1 e1 s e 0 0 = (-1, e', fs')" "length e' = 64" "fs_ok fs'"
          "same_vol (SET_ERRNO ENOMEM fs1) fs'" "\<forall>i. \<not> unused fs1 i"
        have "same_vol (SET_ERRNO ENOMEM fs) fs'" by (rule same_vol_trans [OF same_vol_errno [OF sv1] h(4)])
        moreover have "\<forall>i. \<not> unused fs i" using h(5) c1 by (simp add: unused_def)
        moreover have "Suc (unat e) \<notin> blocks (entry_at fs) ps" using nb(6) nc True z c0 by auto
        ultimately show ?thesis using run h p0 True by (intro full) simp_all
      next
        fix e' fs' ps'
        assume h: "add_tail fs1 e1 s e 0 0 = (0, e', fs')" "length e' = 64" "list_step fs1 ps fs' ps'"
          "\<forall>q \<in> set ps' - set ps. entry_type (entry_at fs1 q) = entry_code UNUSED_ENTRY"
          "blocks (entry_at fs') ps' = blocks (entry_at fs1) ps \<union> {unat s .. unat e}" "buf_num fs' = -1"
        show ?thesis
          using run h p0 True list_step_same_vol [OF sv1 h(3)] c1
          by (intro added [of e' fs' ps']) simp_all
      qed
    next
      case False
      then have n: "pick ?N ps 0 \<in> set ps" "touches_next (entry_at fs1) e (pick ?N ps 0)" using nc PN by auto
      obtain e' fs' where h: "add_tail fs1 e1 s e 0 (pick ?N ps 0) = (0, e', fs')" "length e' = 64"
        "list_step fs1 ps fs' ps" "blocks (entry_at fs') ps = blocks (entry_at fs1) ps \<union> {unat s .. unat e}" "buf_num fs' = -1"
        by (rule add_tail_next [OF al(4) fr1 al(3) new1 n])
      then show ?thesis
        using run p0 list_step_same_vol [OF sv1 h(3)] c1 by (intro added [of e' fs' ps]) simp_all
    qed
  next
    case p1: False
    then have p: "pick ?P ps 0 \<in> set ps" "touches_prev (entry_at fs1) s (pick ?P ps 0)" using pc PN by auto
    show ?thesis
    proof (cases "pick ?N ps 0 = 0")
      case True
      obtain e' fs' where h: "add_tail fs1 e1 s e (pick ?P ps 0) 0 = (0, e', fs')" "length e' = 64"
        "list_step fs1 ps fs' ps" "blocks (entry_at fs') ps = blocks (entry_at fs1) ps \<union> {unat s .. unat e}" "buf_num fs' = -1"
        by (rule add_tail_prev [OF al(4) fr1 al(3) new1 p])
      then show ?thesis
        using run True list_step_same_vol [OF sv1 h(3)] c1 by (intro added [of e' fs' ps]) simp_all
    next
      case False
      then have n: "pick ?N ps 0 \<in> set ps" "touches_next (entry_at fs1) e (pick ?N ps 0)" using nc PN by auto
      obtain e' fs' ps' where h: "add_tail fs1 e1 s e (pick ?P ps 0) (pick ?N ps 0) = (0, e', fs')" "length e' = 64"
        "list_step fs1 ps fs' ps'" "set ps' \<subseteq> set ps"
        "blocks (entry_at fs') ps' = blocks (entry_at fs1) ps \<union> {unat s .. unat e}" "buf_num fs' = -1"
        by (rule add_tail_both [OF al(4) fr1 al(3) new1 p n])
      have "\<forall>q \<in> set ps' - set ps. entry_type (entry_at fs q) = entry_code UNUSED_ENTRY"
        using h(4) by blast
      then show ?thesis
        using run h list_step_same_vol [OF sv1 h(3)] c1 by (intro added [of e' fs' ps']) simp_all
    qed
  qed
qed

section \<open>The allocator as its clients see it\<close>

text \<open>A request that fits in some free extent is served.\<close>

lemma alloc_succeeds:
  assumes ok: "fs_ok fs" and fr: "free_ok fs ps" and len: "length e = 64"
    and sz: "0 < unat sz" "unat sz < 2 ^ 63"
    and p: "p \<in> set ps" "needed fs sz \<le> card (ext (entry_at fs p))"
  obtains r e' fs' ps' where "del_file_list_alloc fs e sz = (r, e', fs')" "length e' = 64"
      "list_step fs ps fs' ps'" "set ps' \<subseteq> set ps" "r \<noteq> 0"
      "{unat r ..< unat r + needed fs sz} \<subseteq> blocks (entry_at fs) ps"
      "blocks (entry_at fs') ps' = blocks (entry_at fs) ps - {unat r ..< unat r + needed fs sz}"
proof (rule del_file_list_alloc_ok [OF ok fr len sz])
  assume "\<forall>p \<in> set ps. card (ext (entry_at fs p)) < needed fs sz"
  with p show ?thesis by fastforce
next
  fix r e' fs' ps'
  assume h: "del_file_list_alloc fs e sz = (r, e', fs')" "length e' = 64"
    "list_step fs ps fs' ps'" "set ps' \<subseteq> set ps" "0 < unat r"
    "{unat r ..< unat r + needed fs sz} \<subseteq> blocks (entry_at fs) ps"
    "blocks (entry_at fs') ps' = blocks (entry_at fs) ps - {unat r ..< unat r + needed fs sz}"
  have "r \<noteq> 0" using h(5) by auto
  with h show ?thesis by (intro that)
qed

lemma one_block_left:
  assumes ok: "fs_ok fs" and fr: "free_ok fs ps" and len: "length e = 64" and sz: "needed fs sz = 1"
    and left: "blocks (entry_at fs) ps \<noteq> {}" and small: "unat sz < 2 ^ 63"
  obtains r e' fs' ps' where "del_file_list_alloc fs e sz = (r, e', fs')" "length e' = 64"
      "list_step fs ps fs' ps'" "r \<noteq> 0"
      "blocks (entry_at fs') ps' = blocks (entry_at fs) ps - {unat r}"
proof -
  have pos: "0 < unat sz" using sz block_size_bounds(1) [OF ok] by (cases "unat sz = 0") (auto simp: needed_def)
  obtain p where p: "p \<in> set ps" "ext (entry_at fs p) \<noteq> {}" using left by (auto simp: blocks_def)
  then have "0 < card (ext (entry_at fs p))" by (simp add: card_gt_0_iff)
  then have "needed fs sz \<le> card (ext (entry_at fs p))" using sz by simp
  from alloc_succeeds [OF ok fr len pos small p(1) this] show ?thesis
    using that sz by (metis Suc_eq_plus1 atLeastLessThanSuc_atLeastAtMost atLeastAtMost_singleton plus_1_eq_Suc)
qed

text \<open>\<open>free s F\<close>: the free blocks of the state \<open>s\<close> are \<open>F\<close>. \<open>need s z\<close> is the number of blocks for
  \<open>z\<close> bytes, \<open>fits s a b\<close> that the blocks from \<open>a\<close> to \<open>b\<close> are in the data area, \<open>room s\<close> that the
  bookkeeping can hold one more extent. Blocks are refused only when there is no room and the
  block behind them is not free; a taken extent leaves room or a free block behind it.\<close>

locale block_allocator =
  fixes free :: "'s \<Rightarrow> nat set \<Rightarrow> bool"
    and need :: "'s \<Rightarrow> u64 \<Rightarrow> nat"
    and fits :: "'s \<Rightarrow> nat \<Rightarrow> nat \<Rightarrow> bool"
    and room :: "'s \<Rightarrow> bool"
    and take_blocks :: "'s \<Rightarrow> u64 \<Rightarrow> u64 \<times> 's"
    and give_blocks :: "'s \<Rightarrow> u64 \<Rightarrow> u64 \<Rightarrow> int \<times> 's"
  assumes take_law: "free s F \<Longrightarrow> 0 < unat z \<Longrightarrow> unat z < 2 ^ 63 \<Longrightarrow> take_blocks s z = (b, s') \<Longrightarrow>
      need s' = need s \<and> fits s' = fits s \<and> 0 < need s z \<and>
      (b = 0 \<and> free s' F
       \<or> b \<noteq> 0 \<and> {unat b ..< unat b + need s z} \<subseteq> F \<and> free s' (F - {unat b ..< unat b + need s z})
         \<and> (unat b + need s z \<in> F \<or> room s'))"
    and give_law: "free s F \<Longrightarrow> fits s (unat a) (unat b) \<Longrightarrow> {unat a .. unat b} \<inter> F = {} \<Longrightarrow>
      give_blocks s a b = (r, s') \<Longrightarrow>
      need s' = need s \<and> fits s' = fits s \<and>
      (r = 0 \<and> free s' (F \<union> {unat a .. unat b}) \<or> r = -1 \<and> free s' F \<and> \<not> room s \<and> Suc (unat b) \<notin> F)"
    and free_fits: "free s F \<Longrightarrow> {i .. j} \<subseteq> F \<Longrightarrow> i \<le> j \<Longrightarrow> fits s i j"
begin

lemma takes_disjoint:
  assumes "free s F" and "0 < unat y" "unat y < 2 ^ 63" and "0 < unat z" "unat z < 2 ^ 63"
    and "take_blocks s y = (a, s1)" and "take_blocks s1 z = (b, s2)" and "a \<noteq> 0" and "b \<noteq> 0"
  shows "{unat a ..< unat a + need s y} \<inter> {unat b ..< unat b + need s z} = {}"
proof -
  have "free s1 (F - {unat a ..< unat a + need s y})" "need s1 = need s"
    using take_law [OF assms(1,2,3,6)] assms(8) by auto
  then show ?thesis using take_law [OF _ assms(4,5,7)] assms(9) by fastforce
qed

text \<open>Giving back what was taken succeeds and restores the free set.\<close>

lemma take_give:
  assumes "free s F" and "0 < unat y" "unat y < 2 ^ 63"
    and "take_blocks s y = (a, s1)" and "a \<noteq> 0"
    and "unat c = unat a + need s y - 1" and "give_blocks s1 a c = (r, s2)"
  shows "r = 0 \<and> free s2 F"
proof -
  have t: "free s1 (F - {unat a ..< unat a + need s y})" "fits s1 = fits s"
    "{unat a ..< unat a + need s y} \<subseteq> F" "0 < need s y" "unat a + need s y \<in> F \<or> room s1"
    using take_law [OF assms(1,2,3,4)] assms(5) by auto
  have i: "{unat a .. unat c} = {unat a ..< unat a + need s y}" using assms(6) t(4) by auto
  have "fits s (unat a) (unat c)" using free_fits [OF assms(1)] t(3,4) i assms(6) by simp
  then show ?thesis
    using give_law [OF t(1) _ _ assms(7)] t(2-5) i assms(6) by (auto simp: Un_absorb2)
qed

end

definition free_of :: "fs \<times> entry \<Rightarrow> nat set \<Rightarrow> bool" where
  "free_of s F \<longleftrightarrow> fs_ok (fst s) \<and> length (snd s) = 64
     \<and> (\<exists>ps. free_ok (fst s) ps \<and> blocks (entry_at (fst s)) ps = F)"

definition in_data_area :: "fs \<times> entry \<Rightarrow> nat \<Rightarrow> nat \<Rightarrow> bool" where
  "in_data_area s a b \<longleftrightarrow> 0 < a \<and> a \<le> b \<and> Suc b * unat (block_size (fst s)) \<le> length (host_file (fst s))"

definition slot_left :: "fs \<times> entry \<Rightarrow> bool" where
  "slot_left s \<longleftrightarrow> (\<exists>i < index_size (fst s). unused (fst s) i)"

lemma slot_left_iff: "slot_left s \<longleftrightarrow> (\<exists>i. unused (fst s) i)"
  by (auto simp: slot_left_def unused_def)

definition take_extent :: "fs \<times> entry \<Rightarrow> u64 \<Rightarrow> u64 \<times> fs \<times> entry" where
  "take_extent s sz = (case del_file_list_alloc (fst s) (snd s) sz of (r, e, fs) \<Rightarrow> (r, fs, e))"

definition give_extent :: "fs \<times> entry \<Rightarrow> u64 \<Rightarrow> u64 \<Rightarrow> int \<times> fs \<times> entry" where
  "give_extent s a b = (case del_file_list_add (fst s) (snd s) a b of (r, e, fs) \<Rightarrow> (r, fs, e))"

lemma list_step_geometry:
  assumes "fs_ok fs" and "list_step fs ps fs' ps'"
  shows "block_size fs' = block_size fs" and "length (host_file fs') = length (host_file fs)"
    and "fs_ok fs'" and "free_ok fs' ps'"
proof -
  obtain at b where up: "vol_to fs at b fs'" and ok: "fs_ok fs'" "free_ok fs' ps'"
    using assms(2) by (auto simp: list_step_def)
  show "block_size fs' = block_size fs" "length (host_file fs') = length (host_file fs)" "fs_ok fs'" "free_ok fs' ps'"
    using ok vol_to_sel(6) [OF up] vol_to_length [OF assms(1) ok(1) up] by auto
qed

interpretation extents: block_allocator free_of "\<lambda>s. needed (fst s)" in_data_area slot_left take_extent give_extent
proof (unfold_locales, goal_cases)
  case (1 s F z b s')
  obtain ps where ps: "fs_ok (fst s)" "length (snd s) = 64" "free_ok (fst s) ps" "blocks (entry_at (fst s)) ps = F"
    using 1(1) by (auto simp: free_of_def)
  have pos: "0 < needed (fst s) z" using get_real_size_ok(4) [OF ps(1) 1(3)] 1(2) by simp
  show ?case
  proof (rule del_file_list_alloc_ok [OF ps(1,3,2) 1(2,3)])
    fix e' fs'
    assume h: "del_file_list_alloc (fst s) (snd s) z = (0, e', fs')" "length e' = 64" "fs_ok fs'"
      "same_vol (SET_ERRNO ENOSPC (fst s)) fs'"
    have "entry_at fs' = entry_at (fst s)" using same_vol_cong(1) [OF h(4)] by (simp add: fun_eq_iff)
    then have "blocks (entry_at fs') ps = F" using ps(4) by simp
    moreover have "free_ok fs' ps" using free_ok_same_vol [OF h(4)] ps(3) by simp
    moreover have "b = 0" "s' = (fs', e')" using 1(4) h(1) by (auto simp: take_extent_def)
    ultimately show ?thesis
      using h(2,3) same_vol_sel(5,6) [OF h(4)] pos
      by (auto simp: free_of_def needed_def in_data_area_def fun_eq_iff intro!: exI [of _ ps])
  next
    fix r e' fs' ps'
    assume h: "del_file_list_alloc (fst s) (snd s) z = (r, e', fs')" "length e' = 64"
      "list_step (fst s) ps fs' ps'" "0 < unat r"
      "{unat r ..< unat r + needed (fst s) z} \<subseteq> blocks (entry_at (fst s)) ps"
      "blocks (entry_at fs') ps' = blocks (entry_at (fst s)) ps - {unat r ..< unat r + needed (fst s) z}"
      "unat r + needed (fst s) z \<in> blocks (entry_at fs') ps' \<or> (\<exists>i. unused fs' i)"
    have "b = r" "fst s' = fs'" "snd s' = e'" using 1(4) h(1) by (auto simp: take_extent_def)
    then show ?thesis
      using list_step_geometry [OF ps(1) h(3)] h(2,4,5,6,7) ps(4) pos
      by (auto simp: slot_left_iff free_of_def needed_def in_data_area_def fun_eq_iff)
  qed
next
  case (2 s F a b r s')
  obtain ps where ps: "fs_ok (fst s)" "length (snd s) = 64" "free_ok (fst s) ps" "blocks (entry_at (fst s)) ps = F"
    using 2(1) by (auto simp: free_of_def)
  have new: "new_ext_ok (fst s) ps a b" using 2(2,3) ps(4) by (simp add: new_ext_ok_def in_data_area_def)
  show ?case
  proof (rule del_file_list_add_ok [OF ps(1,3,2) new])
    fix e' fs'
    assume h: "del_file_list_add (fst s) (snd s) a b = (-1, e', fs')" "length e' = 64" "fs_ok fs'"
      "same_vol (SET_ERRNO ENOMEM (fst s)) fs'" "\<forall>i. \<not> unused (fst s) i"
      "Suc (unat b) \<notin> blocks (entry_at (fst s)) ps"
    have "entry_at fs' = entry_at (fst s)" using same_vol_cong(1) [OF h(4)] by (simp add: fun_eq_iff)
    then have "blocks (entry_at fs') ps = F" using ps(4) by simp
    moreover have "free_ok fs' ps" using free_ok_same_vol [OF h(4)] ps(3) by simp
    moreover have "r = -1" "s' = (fs', e')" using 2(4) h(1) by (auto simp: give_extent_def)
    ultimately show ?thesis
      using h(2,3,5,6) ps(4) same_vol_sel(5,6) [OF h(4)]
      by (auto simp: slot_left_iff free_of_def needed_def in_data_area_def fun_eq_iff intro!: exI [of _ ps])
  next
    fix e' fs' ps'
    assume h: "del_file_list_add (fst s) (snd s) a b = (0, e', fs')" "length e' = 64"
      "list_step (fst s) ps fs' ps'"
      "blocks (entry_at fs') ps' = blocks (entry_at (fst s)) ps \<union> {unat a .. unat b}"
    have "r = 0" "fst s' = fs'" "snd s' = e'" using 2(4) h(1) by (auto simp: give_extent_def)
    then show ?thesis
      using list_step_geometry [OF ps(1) h(3)] h(2,4) ps(4)
      by (auto simp: free_of_def needed_def in_data_area_def fun_eq_iff)
  qed
next
  case (3 s F a b)
  then obtain ps where ps: "fs_ok (fst s)" "free_ok (fst s) ps" "blocks (entry_at (fst s)) ps = F"
    by (auto simp: free_of_def)
  have "a \<in> F" "b \<in> F" using 3 by auto
  then obtain p q where "p \<in> set ps" "a \<in> ext (entry_at (fst s) p)" "q \<in> set ps" "b \<in> ext (entry_at (fst s) q)"
    using ps(3) by (auto simp: blocks_def)
  moreover from this have "ext_ok (fst s) (entry_at (fst s) p)" "ext_ok (fst s) (entry_at (fst s) q)"
    using ps(2) by (auto simp: free_ok_def)
  ultimately have h: "0 < a" "b \<le> unat (end_block (entry_at (fst s) q))"
    "Suc (unat (end_block (entry_at (fst s) q))) * unat (block_size (fst s)) \<le> length (host_file (fst s))"
    by (auto simp: ext_def ext_ok_def)
  have "Suc b * unat (block_size (fst s)) \<le> Suc (unat (end_block (entry_at (fst s) q))) * unat (block_size (fst s))"
    by (rule mult_le_mono1) (use h(2) in simp)
  from order.trans [OF this h(3)] show ?case using 3(3) h(1) by (simp add: in_data_area_def)
qed

end
