(* ===== verification/Samples.thy ===== *)
theory Samples
  imports ExtentAdd
begin

text \<open>
  Small volumes in order, on which the properties of the development are applied: 16 blocks of 64
  bytes, block 0 reserved, the blocks 1 to 7 for data, and an index of seven entries and the
  volume identifier from offset 512. The checks at the end are executable forms of the invariants.
\<close>

section \<open>The volumes\<close>

definition sample_device :: "bytes \<Rightarrow> blockdev" where
  "sample_device img =
     \<lparr>host_file = img, io_fail = \<lambda>_. False, io_count = 0, clock = \<lambda>n. 1000 + word_of_nat n, ticks = 0,
      c_errno = 0, sfs_errno = 0, fd_filename = Some [0x69], fd = 3,
      bdev_size = word_of_nat (length img), block_size = 64, buf = take 64 img, buf_num = 0\<rparr>"

definition sample_free :: "u64 \<Rightarrow> u64 \<Rightarrow> u64 \<Rightarrow> u64 \<Rightarrow> entry" where
  "sample_free s e prev nxt = file_entry_bytes
     \<lparr>fe_entry_type = entry_code DEL_FILE_ENTRY, fe_cont_entries = 0, fe_time_stamp = prev,
      fe_start_block = s, fe_end_block = e, fe_size = nxt, fe_name = replicate 30 0\<rparr>"

definition sample_file :: "bytes \<Rightarrow> u64 \<Rightarrow> u64 \<Rightarrow> u64 \<Rightarrow> entry" where
  "sample_file name s e sz = file_entry_bytes
     \<lparr>fe_entry_type = entry_code FILE_ENTRY, fe_cont_entries = 0, fe_time_stamp = 77,
      fe_start_block = s, fe_end_block = e, fe_size = sz,
      fe_name = mem_put 0 name (replicate 30 0)\<rparr>"

definition sample_dir :: "bytes \<Rightarrow> entry" where
  "sample_dir name = dir_entry_bytes
     \<lparr>de_entry_type = entry_code DIR_ENTRY, de_cont_entries = 0, de_time_stamp = 55,
      de_dir_name = mem_put 0 name (replicate 54 0)\<rparr>"

definition sample_start :: entry where
  "sample_start = start_entry_bytes
     \<lparr>se_entry_type = entry_code START_ENTRY, se_del_start = 0, se_reserved = replicate 55 0\<rparr>"

definition sample_unused :: entry where
  "sample_unused = unused_entry_bytes \<lparr>ue_entry_type = entry_code UNUSED_ENTRY, ue_reserved = replicate 63 0\<rparr>"

definition sample_ident :: entry where
  "sample_ident = vol_ident_bytes \<lparr>ve_entry_type = entry_code VOL_IDENT, ve_reserved = replicate 3 0,
     ve_time_stamp = 0, ve_vol_label = replicate 52 0\<rparr>"

definition sample_volume :: "bytes \<Rightarrow> u64 \<Rightarrow> entry list \<Rightarrow> fs" where
  "sample_volume data b es =
     blockdev.extend (sample_device (replicate 64 0 @ mem_put 0 data (replicate 448 0) @ concat es @ sample_ident))
       (sfs_unit.fields 0 512 b (512 + 64 * word_of_nat (length es)))"

text \<open>A fresh volume; one with the file \<open>ab\<close> that holds \<open>hello\<close> and an empty directory \<open>d\<close>; one whose
  free blocks are two extents, with the file \<open>x\<close> between them.\<close>

definition fresh_volume :: fs where
  "fresh_volume = sample_volume [] 576
     [sample_start, sample_free 1 7 0 0, sample_dir [],
      sample_unused, sample_unused, sample_unused, sample_unused]"

definition hello_volume :: fs where
  "hello_volume = sample_volume [0x68, 0x65, 0x6C, 0x6C, 0x6F] 576
     [sample_start, sample_free 2 7 0 0, sample_dir [], sample_file [0x61, 0x62] 1 1 5,
      sample_dir [0x64], sample_unused, sample_unused]"

definition split_volume :: fs where
  "split_volume = sample_volume [] 576
     [sample_start, sample_free 1 2 0 768, sample_dir [], sample_file [0x78] 3 4 100,
      sample_free 5 7 576 0, sample_unused, sample_unused]"

definition sample_buffer :: entry where "sample_buffer = replicate 64 0xAA"

lemma length_sample_buffer [simp]: "length sample_buffer = 64"
  by (simp add: sample_buffer_def)

section \<open>They are in order\<close>

lemma length_samples [simp]:
  "length (sample_free s e prev nxt) = 64" "length sample_start = 64" "length sample_unused = 64"
  "length sample_ident = 64"
  by (simp_all add: sample_free_def sample_start_def start_entry_bytes_def sample_unused_def
      unused_entry_bytes_def sample_ident_def vol_ident_bytes_def)

lemma length_sample_names:
  "length name \<le> 30 \<Longrightarrow> length (sample_file name s e sz) = 64"
  "length name \<le> 54 \<Longrightarrow> length (sample_dir name) = 64"
  by (simp_all add: sample_file_def sample_dir_def length_mem_put)

lemma sample_sel [simp]:
  "host_file (sample_volume data b es)
     = replicate 64 0 @ mem_put 0 data (replicate 448 0) @ concat es @ sample_ident"
  "io_fail (sample_volume data b es) n = False" "fd (sample_volume data b es) = 3"
  "bdev_size (sample_volume data b es) = word_of_nat (length (host_file (sample_volume data b es)))"
  "block_size (sample_volume data b es) = 64" "buf_num (sample_volume data b es) = 0"
  "buf (sample_volume data b es) = take 64 (host_file (sample_volume data b es))"
  "entry_start (sample_volume data b es) = 512" "del_begin (sample_volume data b es) = b"
  "vol_ident (sample_volume data b es) = 512 + 64 * word_of_nat (length es)"
  by (simp_all add: sample_volume_def sample_device_def blockdev.extend_def sfs_unit.fields_def)

definition sample_shape :: "bytes \<Rightarrow> entry list \<Rightarrow> bool" where
  "sample_shape data es \<longleftrightarrow> length data \<le> 448 \<and> length es = 7 \<and> list_all (\<lambda>e. length e = 64) es"

lemma length_concat_entries: "list_all (\<lambda>e. length e = 64) es \<Longrightarrow> length (concat es) = 64 * length es"
  by (induction es) auto

lemma length_sample_image:
  "sample_shape data es \<Longrightarrow> length (host_file (sample_volume data b es)) = 1024"
  by (simp add: sample_shape_def length_concat_entries length_mem_put)

lemma sample_volume_ok:
  assumes "sample_shape data es"
  shows "fs_ok (sample_volume data b es)"
  using assms length_sample_image [OF assms, of b]
  by (simp add: fs_ok_def entry_dev_ok_def dev_ok_def geom_ok_def cache_ok_def disk_block_def seg_def
      unat_of_nat sample_shape_def del: sample_sel(1))

lemma seg_concat:
  "list_all (\<lambda>e. length e = 64) es \<Longrightarrow> i < length es \<Longrightarrow> seg (64 * i) 64 (concat es @ z) = es ! i"
proof (induction es arbitrary: i)
  case (Cons e es)
  then show ?case by (cases i) (auto simp: seg_def)
qed simp

lemma sample_entry:
  assumes "sample_shape data es" and "i < 7" and "unat p = 512 + 64 * i"
  shows "entry_at (sample_volume data b es) p = es ! i"
proof -
  have "seg (unat p) 64 (host_file (sample_volume data b es)) = seg (64 * i) 64 (concat es @ sample_ident)"
    using assms by (simp add: seg_def sample_shape_def length_mem_put)
  then show ?thesis
    using assms seg_concat [of es i sample_ident] length_sample_image [OF assms(1), of b]
    by (simp add: entry_at_def slot_valid_def sample_shape_def del: sample_sel(1))
qed

lemma sample_entries:
  assumes "sample_shape data es"
  shows "entry_at (sample_volume data b es) 512 = es ! 0" "entry_at (sample_volume data b es) 576 = es ! 1"
    "entry_at (sample_volume data b es) 640 = es ! 2" "entry_at (sample_volume data b es) 704 = es ! 3"
    "entry_at (sample_volume data b es) 768 = es ! 4" "entry_at (sample_volume data b es) 832 = es ! 5"
    "entry_at (sample_volume data b es) 896 = es ! 6"
  by (rule sample_entry [OF assms]; simp)+

lemma sample_offs:
  assumes "sample_shape data es"
  shows "index_size (sample_volume data b es) = 7"
    and "index_offs (sample_volume data b es) = [512, 576, 640, 704, 768, 832, 896]"
  using assms
  by (simp_all add: sample_shape_def index_size_def index_offs_def index_off_def upt_rec)

lemma sample_valid:
  assumes "sample_shape data es"
  shows "slot_valid (sample_volume data b es) p \<longleftrightarrow> 64 dvd unat p \<and> unat p \<le> 960"
  using length_sample_image [OF assms, of b] by (auto simp: slot_valid_def)

lemmas sample_simps = sample_entries sample_offs sample_valid sample_volume_ok length_sample_image

lemma sample_shapes [simp]:
  "length d \<le> 448 \<Longrightarrow> sample_shape d [sample_start, sample_free 1 7 0 0, sample_dir [],
      sample_unused, sample_unused, sample_unused, sample_unused]"
  "sample_shape [0x68, 0x65, 0x6C, 0x6C, 0x6F] [sample_start, sample_free 2 7 0 0, sample_dir [],
      sample_file [0x61, 0x62] 1 1 5, sample_dir [0x64], sample_unused, sample_unused]"
  "sample_shape [] [sample_start, sample_free 1 2 0 768, sample_dir [], sample_file [0x78] 3 4 100,
      sample_free 5 7 576 0, sample_unused, sample_unused]"
  by (simp_all add: sample_shape_def length_sample_names)

lemma sample_volumes_ok [simp]: "fs_ok fresh_volume" "fs_ok hello_volume" "fs_ok split_volume"
  by (simp_all add: fresh_volume_def hello_volume_def split_volume_def sample_volume_ok)

lemma sample_fields [simp]:
  "entry_type (sample_free s e p n) = entry_code DEL_FILE_ENTRY" "start_block (sample_free s e p n) = s"
  "end_block (sample_free s e p n) = e" "PREV_DEL (sample_free s e p n) = p"
  "NEXT_DEL (sample_free s e p n) = n" "cont_entries (sample_free s e p n) = 0"
  "entry_type (sample_file nm s e z) = entry_code FILE_ENTRY" "start_block (sample_file nm s e z) = s"
  "end_block (sample_file nm s e z) = e" "file_size (sample_file nm s e z) = z"
  "cont_entries (sample_file nm s e z) = 0" "drop 34 (sample_file nm s e z) = mem_put 0 nm (replicate 30 0)"
  "entry_type (sample_dir nm) = entry_code DIR_ENTRY" "cont_entries (sample_dir nm) = 0"
  "drop 10 (sample_dir nm) = mem_put 0 nm (replicate 54 0)"
  by (simp_all add: sample_free_def sample_file_def sample_dir_def layout_simps del: One_nat_def)

lemma sample_conts [simp]:
  "get_u8 (Suc 0) (sample_free s e p n) = 0" "get_u8 (Suc 0) (sample_file nm s e z) = 0"
  "get_u8 (Suc 0) (sample_dir nm) = 0"
  using sample_fields(6,11,14) by simp_all

lemma sample_types [simp]:
  "entry_type sample_start = entry_code START_ENTRY" "entry_type sample_unused = entry_code UNUSED_ENTRY"
  by (simp_all add: sample_start_def start_entry_bytes_def sample_unused_def unused_entry_bytes_def get_u8_def cs_at_def)

lemma sample_free_ok [simp]: "free_ok fresh_volume [576]" "free_ok hello_volume [576]"
  "free_ok split_volume [576, 768]"
  by (simp_all add: fresh_volume_def hello_volume_def split_volume_def free_ok_def free_list_def ext_ok_def
      ext_def sample_simps del: sample_sel(1))

lemma sample_names_ok [simp]: "dir_names_ok fresh_volume" "dir_names_ok hello_volume"
  "dir_names_ok split_volume"
  by (simp_all add: fresh_volume_def hello_volume_def split_volume_def dir_names_ok_def names_ok_def name_ok_def
      name_bytes_def sample_simps mem_put_def patch_def del: sample_sel(1))

lemma small_ranges:
  "{Suc 0 .. 7} = {1, 2, 3, 4, 5, 6, 7}" "{2 .. 7 :: nat} = {2, 3, 4, 5, 6, 7}"
  "{Suc 0 .. 2} = {1, 2}" "{5 .. 7 :: nat} = {5, 6, 7}" "{3 .. 4 :: nat} = {3, 4}"
  by auto

lemma sample_blocks [simp]:
  "blocks (entry_at fresh_volume) [576] = {1, 2, 3, 4, 5, 6, 7}"
  "blocks (entry_at hello_volume) [576] = {2, 3, 4, 5, 6, 7}"
  "blocks (entry_at split_volume) [576, 768] = {1, 2, 5, 6, 7}"
  unfolding fresh_volume_def hello_volume_def split_volume_def
  by (simp_all add: sample_simps ext_def small_ranges insert_commute del: sample_sel(1))

lemma sample_needed [simp]:
  "needed fresh_volume z = (unat z + 63) div 64" "needed hello_volume z = (unat z + 63) div 64"
  "needed split_volume z = (unat z + 63) div 64"
  by (simp_all add: needed_def fresh_volume_def hello_volume_def split_volume_def del: sample_sel(1))

lemma sample_sizes [simp]:
  "length (host_file fresh_volume) = 1024" "length (host_file hello_volume) = 1024"
  "length (host_file split_volume) = 1024" "block_size fresh_volume = 64" "block_size hello_volume = 64"
  "block_size split_volume = 64"
  by (simp_all add: fresh_volume_def hello_volume_def split_volume_def length_sample_image del: sample_sel(1))

lemma sample_index [simp]:
  "index_size fresh_volume = 7" "index_size hello_volume = 7" "index_size split_volume = 7"
  "index_offs fresh_volume = [512, 576, 640, 704, 768, 832, 896]"
  "index_offs hello_volume = [512, 576, 640, 704, 768, 832, 896]"
  "index_offs split_volume = [512, 576, 640, 704, 768, 832, 896]"
  "index_off fresh_volume i = 512 + 64 * word_of_nat i" "index_off hello_volume i = 512 + 64 * word_of_nat i"
  "index_off split_volume i = 512 + 64 * word_of_nat i"
  by (simp_all add: fresh_volume_def hello_volume_def split_volume_def sample_simps index_off_def
      del: sample_sel(1))

lemma sample_slots [simp]:
  "slot_valid fresh_volume p \<longleftrightarrow> 64 dvd unat p \<and> unat p \<le> 960"
  "slot_valid hello_volume p \<longleftrightarrow> 64 dvd unat p \<and> unat p \<le> 960"
  "slot_valid split_volume p \<longleftrightarrow> 64 dvd unat p \<and> unat p \<le> 960"
  by (simp_all add: fresh_volume_def hello_volume_def split_volume_def sample_simps del: sample_sel(1))

text \<open>The entries of the three volumes, by offset.\<close>

lemma fresh_entries [simp]:
  "entry_at fresh_volume 512 = sample_start" "entry_at fresh_volume 576 = sample_free 1 7 0 0"
  "entry_at fresh_volume 640 = sample_dir []" "entry_at fresh_volume 704 = sample_unused"
  "entry_at fresh_volume 768 = sample_unused" "entry_at fresh_volume 832 = sample_unused"
  "entry_at fresh_volume 896 = sample_unused"
  by (simp_all add: fresh_volume_def sample_simps del: sample_sel(1))

lemma hello_entries [simp]:
  "entry_at hello_volume 512 = sample_start" "entry_at hello_volume 576 = sample_free 2 7 0 0"
  "entry_at hello_volume 640 = sample_dir []" "entry_at hello_volume 704 = sample_file [0x61, 0x62] 1 1 5"
  "entry_at hello_volume 768 = sample_dir [0x64]" "entry_at hello_volume 832 = sample_unused"
  "entry_at hello_volume 896 = sample_unused"
  by (simp_all add: hello_volume_def sample_simps del: sample_sel(1))

lemma split_entries [simp]:
  "entry_at split_volume 512 = sample_start" "entry_at split_volume 576 = sample_free 1 2 0 768"
  "entry_at split_volume 640 = sample_dir []" "entry_at split_volume 704 = sample_file [0x78] 3 4 100"
  "entry_at split_volume 768 = sample_free 5 7 576 0" "entry_at split_volume 832 = sample_unused"
  "entry_at split_volume 896 = sample_unused"
  by (simp_all add: split_volume_def sample_simps del: sample_sel(1))

lemma sample_ext [simp]:
  "ext (sample_free s e p n) = {unat s .. unat e}" "ext (sample_file nm s e z) = {unat s .. unat e}"
  by (simp_all add: ext_def)

end
