(* ===== verification/BlockTransfer.thy ===== *)
theory BlockTransfer
  imports BlockIO
begin

text \<open>
  What the block-spanning paths of io.c do: the exact result of a \<open>read_data\<close> over several
  blocks, the copying of a run of blocks, and the states in which the one-block buffer no longer
  holds the block it is labelled with.
\<close>

lemma block_number_small:
  assumes "0 < (n :: nat)" and "unat (b :: u64) * n < 2 ^ 63"
  shows "unat b < 2 ^ 63" and "unat (b + 1) = unat b + 1"
proof -
  have "unat b \<le> unat b * n" using assms(1) by (cases n) auto
  then show "unat b < 2 ^ 63" using assms(2) by (rule le_less_trans)
  then show "unat (b + 1) = unat b + 1" by (subst unat_add_small) auto
qed

lemma word_div_step:
  assumes "(n :: u64) \<le> s" and "0 < unat n" and "unat s < 2 ^ 63"
  shows "unat (s - n) = unat s - unat n"
    and "unat s div unat n = Suc (unat (s - n) div unat n)"
    and "1 + (s - n) div n = s div n" and "(s - n) mod n = s mod n"
proof -
  have le: "unat n \<le> unat s" using assms(1) by (simp add: word_le_nat_alt)
  show us: "unat (s - n) = unat s - unat n" using le by (rule unat_sub_small)
  show q: "unat s div unat n = Suc (unat (s - n) div unat n)"
    using us le assms(2) by (simp add: le_div_geq)
  have "unat (s - n) div unat n < 2 ^ 63"
    using us le assms(3) div_le_dividend [of "unat (s - n)" "unat n"] by linarith
  then have "unat (1 + (s - n) div n) = unat (s div n)"
    using q by (subst unat_add_small) (auto simp: unat_div)
  then show "1 + (s - n) div n = s div n" by (simp only: word_unat_eq_iff)
  show "(s - n) mod n = s mod n"
    using us le by (simp add: word_unat_eq_iff unat_mod le_mod_geq)
qed

section \<open>Reading several blocks\<close>

lemma read_blocks_ok:
  assumes "geom_ok d" and "bsize = block_size d"
    and "unat b * unat bsize + unat sz \<le> length (host_file d)"
    and "unat b * unat bsize < 2 ^ 63"
  shows "\<exists>d'. read_blocks bsize d b data p sz
             = (True, b + sz div bsize,
                mem_put p (seg (unat b * unat bsize) (unat sz div unat bsize * unat bsize) (host_file d)) data,
                p + unat sz div unat bsize * unat bsize, sz mod bsize, d')
           \<and> geom_ok d' \<and> core d' = core d \<and> buf_num d' = buf_num d
           \<and> buf d' = (if sz < bsize then buf d
                else disk_block d (unat b + unat sz div unat bsize - 1))"
  using assms
proof (induction "unat sz" arbitrary: d b p sz data rule: less_induct)
  case less
  let ?n = "unat bsize"
  have pos: "0 < ?n" and len63: "length (host_file d) < 2 ^ 63"
    using less.prems by (auto simp: geom_ok_def)
  have s63: "unat sz < 2 ^ 63" using less.prems(3) len63 by linarith
  show ?case
  proof (cases "bsize \<le> sz")
    case False
    then have "unat sz < ?n" by (simp add: word_le_nat_alt)
    moreover from this have "sz div bsize = 0" "sz mod bsize = sz"
      by (simp_all add: word_unat_eq_iff unat_div unat_mod)
    ultimately show ?thesis
      using less.prems(1) False by (subst read_blocks.simps) (simp add: word_le_nat_alt word_less_nat_alt)
  next
    case True
    then have le: "?n \<le> unat sz" by (simp add: word_le_nat_alt)
    note w = word_div_step [OF True pos s63] and bn = block_number_small [OF pos less.prems(4)]
    let ?d1 = "d\<lparr>buf := disk_block d (unat b), io_count := Suc (io_count d), c_errno := 0\<rparr>"
    let ?data = "mem_put p (disk_block d (unat b)) data"
    have range: "Suc (unat b) * unat (block_size d) \<le> length (host_file d)"
      using less.prems le by simp
    have rd: "dev_read d b = (bsize, ?d1)" and ne: "bsize \<noteq> -1"
      using dev_read_ok [OF less.prems(1) range] start_pos_small(4) [OF less.prems(1) range]
        less.prems(2) by simp_all
    have lb: "length (disk_block d (unat b)) = ?n" using range less.prems(2) by simp
    then have get: "mem_get 0 ?n (disk_block d (unat b)) = disk_block d (unat b)"
      by (simp add: mem_get_within seg_all)
    have step: "read_blocks bsize d b data p sz
        = read_blocks bsize ?d1 (b + 1) ?data (p + ?n) (sz - bsize)"
      using True pos rd ne get by (subst read_blocks.simps) auto
    have geom1: "geom_ok ?d1" using less.prems(1,2) lb by (simp add: geom_ok_def)
    have pre: "unat (b + 1) * ?n + unat (sz - bsize) \<le> length (host_file ?d1)"
      "unat (b + 1) * ?n < 2 ^ 63" "unat (sz - bsize) < unat sz"
      using less.prems(3) le len63 pos unfolding bn w(1) by (auto simp: algebra_simps)
    obtain d' where d': "read_blocks bsize ?d1 (b + 1) ?data (p + ?n) (sz - bsize)
           = (True, b + 1 + (sz - bsize) div bsize,
              mem_put (p + ?n) (seg (unat (b + 1) * ?n) (unat (sz - bsize) div ?n * ?n) (host_file d)) ?data,
              p + ?n + unat (sz - bsize) div ?n * ?n, (sz - bsize) mod bsize, d')"
      and props: "geom_ok d'" "core d' = core ?d1" "buf_num d' = buf_num ?d1"
        "buf d' = (if sz - bsize < bsize then disk_block d (unat b)
           else disk_block d (unat (b + 1) + unat (sz - bsize) div ?n - 1))"
      using less.hyps [OF pre(3) geom1 _ pre(1,2), of ?data "p + ?n"] less.prems(2) by auto
    have join: "mem_put (p + ?n) (seg (unat (b + 1) * ?n) (unat (sz - bsize) div ?n * ?n) (host_file d)) ?data
        = mem_put p (seg (unat b * ?n) (unat sz div ?n * ?n) (host_file d)) data"
      using mem_put_append [of p "disk_block d (unat b)" _ data] lb less.prems(2)
      unfolding w(2) bn by (simp add: seg_add disk_block_def algebra_simps)
    have last: "buf d' = disk_block d (unat b + unat sz div ?n - 1)"
    proof (cases "sz - bsize < bsize")
      case True
      then have "unat (sz - bsize) div ?n = 0" by (simp add: word_less_nat_alt)
      with True props(4) w(2) show ?thesis by simp
    next
      case False
      with props(4) w(2) bn show ?thesis by simp
    qed
    have "\<not> sz < bsize" using True by simp
    then show ?thesis
      using step d' props(1-3) last join w
      by (intro exI [of _ d']) (simp add: algebra_simps)
  qed
qed

text \<open>
  A read that leaves its first block. The bytes of the first block go to the start of the buffer,
  the rest to \<open>bsize + cur_pos\<close>, where it belongs only if the read starts on a block boundary
  (\<open>data += bsize + cur_pos\<close>, io.c line 57).
\<close>

lemma read_data_spanning:
  fixes off sz :: u64 and d :: "'a blockdev_scheme"
  defines "n \<equiv> unat (block_size d)" and "c \<equiv> unat off mod unat (block_size d)"
  assumes ok: "dev_ok d" and fits: "unat off + unat sz \<le> length (host_file d)"
    and span: "n < c + unat sz"
  shows "\<exists>d'. read_data d off data sz =
           (sz, mem_put (n + c) (seg (unat off + (n - c)) (unat sz - (n - c)) (host_file d))
                  (mem_put 0 (seg (unat off) (n - c) (host_file d)) data), d')
         \<and> geom_ok d' \<and> core d' = core d
         \<and> ((unat sz - (n - c)) mod n \<noteq> 0 \<longrightarrow> dev_ok d')
         \<and> ((unat sz - (n - c)) mod n = 0 \<longrightarrow>
              buf_num d' = off div block_size d
              \<and> buf d' = disk_block d ((unat off + unat sz) div n - 1))"
proof -
  let ?b = "off div block_size d"
  have geom: "geom_ok d" using ok by (simp add: dev_ok_def)
  have ub: "unat ?b = unat off div n" by (simp add: unat_div n_def)
  have um: "unat (off mod block_size d) = c" by (simp add: unat_mod c_def)
  have npos: "0 < n" using geom by (simp add: geom_ok_def n_def)
  then have c_lt: "c < n" by (simp add: c_def n_def)
  then have kle: "n - c \<le> unat sz" and spos: "0 < unat sz" using span by auto
  have range: "Suc (unat ?b) * n \<le> length (host_file d)"
    unfolding ub using geom fits spos by (intro block_in_range) (auto simp: geom_ok_def n_def)
  note range' = range [unfolded n_def] and rn = range
  note g = geom_ok_bounds [OF geom range', folded n_def]
  have pos: "unat ?b * n + c = unat off" unfolding ub c_def n_def by simp
  have sz63: "unat sz < 2 ^ 63" using fits g(4) by linarith
  let ?w = "block_size d - off mod block_size d"
  have uw: "unat ?w = n - c"
    using um c_lt by (subst unat_sub_small) (auto simp: n_def)
  have us: "unat (sz - ?w) = unat sz - (n - c)" using kle uw by (subst unat_sub_small) auto
  have over: "\<not> off mod block_size d + sz \<le> block_size d"
    using span g um c_lt sz63 by (simp add: word_le_nat_alt unat_add_small n_def [symmetric])
  note bn = block_number_small [OF npos g(2)]
  have b1: "unat (?b + 1) * n = unat off + (n - c)"
    using pos c_lt unfolding bn by (simp add: algebra_simps)
  let ?l = "load d ?b"
  have lok: "dev_ok ?l" and lbuf: "buf ?l = disk_block d (unat ?b)"
    using dev_ok_load [OF ok range'] by simp_all
  have lgeom: "geom_ok ?l" using lok by (simp add: dev_ok_def)
  have lcore: "host_file ?l = host_file d" "block_size ?l = block_size d"
    using core_eqD [OF core_load [of d ?b]] by simp_all
  have lnum: "buf_num ?l = ?b" by (simp add: load_def)
  let ?first = "mem_put 0 (seg (unat off) (n - c) (host_file d)) data"
  have get: "mem_get c (n - c) (disk_block d (unat ?b)) = seg (unat off) (n - c) (host_file d)"
    using c_lt range pos by (simp add: mem_get_within disk_block_def n_def [symmetric] seg_simps)
  have start: "(case (if buf_num d \<noteq> ?b then
             (case dev_read d ?b of (r, d) \<Rightarrow>
                if r = -1 then (True, SET_ERRNO EIO d) else (False, d\<lparr>buf_num := ?b\<rparr>))
           else (False, d)) of (failed, d') \<Rightarrow> f failed d') = f False ?l" for f :: "bool \<Rightarrow> _ \<Rightarrow> 'b"
    using dev_read_ok [OF geom range'] start_pos_small(4) [OF geom range'] by (auto simp: load_def)
  let ?q = "unat (sz - ?w) div n * n" and ?r = "(sz - ?w) mod block_size d"
  have qle: "?q \<le> unat sz - (n - c)" using us by (metis div_times_less_eq_dividend)
  have ur: "unat ?r = unat sz - (n - c) - ?q" "unat ?r = (unat sz - (n - c)) mod n"
    using us by (simp_all only: unat_mod minus_div_mult_eq_mod n_def [symmetric])
  obtain d2 where rb: "read_blocks (block_size d) ?l (?b + 1) ?first (n + c) (sz - ?w)
      = (True, ?b + 1 + (sz - ?w) div block_size d,
         mem_put (n + c) (seg (unat off + (n - c)) ?q (host_file d)) ?first,
         n + c + ?q, ?r, d2)"
    and p2: "geom_ok d2" "core d2 = core ?l" "buf_num d2 = buf_num ?l"
      "buf d2 = (if sz - ?w < block_size d then buf ?l
         else disk_block ?l (unat (?b + 1) + unat (sz - ?w) div n - 1))"
    using read_blocks_ok [OF lgeom, of "block_size d" "?b + 1" "sz - ?w" ?first "n + c"]
      lcore b1 us kle fits g(4) by (auto simp: n_def [symmetric])
  let ?b3 = "?b + 1 + (sz - ?w) div block_size d"
  let ?mid = "mem_put (n + c) (seg (unat off + (n - c)) ?q (host_file d)) ?first"
  have head: "read_data d off data sz =
      (if ?r = 0 then (sz, ?mid, d2)
       else (case dev_read (d2\<lparr>buf_num := ?b3\<rparr>) ?b3 of
               (r, d) \<Rightarrow>
                 if r = -1 then (-1, ?mid, SET_ERRNO EIO d)
                 else (sz, mem_put (n + c + ?q) (mem_get 0 (unat ?r) (buf d)) ?mid, d)))"
    unfolding read_data_def Let_def
    by (subst start) (use over um uw get lbuf rb in \<open>simp add: n_def [symmetric]\<close>)
  have q63: "unat (sz - ?w) div n \<le> unat sz" using us div_le_dividend [of "unat (sz - ?w)" n] by linarith
  have ub3: "unat ?b3 = unat ?b + 1 + unat (sz - ?w) div n"
    using q63 bn sz63 by (subst unat_add_small) (auto simp: unat_div n_def)
  have b3: "unat ?b3 * n = unat off + (n - c) + ?q"
    using b1 unfolding ub3 bn by (simp add: algebra_simps)
  show ?thesis
  proof (cases "?r = 0")
    case True
    then have qall: "?q = unat sz - (n - c)" using ur qle by simp
    have "\<not> sz - ?w < block_size d"
    proof
      assume "sz - ?w < block_size d"
      then have "unat (sz - ?w) mod n = unat (sz - ?w)" by (simp add: word_less_nat_alt n_def)
      with True span us c_lt ur(2) show False by simp
    qed
    then have "buf d2 = disk_block d (unat (?b + 1) + unat (sz - ?w) div n - 1)"
      using p2(4) lcore disk_block_cong [of ?l d] by simp
    moreover have "unat (?b + 1) + unat (sz - ?w) div n = (unat off + unat sz) div n"
    proof -
      have "unat off + unat sz = (unat (?b + 1) + unat (sz - ?w) div n) * n"
        using b1 qall kle by (simp add: algebra_simps)
      then show ?thesis using npos by simp
    qed
    ultimately show ?thesis
      using head True qall p2 lnum ur by (intro exI [of _ d2]) simp
  next
    case False
    then have rpos: "0 < unat ?r" by (simp add: unat_gt_0)
    have h2: "host_file d2 = host_file d" "block_size d2 = block_size d"
      using core_eqD [OF p2(2)] lcore by simp_all
    have qr: "?q + unat ?r = unat sz - (n - c)" using ur(1) qle by linarith
    have "unat ?b3 * n < length (host_file d)" using b3 qr rpos fits kle by linarith
    then have range3: "Suc (unat ?b3) * n \<le> length (host_file d)"
      using block_in_range [of n "length (host_file d)" "unat ?b3 * n"] geom npos
      by (simp add: geom_ok_def n_def)
    have geom3: "geom_ok (d2\<lparr>buf_num := ?b3\<rparr>)" using p2(1) by (simp add: geom_ok_def)
    let ?d3 = "d2\<lparr>buf_num := ?b3, buf := disk_block d (unat ?b3), io_count := Suc (io_count d2), c_errno := 0\<rparr>"
    have rd3: "dev_read (d2\<lparr>buf_num := ?b3\<rparr>) ?b3 = (block_size d, ?d3)"
      using dev_read_ok [OF geom3, of ?b3] range3 h2 disk_block_cong [of d2 d] by (simp add: n_def)
    have ok3: "dev_ok ?d3"
      using p2(1) h2 range3 disk_block_cong [of d2 d]
      by (simp add: dev_ok_def geom_ok_def cache_ok_def n_def disk_block_def)
    have get3: "mem_get 0 (unat ?r) (disk_block d (unat ?b3))
        = seg (unat off + (n - c) + ?q) (unat ?r) (host_file d)"
      using range3 b3 npos by (simp add: mem_get_within disk_block_def n_def [symmetric] seg_simps unat_mod less_imp_le)
    have lq: "length (seg (unat off + (n - c)) ?q (host_file d)) = ?q"
      using qle fits kle by simp
    have "mem_put (n + c + ?q) (seg (unat off + (n - c) + ?q) (unat ?r) (host_file d)) ?mid
        = mem_put (n + c) (seg (unat off + (n - c)) (unat sz - (n - c)) (host_file d)) ?first"
      using mem_put_append [of "n + c" "seg (unat off + (n - c)) ?q (host_file d)" _ ?first] lq
      unfolding qr [symmetric] by (simp add: seg_add)
    then show ?thesis
      using head False rd3 ok3 get3 start_pos_small(4) [OF geom range'] p2 ur(2) rpos
      by (intro exI [of _ ?d3]) (simp add: dev_ok_def)
  qed
qed

lemma read_data_aligned:
  assumes "dev_ok d" and "unat off + unat sz \<le> length (host_file d)"
    and "unat (block_size d) dvd unat off" and "unat (block_size d) < unat sz"
    and "unat sz \<le> length data"
  shows "\<exists>d'. read_data d off data sz =
           (sz, patch 0 (seg (unat off) (unat sz) (host_file d)) data, d') \<and> core d' = core d"
proof -
  let ?n = "unat (block_size d)"
  have c: "unat off mod ?n = 0" using assms(3) by simp
  obtain d' where "read_data d off data sz =
      (sz, mem_put ?n (seg (unat off + ?n) (unat sz - ?n) (host_file d))
             (mem_put 0 (seg (unat off) ?n (host_file d)) data), d')" "core d' = core d"
    using read_data_spanning [OF assms(1,2), of data] assms(4) c by auto
  moreover have "mem_put ?n (seg (unat off + ?n) (unat sz - ?n) (host_file d))
        (mem_put 0 (seg (unat off) ?n (host_file d)) data)
      = patch 0 (seg (unat off) (unat sz) (host_file d)) data"
    using mem_put_append [of 0 "seg (unat off) ?n (host_file d)" _ data] assms(2,4)
      seg_add [of "unat off" ?n "unat sz - ?n" "host_file d"]
    by (simp add: mem_put_within)
  ultimately show ?thesis by auto
qed

section \<open>Copying a run of blocks\<close>

lemma copy_block_ok:
  assumes "geom_ok d" and "(unat src + unat n) * unat (block_size d) \<le> length (host_file d)"
    and "(unat dst + unat n) * unat (block_size d) \<le> length (host_file d)"
    and "unat dst \<le> unat src \<or> unat src + unat n \<le> unat dst"
  shows "\<exists>d'. copy_block d src dst n = (0, d') \<and> geom_ok d' \<and> buf_num d' = buf_num d
      \<and> core d' = (core d)\<lparr>host_file := patch (unat dst * unat (block_size d))
          (seg (unat src * unat (block_size d)) (unat n * unat (block_size d)) (host_file d)) (host_file d)\<rparr>"
  using assms
proof (induction "unat n" arbitrary: d src dst n)
  case 0
  then have "n = 0" by (simp add: unat_eq_0)
  with 0 show ?case by (subst copy_block.simps) simp
next
  case (Suc k)
  let ?bs = "unat (block_size d)" and ?h = "host_file d"
  have pos: "0 < ?bs" and len63: "length ?h < 2 ^ 63" using Suc.prems(1) by (auto simp: geom_ok_def)
  have npos: "n > 0" using Suc.hyps(2) by (simp add: word_less_nat_alt)
  have un: "unat (n - 1) = k" using Suc.hyps(2) by (subst unat_sub_small) auto
  have rs: "Suc (unat src) * ?bs \<le> length ?h" and rt: "Suc (unat dst) * ?bs \<le> length ?h"
    using Suc.prems(2,3) Suc.hyps(2) by (auto simp: algebra_simps intro: order_trans [rotated])
  let ?blk = "disk_block d (unat src)"
  let ?d1 = "d\<lparr>buf := ?blk, io_count := Suc (io_count d), c_errno := 0\<rparr>"
  let ?h2 = "patch (unat dst * ?bs) ?blk ?h"
  let ?d2 = "?d1\<lparr>host_file := ?h2, io_count := Suc (io_count ?d1), c_errno := 0\<rparr>"
  have lb: "length ?blk = ?bs" using rs by simp
  have g1: "geom_ok ?d1" using Suc.prems(1) lb by (simp add: geom_ok_def)
  have rd: "dev_read d src = (block_size d, ?d1)" by (rule dev_read_ok [OF Suc.prems(1) rs])
  have wr: "dev_write ?d1 dst = (block_size d, ?d2)"
    using dev_write_ok [OF g1, of dst] rt by simp
  have ne: "block_size d \<noteq> -1" by (rule start_pos_small(4) [OF Suc.prems(1) rs])
  have step: "copy_block d src dst n = copy_block ?d2 (src + 1) (dst + 1) (n - 1)"
    using npos rd wr ne by (subst copy_block.simps) simp
  have g2: "geom_ok ?d2" using g1 lb rt by (simp add: geom_ok_def)
  have us: "unat (src + 1) = unat src + 1" and ut: "unat (dst + 1) = unat dst + 1"
    using block_number_small(2) [OF pos] geom_ok_bounds(2) [OF Suc.prems(1) rs]
      geom_ok_bounds(2) [OF Suc.prems(1) rt] by auto
  have l2: "length ?h2 = length ?h" using lb rt by simp
  obtain d' where d': "copy_block ?d2 (src + 1) (dst + 1) (n - 1) = (0, d')" "geom_ok d'"
    "buf_num d' = buf_num d"
    "core d' = (core ?d2)\<lparr>host_file := patch (unat (dst + 1) * ?bs)
          (seg (unat (src + 1) * ?bs) (k * ?bs) ?h2) ?h2\<rparr>"
  proof -
    have e: "unat (src + 1) + unat (n - 1) = unat src + unat n"
      "unat (dst + 1) + unat (n - 1) = unat dst + unat n"
      using un us ut Suc.hyps(2) by simp_all
    have "(unat (src + 1) + unat (n - 1)) * unat (block_size ?d2) \<le> length (host_file ?d2)"
      and "(unat (dst + 1) + unat (n - 1)) * unat (block_size ?d2) \<le> length (host_file ?d2)"
      and "unat (dst + 1) \<le> unat (src + 1) \<or> unat (src + 1) + unat (n - 1) \<le> unat (dst + 1)"
      unfolding e using Suc.prems(2-4) l2 us ut by auto
    from Suc.hyps(1) [OF un [symmetric] g2 this] show ?thesis using that un by auto
  qed
  have same: "seg (unat (src + 1) * ?bs) (k * ?bs) ?h2 = seg (unat (src + 1) * ?bs) (k * ?bs) ?h"
  proof (rule seg_patch_other)
    show "unat dst * ?bs + length ?blk \<le> length ?h" using lb rt by simp
    show "unat (src + 1) * ?bs + k * ?bs \<le> unat dst * ?bs
        \<or> unat dst * ?bs + length ?blk \<le> unat (src + 1) * ?bs"
    proof (cases "unat dst \<le> unat src")
      case True
      then have "unat dst * ?bs + ?bs \<le> unat src * ?bs + ?bs" by (intro add_mono mult_le_mono) auto
      then show ?thesis using lb us by (simp add: algebra_simps)
    next
      case False
      then have "(unat src + unat n) * ?bs \<le> unat dst * ?bs"
        using Suc.prems(4) by (intro mult_le_mono) auto
      then show ?thesis using us Suc.hyps(2) [symmetric] by (simp add: algebra_simps)
    qed
  qed
  have "patch (unat (dst + 1) * ?bs) (seg (unat (src + 1) * ?bs) (k * ?bs) ?h) ?h2
      = patch (unat dst * ?bs) (?blk @ seg (unat (src + 1) * ?bs) (k * ?bs) ?h) ?h"
  proof -
    have "unat dst * ?bs + length ?blk + length (seg (unat (src + 1) * ?bs) (k * ?bs) ?h) \<le> length ?h"
      using Suc.prems(2,3) Suc.hyps(2) [symmetric] lb us
      by (simp add: length_seg algebra_simps)
    from patch_append [OF this] show ?thesis using lb ut by (simp add: algebra_simps)
  qed
  also have "?blk @ seg (unat (src + 1) * ?bs) (k * ?bs) ?h = seg (unat src * ?bs) (unat n * ?bs) ?h"
    using us Suc.hyps(2) [symmetric] by (simp add: disk_block_def seg_add algebra_simps)
  finally show ?case using step d' same by (intro exI [of _ d']) simp
qed

end
