(* ===== verification/DeviceProps.thy ===== *)
theory DeviceProps
  imports Samples BlockTransfer
begin

text \<open>
  The properties of the bottom of the library: src/lib/filedev.c, src/lib/sfs/io.c and the routines
  of src/lib/sfs/utils.c. Reads and writes of any range as operations on the image, the errors of
  the host, and where the code departs from the C library it replaces.
\<close>

section \<open>Byte ranges over blocks\<close>

text \<open>C27: \<open>write_data\<close> of any range inside the image, however many blocks it touches and wherever it
  starts and ends in them, changes exactly the bytes of the range, reports its size, and leaves the
  buffer consistent with the image.\<close>

theorem write_data_changes_the_range:
  assumes "dev_ok d" and "unat off < length (host_file d)"
    and "unat off + unat sz \<le> length (host_file d)" and "unat sz \<le> length data"
  shows "\<exists>d'. write_data d off data sz = (sz, d') \<and> dev_ok d'
    \<and> host_file d' = take (unat off) (host_file d) @ take (unat sz) data
        @ drop (unat off + unat sz) (host_file d)"
proof -
  obtain d' where d': "write_data d off data sz = (sz, d')" "dev_ok d'"
    "core d' = (core d)\<lparr>host_file := patch (unat off) (take (unat sz) data) (host_file d)\<rparr>"
    using write_data_ok [OF assms] by blast
  have "host_file d' = patch (unat off) (take (unat sz) data) (host_file d)"
    using arg_cong [OF d'(3), of host_file] by simp
  with d'(1,2) assms show ?thesis by (simp add: patch_def)
qed

lemma sample_dev_ok [simp]: "dev_ok fresh_volume" "dev_ok hello_volume" "dev_ok split_volume"
  using sample_volumes_ok by (simp_all add: fs_ok_def entry_dev_ok_def)

theorem write_data_changes_the_range_witness:
  "\<exists>d'. write_data fresh_volume 100 (replicate 200 1) 200 = (200, d') \<and> dev_ok d'
    \<and> host_file d' = take 100 (host_file fresh_volume) @ replicate 200 1 @ drop 300 (host_file fresh_volume)"
  using write_data_changes_the_range [of fresh_volume 100 200 "replicate 200 1"] by simp

text \<open>C28: A read that starts inside a block and goes beyond it reports success and leaves a gap: the
  rest of its first block is stored at the start of the buffer, and the next byte of the range
  \<open>2 * cur_pos\<close> bytes too far (\<open>data += bsize + cur_pos\<close>); the bytes in between keep what the
  caller had there.\<close>

theorem unaligned_read_leaves_a_gap:
  assumes ok: "dev_ok d" and fits: "unat off + unat sz \<le> length (host_file d)"
    and span: "unat (block_size d) < c + unat sz" and c: "c = unat off mod unat (block_size d)"
    and i: "unat (block_size d) - c \<le> i" "i < unat (block_size d) + c" "i < length data"
  shows "\<exists>out d'. read_data d off data sz = (sz, out, d') \<and> out ! i = data ! i"
proof -
  let ?n = "unat (block_size d)"
  let ?a = "seg (unat off) (?n - c) (host_file d)"
  let ?b = "seg (unat off + (?n - c)) (unat sz - (?n - c)) (host_file d)"
  have n: "0 < ?n" using ok by (simp add: dev_ok_def geom_ok_def)
  have c_lt: "c < ?n" using n by (simp add: c)
  have la: "length ?a = ?n - c" using fits span by (simp add: length_seg)
  have "?b \<noteq> []" using fits span c_lt by (auto simp: seg_def)
  have "mem_put (?n + c) ?b (mem_put 0 ?a data) ! i = data ! i"
    using i la c_lt by (auto simp: mem_put_def patch_def nth_append length_seg)
  then show ?thesis using read_data_spanning [OF ok fits, of data] span c by blast
qed

theorem unaligned_read_leaves_a_gap_witness:
  "\<exists>out d'. read_data hello_volume 60 sample_buffer 64 = (64, out, d') \<and> out ! 10 = sample_buffer ! 10"
  by (rule unaligned_read_leaves_a_gap [of _ _ _ 60]) simp_all

section \<open>Errors of the host\<close>

lemma dev_read_fails:
  assumes "fd d \<noteq> -1" and "io_fail d (io_count d)"
  obtains d' where "dev_read d b = (-1, d')" "host_file d' = host_file d" "buf_num d' = buf_num d" "buf d' = buf d"
proof (rule that [OF prod.collapse [symmetric, THEN trans]])
  show "(fst (dev_read d b), snd (dev_read d b)) = (-1, snd (dev_read d b))"
    "host_file (snd (dev_read d b)) = host_file d" "buf_num (snd (dev_read d b)) = buf_num d"
    "buf (snd (dev_read d b)) = buf d"
    using assms by (simp_all add: dev_read_def filedev_read_def host_read_def Let_def)
qed

text \<open>C29: A read or a write whose first host call fails returns -1 with \<open>EIO\<close>; the image stays as it was, and
  a read leaves the caller's buffer alone and does not relabel the block buffer.\<close>

theorem failed_io_is_reported:
  assumes "fd d \<noteq> -1" and "io_fail d (io_count d)" and "buf_num d \<noteq> off div block_size d"
  shows "(\<exists>d'. read_data d off data sz = (-1, data, d') \<and> sfs_errno d' = EIO
       \<and> host_file d' = host_file d \<and> buf_num d' = buf_num d \<and> buf d' = buf d)
    \<and> (\<exists>d'. write_data d off data sz = (-1, d') \<and> sfs_errno d' = EIO \<and> host_file d' = host_file d)"
proof -
  obtain d' where h: "dev_read d (off div block_size d) = (-1, d')" "host_file d' = host_file d"
    "buf_num d' = buf_num d" "buf d' = buf d"
    by (rule dev_read_fails [OF assms(1,2)])
  show ?thesis
  proof
    show "\<exists>d'. read_data d off data sz = (-1, data, d') \<and> sfs_errno d' = EIO
       \<and> host_file d' = host_file d \<and> buf_num d' = buf_num d \<and> buf d' = buf d"
      using assms(3) h by (intro exI [of _ "SET_ERRNO EIO d'"]) (simp add: read_data_def Let_def SET_ERRNO_def)
    show "\<exists>d'. write_data d off data sz = (-1, d') \<and> sfs_errno d' = EIO \<and> host_file d' = host_file d"
      using h by (intro exI [of _ "SET_ERRNO EIO d'"]) (simp add: write_data_def Let_def SET_ERRNO_def)
  qed
qed

theorem failed_io_is_reported_witness:
  "\<exists>d'. read_data (hello_volume\<lparr>io_fail := \<lambda>_. True\<rparr>) 128 [0, 0] 2 = (-1, [0, 0], d') \<and> sfs_errno d' = EIO"
proof -
  have "fd hello_volume = 3" "buf_num hello_volume = 0" by (simp_all add: hello_volume_def del: sample_sel(1))
  then show ?thesis
    using failed_io_is_reported [of "hello_volume\<lparr>io_fail := \<lambda>_. True\<rparr>" 128 "[0, 0]" 2] by auto
qed

section \<open>Entries\<close>

text \<open>C30: The index on the device is an array of 64-byte slots: what \<open>write_entry\<close> stored in a slot
  is what \<open>read_entry\<close> finds there, and every other slot reads as before.\<close>

theorem entries_are_an_array:
  assumes "entry_dev_ok d" and "slot_valid d p" and "slot_valid d q" and "length e = 64" and "length b = 64"
  shows "\<exists>d' d'' r. write_entry d p e = (64, d') \<and> read_entry d' q b = (64, r, d'') \<and> entry_dev_ok d''
    \<and> (q = p \<and> r = e \<or> q \<noteq> p \<and> r = entry_at d q)"
proof -
  obtain d' where w: "write_entry d p e = (64, d')" "entry_dev_ok d'" "slot_valid d' = slot_valid d"
    "entry_at d' = (entry_at d)(p := e)"
    using index.writeE [OF assms(1,2,4)] by blast
  obtain d'' where "read_entry d' q b = (64, entry_at d' q, d'')" "entry_dev_ok d''"
    using index.readE [OF w(2) _ assms(5), of q] assms(3) w(3) by auto
  then show ?thesis using w by auto
qed

theorem entries_are_an_array_witness:
  "\<exists>d' d''. write_entry hello_volume 832 sample_buffer = (64, d')
     \<and> read_entry d' 704 sample_buffer = (64, sample_file [0x61, 0x62] 1 1 5, d'')"
proof -
  have "entry_dev_ok hello_volume" using sample_volumes_ok(2) by (simp add: fs_ok_def)
  then show ?thesis using entries_are_an_array [of hello_volume 832 704 sample_buffer sample_buffer] by auto
qed

section \<open>The file device\<close>

text \<open>C31: \<open>filedev_read\<close> refuses a block beyond the recorded size with \<open>EINVAL\<close>; \<open>filedev_write\<close> has
  no such check: it stores the block, and the image is longer than the device afterwards.\<close>

theorem write_beyond_the_device:
  assumes "fd d \<noteq> -1" and "\<not> io_fail d (io_count d)" and "0 < unat (block_size d)"
    and "unat (bdev_size d) = length (host_file d)" and "length bf = unat (block_size d)"
    and "length (host_file d) \<le> unat b * unat (block_size d)"
    and "unat b * unat (block_size d) + unat (block_size d) < 2 ^ 63"
  shows "\<exists>d1 d2. filedev_read d (Some bf) (block_size d) b = (-1, bf, d1) \<and> c_errno d1 = EINVAL
    \<and> filedev_write d (Some bf) (block_size d) b = (block_size d, d2)
    \<and> length (host_file d2) = unat b * unat (block_size d) + unat (block_size d)
    \<and> unat (bdev_size d2) < length (host_file d2)"
proof -
  have m: "unat (b * block_size d) = unat b * unat (block_size d)" using assms(7) by (intro unat_mult_small) simp
  then have nn: "\<not> sint (b * block_size d) < 0" using assms(7) by (intro sint_not_neg) simp
  have "unat (b * block_size d + block_size d) = unat b * unat (block_size d) + unat (block_size d)"
    using assms(7) m by (subst unat_add_small) auto
  then have "b * block_size d + block_size d > bdev_size d"
    using assms(3,4,6) by (simp add: word_less_nat_alt)
  then show ?thesis
    using assms m nn by (auto simp: filedev_read_def filedev_write_def host_write_def Let_def mem_get_within
        seg_all length_mem_put)
qed

theorem write_beyond_the_device_witness:
  "\<exists>d1 d2. filedev_read hello_volume (Some sample_buffer) 64 20 = (-1, sample_buffer, d1)
     \<and> filedev_write hello_volume (Some sample_buffer) 64 20 = (64, d2) \<and> length (host_file d2) = 1344"
proof -
  have "fd hello_volume \<noteq> -1" "\<not> io_fail hello_volume (io_count hello_volume)"
    "unat (bdev_size hello_volume) = 1024"
    using sample_dev_ok(2) sample_sizes(2) by (simp_all only: dev_ok_def geom_ok_def) blast+
  then show ?thesis using write_beyond_the_device [of hello_volume sample_buffer 20] by auto
qed

end
