(* ===== verification/Expand.thy ===== *)
theory Expand
  imports ExtentAdd
begin

text \<open>
  Growing a file in place: \<open>try_expand\<close> of src/lib/sfs/fsutils.c takes the blocks it needs from the
  free extent that starts right after the file.
\<close>

section \<open>The search for a donor\<close>

definition donor :: "fs \<Rightarrow> (u64 \<Rightarrow> entry) \<Rightarrow> u64 \<Rightarrow> u64 \<Rightarrow> u64 \<Rightarrow> bool" where
  "donor fs at e delta q \<longleftrightarrow> start_block (at q) = e + 1 \<and> get_size fs (at q) \<ge> delta"

lemma donor_same_vol: "same_vol fs fs' \<Longrightarrow> donor fs' = donor fs"
  using get_size_same [of fs fs'] by (simp add: donor_def fun_eq_iff)

lemma nat_word_nonzero: "0 < j \<Longrightarrow> j < 2 ^ 63 \<Longrightarrow> (word_of_nat j :: u64) \<noteq> 0"
  by (simp add: word_of_nat_eq_0_iff nat_dvd_not_less)

lemma donor_loop_ok:
  assumes "fs_ok fs" and "dpath (entry_at fs) pr off qs l 0" and "length e = 64"
    and "\<forall>q \<in> set qs. slot_valid fs q" and "length qs < k" and "k < 2 ^ 63"
  shows "\<exists>w e' fs'. donor_loop k fs e off en delta = (Some (w, pick (donor fs (entry_at fs) en delta) qs 0), e', fs')
      \<and> w \<noteq> 0 \<and> length e' = 64 \<and> fs_ok fs' \<and> same_vol fs fs'
      \<and> ((\<exists>q \<in> set qs. donor fs (entry_at fs) en delta q)
           \<longrightarrow> e' = entry_at fs (pick (donor fs (entry_at fs) en delta) qs 0))"
  using assms
proof (induction qs arbitrary: fs e off k pr)
  case Nil
  then obtain j where k: "k = Suc j" by (cases k) auto
  show ?case using Nil nat_word_nonzero [of "Suc j"] unfolding k by (auto simp: watchdog_exit_def)
next
  case (Cons q qs)
  then obtain j where k: "k = Suc j" by (cases k) auto
  let ?e = "entry_at fs q"
  have q: "off = q" "q \<noteq> 0" "dpath (entry_at fs) q (NEXT_DEL ?e) qs l 0" using Cons.prems(2) by auto
  have valid: "slot_valid fs q" using Cons.prems(4) by simp
  obtain fs1 where rd: "read_entry fs q e = (64, ?e, fs1)" "fs_ok fs1" and sv1: "same_vol fs fs1"
    by (rule read_entry_fs [OF Cons.prems(1) valid Cons.prems(3)])
  have len: "length ?e = 64" by (rule length_entry_at [OF valid])
  show ?case
  proof (cases "donor fs (entry_at fs) en delta q")
    case True
    then have "donor_loop k fs e off en delta = (Some (word_of_nat j, q), ?e, fs1)"
      unfolding k using rd q(1,2) get_size_same [OF sv1] by (simp add: donor_def)
    moreover have "(word_of_nat j :: u64) \<noteq> 0" using nat_word_nonzero [of j] Cons.prems(5,6) k by simp
    ultimately show ?thesis using True rd(2) sv1 len by simp
  next
    case False
    have nv: "NEXT_DEL ?e = 0 \<or> slot_valid fs1 (NEXT_DEL ?e)"
      using dpath_next_valid [OF q(3), of fs] Cons.prems(4) same_vol_cong(2) [OF sv1] by auto
    obtain fs2 where dn: "del_next fs1 ?e
        = (NEXT_DEL ?e, if NEXT_DEL ?e = 0 then ?e else entry_at fs1 (NEXT_DEL ?e), fs2)"
      "fs_ok fs2" and sv2': "same_vol fs1 fs2"
      by (rule del_next_ok [OF rd(2) len nv])
    let ?e2 = "if NEXT_DEL ?e = 0 then ?e else entry_at fs1 (NEXT_DEL ?e)"
    have sv2: "same_vol fs fs2" by (rule same_vol_trans [OF sv1 sv2'])
    note c2 = same_vol_cong [OF sv2] and d2 = donor_same_vol [OF sv2]
    have len2: "length ?e2 = 64" using len nv by (auto simp: length_entry_at)
    have step: "donor_loop k fs e off en delta = donor_loop j fs2 ?e2 (NEXT_DEL ?e) en delta"
      unfolding k using rd q(1,2) dn False get_size_same [OF sv1] by (auto simp: donor_def)
    have "\<exists>w e' fs'. donor_loop j fs2 ?e2 (NEXT_DEL ?e) en delta = (Some (w, pick (donor fs2 (entry_at fs2) en delta) qs 0), e', fs')
      \<and> w \<noteq> 0 \<and> length e' = 64 \<and> fs_ok fs' \<and> same_vol fs2 fs'
      \<and> ((\<exists>q \<in> set qs. donor fs2 (entry_at fs2) en delta q) \<longrightarrow> e' = entry_at fs2 (pick (donor fs2 (entry_at fs2) en delta) qs 0))"
      using Cons.prems q(3) k c2 by (intro Cons.IH [OF dn(2) _ len2]) auto
    then show ?thesis using step False c2(1) d2 same_vol_trans [OF sv2] by auto
  qed
qed

section \<open>Taking the blocks\<close>

lemma try_expand_ok:
  assumes ok: "fs_ok fs" and fr: "free_ok fs ps" and len: "length e = 64" and p: "slot_valid fs p"
    and n: "needed fs (file_size (entry_at fs p)) < needed fs nz" "unat (file_size (entry_at fs p)) < 2 ^ 63" "unat nz < 2 ^ 63"
    and en: "unat (end_block (entry_at fs p)) < 2 ^ 63"
  defines "B \<equiv> {Suc (unat (end_block (entry_at fs p))) ..< Suc (unat (end_block (entry_at fs p)))
      + (needed fs nz - needed fs (file_size (entry_at fs p)))}"
  obtains (none) e' fs' where "try_expand fs p nz e = (1, e', fs')" "length e' = 64" "fs_ok fs'" "same_vol fs fs'"
  | (taken) e' fs' ps' where "try_expand fs p nz e = (0, e', fs')" "length e' = 64" "list_step fs ps fs' ps'"
      "set ps' \<subseteq> set ps" "B \<subseteq> blocks (entry_at fs) ps" "blocks (entry_at fs') ps' = blocks (entry_at fs) ps - B"
proof -
  let ?bs = "unat (block_size fs)" and ?f = "file_size (entry_at fs p)" and ?e = "end_block (entry_at fs p)"
  let ?d = "needed fs nz - needed fs ?f"
  obtain fs1 where rd: "read_entry fs p e = (64, entry_at fs p, fs1)" "fs_ok fs1" and sv1: "same_vol fs fs1"
    by (rule read_entry_fs [OF ok p len])
  note c1 = same_vol_cong [OF sv1] and s1 = same_vol_sel [OF sv1]
  note rn = get_real_size_ok [OF ok n(3)] and rf = get_real_size_ok [OF ok n(2)]
  have gr: "get_real_size fs1 z = get_real_size fs z" for z using s1(5) by (simp add: get_real_size_def)
  define delta where "delta = get_real_size fs nz - get_real_size fs ?f"
  have ud: "unat delta = ?bs * ?d"
  proof -
    have "unat (get_real_size fs ?f) \<le> unat (get_real_size fs nz)" unfolding rn(1) rf(1) using n(1) by simp
    then show ?thesis unfolding delta_def by (simp add: unat_sub_small rn(1) rf(1) diff_mult_distrib2)
  qed
  have bs: "0 < ?bs" by (rule block_size_bounds(1) [OF ok])
  have fr1: "free_ok fs1 ps" using free_ok_same_vol [OF sv1] fr by simp
  then have fl1: "free_list fs1 ps" by (simp add: free_ok_def)
  then obtain l where dp: "dpath (entry_at fs1) 0 (del_begin fs1) ps l 0" by (auto simp: free_list_def)
  note sm = free_list_small [OF rd(2) fl1]
  have le: "length (entry_at fs p) = 64" by (rule length_entry_at [OF p])
  let ?P = "donor fs1 (entry_at fs1) ?e delta"
  obtain w e2 fs2 where dl: "donor_loop (unat (watchdog_init fs1)) fs1 (entry_at fs p) (del_begin fs1) ?e delta
      = (Some (w, pick ?P ps 0), e2, fs2)" "w \<noteq> 0" "length e2 = 64" "fs_ok fs2" "same_vol fs1 fs2"
    and e2: "(\<exists>q \<in> set ps. ?P q) \<longrightarrow> e2 = entry_at fs1 (pick ?P ps 0)"
    using donor_loop_ok [OF rd(2) dp le sm(4,1,2), of ?e delta] by blast
  have sv2: "same_vol fs fs2" by (rule same_vol_trans [OF sv1 dl(5)])
  note c2 = same_vol_cong [OF sv2] and s2 = same_vol_sel [OF sv2]
  have fr2: "free_ok fs2 ps" using free_ok_same_vol [OF sv2] fr by simp
  then have fl2: "free_list fs2 ps" by (simp add: free_ok_def)
  have z: "0 \<notin> set ps" using free_list_valid(2) [OF rd(2) fl1] by blast
  from pick_cases [OF z, of ?P] show ?thesis
  proof (elim disjE conjE)
    assume "pick ?P ps 0 = 0"
    then show ?thesis
      by (intro none [of e2 fs2]) (use rd(1) dl sv2 gr in \<open>simp_all add: try_expand_def Let_def delta_def\<close>)
  next
    define d where "d = pick ?P ps 0"
    assume "pick ?P ps 0 \<in> set ps" "?P (pick ?P ps 0)"
    then have q: "d \<in> set ps" "?P d" by (simp_all add: d_def)
    note dl' = dl(1) [folded d_def]
    let ?x = "entry_at fs d"
    have x: "start_block ?x = ?e + 1" "delta \<le> get_size fs ?x" "e2 = ?x"
      using q e2 [folded d_def] c1(1) get_size_same [OF sv1] by (auto simp: donor_def)
    have q0: "d \<noteq> 0" using q(1) z by metis
    have eo: "ext_ok fs ?x" using fr q(1) by (simp add: free_ok_def)
    note gs = ext_ok_bounds(4) [OF ok eo]
    have sx: "unat (start_block ?x) = Suc (unat ?e)" unfolding x(1) using en by (subst unat_add_small) auto
    have card: "card (ext ?x) = unat (end_block ?x) - unat ?e" "ext ?x = {Suc (unat ?e) .. unat (end_block ?x)}"
      "Suc (unat ?e) \<le> unat (end_block ?x)"
      using eo sx by (auto simp: ext_def ext_ok_def)
    have "?bs * ?d \<le> ?bs * card (ext ?x)" using x(2) ud gs by (simp add: word_le_nat_alt)
    then have le_card: "?d \<le> card (ext ?x)" using bs by simp
    have eq: "get_size fs2 e2 = delta \<longleftrightarrow> ?d = card (ext ?x)"
      unfolding x(3) get_size_same [OF sv2] word_unat_eq_iff gs ud using bs by auto
    have gt: "get_size fs2 e2 > delta \<longleftrightarrow> ?d < card (ext ?x)"
      unfolding x(3) get_size_same [OF sv2] word_less_nat_alt gs ud using bs by simp
    have B: "B = {Suc (unat ?e) ..< Suc (unat ?e) + ?d}" by (simp add: B_def)
    have run: "try_expand fs p nz e =
        (if get_size fs2 e2 = delta then (case del_file_list_remove fs2 d e2 of (_, entr, fs) \<Rightarrow> (0, entr, fs))
         else if get_size fs2 e2 > delta then
           let entr = set_start_block (start_block e2 + delta div block_size fs2) e2 in
           (case write_entry fs2 d entr of (_, fs) \<Rightarrow> (0, entr, fs))
         else (0, e2, fs2))"
      using rd(1) dl' dl(2) gr q0 by (simp add: try_expand_def Let_def delta_def)
    have "Suc (unat ?e) + ?d \<le> Suc (unat (end_block ?x))" using le_card card(1,3) by linarith
    then have Bx: "B \<subseteq> ext ?x" unfolding B card(2) by auto
    then have Bb: "B \<subseteq> blocks (entry_at fs) ps" using blocks_split [OF q(1), of "entry_at fs"] by blast
    show ?thesis
    proof (cases "?d = card (ext ?x)")
      case True
      then have "Suc (unat ?e) + ?d = Suc (unat (end_block ?x))" using card(1,3) by linarith
      then have Bq: "B = ext ?x" unfolding B card(2) by auto
      obtain xs ys where ps: "ps = xs @ d # ys" using q(1) by (meson split_list)
      obtain e3 fs3 where rm: "del_file_list_remove fs2 d e2 = (0, e3, fs3)" "length e3 = 64"
        "list_step fs2 (xs @ d # ys) fs3 (xs @ ys)"
        "blocks (entry_at fs3) (xs @ ys) = blocks (entry_at fs2) (xs @ d # ys) - ext (entry_at fs2 d)"
        by (rule del_file_list_remove_ok [OF dl(4) _ dl(3)]) (use fr2 ps in simp)
      show ?thesis
      proof (rule taken [of e3 fs3 "xs @ ys"])
        show "try_expand fs p nz e = (0, e3, fs3)" unfolding run using True eq rm(1) by simp
        show "list_step fs ps fs3 (xs @ ys)" using list_step_same_vol [OF sv2 rm(3)] ps by simp
        show "set (xs @ ys) \<subseteq> set ps" using ps by auto
        show "blocks (entry_at fs3) (xs @ ys) = blocks (entry_at fs) ps - B"
          unfolding rm(4) Bq c2(1) using ps by simp
      qed (use rm(2) Bb in simp_all)
    next
      case False
      then have lt: "?d < card (ext ?x)" using le_card by simp
      have dd: "delta div block_size fs2 = word_of_nat ?d"
      proof -
        have "unat (delta div block_size fs2) = ?d" unfolding s2(5) unat_div ud using bs by simp
        then show ?thesis by (simp flip: \<open>unat (_ div _) = _\<close>)
      qed
      have wd: "unat (word_of_nat ?d :: u64) = ?d"
        unfolding unat_of_nat by (rule mod_less) (use lt card(1) ext_ok_bounds(1) [OF ok eo] in simp)
      let ?x' = "set_start_block (start_block (entry_at fs2 d) + word_of_nat ?d) (entry_at fs2 d)"
      have v2: "slot_valid fs2 d" by (rule free_list_valid(1) [OF dl(4) fl2 q(1)])
      have l2: "length ?x' = 64" using length_entry_at [OF v2] by simp
      have dn: "0 < unat (word_of_nat ?d :: u64)" "unat (word_of_nat ?d :: u64) < card (ext (entry_at fs2 d))"
        unfolding wd c2(1) using n(1) lt by simp_all
      obtain fs3 where w: "write_entry fs2 d ?x' = (64, fs3)" "fs_ok fs3" "vol_upd fs2 ((entry_at fs2)(d := ?x')) fs3"
        by (rule write_entry_fs [OF dl(4) v2 l2])
      note tr = trim_step [OF dl(4) fr2 q(1) dn w(2,3)]
      have ng: "\<not> get_size fs2 e2 = delta" using eq False by simp
      show ?thesis
      proof (rule taken [of ?x' fs3 ps])
        show "try_expand fs p nz e = (0, ?x', fs3)"
          unfolding run if_not_P [OF ng] if_P [OF gt [THEN iffD2, OF lt]] Let_def dd using w(1) x(3) c2(1) by simp
        show "list_step fs ps fs3 ps" by (rule list_step_same_vol [OF sv2 tr(1)])
        show "blocks (entry_at fs3) ps = blocks (entry_at fs) ps - B"
          unfolding tr(2) wd c2(1) sx B by (rule refl)
      qed (use l2 Bb in simp_all)
    qed
  qed
qed

end
