(* ===== verification/FileOps.thy ===== *)
theory FileOps
  imports FreeList
begin

text \<open>
  The operations on a file given by the offset of its entry, which is the physical inode:
  src/lib/sfs/sfs_open.c, sfs_read.c, sfs_write.c, sfs_truncate.c, sfs_getattr.c and
  sfs_release.c. \<open>entr\<close> is the uninitialised local entry of each routine, an argument here.
\<close>

section \<open>The routines\<close>

definition sfs_open :: "fs \<Rightarrow> entry \<Rightarrow> bytes \<Rightarrow> u64 \<times> fs" where
  "sfs_open fs entr filepath =
     (case search_file fs filepath entr of
        (file, entr, fs) \<Rightarrow>
          if file = 0 then
            (case search_dir fs filepath entr of
               (file, entr, fs) \<Rightarrow>
                 if file = 0 then (file, SET_ERRNO ENOENT fs) else (file, fs))
          else (file, fs))"

text \<open>\<open>off\<close> is an \<open>off_t\<close>, compared with and added to a \<open>size_t\<close>: the arithmetic is unsigned.\<close>

definition sfs_read :: "fs \<Rightarrow> entry \<Rightarrow> u64 \<Rightarrow> bytes \<Rightarrow> u64 \<Rightarrow> u64 \<Rightarrow> u64 \<times> bytes \<times> fs" where
  "sfs_read fs entr file data sz off =
     (case read_entry fs file entr of
        (r, entr, fs) \<Rightarrow>
          if r = -1 then (-1, data, SET_ERRNO EIO fs)
          else
            let fsize = file_size entr;
                file_start = start_block entr
            in if off > fsize then (-1, data, SET_ERRNO EINVAL fs)
               else
                 let read_size = (if off + sz > fsize then fsize - off else sz);
                     fs = SET_ERRNO 0 (update fs)
                 in read_data fs (file_start * block_size fs + off) data read_size)"

text \<open>From the label \<open>END\<close>: the entry is read again, gets its new extent, size and time, and is
  written back.\<close>

definition store_extent :: "fs \<Rightarrow> entry \<Rightarrow> u64 \<Rightarrow> u64 \<Rightarrow> u64 \<Rightarrow> u64 \<Rightarrow> entry \<times> fs" where
  "store_extent fs entr file new_start new_end new_size =
     (case read_entry fs file entr of
        (_, entr, fs) \<Rightarrow>
          let entr = set_start_block new_start entr;
              entr = set_end_block new_end entr;
              entr = set_file_size new_size entr
          in (case get_time fs of
                (t, fs) \<Rightarrow>
                  let entr = set_time_stamp t entr in
                  (case write_entry fs file entr of (_, fs) \<Rightarrow> (entr, fs))))"

text \<open>The part that \<open>sfs_write\<close> and \<open>sfs_truncate\<close> share for a file that needs more blocks: expand
  in place, or move. \<open>None\<close> is \<open>return -1\<close>; \<open>copy_errno\<close> is what the caller sets when the blocks
  cannot be copied.\<close>

definition grow :: "int \<Rightarrow> fs \<Rightarrow> entry \<Rightarrow> u64 \<Rightarrow> u64 \<Rightarrow> u64 \<Rightarrow> u64 \<Rightarrow> (u64 \<times> u64) option \<times> entry \<times> fs" where
  "grow copy_errno fs entr file old_start old_end new_size =
     (let new_blocks = get_real_size fs new_size div block_size fs;
          (x, entr, fs) =
            (if old_start \<noteq> 0 then try_expand fs file new_size entr else (1, entr, fs))
      in
      if x = 0 then (Some (old_start, old_start + new_blocks - 1), entr, fs)
      else
        (case del_file_list_alloc fs entr new_size of
           (new_start, entr, fs) \<Rightarrow>
             if new_start = 0 then (None, entr, SET_ERRNO ENOSPC fs)
             else
               let new_end = new_start + new_blocks - 1 in
               if old_start \<noteq> 0 then
                 (case del_file_list_add fs entr old_start old_end of
                    (_, entr, fs) \<Rightarrow>
                      (case copy_block fs old_start new_start (old_end - old_start + 1) of
                         (c, fs) \<Rightarrow>
                           if c \<noteq> 0 then (None, entr, SET_ERRNO copy_errno fs)
                           else (Some (new_start, new_end), entr, fs)))
               else (Some (new_start, new_end), entr, fs)))"

definition sfs_write :: "fs \<Rightarrow> entry \<Rightarrow> u64 \<Rightarrow> bytes \<Rightarrow> u64 \<Rightarrow> u64 \<Rightarrow> u64 \<times> fs" where
  "sfs_write fs entr file data sz off =
     (case read_entry fs file entr of
        (r, entr, fs) \<Rightarrow>
          if r = -1 then (-1, SET_ERRNO EIO fs)
          else
            let old_size = file_size entr;
                old_start = start_block entr;
                old_end = end_block entr;
                new_size = (if off + sz > old_size then off + sz else old_size);
                (ext, entr, fs) =
                  (if get_real_size fs new_size > get_real_size fs old_size
                   then grow EIO fs entr file old_start old_end new_size
                   else (Some (old_start, old_end), entr, fs))
            in (case ext of
                  None \<Rightarrow> (-1, fs)
                | Some (new_start, new_end) \<Rightarrow>
                    (case store_extent fs entr file new_start new_end new_size of
                       (entr, fs) \<Rightarrow>
                         let fs = SET_ERRNO 0 (update fs) in
                         write_data fs (new_start * block_size fs + off) data sz)))"

definition sfs_truncate :: "fs \<Rightarrow> entry \<Rightarrow> u64 \<Rightarrow> u64 \<Rightarrow> int \<times> fs" where
  "sfs_truncate fs entr file new_size =
     (case read_entry fs file entr of
        (r, entr, fs) \<Rightarrow>
          if r = -1 then (0, SET_ERRNO EIO fs)
          else
            let old_size = file_size entr;
                old_start = start_block entr;
                old_end = end_block entr;
                (ext, entr, fs) =
                  (if new_size = 0 then
                     (case del_file_list_add fs entr old_start old_end of
                        (_, entr, fs) \<Rightarrow> (Some (0, 0), entr, fs))
                   else if get_real_size fs new_size < get_real_size fs old_size then
                     (case file_shrink fs file new_size entr of
                        (r, entr, fs) \<Rightarrow>
                          if r \<noteq> 0 then (None, entr, fs)
                          else (Some (old_start,
                                  old_start + get_real_size fs new_size div block_size fs - 1), entr, fs))
                   else if get_real_size fs new_size > get_real_size fs old_size then
                     grow ENOSPC fs entr file old_start old_end new_size
                   else (Some (old_start, old_end), entr, fs))
            in (case ext of
                  None \<Rightarrow> (-1, fs)
                | Some (new_start, new_end) \<Rightarrow>
                    (case store_extent fs entr file new_start new_end new_size of
                       (entr, fs) \<Rightarrow> (0, SET_ERRNO 0 (update fs)))))"

datatype iter_type = FILE_ITER_TYPE | DIR_ITER_TYPE

record sfs_attr =
  attr_time :: u64
  attr_size :: u64
  attr_off :: u64
  attr_type :: "iter_type option"

text \<open>\<open>attr_type\<close> is \<open>None\<close> when the field holds neither of the two codes, as it may when the caller
  did not set it.\<close>

definition sfs_getattr :: "fs \<Rightarrow> entry \<Rightarrow> u64 \<Rightarrow> sfs_attr \<Rightarrow> int \<times> sfs_attr \<times> fs" where
  "sfs_getattr fs entr file attr =
     (case read_entry fs file entr of
        (r, entr, fs) \<Rightarrow>
          if r = -1 then (-1, attr, SET_ERRNO EIO fs)
          else
            let attr = (if entry_type entr = entry_code FILE_ENTRY then
                          attr\<lparr>attr_type := Some FILE_ITER_TYPE, attr_time := time_stamp entr,
                            attr_size := file_size entr, attr_off := file\<rparr>
                        else attr);
                attr = (if entry_type entr = entry_code DIR_ENTRY then
                          attr\<lparr>attr_type := Some DIR_ITER_TYPE, attr_time := time_stamp entr,
                            attr_size := 0, attr_off := file\<rparr>
                        else attr)
            in (0, attr, SET_ERRNO 0 fs))"

text \<open>\<open>offsetof(vol_ident_entry, time_stamp)\<close> is 4.\<close>

definition sfs_release :: "fs \<Rightarrow> int \<times> fs" where
  "sfs_release fs =
     (let fs = update fs in
      (case write_data fs (vol_ident fs + 4) (u64_to_bytes (fs_time fs)) 8 of
         (r, fs) \<Rightarrow>
           if r = -1 then (-1, SET_ERRNO EIO fs)
           else (0, SET_ERRNO 0 fs)))"

end
