(* ===== verification/DirOps.thy ===== *)
theory DirOps
  imports FileOps
begin

text \<open>
  The operations that change which names the index holds: src/lib/sfs/sfs_creat.c, sfs_mkdir.c,
  sfs_unlink.c, sfs_delete.c, sfs_rmdir.c, sfs_rename.c, and the directory iterator of
  sfs_readdir.c.
\<close>

section \<open>Creating a name\<close>

text \<open>\<open>!!(len - size) % INDEX_ENTRY_SIZE\<close> is \<open>(!!(len - size)) % 64\<close>: it is 1 whenever
  \<open>len > size\<close>.\<close>

definition count_entry :: "u64 \<Rightarrow> u64 \<Rightarrow> byte" where
  "count_entry first_size len =
     (if len \<le> first_size then 1
      else ucast (1 + ((len - first_size) div INDEX_ENTRY_SIZE
             + (if len - first_size \<noteq> 0 then 1 else 0) mod INDEX_ENTRY_SIZE)))"

text \<open>The loop \<open>while (n--)\<close> that writes the continuation entries.\<close>

primrec write_conts :: "nat \<Rightarrow> fs \<Rightarrow> entry \<Rightarrow> bytes \<Rightarrow> u64 \<Rightarrow> entry \<times> fs" where
  "write_conts 0 fs entr path start = (entr, fs)"
| "write_conts (Suc n) fs entr path start =
     (let entr = strncpy entr path INDEX_ENTRY_SIZE in
      (case write_entry fs start entr of
         (_, fs) \<Rightarrow> write_conts n fs entr (drop INDEX_ENTRY_SIZE path) (start + INDEX_ENTRY_SIZE)))"

text \<open>The copying of the first part of a name: \<open>strcpy\<close> of all of it, or \<open>memcpy\<close> of as much as
  fits; the second component is \<open>filepath\<close> after its increment.\<close>

definition put_first :: "nat \<Rightarrow> nat \<Rightarrow> byte \<Rightarrow> entry \<Rightarrow> bytes \<Rightarrow> entry \<times> bytes" where
  "put_first first_off first_size n entr path =
     (if n = 1 then (put_name first_off path entr, path)
      else (mem_put first_off (mem_get 0 first_size path) entr, drop first_size path))"

definition sfs_creat :: "fs \<Rightarrow> entry \<Rightarrow> bytes \<Rightarrow> int \<times> fs" where
  "sfs_creat fs entr filepath =
     (if is_correct_filepath filepath \<noteq> 0 then (-1, SET_ERRNO EINVAL fs)
      else
      (case check_dirs fs filepath entr of (c, entr, fs) \<Rightarrow>
        if c \<noteq> 0 then (-1, SET_ERRNO EEXIST fs)
        else
        (case search_dir fs filepath entr of (start, entr, fs) \<Rightarrow>
          if start \<noteq> 0 then (-1, SET_ERRNO EEXIST fs)
          else
          (case search_file fs filepath entr of (start, entr, fs) \<Rightarrow>
            if start \<noteq> 0 then (-1, SET_ERRNO EEXIST fs)
            else
              let len = word_of_nat (strlen filepath) + 1;
                  entr = replicate 64 0;
                  n = count_entry FIRST_FILE_NAME_SIZE len
              in
              (case alloc_entry fs entr (uint n) of (start, entr, fs) \<Rightarrow>
                if start = 0 then (-1, SET_ERRNO ENOSPC fs)
                else
                  let (entr, filepath) = put_first 34 FIRST_FILE_NAME_SIZE n entr filepath;
                      n = n - 1;
                      (t, fs) = get_time fs;
                      entr = set_time_stamp t entr;
                      entr = set_entry_type (entry_code FILE_ENTRY) entr;
                      entr = set_cont_entries n entr;
                      entr = set_start_block 0 entr;
                      entr = set_end_block 0 entr;
                      entr = set_file_size 0 entr
                  in
                  (case write_entry fs start entr of (_, fs) \<Rightarrow>
                    (case write_conts (unat n) fs entr filepath (start + INDEX_ENTRY_SIZE) of
                       (entr, fs) \<Rightarrow> (0, SET_ERRNO 0 (update fs)))))))))"

definition sfs_mkdir :: "fs \<Rightarrow> entry \<Rightarrow> bytes \<Rightarrow> int \<times> fs" where
  "sfs_mkdir fs entr dirpath =
     (if is_correct_dirpath dirpath \<noteq> 0 then (-1, SET_ERRNO EINVAL fs)
      else
      (case check_dirs fs dirpath entr of (c, entr, fs) \<Rightarrow>
        if c \<noteq> 0 then (-1, SET_ERRNO EEXIST fs)
        else
        (case search_dir fs dirpath entr of (start, entr, fs) \<Rightarrow>
          if start \<noteq> 0 then (-1, SET_ERRNO EEXIST fs)
          else
            let len = word_of_nat (strlen dirpath) + 1;
                entr = replicate 64 0;
                n = count_entry FIRST_DIR_NAME_SIZE len
            in
            (case alloc_entry fs entr (uint n) of (start, entr, fs) \<Rightarrow>
              if start = 0 then (-1, SET_ERRNO ENOSPC fs)
              else
                let (entr, dirpath) = put_first 10 FIRST_DIR_NAME_SIZE n entr dirpath;
                    n = n - 1;
                    (t, fs) = get_time fs;
                    entr = set_time_stamp t entr;
                    entr = set_entry_type (entry_code DIR_ENTRY) entr;
                    entr = set_cont_entries n entr
                in
                (case write_entry fs start entr of (_, fs) \<Rightarrow>
                  (case write_conts (unat n) fs entr dirpath (start + INDEX_ENTRY_SIZE) of
                     (entr, fs) \<Rightarrow> (0, SET_ERRNO 0 (update fs))))))))"

section \<open>Removing a name\<close>

definition sfs_unlink :: "fs \<Rightarrow> entry \<Rightarrow> bytes \<Rightarrow> u64 \<times> fs" where
  "sfs_unlink fs entr filepath =
     (if is_correct_filepath filepath \<noteq> 0 then (0, SET_ERRNO EINVAL fs)
      else
        (case search_file fs filepath entr of
           (start, entr, fs) \<Rightarrow>
             if start = 0 then (0, SET_ERRNO ENOENT fs)
             else
               let entr = set_entry_type (entry_code DEL_FILE_ENTRY) entr in
               (case write_entry fs start entr of
                  (_, fs) \<Rightarrow> (start, SET_ERRNO 0 (update fs)))))"

definition sfs_delete :: "fs \<Rightarrow> entry \<Rightarrow> u64 \<Rightarrow> int \<times> fs" where
  "sfs_delete fs entr file =
     (case read_entry fs file entr of
        (r, entr, fs) \<Rightarrow>
          if r = -1 then (0, SET_ERRNO EIO fs)
          else
            let n = cont_entries entr;
                s = start_block entr;
                e = end_block entr;
                entr = set_entry_type (entry_code UNUSED_ENTRY) entr
            in
            (case write_entry fs file entr of
               (_, fs) \<Rightarrow>
                 (case free_entry fs entr (file + INDEX_ENTRY_SIZE) (uint n) of
                    (_, entr, fs) \<Rightarrow>
                      (case del_file_list_add fs entr s e of
                         (_, entr, fs) \<Rightarrow> (0, SET_ERRNO 0 (update fs))))))"

definition sfs_rmdir :: "fs \<Rightarrow> entry \<Rightarrow> bytes \<Rightarrow> int \<times> fs" where
  "sfs_rmdir fs entr dirpath =
     (let off = entry_start fs in
      if is_correct_filepath dirpath \<noteq> 0 then (-1, SET_ERRNO EINVAL fs)
      else
      (case search_dir fs dirpath entr of (start, entr, fs) \<Rightarrow>
        if start = 0 then (-1, SET_ERRNO EINVAL fs)
        else
        (case search_file_mask fs dirpath entr off of (off, entr, fs) \<Rightarrow>
          if off \<noteq> start then (-1, SET_ERRNO ENOTEMPTY fs)
          else
          (case search_file_mask fs dirpath entr (off + INDEX_ENTRY_SIZE) of (off, entr, fs) \<Rightarrow>
            if off \<noteq> 0 then (-1, SET_ERRNO ENOTEMPTY fs)
            else
            (case search_dir fs dirpath entr of (start, entr, fs) \<Rightarrow>
              let n = cont_entries entr;
                  entr = set_cont_entries 0 entr;
                  entr = set_entry_type (entry_code UNUSED_ENTRY) entr
              in
              (case write_entry fs start entr of (_, fs) \<Rightarrow>
                (case free_entry fs entr (start + INDEX_ENTRY_SIZE) (uint n) of
                   (_, entr, fs) \<Rightarrow> (0, update fs))))))))"

section \<open>Renaming a file\<close>

text \<open>\<open>stack\<close> is what the uninitialised entry buffers hold, the one of \<open>sfs_rename\<close> and the one of
  \<open>sfs_delete\<close>, which it calls.\<close>

definition sfs_rename :: "fs \<Rightarrow> entry \<Rightarrow> u64 \<Rightarrow> bytes \<Rightarrow> u64 \<times> fs" where
  "sfs_rename fs stack file newpath =
     (if is_correct_filepath newpath \<noteq> 0 then (0, SET_ERRNO EINVAL fs)
      else
      (case check_dirs fs newpath stack of (c, entr, fs) \<Rightarrow>
        if c \<noteq> 0 then (0, SET_ERRNO EEXIST fs)
        else
        (case search_dir fs newpath entr of (new_off, entr, fs) \<Rightarrow>
          if new_off \<noteq> 0 then (0, SET_ERRNO EEXIST fs)
          else
          (case search_file fs newpath entr of (new_off, entr, fs) \<Rightarrow>
            if new_off \<noteq> 0 then (0, SET_ERRNO EEXIST fs)
            else
              let len = word_of_nat (strlen newpath) + 1;
                  entr = replicate 64 0;
                  n = count_entry FIRST_FILE_NAME_SIZE len
              in
              (case alloc_entry fs entr (uint n) of (new_off, entr, fs) \<Rightarrow>
                if new_off = 0 then (0, SET_ERRNO ENOSPC fs)
                else
                (case read_entry fs file entr of (r, entr, fs) \<Rightarrow>
                  if r = -1 then (0, SET_ERRNO EIO fs)
                  else if entry_type entr \<noteq> entry_code FILE_ENTRY then (0, SET_ERRNO EINVAL fs)
                  else
                    let time = time_stamp entr;
                        sz = file_size entr;
                        s = start_block entr;
                        e = end_block entr
                    in
                    (case sfs_delete fs stack file of (r, fs) \<Rightarrow>
                      if r = -1 then (0, fs)
                      else
                      (case read_entry fs new_off entr of (r, entr, fs) \<Rightarrow>
                        if r = -1 then (0, SET_ERRNO EIO fs)
                        else
                          let entr = set_time_stamp time entr;
                              entr = set_file_size sz entr;
                              entr = set_start_block s entr;
                              entr = set_end_block e entr;
                              entr = set_entry_type (entry_code FILE_ENTRY) entr;
                              entr = set_cont_entries (n - 1) entr;
                              (entr, newpath) = put_first 34 FIRST_FILE_NAME_SIZE n entr newpath
                          in
                          (case write_entry fs new_off entr of (_, fs) \<Rightarrow>
                            (case write_conts (unat (n - 1)) fs entr newpath (new_off + INDEX_ENTRY_SIZE) of
                               (entr, fs) \<Rightarrow> (new_off, SET_ERRNO 0 (update fs))))))))))))"

section \<open>Reading a directory\<close>

record diriter =
  it_filename :: "bytes option"
  it_len :: u64
  it_cur_off :: u64
  it_size :: u64
  it_time :: u64
  it_type :: "iter_type option"

fun is_leaf :: "bytes \<Rightarrow> int" where
  "is_leaf [] = 1"
| "is_leaf (b # path) = (if b = 0 then 1 else if b = 0x2F then 0 else is_leaf path)"

text \<open>What the two \<open>if (entr.entry_type == ...)\<close> blocks do with the entry found: return -1, go back to
  \<open>RESTART\<close> with the next entry, or go on. The second runs on the entry buffer the first
  leaves.\<close>

datatype iter_step = ITER_FAIL | ITER_RESTART | ITER_GO

definition iter_entry :: "entry_kind \<Rightarrow> fs \<Rightarrow> entry \<Rightarrow> diriter \<Rightarrow> bytes \<Rightarrow> u64 \<Rightarrow> nat \<Rightarrow> nat
    \<Rightarrow> iter_step \<times> entry \<times> diriter \<times> bytes \<times> fs" where
  "iter_entry kind fs entr iter name off start_len add =
     (if entry_type entr \<noteq> entry_code kind then (ITER_GO, entr, iter, name, fs)
      else
        let iter = iter\<lparr>it_size := (if kind = FILE_ENTRY then file_size entr else 0),
                         it_time := time_stamp entr\<rparr>
        in
        (case (if kind = FILE_ENTRY then read_file_name fs entr off name (it_len iter)
               else read_dir_name fs entr off name (it_len iter)) of
           (r, name, entr, fs) \<Rightarrow>
             if r = -1 then (ITER_FAIL, entr, iter, name, fs)
             else if strlen name = start_len then (ITER_RESTART, entr, iter, name, fs)
             else if is_leaf (drop (start_len + add) name) = 0 then (ITER_RESTART, entr, iter, name, fs)
             else (ITER_GO, entr,
                     iter\<lparr>it_type := Some (if kind = FILE_ENTRY then FILE_ITER_TYPE else DIR_ITER_TYPE)\<rparr>,
                     name, fs)))"

lemma mask_loop_ge:
  "mask_loop fs path e off = (r, e', fs') \<Longrightarrow> r \<noteq> 0 \<Longrightarrow> off \<le> r"
proof (induction fs path e off arbitrary: r e' fs' rule: mask_loop.induct)
  case (1 fs path e off)
  obtain x e1 fs1 where rd: "read_entry fs off e = (x, e1, fs1)" by (metis prod_cases3)
  obtain c e2 fs2 d2 where ck: "check_file_mask fs1 e1 off path = (c, e2, fs2, d2)" by (metis prod_cases4)
  obtain y e3 fs3 where rd2: "read_entry fs2 off e2 = (y, e3, fs3)" by (metis prod_cases3)
  have up: "off \<le> r" if "\<not> off + 64 < off" "off + 64 \<le> r" for r
    using that by (meson order.trans not_less)
  note ih1 = 1(1) [OF _ rd [symmetric] refl _ ck [symmetric] refl refl]
  note ih2 = 1(2) [OF _ rd [symmetric] refl]
  have "mask_loop fs path e off = (r, e', fs')" by (rule 1(3))
  then show ?case
    using 1(4) rd ck rd2 up ih1 ih2
    by (subst (asm) mask_loop.simps) (auto split: if_splits)
qed

lemma search_file_mask_ge:
  "search_file_mask fs path e off = (r, e', fs') \<Longrightarrow> r \<noteq> 0 \<Longrightarrow> off \<le> r"
  by (auto simp: search_file_mask_def dest: mask_loop_ge)

text \<open>From the label \<open>RESTART\<close>. \<open>name\<close> is the buffer \<open>iter->filename\<close> points to, \<open>off\<close> the entry to
  go on from. Each \<open>goto RESTART\<close> follows \<open>off += INDEX_ENTRY_SIZE\<close> on an offset found at or after
  \<open>off\<close>; where that would wrap the loop ends.\<close>

definition put_slash :: "bytes \<Rightarrow> nat \<Rightarrow> nat \<Rightarrow> bytes" where
  "put_slash name start_len add =
     (if hd0 name \<noteq> 0 then mem_put (start_len + add) [0] (mem_put start_len [0x2F] name) else name)"

function readdir_loop :: "fs \<Rightarrow> entry \<Rightarrow> diriter \<Rightarrow> bytes \<Rightarrow> u64 \<Rightarrow> nat \<Rightarrow> nat \<Rightarrow> int \<times> diriter \<times> fs" where
  "readdir_loop fs entr iter name off start_len add =
     (let name = put_slash name start_len add in
      (case search_file_mask fs name entr off of
         (found_off, entr, fs) \<Rightarrow>
           if found_off = 0 then (0, iter\<lparr>it_filename := None\<rparr>, fs)
           else
             (case iter_entry FILE_ENTRY fs entr iter name found_off start_len add of
                (step, entr, iter, name, fs) \<Rightarrow>
             (case (if step = ITER_GO then iter_entry DIR_ENTRY fs entr iter name found_off start_len add
                    else (step, entr, iter, name, fs)) of
                (step, entr, iter, name, fs) \<Rightarrow>
                  if step = ITER_FAIL \<or> found_off + INDEX_ENTRY_SIZE < found_off then
                    (-1, iter\<lparr>it_filename := Some name\<rparr>, fs)
                  else if step = ITER_RESTART then
                    readdir_loop fs entr iter name (found_off + INDEX_ENTRY_SIZE) start_len add
                  else
                    let iter = iter\<lparr>it_cur_off := found_off + INDEX_ENTRY_SIZE\<rparr> in
                    if is_correct_filepath name \<noteq> 0 then
                      readdir_loop fs entr iter name (found_off + INDEX_ENTRY_SIZE) start_len add
                    else (0, iter\<lparr>it_filename := Some name\<rparr>, SET_ERRNO 0 fs)))))"
  by pat_completeness auto

lemma unat_skip_measure:
  assumes "\<not> (q :: u64) + 64 < q" and "\<not> q < p"
  shows "2 ^ 64 - unat (q + 64) < 2 ^ 64 - unat p"
proof -
  have "2 ^ 64 - unat q \<le> 2 ^ 64 - unat p" using assms(2) by (simp add: word_le_nat_alt not_less)
  with unat_step_measure [OF assms(1)] show ?thesis by (rule less_le_trans)
qed

termination readdir_loop
  by (relation "measure (\<lambda>(fs, entr, iter, name, off, start_len, add). 2 ^ 64 - unat off)")
    (auto dest!: search_file_mask_ge [OF sym] unat_skip_measure [OF _ leD])

declare readdir_loop.simps [simp del]

text \<open>The callers pass a buffer; a \<open>NULL\<close> filename, which C dereferences, is read as empty.\<close>

definition sfs_readdir :: "fs \<Rightarrow> entry \<Rightarrow> diriter \<Rightarrow> int \<times> diriter \<times> fs" where
  "sfs_readdir fs entr iter =
     (let name = (case it_filename iter of None \<Rightarrow> [] | Some name \<Rightarrow> name) in
      if is_correct_filepath name \<noteq> 0 then (-1, iter, SET_ERRNO EINVAL fs)
      else
        (case search_dir fs name entr of
           (d, entr, fs) \<Rightarrow>
             if d = 0 then (-1, iter, SET_ERRNO ENOENT fs)
             else
               let off = (if it_cur_off iter = 0 then entry_start fs else it_cur_off iter);
                   start_len = strnlen name (unat (it_len iter));
                   add = (if start_len = 0 then 0 else 1)
               in readdir_loop fs entr iter name off start_len add))"

text \<open>Each call that finds an entry moves the iterator on.\<close>

lemma readdir_loop_forward:
  "readdir_loop fs e iter name off sl add = (r, iter', fs') \<Longrightarrow> r \<noteq> -1 \<Longrightarrow> it_filename iter' \<noteq> None \<Longrightarrow>
     off < it_cur_off iter'"
proof (induction fs e iter name off sl add arbitrary: iter' fs' rule: readdir_loop.induct)
  case (1 fs e iter name off sl add)
  let ?n = "put_slash name sl add"
  obtain q e1 fs1 where m: "search_file_mask fs ?n e off = (q, e1, fs1)" by (metis prod_cases3)
  obtain st2 e2 it2 n2 fs2 where a: "iter_entry FILE_ENTRY fs1 e1 iter ?n q sl add = (st2, e2, it2, n2, fs2)"
    by (metis prod_cases5)
  obtain st3 e3 it3 n3 fs3 where b: "(if st2 = ITER_GO then iter_entry DIR_ENTRY fs2 e2 it2 n2 q sl add
      else (st2, e2, it2, n2, fs2)) = (st3, e3, it3, n3, fs3)"
    by (metis prod_cases5)
  have up: "off < r" if "q \<noteq> 0" "\<not> q + 64 < q" "q + 64 \<le> r" for r
  proof -
    have "off \<le> q" using search_file_mask_ge [OF m that(1)] .
    moreover have "q < q + 64" using unat_step_less [OF that(2)] by (simp add: word_less_nat_alt)
    ultimately show ?thesis using that(3) by (meson le_less_trans less_le_trans)
  qed
  note ih1 = 1(1) [OF refl m [symmetric] refl _ a [symmetric] refl refl refl b [symmetric] refl refl refl]
  note ih2 = 1(2) [OF refl m [symmetric] refl _ a [symmetric] refl refl refl b [symmetric] refl refl refl _ _ refl]
  have "readdir_loop fs e iter name off sl add = (r, iter', fs')" by (rule 1(3))
  then show ?case
    using 1(4,5) m a b up ih1 ih2 less_imp_le
    by (subst (asm) readdir_loop.simps) (auto simp: Let_def split: if_splits)
qed

lemma sfs_readdir_forward:
  assumes "sfs_readdir fs e iter = (r, iter', fs')" and "r \<noteq> -1" and "it_filename iter' \<noteq> None"
  shows "it_cur_off iter < it_cur_off iter'"
proof -
  obtain n fs1 e1 off sl add where "readdir_loop fs1 e1 iter n off sl add = (r, iter', fs')"
    and "it_cur_off iter \<le> off"
    using assms by (auto simp: sfs_readdir_def Let_def split: if_splits prod.splits)
  then show ?thesis using readdir_loop_forward assms(2,3) by (meson le_less_trans)
qed

end
