(* ===== verification/VolumeOps.thy ===== *)
theory VolumeOps
  imports Expand DirOps
begin

text \<open>
  What the operations of the library do to a mounted volume: the entry of every slot afterwards,
  and the head of the list of free extents. \<open>after\<close> is the relation the specifications of the
  operations are stated with; the error variable, the clock and the buffer are left open.
\<close>

section \<open>The volume after an operation\<close>

definition after :: "fs \<Rightarrow> (u64 \<Rightarrow> entry) \<Rightarrow> u64 \<Rightarrow> fs \<Rightarrow> bool" where
  "after fs at b fs' \<longleftrightarrow> fs_ok fs' \<and> entry_at fs' = at \<and> slot_valid fs' = slot_valid fs
     \<and> entry_start fs' = entry_start fs \<and> vol_ident fs' = vol_ident fs \<and> del_begin fs' = b
     \<and> block_size fs' = block_size fs \<and> length (host_file fs') = length (host_file fs)"

abbreviation unchanged :: "fs \<Rightarrow> fs \<Rightarrow> bool" where
  "unchanged fs fs' \<equiv> after fs (entry_at fs) (del_begin fs) fs'"

lemma after_ok: "after fs at b fs' \<Longrightarrow> fs_ok fs'"
  by (simp add: after_def)

lemma after_sel:
  assumes "after fs at b fs'"
  shows "entry_at fs' = at" "slot_valid fs' = slot_valid fs" "del_begin fs' = b"
    "block_size fs' = block_size fs" "index_size fs' = index_size fs" "index_off fs' = index_off fs"
    "index_offs fs' = index_offs fs" "length (host_file fs') = length (host_file fs)"
    "entry_start fs' = entry_start fs" "vol_ident fs' = vol_ident fs"
  using assms by (simp_all add: after_def index_size_def index_off_def index_offs_def fun_eq_iff)

lemma after_refl: "fs_ok fs \<Longrightarrow> unchanged fs fs"
  by (simp add: after_def)

lemma after_trans: "after fs at b fs1 \<Longrightarrow> after fs1 at' b' fs' \<Longrightarrow> after fs at' b' fs'"
  by (simp add: after_def)

lemma after_same: "fs_ok fs' \<Longrightarrow> same_vol fs fs' \<Longrightarrow> unchanged fs fs'"
  using same_vol_cong [of fs fs'] same_vol_sel [of fs fs'] by (simp add: after_def)

lemma after_same_errno: "fs_ok fs' \<Longrightarrow> same_vol (SET_ERRNO e fs) fs' \<Longrightarrow> unchanged fs fs'"
  using same_vol_cong [of "SET_ERRNO e fs" fs'] same_vol_sel [of "SET_ERRNO e fs" fs']
  by (simp add: after_def)

lemma after_to: "fs_ok fs \<Longrightarrow> fs_ok fs' \<Longrightarrow> vol_to fs at b fs' \<Longrightarrow> after fs at b fs'"
  using vol_to_sel [of fs at b fs'] vol_to_length [of fs fs' at b] by (simp add: after_def)

lemma after_upd: "fs_ok fs \<Longrightarrow> fs_ok fs' \<Longrightarrow> vol_upd fs at fs' \<Longrightarrow> after fs at (del_begin fs) fs'"
  by (simp add: vol_upd_to after_to)

lemma after_errno [simp]: "after fs at b (SET_ERRNO e fs') = after fs at b fs'"
  by (simp add: after_def)

lemma update_sel [simp]:
  "host_file (update fs) = host_file fs" "entry_start (update fs) = entry_start fs"
  "vol_ident (update fs) = vol_ident fs" "del_begin (update fs) = del_begin fs"
  "block_size (update fs) = block_size fs" "fs_ok (update fs) = fs_ok fs"
  "entry_at (update fs) = entry_at fs" "slot_valid (update fs) = slot_valid fs"
  by (simp_all add: update_def get_time_def entry_at_def slot_valid_def fs_ok_def entry_dev_ok_def
      dev_ok_def geom_ok_def cache_ok_def disk_block_def fun_eq_iff)

lemma after_update [simp]: "after fs at b (update fs') = after fs at b fs'"
  by (simp add: after_def)

lemma get_time_upd:
  assumes "get_time fs = (t, fs')"
  shows "host_file fs' = host_file fs" "fs_ok fs' = fs_ok fs" "entry_at fs' = entry_at fs"
    "slot_valid fs' = slot_valid fs" "after fs0 at b fs' = after fs0 at b fs"
  using assms
  by (auto simp: get_time_def entry_at_def slot_valid_def fs_ok_def entry_dev_ok_def after_def
      dev_ok_def geom_ok_def cache_ok_def disk_block_def fun_eq_iff)

lemma read_entry_after:
  assumes "fs_ok fs" and "slot_valid fs p" and "length e = 64"
  obtains fs' where "read_entry fs p e = (64, entry_at fs p, fs')" "unchanged fs fs'"
  by (rule read_entry_fs [OF assms]) (use after_same in blast)

lemma write_entry_after:
  assumes "fs_ok fs" and "slot_valid fs p" and "length e = 64"
  obtains fs' where "write_entry fs p e = (64, fs')" "after fs ((entry_at fs)(p := e)) (del_begin fs) fs'"
  by (rule write_entry_fs [OF assms]) (use after_upd [OF assms(1)] in blast)

lemma dir_names_ok_after: "unchanged fs fs' \<Longrightarrow> dir_names_ok fs' = dir_names_ok fs"
  using after_sel [of fs "entry_at fs" "del_begin fs" fs']
  by (simp add: dir_names_ok_def names_ok_def name_ok_def)

lemma path_ok_after: "unchanged fs fs' \<Longrightarrow> path_ok kind fs' path = path_ok kind fs path"
  using after_sel [of fs "entry_at fs" "del_begin fs" fs'] by (simp add: path_ok_def)

lemma lookup_after: "unchanged fs fs' \<Longrightarrow> lookup kind b fs' path = lookup kind b fs path"
  using after_sel [of fs "entry_at fs" "del_begin fs" fs'] by (simp add: lookup_def)

section \<open>Looking a path up\<close>

lemma search_file_after:
  assumes "fs_ok fs" and "dir_names_ok fs" and "length e = 64" and "path_ok FILE_ENTRY fs path"
  obtains e' fs' where "search_file fs path e = (found (lookup_file fs path), e', fs')" "length e' = 64"
    "unchanged fs fs'" "sfs_errno fs' = 0"
    "lookup_file fs path \<noteq> None \<longrightarrow> e' = entry_at fs (found (lookup_file fs path))"
  by (rule search_file_ok [OF assms]) (use after_same_errno same_vol_sel(7) in \<open>fastforce intro: that\<close>)

lemma search_dir_after:
  assumes "fs_ok fs" and "dir_names_ok fs" and "length e = 64" and "path_ok DIR_ENTRY fs path"
  obtains e' fs' where "search_dir fs path e = (found (lookup_dir fs path), e', fs')" "length e' = 64"
    "unchanged fs fs'" "sfs_errno fs' = 0"
    "lookup_dir fs path \<noteq> None \<longrightarrow> e' = entry_at fs (found (lookup_dir fs path))"
  by (rule search_dir_ok [OF assms]) (use after_same_errno same_vol_sel(7) in \<open>fastforce intro: that\<close>)

lemma lookup_Some:
  assumes "fs_ok fs" and "lookup kind b fs path = Some p"
  shows "slot_valid fs p" and "p \<noteq> 0" and "p \<in> set (index_offs fs)"
    and "has_name kind b (entry_at fs) path p" and "length (entry_at fs p) = 64"
proof -
  show p: "p \<in> set (index_offs fs)" "has_name kind b (entry_at fs) path p"
    using assms(2) by (auto simp: lookup_def find_Some_iff)
  show v: "slot_valid fs p" "p \<noteq> 0" using in_index_offs [OF assms(1) p(1)] by auto
  show "length (entry_at fs p) = 64" by (rule length_entry_at [OF v(1)])
qed

lemma sfs_open_ok:
  assumes "fs_ok fs" and "dir_names_ok fs" and "length e = 64" and "padded path"
  obtains fs' where "sfs_open fs e path
      = (case lookup_file fs path of Some p \<Rightarrow> p | None \<Rightarrow> found (lookup_dir fs path), fs')"
    "unchanged fs fs'"
    "sfs_errno fs' = (if lookup_file fs path = None \<and> lookup_dir fs path = None then ENOENT else 0)"
proof -
  have pk: "path_ok kind fs path" for kind using assms(4) by (simp add: path_ok_def)
  obtain e1 fs1 where f: "search_file fs path e = (found (lookup_file fs path), e1, fs1)" "length e1 = 64"
    "unchanged fs fs1" "sfs_errno fs1 = 0"
    by (rule search_file_after [OF assms(1-3) pk])
  show ?thesis
  proof (cases "lookup_file fs path")
    case (Some p)
    then show ?thesis
      using f lookup_Some(2) [OF assms(1) Some] by (intro that [of fs1]) (auto simp: sfs_open_def)
  next
    case None
    have "path_ok DIR_ENTRY fs1 path" using path_ok_after [OF f(3)] pk by simp
    moreover have "dir_names_ok fs1" using dir_names_ok_after [OF f(3)] assms(2) by simp
    ultimately obtain e2 fs2 where d: "search_dir fs1 path e1 = (found (lookup_dir fs1 path), e2, fs2)"
      "unchanged fs1 fs2" "sfs_errno fs2 = 0"
      using search_dir_after [OF after_ok [OF f(3)] _ f(2)] by blast
    have u: "unchanged fs fs2" using after_trans [OF f(3)] d(2) after_sel [OF f(3)] by simp
    show ?thesis
      using None f d u lookup_after [OF f(3)] lookup_nonzero [OF assms(1), of DIR_ENTRY 10 path]
      by (intro that [of "if lookup_dir fs path = None then SET_ERRNO ENOENT fs2 else fs2"])
        (auto simp: sfs_open_def)
  qed
qed

end
