(* ===== verification/NewNames.thy ===== *)
theory NewNames
  imports VolumeOps
begin

text \<open>
  How a new name is stored: the head entry with the first part, and the continuation entries with
  the rest, as \<open>sfs_creat\<close> and \<open>sfs_mkdir\<close> write them.
\<close>

section \<open>Continuation entries\<close>

definition chunk :: "bytes \<Rightarrow> entry" where
  "chunk path = take 64 (cstr path) @ replicate (64 - length (cstr path)) 0"

lemma length_chunk [simp]: "length (chunk path) = 64"
  by (simp add: chunk_def)

lemma strncpy_chunk: "length e = 64 \<Longrightarrow> strncpy e path 64 = chunk path"
  by (cases "cstr path = []") (simp_all add: strncpy_eq chunk_def mem_put_def patch_def)

primrec put_conts :: "nat \<Rightarrow> u64 \<Rightarrow> bytes \<Rightarrow> (u64 \<Rightarrow> entry) \<Rightarrow> u64 \<Rightarrow> entry" where
  "put_conts 0 p path at = at"
| "put_conts (Suc n) p path at = put_conts n (p + 64) (drop 64 path) (at(p := chunk path))"

lemma write_conts_ok:
  assumes "fs_ok fs" and "\<And>j. j < n \<Longrightarrow> slot_valid fs (p + 64 * word_of_nat j)" and "length e = 64"
  shows "\<exists>e' fs'. write_conts n fs e path p = (e', fs')
      \<and> after fs (put_conts n p path (entry_at fs)) (del_begin fs) fs'"
  using assms
proof (induction n arbitrary: fs e path p)
  case 0
  then show ?case by (simp add: after_refl)
next
  case (Suc n)
  have v: "slot_valid fs p" using Suc.prems(2) [of 0] by simp
  obtain fs1 where w: "write_entry fs p (chunk path) = (64, fs1)"
    "after fs ((entry_at fs)(p := chunk path)) (del_begin fs) fs1"
    by (rule write_entry_after [OF Suc.prems(1) v length_chunk])
  note s = after_sel [OF w(2)]
  have "slot_valid fs1 (p + 64 + 64 * word_of_nat j)" if "j < n" for j
    using Suc.prems(2) [of "Suc j"] that s(2) by (simp add: algebra_simps)
  then obtain e' fs' where "write_conts n fs1 (chunk path) (drop 64 path) (p + 64) = (e', fs')"
    "after fs1 (put_conts n (p + 64) (drop 64 path) (entry_at fs1)) (del_begin fs1) fs'"
    using Suc.IH [OF after_ok [OF w(2)] _ length_chunk] by blast
  then show ?case
    using w Suc.prems(3) after_trans [OF w(2)] s(1,3) by (simp add: strncpy_chunk)
qed

lemma put_conts_outside:
  "(\<And>j. j < n \<Longrightarrow> q \<noteq> p + 64 * word_of_nat j) \<Longrightarrow> put_conts n p path at q = at q"
proof (induction n arbitrary: p path at)
  case (Suc n)
  have "q \<noteq> p + 64 + 64 * word_of_nat j" if "j < n" for j
    using Suc.prems [of "Suc j"] that by (simp add: algebra_simps)
  moreover have "q \<noteq> p" using Suc.prems [of 0] by simp
  ultimately show ?case using Suc.IH by simp
qed simp

lemma offset_inj:
  assumes "i < 2 ^ 58" and "j < 2 ^ 58"
  shows "(p :: u64) + 64 * word_of_nat i = p + 64 * word_of_nat j \<longleftrightarrow> i = j"
proof -
  have u: "unat (64 * word_of_nat k :: u64) = 64 * k" if "k < 2 ^ 58" for k
  proof -
    have "unat (word_of_nat (64 * k) :: u64) = 64 * k" using that by (subst unat_of_nat) simp
    then show ?thesis by simp
  qed
  show ?thesis
  proof
    assume "p + 64 * word_of_nat i = p + 64 * word_of_nat j"
    then have "unat (64 * word_of_nat i :: u64) = unat (64 * word_of_nat j :: u64)" by simp
    then show "i = j" unfolding u [OF assms(1)] u [OF assms(2)] by simp
  qed simp
qed

lemma put_conts_at:
  assumes "j < n" and "n < 2 ^ 58"
  shows "put_conts n p path at (p + 64 * word_of_nat j) = chunk (drop (64 * j) path)"
  using assms
proof (induction n arbitrary: j p path at)
  case (Suc n)
  show ?case
  proof (cases j)
    case 0
    have "p \<noteq> p + 64 + 64 * word_of_nat k" if "k < n" for k
      using offset_inj [of 0 "Suc k" p] that Suc.prems by (simp add: algebra_simps)
    then show ?thesis using 0 put_conts_outside [of n p "p + 64"] by simp
  next
    case (Suc i)
    have "put_conts n (p + 64) (drop 64 path) (at(p := chunk path)) ((p + 64) + 64 * word_of_nat i)
        = chunk (drop (64 * i) (drop 64 path))"
      using Suc Suc.prems by (intro Suc.IH) auto
    then show ?thesis using Suc by (simp add: algebra_simps)
  qed
qed simp

lemma conts_cong: "(\<And>k. k < n \<Longrightarrow> at' (p + 64 * word_of_nat k) = at (p + 64 * word_of_nat k)) \<Longrightarrow> conts at' p n = conts at p n"
  unfolding conts_def by (intro arg_cong [where f = concat] map_cong) auto

text \<open>What the continuation entries hold together: the string, and zeros after it.\<close>

lemma conts_put:
  assumes "padded path" and "n < 2 ^ 58"
  shows "conts (put_conts n p path at) p n = take (64 * n) (cstr path) @ replicate (64 * n - length (cstr path)) 0"
  using assms
proof (induction n arbitrary: p path at)
  case (Suc n)
  have here: "put_conts (Suc n) p path at p = chunk path"
    using put_conts_at [of 0 "Suc n" p path at] Suc.prems(2) by simp
  have "conts (put_conts n (p + 64) (drop 64 path) (at(p := chunk path))) (p + 64) n
      = take (64 * n) (cstr (drop 64 path)) @ replicate (64 * n - length (cstr (drop 64 path))) 0"
    by (rule Suc.IH) (use Suc.prems padded_drop in auto)
  then have "conts (put_conts (Suc n) p path at) (p + 64) n
      = take (64 * n) (drop 64 (cstr path)) @ replicate (64 * n - (length (cstr path) - 64)) 0"
    by (simp add: cstr_drop [OF Suc.prems(1)])
  then show ?case
    unfolding conts_Suc here
    by (cases "length (cstr path) \<le> 64")
      (auto simp: chunk_def take_add replicate_add [symmetric] le_imp_diff_is_add simp del: put_conts.simps)
qed simp

section \<open>The head entry\<close>

lemma drop_put:
  "k + 8 \<le> n \<Longrightarrow> k + 8 \<le> length e \<Longrightarrow> drop n (put_u64 k w e) = drop n e"
  "k < n \<Longrightarrow> k < length e \<Longrightarrow> drop n (put_u8 k b e) = drop n e"
  by (simp_all add: put_u64_def put_u8_def patch_def drop_Cons')

text \<open>The number of entries of a name of \<open>l\<close> characters, as the library counts it: one more than
  needed when the terminator ends a continuation entry.\<close>

definition name_entries :: "nat \<Rightarrow> nat \<Rightarrow> nat" where
  "name_entries first_size l = (if Suc l \<le> first_size then 1 else 2 + (Suc l - first_size) div 64)"

lemma count_entry_eq:
  assumes "l < 16000" and "0 < first_size" and "first_size < 64"
  shows "unat (count_entry (word_of_nat first_size) (word_of_nat l + 1)) = name_entries first_size l"
proof -
  let ?w = "word_of_nat (Suc l) :: u64" and ?f = "word_of_nat first_size :: u64"
  have len: "word_of_nat l + 1 = ?w" by simp
  have u: "unat ?w = Suc l" "unat ?f = first_size"
    using assms by (simp_all add: unat_of_nat del: of_nat_Suc)
  show ?thesis
  proof (cases "Suc l \<le> first_size")
    case True
    then have "?w \<le> ?f" using u by (simp add: word_le_nat_alt)
    then show ?thesis unfolding len using True by (simp add: count_entry_def name_entries_def)
  next
    case False
    then have gt: "\<not> ?w \<le> ?f" using u by (simp add: word_le_nat_alt)
    have d: "unat (?w - ?f) = Suc l - first_size" using False u by (subst unat_sub_small) auto
    then have nz: "?w - ?f \<noteq> 0" using False by auto
    have one: "(1 :: u64) mod 64 = 1" by (simp add: word_unat_eq_iff unat_mod)
    have q: "unat ((?w - ?f) div 64) = (Suc l - first_size) div 64"
      using d by (simp add: unat_div del: of_nat_Suc)
    have small: "(Suc l - first_size) div 64 < 250" using assms(1,2) by (intro less_mult_imp_div_less) simp
    have s: "unat (1 + ((?w - ?f) div 64 + 1)) = 2 + (Suc l - first_size) div 64"
      using q small by (simp add: unat_word_ariths)
    have "count_entry ?f ?w = ucast (1 + ((?w - ?f) div 64 + 1))"
      using gt nz one by (simp add: count_entry_def)
    moreover have "unat (ucast (1 + ((?w - ?f) div 64 + 1)) :: byte) = 2 + (Suc l - first_size) div 64"
      using s small by (simp add: unsigned_ucast_eq take_bit_eq_mod)
    ultimately show ?thesis unfolding len using False by (simp add: name_entries_def)
  qed
qed

lemma name_entries_room:
  assumes "l < 16000"
  shows "0 < name_entries f l" and "name_entries f l < 256"
    and "name_entries f l \<noteq> 1 \<Longrightarrow> l < f + 64 * (name_entries f l - 1)"
    and "name_entries f l = 1 \<longleftrightarrow> l < f"
proof -
  have d: "(Suc l - f) div 64 < 251" using assms by (simp add: less_mult_imp_div_less)
  show "0 < name_entries f l" "name_entries f l < 256" using d by (auto simp: name_entries_def)
  show "name_entries f l = 1 \<longleftrightarrow> l < f" by (auto simp: name_entries_def)
  assume "name_entries f l \<noteq> 1"
  then have "name_entries f l - 1 = Suc ((Suc l - f) div 64)" by (simp add: name_entries_def split: if_splits)
  moreover have "Suc l - f < 64 * Suc ((Suc l - f) div 64)"
    using mult_div_mod_eq [of 64 "Suc l - f"] pos_mod_bound [of 64 "int (Suc l - f)"] by (simp add: algebra_simps)
  ultimately show "l < f + 64 * (name_entries f l - 1)" by linarith
qed

declare cstr_no_nul [simp]

lemma take_padded:
  assumes "padded path" and "m \<le> length (cstr path)"
  shows "mem_get 0 m path = take m (cstr path)"
proof -
  have p: "path = cstr path @ replicate (length path - length (cstr path)) 0" by (rule padded_cstr [OF assms(1)])
  have "take m path = take m (cstr path)" using assms(2) by (subst p) simp
  moreover have "m \<le> length path" using assms(2) by (subst p) simp
  ultimately show ?thesis by (simp add: mem_get_within seg_def)
qed

lemma put_first_name:
  assumes "padded path" and "length (cstr path) < 16000" and "length e = 64" and "first_off + first_size = 64"
    and n: "n = name_entries first_size (length (cstr path))" and w: "unat w = n"
  obtains tail where "drop first_off (fst (put_first first_off first_size w e path)) @
       conts (put_conts (n - 1) q (snd (put_first first_off first_size w e path)) at) q (n - 1) = cstr path @ tail"
    "0 \<in> set tail" "hd0 tail = 0" "length (fst (put_first first_off first_size w e path)) = 64"
proof -
  note room = name_entries_room [OF assms(2), of first_size, folded n]
  have w1: "w = 1 \<longleftrightarrow> n = 1" using w by (auto simp: word_unat_eq_iff)
  show ?thesis
  proof (cases "n = 1")
    case True
    then have l: "length (cstr path) < first_size" using room(4) by simp
    then have "fst (put_first first_off first_size w e path) = patch first_off (cstr path @ [0]) e"
      using True w1 assms(3,4) put_name_patch [of first_off path e] by (simp add: put_first_def)
    moreover have "drop first_off (patch first_off (cstr path @ [0]) e)
        = cstr path @ 0 # drop (first_off + length (cstr path) + 1) e"
      using assms(3,4) by (simp add: patch_def add.commute)
    moreover have "length (patch first_off (cstr path @ [0]) e) = 64"
      using l assms(3,4) by (subst length_patch) auto
    ultimately show ?thesis using True by (intro that) (auto simp: hd0_def)
  next
    case False
    then have l: "first_size \<le> length (cstr path)" "length (cstr path) < first_size + 64 * (n - 1)"
      using room(3,4) n by auto
    have f: "put_first first_off first_size w e path
        = (mem_put first_off (mem_get 0 first_size path) e, drop first_size path)"
      using False w1 by (simp add: put_first_def)
    have g: "mem_get 0 first_size path = take first_size (cstr path)" by (rule take_padded [OF assms(1) l(1)])
    have d: "drop first_off (mem_put first_off (mem_get 0 first_size path) e) = take first_size (cstr path)"
      using l(1) assms(3,4) unfolding g by (auto simp: mem_put_def patch_def)
    have lm: "length (mem_put first_off (mem_get 0 first_size path) e) = 64"
      using l(1) assms(3,4) by (simp add: length_mem_put)
    have n58: "n - 1 < 2 ^ 58" using room(2) by simp
    have "conts (put_conts (n - 1) q (drop first_size path) at) q (n - 1)
        = drop first_size (cstr path) @ replicate (64 * (n - 1) - (length (cstr path) - first_size)) 0"
      using conts_put [OF padded_drop [OF assms(1)] n58, of q first_size at] l
      by (simp add: cstr_drop [OF assms(1)])
    then show ?thesis
      using l f d lm by (intro that [of "replicate (64 * (n - 1) - (length (cstr path) - first_size)) 0"])
        (auto simp: hd0_def split: list.split dest: arg_cong [of _ _ set])
  qed
qed

text \<open>The name is stored, whatever the fields before it are set to.\<close>

lemma new_name_stored:
  assumes "padded path" and "length (cstr path) < 16000" and "length e = 64" and "first_off + first_size = 64"
    and n: "n = name_entries first_size (length (cstr path))" and w: "unat w = n"
    and pf: "put_first first_off first_size w e path = (e1, path1)"
    and h: "drop first_off h = drop first_off e1" "cont_entries h = w - 1"
    and at': "at' = put_conts (n - 1) (p + 64) path1 (at(p := h))"
  shows "entry_name first_off at' p = cstr path" and "0 \<in> set (name_bytes first_off at' p)"
    and "at' p = h" and "unat (cont_entries h) = n - 1"
proof -
  note room = name_entries_room [OF assms(2), of first_size, folded n]
  have "w \<noteq> 0" using w room(1) by auto
  then show c: "unat (cont_entries h) = n - 1" using h(2) w by (simp add: unat_minus_one)
  have "p \<noteq> p + 64 + 64 * word_of_nat j" if "j < n - 1" for j
    using offset_inj [of 0 "Suc j" p] that room(2) by (simp add: algebra_simps)
  then show hp: "at' p = h" unfolding at' by (subst put_conts_outside) auto
  obtain tail where t: "drop first_off e1 @ conts (put_conts (n - 1) (p + 64) path1 (at(p := h))) (p + 64) (n - 1) = cstr path @ tail"
    "0 \<in> set tail" "hd0 tail = 0"
    by (rule put_first_name [OF assms(1-4) n w, of "p + 64" "at(p := h)"]) (simp add: pf)
  have nb: "name_bytes first_off at' p = cstr path @ tail"
    using t(1) h(1) hp c unfolding at' by (simp add: name_bytes_def)
  show "0 \<in> set (name_bytes first_off at' p)" using nb t(2) by simp
  show "entry_name first_off at' p = cstr path"
    using nb t(3) by (simp add: entry_name_def cstr_append cstr_Nil_iff)
qed

end
