(* ===== verification/Directory.thy ===== *)
theory Directory
  imports NewNames
begin

text \<open>
  The names of a volume as a map: the invariant of the index that keeps the entries of a name
  together, and what \<open>sfs_creat\<close>, \<open>sfs_mkdir\<close> and \<open>sfs_unlink\<close> do to the map.
\<close>

section \<open>The layout of names\<close>

definition headed :: "entry \<Rightarrow> bool" where
  "headed e \<longleftrightarrow> entry_type e \<in> {entry_code FILE_ENTRY, entry_code DIR_ENTRY, entry_code DEL_FILE_ENTRY}"

definition is_code :: "byte \<Rightarrow> bool" where
  "is_code b \<longleftrightarrow> (\<exists>kind. b = entry_code kind)"

lemma is_code_code [simp]: "is_code (entry_code kind)"
  by (auto simp: is_code_def)

lemma headed_code: "headed e \<Longrightarrow> is_code (entry_type e)"
  by (auto simp: headed_def simp del: entry_code.simps)

text \<open>The continuation entries of a name are in the index, and none looks like an entry of its own.\<close>

definition laid_out :: "fs \<Rightarrow> bool" where
  "laid_out fs \<longleftrightarrow> (\<forall>p \<in> set (index_offs fs). headed (entry_at fs p) \<longrightarrow>
     (\<forall>k. 0 < k \<and> k \<le> unat (cont_entries (entry_at fs p)) \<longrightarrow>
        p + 64 * word_of_nat k \<in> set (index_offs fs) \<and> \<not> is_code (entry_type (entry_at fs (p + 64 * word_of_nat k)))))"

definition unique_names :: "entry_kind \<Rightarrow> nat \<Rightarrow> fs \<Rightarrow> bool" where
  "unique_names kind b fs \<longleftrightarrow> (\<forall>p \<in> set (index_offs fs). \<forall>q \<in> set (index_offs fs).
     entry_type (entry_at fs p) = entry_code kind \<and> entry_type (entry_at fs q) = entry_code kind
       \<and> entry_name b (entry_at fs) p = entry_name b (entry_at fs) q \<longrightarrow> p = q)"

definition dir_ok :: "fs \<Rightarrow> bool" where
  "dir_ok fs \<longleftrightarrow> fs_ok fs \<and> dir_names_ok fs \<and> laid_out fs
     \<and> unique_names FILE_ENTRY 34 fs \<and> unique_names DIR_ENTRY 10 fs"

text \<open>\<open>apart fs Q\<close>: the slots \<open>Q\<close> hold no part of a name, but for entries with their head in \<open>Q\<close>.\<close>

definition apart :: "fs \<Rightarrow> u64 set \<Rightarrow> bool" where
  "apart fs Q \<longleftrightarrow> (\<forall>p \<in> set (index_offs fs) - Q. headed (entry_at fs p) \<longrightarrow>
     (\<forall>k \<le> unat (cont_entries (entry_at fs p)). p + 64 * word_of_nat k \<notin> Q))"

lemma apart_codes:
  assumes "laid_out fs" and "\<And>q. q \<in> Q \<Longrightarrow> is_code (entry_type (entry_at fs q))"
  shows "apart fs Q"
  unfolding apart_def
proof (intro ballI impI allI)
  fix p k assume p: "p \<in> set (index_offs fs) - Q" "headed (entry_at fs p)"
    "k \<le> unat (cont_entries (entry_at fs p))"
  show "p + 64 * word_of_nat k \<notin> Q"
  proof (cases "k = 0")
    case False
    then have "\<not> is_code (entry_type (entry_at fs (p + 64 * word_of_nat k)))"
      using p assms(1) by (auto simp: laid_out_def)
    then show ?thesis using assms(2) by blast
  qed (use p in auto)
qed

text \<open>A change inside \<open>Q\<close> leaves the names of the heads outside as they are.\<close>

lemma name_bytes_frame:
  assumes "\<And>k. k \<le> unat (cont_entries (at p)) \<Longrightarrow> at' (p + 64 * word_of_nat k) = at (p + 64 * word_of_nat k)"
  shows "name_bytes b at' p = name_bytes b at p"
proof -
  have hp: "at' p = at p" using assms [of 0] by simp
  have "at' (p + 64 + 64 * word_of_nat k) = at (p + 64 + 64 * word_of_nat k)" if "k < unat (cont_entries (at p))" for k
    using assms [of "Suc k"] that by (simp add: algebra_simps)
  then have "conts at' (p + 64) (unat (cont_entries (at p))) = conts at (p + 64) (unat (cont_entries (at p)))"
    by (rule conts_cong)
  then show ?thesis by (simp add: name_bytes_def hp)
qed

lemma has_name_frame:
  assumes "apart fs Q" and "p \<in> set (index_offs fs) - Q" and "headed (entry_at fs p)"
    and "\<And>q. q \<notin> Q \<Longrightarrow> at' q = entry_at fs q"
  shows "name_bytes b at' p = name_bytes b (entry_at fs) p"
  using assms by (intro name_bytes_frame) (auto simp: apart_def)

text \<open>The entries \<open>at'\<close> after a change inside \<open>Q\<close>: \<open>edit_ok\<close> is what the change has to establish for
  the heads it leaves in \<open>Q\<close>.\<close>

definition edit_ok :: "fs \<Rightarrow> u64 set \<Rightarrow> (u64 \<Rightarrow> entry) \<Rightarrow> bool" where
  "edit_ok fs Q at' \<longleftrightarrow> (\<forall>q. q \<notin> Q \<longrightarrow> at' q = entry_at fs q) \<and>
     (\<forall>p \<in> set (index_offs fs) \<inter> Q. headed (at' p) \<longrightarrow>
        (\<forall>k. 0 < k \<and> k \<le> unat (cont_entries (at' p)) \<longrightarrow>
           p + 64 * word_of_nat k \<in> set (index_offs fs) \<and> \<not> is_code (entry_type (at' (p + 64 * word_of_nat k)))))"

lemma laid_out_edit:
  assumes "laid_out fs" and "apart fs Q" and "edit_ok fs Q (entry_at fs')" and "index_offs fs' = index_offs fs"
  shows "laid_out fs'"
  unfolding laid_out_def assms(4)
proof (intro ballI impI allI)
  fix p k assume p: "p \<in> set (index_offs fs)" "headed (entry_at fs' p)"
    "0 < k \<and> k \<le> unat (cont_entries (entry_at fs' p))"
  show "p + 64 * word_of_nat k \<in> set (index_offs fs) \<and> \<not> is_code (entry_type (entry_at fs' (p + 64 * word_of_nat k)))"
  proof (cases "p \<in> Q")
    case True
    then show ?thesis using p assms(3) by (auto simp: edit_ok_def)
  next
    case False
    then have hp: "entry_at fs' p = entry_at fs p" using assms(3) by (simp add: edit_ok_def)
    then have "p + 64 * word_of_nat k \<notin> Q" using p False assms(2) by (auto simp: apart_def)
    then have "entry_at fs' (p + 64 * word_of_nat k) = entry_at fs (p + 64 * word_of_nat k)"
      using assms(3) by (simp add: edit_ok_def)
    then show ?thesis using p hp assms(1) by (auto simp: laid_out_def)
  qed
qed

lemma headed_kind: "entry_type e = entry_code kind \<Longrightarrow> kind \<in> {FILE_ENTRY, DIR_ENTRY, DEL_FILE_ENTRY} \<Longrightarrow> headed e"
  by (auto simp: headed_def)

text \<open>Names that are in order stay in order outside \<open>Q\<close>.\<close>

lemma names_ok_edit:
  assumes "names_ok kind b fs" and "apart fs Q" and "edit_ok fs Q (entry_at fs')"
    and "index_offs fs' = index_offs fs" and "slot_valid fs' = slot_valid fs"
    and "kind = FILE_ENTRY \<or> kind = DIR_ENTRY"
    and new: "\<And>p. p \<in> set (index_offs fs) \<inter> Q \<Longrightarrow> entry_type (entry_at fs' p) = entry_code kind \<Longrightarrow> name_ok b fs' p"
  shows "names_ok kind b fs'"
  unfolding names_ok_def assms(4)
proof (intro ballI impI)
  fix p assume p: "p \<in> set (index_offs fs)" "entry_type (entry_at fs' p) = entry_code kind"
  show "name_ok b fs' p"
  proof (cases "p \<in> Q")
    case False
    then have hp: "entry_at fs' p = entry_at fs p" using assms(3) by (simp add: edit_ok_def)
    have hd: "headed (entry_at fs p)" using p hp assms(6) by (auto intro: headed_kind)
    have "name_bytes b (entry_at fs') p = name_bytes b (entry_at fs) p"
      by (rule has_name_frame [OF assms(2) _ hd]) (use p False assms(3) in \<open>auto simp: edit_ok_def\<close>)
    then show ?thesis using p hp assms(1,5) by (simp add: names_ok_def name_ok_def)
  qed (use p new in blast)
qed

lemma has_name_edit:
  assumes "apart fs Q" and "edit_ok fs Q at'" and "p \<in> set (index_offs fs) - Q"
    and "kind = FILE_ENTRY \<or> kind = DIR_ENTRY"
  shows "has_name kind b at' path p = has_name kind b (entry_at fs) path p"
proof -
  have hp: "at' p = entry_at fs p" using assms(2,3) by (simp add: edit_ok_def)
  have "entry_type (entry_at fs p) = entry_code kind \<Longrightarrow>
      name_bytes b at' p = name_bytes b (entry_at fs) p"
    by (rule has_name_frame [OF assms(1,3)]) (use assms(2,4) in \<open>auto simp: edit_ok_def intro: headed_kind\<close>)
  then show ?thesis by (auto simp: has_name_def entry_name_def hp)
qed

section \<open>A new name\<close>

lemma find_unique: "p \<in> set xs \<Longrightarrow> (\<And>q. q \<in> set xs \<Longrightarrow> P q \<longleftrightarrow> q = p) \<Longrightarrow> List.find P xs = Some p"
  by (induction xs) auto

lemma find_cong: "(\<And>q. q \<in> set xs \<Longrightarrow> P q = P' q) \<Longrightarrow> List.find P xs = List.find P' xs"
  by (induction xs) auto

lemma entry_type_chunk: "entry_type (chunk path) = hd0 (cstr path)"
  by (cases "cstr path") (simp_all add: get_u8_def cs_at_def chunk_def hd0_def)

lemma correct_chunk:
  assumes "padded path" and "\<forall>b \<in> set (cstr path). is_correct_char b = 0"
  shows "\<not> is_code (entry_type (chunk (drop k path)))"
proof -
  have "hd0 (drop k (cstr path)) = 0 \<or> is_correct_char (hd0 (drop k (cstr path))) = 0"
  proof (cases "drop k (cstr path)")
    case (Cons c cs)
    then have "c \<in> set (drop k (cstr path))" by simp
    then have "c \<in> set (cstr path)" by (rule in_set_dropD)
    then show ?thesis using assms(2) Cons by (simp add: hd0_def)
  qed (simp add: hd0_def)
  then show ?thesis
    using correct_char_no_code entry_code_nonzero by (auto simp: entry_type_chunk cstr_drop [OF assms(1)] is_code_def)
qed

definition run_slots :: "fs \<Rightarrow> nat \<Rightarrow> nat \<Rightarrow> u64 set" where
  "run_slots fs i n = index_off fs ` {i ..< i + n}"

lemma index_off_add: "index_off fs (i + k) = index_off fs i + 64 * word_of_nat k"
  by (simp add: index_off_def algebra_simps)

lemma run_slots_alt: "run_slots fs i n = {index_off fs i + 64 * word_of_nat k | k. k < n}"
proof (intro set_eqI iffI)
  fix q assume "q \<in> run_slots fs i n"
  then obtain j where j: "i \<le> j" "j < i + n" "q = index_off fs j" by (auto simp: run_slots_def)
  have "q = index_off fs i + 64 * word_of_nat (j - i)"
    using j(1,3) index_off_add [of fs i "j - i"] by (metis le_add_diff_inverse)
  moreover have "j - i < n" using j(1,2) by linarith
  ultimately show "q \<in> {index_off fs i + 64 * word_of_nat k | k. k < n}" by blast
next
  fix q assume "q \<in> {index_off fs i + 64 * word_of_nat k | k. k < n}"
  then obtain k where k: "k < n" "q = index_off fs (i + k)" by (auto simp: index_off_add)
  then show "q \<in> run_slots fs i n" by (auto simp: run_slots_def)
qed

lemma run_slots_type:
  "free_run fs i n \<Longrightarrow> q \<in> run_slots fs i n \<Longrightarrow> entry_type (entry_at fs q) = entry_code UNUSED_ENTRY"
  by (auto simp: run_slots_alt free_run_def unused_def index_off_add)

text \<open>The head \<open>h\<close> at the start of a free run, and the rest of the name after it.\<close>

lemma new_name_edit:
  fixes i :: nat and fs :: fs
  defines "p \<equiv> index_off fs i"
  assumes ok: "fs_ok fs" and lo: "laid_out fs" and run: "free_run fs i n" "i + n \<le> index_size fs"
    and path: "padded path" "length (cstr path) < 16000" "\<forall>b \<in> set (cstr path). is_correct_char b = 0"
    and size: "first_off + first_size = 64" and n: "n = name_entries first_size (length (cstr path))"
    and w: "unat w = n" and pf: "put_first first_off first_size w e path = (e1, path1)" and len: "length e = 64"
    and h: "drop first_off h = drop first_off e1" "cont_entries h = w - 1"
    and at': "at' = put_conts (n - 1) (p + 64) path1 ((entry_at fs)(p := h))"
    and fs': "after fs at' b fs'"
  shows "apart fs (run_slots fs i n)" and "edit_ok fs (run_slots fs i n) at'" and "at' p = h"
    and "entry_name first_off at' p = cstr path" and "name_ok first_off fs' p"
    and "\<And>q. q \<in> run_slots fs i n \<Longrightarrow> q \<noteq> p \<Longrightarrow> \<not> is_code (entry_type (at' q))"
    and "p \<in> set (index_offs fs)" and "p \<in> run_slots fs i n"
proof -
  note room = name_entries_room [OF path(2), of first_size, folded n]
  note st = new_name_stored [OF path(1,2) len size n w pf h at']
  have valid: "index_off fs (i + k) \<in> set (index_offs fs)" "slot_valid fs (index_off fs (i + k))" if "k < n" for k
    using that run(2) index_off_valid [OF ok, of "i + k"] by (auto simp: index_offs_def)
  show ap: "apart fs (run_slots fs i n)"
    by (rule apart_codes [OF lo]) (simp only: run_slots_type [OF run(1)] is_code_code)
  show "p \<in> set (index_offs fs)" using valid [of 0] room(1) by (simp add: p_def)
  show pq: "p \<in> run_slots fs i n" using room(1) by (auto simp: run_slots_def p_def)
  show hp: "at' p = h" by (rule st(3))
  have path1: "\<exists>k. path1 = drop k path"
    using pf by (auto simp: put_first_def split: if_splits intro: exI [of _ 0])
  have inner: "\<not> is_code (entry_type (at' (p + 64 + 64 * word_of_nat j)))" if "j < n - 1" for j
  proof -
    have "at' (p + 64 + 64 * word_of_nat j) = chunk (drop (64 * j) path1)"
      unfolding at' using that room(2) by (intro put_conts_at) auto
    then show ?thesis using path1 correct_chunk [OF path(1,3)] by auto
  qed
  show clean: "\<not> is_code (entry_type (at' q))" if q: "q \<in> run_slots fs i n" "q \<noteq> p" for q
  proof -
    obtain k where k: "k < n" "q = p + 64 * word_of_nat k" using q(1) by (auto simp: run_slots_alt p_def)
    then obtain j where "k = Suc j" using q(2) by (cases k) auto
    then show ?thesis using inner [of j] k by (simp add: algebra_simps)
  qed
  have outside: "at' q = entry_at fs q" if out: "q \<notin> run_slots fs i n" for q
  proof -
    have "q \<noteq> p + 64 + 64 * word_of_nat j" if "j < n - 1" for j
    proof
      assume "q = p + 64 + 64 * word_of_nat j"
      then have "q = index_off fs i + 64 * word_of_nat (Suc j)" by (simp add: p_def algebra_simps)
      moreover have "Suc j < n" using that by linarith
      ultimately have "q \<in> run_slots fs i n" unfolding run_slots_alt by blast
      with out show False by contradiction
    qed
    then show ?thesis using out pq unfolding at' by (subst put_conts_outside) auto
  qed
  show "edit_ok fs (run_slots fs i n) at'"
    unfolding edit_ok_def
  proof (intro conjI allI ballI impI)
    fix q k assume q: "q \<in> set (index_offs fs) \<inter> run_slots fs i n" "headed (at' q)"
      "0 < k \<and> k \<le> unat (cont_entries (at' q))"
    have "is_code (entry_type (at' q))" using q(2) by (rule headed_code)
    then have qp: "q = p" using clean q(1) by blast
    then have k: "k < n" "0 < k" using q(3) hp st(4) room(1) by auto
    then obtain j where j: "k = Suc j" by (cases k) auto
    have "q + 64 * word_of_nat k = index_off fs (i + k)" using qp by (simp add: p_def index_off_add)
    then show "q + 64 * word_of_nat k \<in> set (index_offs fs)" using valid(1) [OF k(1)] by simp
    show "\<not> is_code (entry_type (at' (q + 64 * word_of_nat k)))"
      using inner [of j] k(1) j qp by (simp add: algebra_simps)
  qed (use outside in auto)
  show en: "entry_name first_off at' p = cstr path" by (rule st(1))
  show "name_ok first_off fs' p"
    unfolding name_ok_def after_sel(1,2) [OF fs'] hp st(4)
  proof (intro conjI allI impI)
    fix k assume "k \<le> n - 1"
    then have "k < n" using room(1) by linarith
    then show "slot_valid fs (p + 64 * word_of_nat k)" using valid(2) [of k] by (simp add: p_def index_off_add)
  qed (use st(2) in simp)
qed

section \<open>Names after a change\<close>

text \<open>A change that leaves no entry of a kind in the slots it touches, and found none there.\<close>

lemma lookup_edit_other:
  assumes "apart fs Q" and "edit_ok fs Q (entry_at fs')" and "index_offs fs' = index_offs fs"
    and "kind = FILE_ENTRY \<or> kind = DIR_ENTRY"
    and "\<And>q. q \<in> Q \<Longrightarrow> entry_type (entry_at fs q) \<noteq> entry_code kind"
    and "\<And>q. q \<in> Q \<Longrightarrow> entry_type (entry_at fs' q) \<noteq> entry_code kind"
  shows "lookup kind b fs' path = lookup kind b fs path"
  unfolding lookup_def assms(3)
proof (rule find_cong)
  fix q assume q: "q \<in> set (index_offs fs)"
  show "has_name kind b (entry_at fs') path q = has_name kind b (entry_at fs) path q"
  proof (cases "q \<in> Q")
    case True
    then show ?thesis using assms(5,6) by (simp add: has_name_def)
  next
    case False
    then show ?thesis using has_name_edit [OF assms(1,2) _ assms(4)] q by simp
  qed
qed

lemma lookup_None: "lookup kind b fs path = None \<longleftrightarrow> (\<forall>q \<in> set (index_offs fs). \<not> has_name kind b (entry_at fs) path q)"
  by (auto simp: lookup_def find_None_iff)

text \<open>A change that makes one entry of a kind, with a name the volume did not have.\<close>

lemma lookup_edit_new:
  assumes "apart fs Q" and "edit_ok fs Q (entry_at fs')" and "index_offs fs' = index_offs fs"
    and "kind = FILE_ENTRY \<or> kind = DIR_ENTRY"
    and none: "\<And>q. q \<in> Q \<Longrightarrow> entry_type (entry_at fs q) \<noteq> entry_code kind"
    and one: "\<And>q. q \<in> Q \<Longrightarrow> q \<noteq> p \<Longrightarrow> entry_type (entry_at fs' q) \<noteq> entry_code kind"
    and p: "p \<in> Q" "p \<in> set (index_offs fs)" "entry_type (entry_at fs' p) = entry_code kind"
      "entry_name b (entry_at fs') p = cstr path"
    and new: "lookup kind b fs path = None"
  shows "lookup kind b fs' path' = (if cstr path' = cstr path then Some p else lookup kind b fs path')"
proof -
  have h: "has_name kind b (entry_at fs') path' q = (if q = p then cstr path' = cstr path
      else has_name kind b (entry_at fs) path' q)" if "q \<in> set (index_offs fs)" for q
  proof (cases "q \<in> Q")
    case True
    then show ?thesis using none one p by (auto simp: has_name_def)
  next
    case False
    then show ?thesis using has_name_edit [OF assms(1,2) _ assms(4)] that p(1) by auto
  qed
  have old: "\<not> has_name kind b (entry_at fs) path' p" using none p(1) by (simp add: has_name_def)
  show ?thesis
  proof (cases "cstr path' = cstr path")
    case True
    then have "\<not> has_name kind b (entry_at fs) path' q" if "q \<in> set (index_offs fs)" for q
      using new that by (simp add: lookup_None has_name_def)
    then have "lookup kind b fs' path' = Some p"
      unfolding lookup_def assms(3) using p(2) h True by (intro find_unique) auto
    then show ?thesis using True by simp
  next
    case False
    then have "lookup kind b fs' path' = lookup kind b fs path'"
      unfolding lookup_def assms(3) using h old by (intro find_cong) auto
    then show ?thesis using False by simp
  qed
qed

lemma unique_names_edit:
  assumes "apart fs Q" and "edit_ok fs Q (entry_at fs')" and "index_offs fs' = index_offs fs"
    and kind: "kind = FILE_ENTRY \<or> kind = DIR_ENTRY" and un: "unique_names kind b fs"
    and one: "\<And>q. q \<in> Q \<Longrightarrow> entry_type (entry_at fs' q) = entry_code kind \<Longrightarrow>
        q = p \<and> lookup kind b fs path = None \<and> entry_name b (entry_at fs') p = cstr path"
  shows "unique_names kind b fs'"
proof -
  have same: "entry_at fs' q = entry_at fs q" if "q \<notin> Q" for q using assms(2) that by (simp add: edit_ok_def)
  have name: "entry_name b (entry_at fs') q = entry_name b (entry_at fs) q"
    if "q \<in> set (index_offs fs) - Q" "entry_type (entry_at fs q) = entry_code kind" for q
    unfolding entry_name_def using same that kind
    by (subst has_name_frame [OF assms(1) that(1)]) (auto intro: headed_kind)
  have clash: "entry_name b (entry_at fs) r \<noteq> entry_name b (entry_at fs') q"
    if "q \<in> Q" "entry_type (entry_at fs' q) = entry_code kind" "r \<in> set (index_offs fs) - Q"
      "entry_type (entry_at fs r) = entry_code kind" for q r
    using one [OF that(1,2)] that(3,4) by (auto simp: lookup_None has_name_def)
  show ?thesis
    unfolding unique_names_def assms(3)
  proof (intro ballI impI, elim conjE)
    fix q r assume qr: "q \<in> set (index_offs fs)" "r \<in> set (index_offs fs)"
      "entry_type (entry_at fs' q) = entry_code kind" "entry_type (entry_at fs' r) = entry_code kind"
      "entry_name b (entry_at fs') q = entry_name b (entry_at fs') r"
    show "q = r"
    proof (cases "q \<in> Q"; cases "r \<in> Q")
      assume "q \<in> Q" "r \<in> Q"
      then show ?thesis using one qr(3,4) by metis
    next
      assume "q \<in> Q" "r \<notin> Q"
      then show ?thesis using clash [of q r] name [of r] same [of r] qr by auto
    next
      assume "q \<notin> Q" "r \<in> Q"
      then show ?thesis using clash [of r q] name [of q] same [of q] qr by auto
    next
      assume "q \<notin> Q" "r \<notin> Q"
      then show ?thesis using name [of q] name [of r] same [of q] same [of r] qr un
        by (auto simp: unique_names_def)
    qed
  qed
qed

end
