(* ===== verification/NameOps.thy ===== *)
theory NameOps
  imports Directory
begin

text \<open>
  The specifications of src/lib/sfs/sfs_creat.c, sfs_mkdir.c and sfs_unlink.c: which error they
  report and that the volume is then unchanged, and otherwise what the map from names to entries
  becomes. The theory ends with the interface of a name space, which the files of a volume
  implement.
\<close>

section \<open>Writing a new name\<close>

definition walkable :: "fs \<Rightarrow> bytes \<Rightarrow> bool" where
  "walkable fs path \<longleftrightarrow> padded path \<and> length (cstr path) < 16000
     \<and> (\<forall>j < length path. cs_at path j = 0x2F \<longrightarrow> path_ok DIR_ENTRY fs (path[j := 0]))"

lemma cs_at_slash: "cs_at path j = 0x2F \<Longrightarrow> j < length path"
  by (auto simp: cs_at_def split: if_splits)

lemma walkable_dirs: "walkable fs path \<Longrightarrow> cs_at path j = 0x2F \<Longrightarrow> path_ok DIR_ENTRY fs (path[j := 0])"
  using cs_at_slash by (auto simp: walkable_def)

lemma walkable_path: "walkable fs path \<Longrightarrow> path_ok kind fs path"
  by (simp add: walkable_def path_ok_def)

lemma walkable_after: "unchanged fs fs' \<Longrightarrow> walkable fs' path = walkable fs path"
  by (simp add: walkable_def path_ok_after)

lemma dirs_exist_after: "unchanged fs fs' \<Longrightarrow> dirs_exist fs' = dirs_exist fs"
  by (simp add: dirs_exist_def lookup_after fun_eq_iff)

lemma check_dirs_after:
  assumes "fs_ok fs" and "dir_names_ok fs" and "length e = 64" and "walkable fs path"
  obtains e' fs' where "check_dirs fs path e = (if dirs_exist fs path 0 (strlen path + 1) then 0 else -1, e', fs')"
    "length e' = 64" "unchanged fs fs'"
proof (rule check_dirs_ok [OF assms(1-3) walkable_dirs [OF assms(4)]])
  fix e' fs'
  assume h: "check_dirs fs path e = (if dirs_exist fs path 0 (strlen path + 1) then 0 else -1, e', fs')"
    "length e' = 64" "fs_ok fs'" "same_vol fs fs' \<or> same_vol (SET_ERRNO 0 fs) fs'"
  then have "unchanged fs fs'" using after_same after_same_errno by blast
  with h show ?thesis by (intro that)
qed

lemma free_run_after: "unchanged fs fs' \<Longrightarrow> free_run fs' = free_run fs"
  using after_sel [of fs "entry_at fs" "del_begin fs" fs'] by (simp add: free_run_def unused_def fun_eq_iff)

lemma alloc_entry_after:
  assumes "fs_ok fs" and "length e = 64" and "0 < n"
  obtains (full) e' fs' where "alloc_entry fs e (int n) = (0, e', fs')" "length e' = 64" "unchanged fs fs'"
      "\<forall>i. \<not> free_run fs i n"
  | (slots) i e' fs' where "alloc_entry fs e (int n) = (index_off fs i, e', fs')" "length e' = 64"
      "unchanged fs fs'" "index_off fs i \<noteq> 0" "i + n \<le> index_size fs" "free_run fs i n"
      "\<forall>j < i. \<not> free_run fs j n"
proof (rule alloc_entry_ok [OF assms])
  fix r e' fs'
  assume h: "alloc_entry fs e (int n) = (r, e', fs')" "length e' = 64" "fs_ok fs'" "same_vol fs fs'"
    "r = 0 \<Longrightarrow> \<forall>i. \<not> free_run fs i n"
    "r \<noteq> 0 \<Longrightarrow> \<exists>i. r = index_off fs i \<and> i + n \<le> index_size fs \<and> free_run fs i n
       \<and> (\<forall>j<i. \<not> free_run fs j n) \<and> e' = entry_at fs (index_off fs (i + n - 1))"
  have u: "unchanged fs fs'" by (rule after_same [OF h(3,4)])
  show ?thesis
  proof (cases "r = 0")
    case True
    then show ?thesis using h u by (intro full) auto
  next
    case False
    then obtain i where "r = index_off fs i" "i + n \<le> index_size fs" "free_run fs i n" "\<forall>j<i. \<not> free_run fs j n"
      using h(6) by blast
    then show ?thesis using h u False by (intro slots [of i]) auto
  qed
qed

text \<open>The end of \<open>sfs_creat\<close> and \<open>sfs_mkdir\<close>.\<close>

lemma store_name:
  assumes "fs_ok fs" and "\<And>k. k < Suc m \<Longrightarrow> slot_valid fs (p + 64 * word_of_nat k)" and "length h = 64"
  obtains fs' where "(case write_entry fs p h of (_, fs) \<Rightarrow>
      (case write_conts m fs h path (p + 64) of (entr, fs) \<Rightarrow> (0, SET_ERRNO 0 (update fs)))) = (0 :: int, fs')"
    "after fs (put_conts m (p + 64) path ((entry_at fs)(p := h))) (del_begin fs) fs'" "sfs_errno fs' = 0"
proof -
  have v: "slot_valid fs p" using assms(2) [of 0] by simp
  obtain fs1 where w: "write_entry fs p h = (64, fs1)" "after fs ((entry_at fs)(p := h)) (del_begin fs) fs1"
    by (rule write_entry_after [OF assms(1) v assms(3)])
  have "slot_valid fs1 (p + 64 + 64 * word_of_nat j)" if "j < m" for j
    using assms(2) [of "Suc j"] that after_sel(2) [OF w(2)] by (simp add: algebra_simps)
  then obtain e' fs2 where "write_conts m fs1 h path (p + 64) = (e', fs2)"
    "after fs1 (put_conts m (p + 64) path (entry_at fs1)) (del_begin fs1) fs2"
    using write_conts_ok [OF after_ok [OF w(2)] _ assms(3)] by blast
  then show ?thesis
    using w after_trans [OF w(2)] after_sel(1,3) [OF w(2)]
    by (intro that [of "SET_ERRNO 0 (update fs2)"]) auto
qed

text \<open>\<open>created fs kind b path p fs'\<close>: \<open>fs'\<close> has everything \<open>fs\<close> has and the new name.\<close>

definition created :: "fs \<Rightarrow> entry_kind \<Rightarrow> nat \<Rightarrow> bytes \<Rightarrow> nat \<Rightarrow> nat \<Rightarrow> fs \<Rightarrow> bool" where
  "created fs kind b path i n fs' \<longleftrightarrow> dir_ok fs' \<and> (\<exists>at. after fs at (del_begin fs) fs')
     \<and> free_run fs i n \<and> i + n \<le> index_size fs
     \<and> (\<forall>q. q \<notin> run_slots fs i n \<longrightarrow> entry_at fs' q = entry_at fs q)
     \<and> (\<forall>q \<in> run_slots fs i n. q \<noteq> index_off fs i \<longrightarrow> \<not> is_code (entry_type (entry_at fs' q)))
     \<and> entry_type (entry_at fs' (index_off fs i)) = entry_code kind
     \<and> (\<forall>path'. lookup kind b fs' path'
            = (if cstr path' = cstr path then Some (index_off fs i) else lookup kind b fs path'))
     \<and> (\<forall>kind' b' path'. (kind' = FILE_ENTRY \<or> kind' = DIR_ENTRY) \<and> kind' \<noteq> kind \<longrightarrow>
            lookup kind' b' fs' path' = lookup kind' b' fs path')"

lemma created_ok:
  fixes i :: nat and fs :: fs
  defines "p \<equiv> index_off fs i"
  assumes ok: "dir_ok fs" and run: "free_run fs i n" "i + n \<le> index_size fs"
    and path: "padded path" "length (cstr path) < 16000" "\<forall>b \<in> set (cstr path). is_correct_char b = 0"
    and kind: "kind = FILE_ENTRY \<and> b = 34 \<or> kind = DIR_ENTRY \<and> b = 10"
    and size: "b + first_size = 64" and n: "n = name_entries first_size (length (cstr path))"
    and w: "unat w = n" and pf: "put_first b first_size w e path = (e1, path1)" and len: "length e = 64"
    and h: "drop b h = drop b e1" "cont_entries h = w - 1" "entry_type h = entry_code kind"
    and fs': "after fs (put_conts (n - 1) (p + 64) path1 ((entry_at fs)(p := h))) (del_begin fs) fs'"
    and new: "lookup kind b fs path = None"
  shows "created fs kind b path i n fs'" and "entry_at fs' p = h"
proof -
  let ?Q = "run_slots fs i n"
  have d: "fs_ok fs" "laid_out fs" "names_ok FILE_ENTRY 34 fs" "names_ok DIR_ENTRY 10 fs"
    "unique_names FILE_ENTRY 34 fs" "unique_names DIR_ENTRY 10 fs"
    using ok by (simp_all add: dir_ok_def dir_names_ok_def)
  have at': "entry_at fs' = put_conts (n - 1) (index_off fs i + 64) path1 ((entry_at fs)(index_off fs i := h))"
    using after_sel(1) [OF fs'] by (simp add: p_def)
  have fs2: "after fs (entry_at fs') (del_begin fs) fs'" using fs' by (simp add: after_def)
  note ed = new_name_edit [OF d(1,2) run(1,2) path size n w pf len h(1,2) at' fs2, folded p_def]
  note sel = after_sel [OF fs2]
  have k2: "kind = FILE_ENTRY \<or> kind = DIR_ENTRY" using kind by blast
  show hp: "entry_at fs' p = h" by (rule ed(3))
  have none: "entry_type (entry_at fs q) \<noteq> entry_code K" if "q \<in> ?Q" "K = FILE_ENTRY \<or> K = DIR_ENTRY" for q K
    using run_slots_type [OF run(1) that(1)] that(2) by auto
  have inside: "entry_type (entry_at fs' q) = entry_code K \<Longrightarrow> q = p \<and> K = kind" if "q \<in> ?Q" for q K
    using ed(6) [OF that] hp h(3) is_code_code [of K] by (cases "q = p") (auto simp del: entry_code.simps)
  have one: "entry_type (entry_at fs' q) \<noteq> entry_code K" if "q \<in> ?Q" "q \<noteq> p \<or> K \<noteq> kind" for q K
    using inside [OF that(1), of K] that(2) by auto
  have lk: "lookup kind b fs' path' = (if cstr path' = cstr path then Some p else lookup kind b fs path')" for path'
    by (rule lookup_edit_new [OF ed(1,2) sel(7) k2 none one ed(8,7) _ ed(4) new]) (use k2 hp h(3) in auto)
  have other: "lookup K b' fs' path' = lookup K b' fs path'" if "K = FILE_ENTRY \<or> K = DIR_ENTRY" "K \<noteq> kind" for K b' path'
    by (rule lookup_edit_other [OF ed(1,2) sel(7) that(1) none one]) (use that in auto)
  have names: "names_ok K c fs'" if "names_ok K c fs" "K = FILE_ENTRY \<and> c = 34 \<or> K = DIR_ENTRY \<and> c = 10" for K c
    by (rule names_ok_edit [OF that(1) ed(1,2) sel(7,2)])
      (use that(2) kind inside ed(5) in \<open>fastforce simp del: entry_code.simps\<close>)+
  have unique: "unique_names K c fs'" if "unique_names K c fs" "K = FILE_ENTRY \<and> c = 34 \<or> K = DIR_ENTRY \<and> c = 10" for K c
    by (rule unique_names_edit [OF ed(1,2) sel(7) _ that(1), where p = p and path = path])
      (use that(2) kind inside new ed(4) in \<open>fastforce simp del: entry_code.simps\<close>)+
  have "dir_ok fs'"
    unfolding dir_ok_def dir_names_ok_def
    using after_ok [OF fs'] laid_out_edit [OF d(2) ed(1,2) sel(7)] names d(3,4) unique d(5,6) by blast
  moreover have "entry_at fs' q = entry_at fs q" if "q \<notin> ?Q" for q using ed(2) that by (simp add: edit_ok_def)
  moreover have "\<exists>at. after fs at (del_begin fs) fs'" using fs' by blast
  ultimately show "created fs kind b path i n fs'"
    unfolding created_def p_def [symmetric] hp using run lk other ed(6) h(3) by auto
qed

section \<open>sfs_creat and sfs_mkdir\<close>

lemma correct_path_chars:
  assumes "length (cstr path) < 16000"
  shows "is_correct_filepath path = 0 \<longleftrightarrow> (\<forall>b \<in> set (cstr path). is_correct_char b = 0)"
    and "is_correct_dirpath path = 0 \<longleftrightarrow> (\<forall>b \<in> set (cstr path). is_correct_char b = 0)"
  using assms by (simp_all add: is_correct_filepath_iff is_correct_dirpath_iff)

definition make_error :: "fs \<Rightarrow> nat \<Rightarrow> bytes \<Rightarrow> bool \<Rightarrow> int \<Rightarrow> bool" where
  "make_error fs n path taken err \<longleftrightarrow>
     err = EINVAL \<and> (\<exists>b \<in> set (cstr path). is_correct_char b \<noteq> 0)
     \<or> err = EEXIST \<and> (\<not> dirs_exist fs path 0 (strlen path + 1) \<or> taken)
     \<or> err = ENOSPC \<and> (\<forall>i. \<not> free_run fs i n)"

text \<open>The part both routines end with: the allocation, and the writing of the head \<open>mk t e\<close> and of
  the continuation entries.\<close>

definition make_entry :: "nat \<Rightarrow> nat \<Rightarrow> (byte \<Rightarrow> u64 \<Rightarrow> entry \<Rightarrow> entry) \<Rightarrow> bytes \<Rightarrow> fs \<Rightarrow> int \<times> fs" where
  "make_entry b first_size mk path fs =
     (let w = count_entry (word_of_nat first_size) (word_of_nat (strlen path) + 1) in
      (case alloc_entry fs (replicate 64 0) (uint w) of
         (start, entr, fs) \<Rightarrow>
           if start = 0 then (-1, SET_ERRNO ENOSPC fs)
           else
             let (entr, path) = put_first b first_size w entr path; (t, fs) = get_time fs;
                 h = mk (w - 1) t entr
             in (case write_entry fs start h of (_, fs) \<Rightarrow>
                  (case write_conts (unat (w - 1)) fs h path (start + 64) of
                     (entr, fs) \<Rightarrow> (0, SET_ERRNO 0 (update fs))))))"

definition head_ok :: "entry_kind \<Rightarrow> nat \<Rightarrow> (byte \<Rightarrow> u64 \<Rightarrow> entry \<Rightarrow> entry) \<Rightarrow> bool" where
  "head_ok kind b mk \<longleftrightarrow> (\<forall>n t e. length e = 64 \<longrightarrow> length (mk n t e) = 64 \<and> drop b (mk n t e) = drop b e
     \<and> cont_entries (mk n t e) = n \<and> entry_type (mk n t e) = entry_code kind)"

lemma make_entry_ok:
  assumes ok: "dir_ok fs0" and u: "unchanged fs0 fs" and mk: "head_ok kind b mk"
    and kind: "kind = FILE_ENTRY \<and> b = 34 \<or> kind = DIR_ENTRY \<and> b = 10" and size: "b + first_size = 64"
    and path: "padded path" "length (cstr path) < 16000" "\<forall>b \<in> set (cstr path). is_correct_char b = 0"
    and new: "lookup kind b fs0 path = None"
  defines "n \<equiv> name_entries first_size (length (cstr path))"
  obtains (full) fs' where "make_entry b first_size mk path fs = (-1, fs')" "sfs_errno fs' = ENOSPC"
      "unchanged fs0 fs'" "\<forall>i. \<not> free_run fs0 i n"
  | (made) i fs' t e where "make_entry b first_size mk path fs = (0, fs')" "sfs_errno fs' = 0"
      "created fs0 kind b path i n fs'" "entry_at fs' (index_off fs0 i) = mk (word_of_nat (n - 1)) t e" "length e = 64"
      "\<forall>j < i. \<not> free_run fs0 j n"
proof -
  note room = name_entries_room [OF path(2), of first_size, folded n_def]
  note s = after_sel [OF u]
  have d: "fs_ok fs0" using ok by (simp add: dir_ok_def)
  let ?w = "count_entry (word_of_nat first_size) (word_of_nat (strlen path) + 1)"
  have w: "unat ?w = n" using count_entry_eq [OF path(2), of first_size] size kind by (auto simp: n_def strlen_cstr)
  have "int (unat ?w) = uint ?w" by simp
  then have ui: "uint ?w = int n" unfolding w by simp
  have m: "unat (?w - 1) = n - 1" using w room(1) by (subst unat_minus_one) auto
  have wm: "word_of_nat (n - 1) = ?w - 1" unfolding m [symmetric] by simp
  show ?thesis
  proof (rule alloc_entry_after [OF after_ok [OF u], of "replicate 64 0" n])
    fix e4 fs4
    assume h: "alloc_entry fs (replicate 64 0) (int n) = (0, e4, fs4)" "unchanged fs fs4" "\<forall>i. \<not> free_run fs i n"
    then show ?thesis
      using free_run_after [OF u] after_trans [OF u] s ui
      by (intro full [of "SET_ERRNO ENOSPC fs4"]) (simp_all add: make_entry_def Let_def)
  next
    fix i e4 fs4
    assume h: "alloc_entry fs (replicate 64 0) (int n) = (index_off fs i, e4, fs4)" "length e4 = 64"
      "unchanged fs fs4" "index_off fs i \<noteq> 0" "i + n \<le> index_size fs" "free_run fs i n" "\<forall>j < i. \<not> free_run fs j n"
    obtain e5 path5 where pf: "put_first b first_size ?w e4 path = (e5, path5)" by (cases "put_first b first_size ?w e4 path")
    have len5: "length e5 = 64"
      using put_first_name [OF path(1,2) h(2) size, of n ?w] w pf by (fastforce simp: n_def)
    obtain t fs5 where gt: "get_time fs4 = (t, fs5)" by (cases "get_time fs4")
    have hd: "length (mk (?w - 1) t e5) = 64" "drop b (mk (?w - 1) t e5) = drop b e5"
      "cont_entries (mk (?w - 1) t e5) = ?w - 1" "entry_type (mk (?w - 1) t e5) = entry_code kind"
      using mk len5 by (auto simp: head_ok_def)
    have u5: "unchanged fs0 fs5" using get_time_upd(5) [OF gt] after_trans [OF u] h(3) s by simp
    note s5 = after_sel [OF u5]
    have valid: "slot_valid fs5 (index_off fs0 i + 64 * word_of_nat k)" if "k < Suc (n - 1)" for k
      using index_off_valid [OF d, of "i + k"] that h(5) room(1) s(5) s5(2) by (simp add: index_off_add)
    obtain fs6 where st: "(case write_entry fs5 (index_off fs0 i) (mk (?w - 1) t e5) of (_, f) \<Rightarrow>
        (case write_conts (n - 1) f (mk (?w - 1) t e5) path5 (index_off fs0 i + 64) of (entr, f) \<Rightarrow> (0, SET_ERRNO 0 (update f))))
         = (0 :: int, fs6)"
      "after fs5 (put_conts (n - 1) (index_off fs0 i + 64) path5 ((entry_at fs5)(index_off fs0 i := mk (?w - 1) t e5))) (del_begin fs5) fs6"
      "sfs_errno fs6 = 0"
      by (rule store_name [where path = path5 and m = "n - 1" and p = "index_off fs0 i", OF after_ok [OF u5] _ hd(1)])
        (rule valid, assumption, rule that)
    have cr: "make_entry b first_size mk path fs = (0, fs6)"
      using h(1,4) ui pf gt st(1) m s(6) by (simp add: make_entry_def Let_def)
    have aft: "after fs0 (put_conts (n - 1) (index_off fs0 i + 64) path5 ((entry_at fs0)(index_off fs0 i := mk (?w - 1) t e5))) (del_begin fs0) fs6"
      using after_trans [OF u5] st(2) s5 by simp
    have run: "free_run fs0 i n" "i + n \<le> index_size fs0" "\<forall>j < i. \<not> free_run fs0 j n"
      using h(5-7) free_run_after [OF u] s(5) by simp_all
    note cp = created_ok [OF ok run(1,2) path kind size _ w pf h(2) hd(2-4) aft new]
    show ?thesis
      using cp cr st(3) wm len5 run(3) by (intro made [of fs6 i t e5]) (auto simp: n_def)
  qed (use room(1) in auto)
qed

text \<open>The searches before it.\<close>

lemma check_parent:
  assumes ok: "dir_ok fs" and len: "length e = 64" and walk: "walkable fs path"
  obtains e1 fs1 e2 fs2 e3 fs3
  where "check_dirs fs path e = (if dirs_exist fs path 0 (strlen path + 1) then 0 else -1, e1, fs1)"
    "search_dir fs1 path e1 = (found (lookup_dir fs path), e2, fs2)"
    "search_file fs2 path e2 = (found (lookup_file fs path), e3, fs3)"
    "unchanged fs fs1" "unchanged fs fs2" "unchanged fs fs3"
proof -
  have d: "fs_ok fs" "dir_names_ok fs" using ok by (simp_all add: dir_ok_def)
  have p: "path_ok kind fs' path" for kind fs' using walk by (simp add: walkable_def path_ok_def)
  have names: "dir_names_ok fs'" if "unchanged fs fs'" for fs' using dir_names_ok_after [OF that] d by simp
  obtain e1 fs1 where c1: "check_dirs fs path e = (if dirs_exist fs path 0 (strlen path + 1) then 0 else -1, e1, fs1)"
    "length e1 = 64" "unchanged fs fs1"
    by (rule check_dirs_after [OF d len walk])
  obtain e2 fs2 where c2: "search_dir fs1 path e1 = (found (lookup_dir fs1 path), e2, fs2)" "length e2 = 64"
    "unchanged fs1 fs2"
    by (rule search_dir_after [OF after_ok [OF c1(3)] names [OF c1(3)] c1(2) p])
  have u2: "unchanged fs fs2" using after_trans [OF c1(3)] c2(3) after_sel [OF c1(3)] by simp
  obtain e3 fs3 where c3: "search_file fs2 path e2 = (found (lookup_file fs2 path), e3, fs3)" "unchanged fs2 fs3"
    by (rule search_file_after [OF after_ok [OF u2] names [OF u2] c2(2) p])
  have "unchanged fs fs3" using after_trans [OF u2] c3(2) after_sel [OF u2] by simp
  then show ?thesis
    using c1 c2 c3 u2 lookup_after [OF c1(3)] lookup_after [OF u2] by (intro that [of e1 fs1 e2 fs2 e3 fs3]) auto
qed

definition file_head :: "byte \<Rightarrow> u64 \<Rightarrow> entry \<Rightarrow> entry" where
  "file_head n t e = set_file_size 0 (set_end_block 0 (set_start_block 0 (set_cont_entries n
     (set_entry_type (entry_code FILE_ENTRY) (set_time_stamp t e)))))"

definition dir_head :: "byte \<Rightarrow> u64 \<Rightarrow> entry \<Rightarrow> entry" where
  "dir_head n t e = set_cont_entries n (set_entry_type (entry_code DIR_ENTRY) (set_time_stamp t e))"

lemma heads_ok: "head_ok FILE_ENTRY 34 file_head" "head_ok DIR_ENTRY 10 dir_head"
  by (simp_all add: head_ok_def file_head_def dir_head_def drop_put layout_simps del: One_nat_def)

lemma file_head_fields:
  "length e = 64 \<Longrightarrow> start_block (file_head n t e) = 0 \<and> end_block (file_head n t e) = 0 \<and> file_size (file_head n t e) = 0"
  by (simp add: file_head_def layout_simps)

lemma sfs_creat_make:
  "sfs_creat fs e path =
     (if is_correct_filepath path \<noteq> 0 then (-1, SET_ERRNO EINVAL fs)
      else (case check_dirs fs path e of (c, e, fs) \<Rightarrow>
        if c \<noteq> 0 then (-1, SET_ERRNO EEXIST fs)
        else (case search_dir fs path e of (s, e, fs) \<Rightarrow>
          if s \<noteq> 0 then (-1, SET_ERRNO EEXIST fs)
          else (case search_file fs path e of (s, e, fs) \<Rightarrow>
            if s \<noteq> 0 then (-1, SET_ERRNO EEXIST fs) else make_entry 34 30 file_head path fs))))"
  unfolding sfs_creat_def make_entry_def file_head_def Let_def of_nat_numeral by (rule refl)

lemma sfs_mkdir_make:
  "sfs_mkdir fs e path =
     (if is_correct_dirpath path \<noteq> 0 then (-1, SET_ERRNO EINVAL fs)
      else (case check_dirs fs path e of (c, e, fs) \<Rightarrow>
        if c \<noteq> 0 then (-1, SET_ERRNO EEXIST fs)
        else (case search_dir fs path e of (s, e, fs) \<Rightarrow>
          if s \<noteq> 0 then (-1, SET_ERRNO EEXIST fs) else make_entry 10 54 dir_head path fs)))"
  unfolding sfs_mkdir_def make_entry_def dir_head_def Let_def of_nat_numeral by (rule refl)

lemma sfs_creat_ok:
  assumes ok: "dir_ok fs" and len: "length e = 64" and walk: "walkable fs path"
  defines "n \<equiv> name_entries 30 (length (cstr path))"
  obtains (fails) fs' where "sfs_creat fs e path = (-1, fs')" "unchanged fs fs'"
      "make_error fs n path (lookup_dir fs path \<noteq> None \<or> lookup_file fs path \<noteq> None) (sfs_errno fs')"
  | (makes) i fs' where "sfs_creat fs e path = (0, fs')" "sfs_errno fs' = 0"
      "created fs FILE_ENTRY 34 path i n fs'" "lookup_dir fs path = None" "lookup_file fs path = None"
      "start_block (entry_at fs' (index_off fs i)) = 0" "end_block (entry_at fs' (index_off fs i)) = 0"
      "file_size (entry_at fs' (index_off fs i)) = 0" "\<forall>j < i. \<not> free_run fs j n"
proof -
  have d: "fs_ok fs" using ok by (simp add: dir_ok_def)
  have path: "padded path" "length (cstr path) < 16000" using walk by (simp_all add: walkable_def)
  note chars = correct_path_chars(1) [OF path(2)] and nz = lookup_nonzero [OF d]
  obtain e1 fs1 e2 fs2 e3 fs3
    where c: "check_dirs fs path e = (if dirs_exist fs path 0 (strlen path + 1) then 0 else -1, e1, fs1)"
      "search_dir fs1 path e1 = (found (lookup_dir fs path), e2, fs2)"
      "search_file fs2 path e2 = (found (lookup_file fs path), e3, fs3)"
    and u: "unchanged fs fs1" "unchanged fs fs2" "unchanged fs fs3"
    by (rule check_parent [OF ok len walk])
  consider (chars) "is_correct_filepath path \<noteq> 0"
    | (parent) "is_correct_filepath path = 0" "\<not> dirs_exist fs path 0 (strlen path + 1)"
    | (isdir) "is_correct_filepath path = 0" "dirs_exist fs path 0 (strlen path + 1)" "lookup_dir fs path \<noteq> None"
    | (isfile) "is_correct_filepath path = 0" "dirs_exist fs path 0 (strlen path + 1)" "lookup_dir fs path = None"
        "lookup_file fs path \<noteq> None"
    | (free) "is_correct_filepath path = 0" "dirs_exist fs path 0 (strlen path + 1)" "lookup_dir fs path = None"
        "lookup_file fs path = None" by blast
  then show ?thesis
  proof cases
    case chars
    then show ?thesis using correct_path_chars(1) [OF path(2)] after_refl [OF d]
      by (intro fails [of "SET_ERRNO EINVAL fs"]) (auto simp: sfs_creat_def make_error_def)
  next
    case parent
    then show ?thesis using c u
      by (intro fails [of "SET_ERRNO EEXIST fs1"]) (simp_all add: sfs_creat_make make_error_def)
  next
    case isdir
    then show ?thesis using c u nz
      by (intro fails [of "SET_ERRNO EEXIST fs2"]) (simp_all add: sfs_creat_make make_error_def)
  next
    case isfile
    then show ?thesis using c u nz
      by (intro fails [of "SET_ERRNO EEXIST fs3"]) (simp_all add: sfs_creat_make make_error_def)
  next
    case free
    then have eq: "sfs_creat fs e path = make_entry 34 30 file_head path fs3" using c by (simp add: sfs_creat_make)
    show ?thesis
      by (rule make_entry_ok [OF ok u(3) heads_ok(1) _ _ path _ free(4), of 30])
        (use eq free chars file_head_fields in \<open>auto simp: make_error_def n_def intro: fails makes\<close>)
  qed
qed

lemma sfs_mkdir_ok:
  assumes ok: "dir_ok fs" and len: "length e = 64" and walk: "walkable fs path"
  defines "n \<equiv> name_entries 54 (length (cstr path))"
  obtains (fails) fs' where "sfs_mkdir fs e path = (-1, fs')" "unchanged fs fs'"
      "make_error fs n path (lookup_dir fs path \<noteq> None) (sfs_errno fs')"
  | (makes) i fs' where "sfs_mkdir fs e path = (0, fs')" "sfs_errno fs' = 0"
      "created fs DIR_ENTRY 10 path i n fs'" "lookup_dir fs path = None" "\<forall>j < i. \<not> free_run fs j n"
proof -
  have d: "fs_ok fs" using ok by (simp add: dir_ok_def)
  have path: "padded path" "length (cstr path) < 16000" using walk by (simp_all add: walkable_def)
  note chars = correct_path_chars(2) [OF path(2)] and nz = lookup_nonzero [OF d]
  obtain e1 fs1 e2 fs2 e3 fs3
    where c: "check_dirs fs path e = (if dirs_exist fs path 0 (strlen path + 1) then 0 else -1, e1, fs1)"
      "search_dir fs1 path e1 = (found (lookup_dir fs path), e2, fs2)"
    and u: "unchanged fs fs1" "unchanged fs fs2"
    by (rule check_parent [OF ok len walk])
  consider (chars) "is_correct_dirpath path \<noteq> 0"
    | (parent) "is_correct_dirpath path = 0" "\<not> dirs_exist fs path 0 (strlen path + 1)"
    | (isdir) "is_correct_dirpath path = 0" "dirs_exist fs path 0 (strlen path + 1)" "lookup_dir fs path \<noteq> None"
    | (free) "is_correct_dirpath path = 0" "dirs_exist fs path 0 (strlen path + 1)" "lookup_dir fs path = None"
    by blast
  then show ?thesis
  proof cases
    case chars
    then show ?thesis using correct_path_chars(2) [OF path(2)] after_refl [OF d]
      by (intro fails [of "SET_ERRNO EINVAL fs"]) (auto simp: sfs_mkdir_def make_error_def)
  next
    case parent
    then show ?thesis using c u
      by (intro fails [of "SET_ERRNO EEXIST fs1"]) (simp_all add: sfs_mkdir_make make_error_def)
  next
    case isdir
    then show ?thesis using c u nz
      by (intro fails [of "SET_ERRNO EEXIST fs2"]) (simp_all add: sfs_mkdir_make make_error_def)
  next
    case free
    then have eq: "sfs_mkdir fs e path = make_entry 10 54 dir_head path fs2" using c by (simp add: sfs_mkdir_make)
    show ?thesis
      by (rule make_entry_ok [OF ok u(2) heads_ok(2) _ _ path _ free(3), of 54])
        (use eq free chars in \<open>auto simp: make_error_def n_def intro: fails makes\<close>)
  qed
qed

section \<open>sfs_unlink\<close>

text \<open>A change that leaves no entry of a kind in the slots it touches, and found one there.\<close>

lemma lookup_edit_gone:
  assumes "apart fs Q" and "edit_ok fs Q (entry_at fs')" and "index_offs fs' = index_offs fs"
    and kind: "kind = FILE_ENTRY \<or> kind = DIR_ENTRY" and "unique_names kind b fs"
    and p: "lookup kind b fs path = Some p" "p \<in> Q"
    and gone: "\<And>q. q \<in> Q \<Longrightarrow> entry_type (entry_at fs' q) \<noteq> entry_code kind"
    and tail: "\<And>q. q \<in> Q \<Longrightarrow> q \<noteq> p \<Longrightarrow> entry_type (entry_at fs q) \<noteq> entry_code kind"
  shows "lookup kind b fs' path' = (if cstr path' = cstr path then None else lookup kind b fs path')"
proof -
  have hp: "p \<in> set (index_offs fs)" "has_name kind b (entry_at fs) path p"
    using p by (auto simp: lookup_def find_Some_iff)
  have h: "has_name kind b (entry_at fs') path' q \<longleftrightarrow> q \<noteq> p \<and> has_name kind b (entry_at fs) path' q"
    if "q \<in> set (index_offs fs)" for q
  proof (cases "q \<in> Q")
    case True
    then show ?thesis using gone tail by (auto simp: has_name_def)
  next
    case False
    then show ?thesis using has_name_edit [OF assms(1,2) _ kind, of q b path'] that p(2) by auto
  qed
  have only: "q = p" if "q \<in> set (index_offs fs)" "has_name kind b (entry_at fs) path q" for q
    using assms(5) hp that by (auto simp: unique_names_def has_name_def)
  show ?thesis
  proof (cases "cstr path' = cstr path")
    case True
    then have "\<not> has_name kind b (entry_at fs') path' q" if "q \<in> set (index_offs fs)" for q
      using h [OF that] only [OF that] by (auto simp: has_name_def)
    then show ?thesis using True by (simp add: lookup_None assms(3))
  next
    case False
    then have "\<not> has_name kind b (entry_at fs) path' p" using hp(2) by (simp add: has_name_def)
    then show ?thesis
      using False h unfolding lookup_def assms(3) by (simp, intro find_cong) auto
  qed
qed

lemma cont_slot_other:
  assumes "0 < k" and "k \<le> unat (c :: byte)"
  shows "(p :: u64) + 64 * word_of_nat k \<noteq> p"
  using offset_inj [of k 0 p] assms unsigned_less [of c, where ?'a = nat] by simp

lemma retyped:
  assumes ok: "dir_ok fs" and p: "p \<in> set (index_offs fs)" "headed (entry_at fs p)"
    and kind: "kind = DEL_FILE_ENTRY"
    and fs': "after fs ((entry_at fs)(p := set_entry_type (entry_code kind) (entry_at fs p))) b fs'"
  shows "apart fs {p}" and "edit_ok fs {p} (entry_at fs')" and "dir_ok fs'"
proof -
  note s = after_sel [OF fs']
  have d: "fs_ok fs" "laid_out fs" "names_ok FILE_ENTRY 34 fs" "names_ok DIR_ENTRY 10 fs"
    "unique_names FILE_ENTRY 34 fs" "unique_names DIR_ENTRY 10 fs"
    using ok by (simp_all add: dir_ok_def dir_names_ok_def)
  have len: "length (entry_at fs p) = 64" using in_index_offs [OF d(1) p(1)] length_entry_at by blast
  have f: "entry_type (set_entry_type (entry_code kind) (entry_at fs p)) = entry_code kind"
    "cont_entries (set_entry_type (entry_code kind) (entry_at fs p)) = cont_entries (entry_at fs p)"
    using len by (simp_all add: layout_simps del: One_nat_def)
  show ap: "apart fs {p}" by (rule apart_codes [OF d(2)]) (use headed_code [OF p(2)] in simp)
  show ed: "edit_ok fs {p} (entry_at fs')"
    using d(2) p f cont_slot_other by (auto simp: edit_ok_def s laid_out_def simp del: One_nat_def)
  have ne: "entry_type (entry_at fs' p) \<noteq> entry_code K" if "K = FILE_ENTRY \<or> K = DIR_ENTRY" for K
    using that f(1) s(1) kind by auto
  have "names_ok K c fs'" if "names_ok K c fs" "K = FILE_ENTRY \<or> K = DIR_ENTRY" for K c
    by (rule names_ok_edit [OF that(1) ap ed s(7,2) that(2)]) (use ne that(2) in auto)
  moreover have "unique_names K c fs'" if "unique_names K c fs" "K = FILE_ENTRY \<or> K = DIR_ENTRY" for K c
    by (rule unique_names_edit [OF ap ed s(7) that(2,1), where p = p and path = "[]"]) (use ne that(2) in auto)
  ultimately show "dir_ok fs'"
    unfolding dir_ok_def dir_names_ok_def using after_ok [OF fs'] laid_out_edit [OF d(2) ap ed s(7)] d(3-6) by blast
qed

lemma sfs_unlink_ok:
  assumes ok: "dir_ok fs" and len: "length e = 64" and path: "padded path"
  obtains (fails) fs' where "sfs_unlink fs e path = (0, fs')" "unchanged fs fs'"
      "sfs_errno fs' = EINVAL \<and> is_correct_filepath path \<noteq> 0 \<or> sfs_errno fs' = ENOENT \<and> lookup_file fs path = None"
  | (unlinks) p fs' where "sfs_unlink fs e path = (p, fs')" "lookup_file fs path = Some p" "sfs_errno fs' = 0"
      "after fs ((entry_at fs)(p := set_entry_type (entry_code DEL_FILE_ENTRY) (entry_at fs p))) (del_begin fs) fs'"
      "dir_ok fs'" "\<And>path'. lookup_file fs' path' = (if cstr path' = cstr path then None else lookup_file fs path')"
      "\<And>path'. lookup_dir fs' path' = lookup_dir fs path'"
proof -
  have d: "fs_ok fs" "dir_names_ok fs" "unique_names FILE_ENTRY 34 fs" using ok by (simp_all add: dir_ok_def)
  have pk: "path_ok FILE_ENTRY fs path" using path by (simp add: path_ok_def)
  obtain e1 fs1 where c: "search_file fs path e = (found (lookup_file fs path), e1, fs1)" "length e1 = 64"
    "unchanged fs fs1" "sfs_errno fs1 = 0" "lookup_file fs path \<noteq> None \<longrightarrow> e1 = entry_at fs (found (lookup_file fs path))"
    by (rule search_file_after [OF d(1,2) len pk])
  note s1 = after_sel [OF c(3)]
  consider (chars) "is_correct_filepath path \<noteq> 0" | (none) "is_correct_filepath path = 0" "lookup_file fs path = None"
    | (some) p where "is_correct_filepath path = 0" "lookup_file fs path = Some p" by blast
  then show ?thesis
  proof cases
    case chars
    then show ?thesis using after_refl [OF d(1)] by (intro fails [of "SET_ERRNO EINVAL fs"]) (simp_all add: sfs_unlink_def)
  next
    case none
    then show ?thesis using c by (intro fails [of "SET_ERRNO ENOENT fs1"]) (simp_all add: sfs_unlink_def)
  next
    case some
    note p = lookup_Some [OF d(1) some(2)]
    let ?e = "set_entry_type (entry_code DEL_FILE_ENTRY) (entry_at fs p)"
    have v1: "slot_valid fs1 p" using p(1) s1(2) by simp
    have l: "length ?e = 64" using p(5) by simp
    obtain fs2 where w: "write_entry fs1 p ?e = (64, fs2)" "after fs1 ((entry_at fs1)(p := ?e)) (del_begin fs1) fs2"
      by (rule write_entry_after [OF after_ok [OF c(3)] v1 l])
    have un: "sfs_unlink fs e path = (p, SET_ERRNO 0 (update fs2))"
      using some c(1,5) p(2) w(1) by (simp add: sfs_unlink_def)
    have aft: "after fs ((entry_at fs)(p := ?e)) (del_begin fs) (SET_ERRNO 0 (update fs2))"
      using after_trans [OF c(3)] w(2) s1 by simp
    have "headed (entry_at fs p)" using p(4) by (auto simp: has_name_def headed_def)
    note r = retyped [OF ok p(3) this refl aft]
    have off: "index_offs (SET_ERRNO 0 (update fs2)) = index_offs fs" using after_sel(7) [OF aft] .
    have t: "entry_type (entry_at (SET_ERRNO 0 (update fs2)) p) = entry_code DEL_FILE_ENTRY"
      using after_sel(1) [OF aft] p(5) by (simp add: layout_simps)
    have g: "lookup_file (SET_ERRNO 0 (update fs2)) path' = (if cstr path' = cstr path then None else lookup_file fs path')" for path'
      by (rule lookup_edit_gone [OF r(1,2) off _ d(3) some(2)]) (use t in simp_all)
    have o: "lookup_dir (SET_ERRNO 0 (update fs2)) path' = lookup_dir fs path'" for path'
      by (rule lookup_edit_other [OF r(1,2) off]) (use t p(4) in \<open>auto simp: has_name_def\<close>)
    show ?thesis by (rule unlinks [OF un some(2) _ aft r(3) g o]) simp
  qed
qed

end
