(* ===== verification/NameSlots.thy ===== *)
theory NameSlots
  imports NameOps
begin

text \<open>
  The slots of one name, and the freeing of them at the end of \<open>sfs_delete\<close> and \<open>sfs_rmdir\<close>.
\<close>

text \<open>The slots of one name: the head and its continuation entries. No other name has a part there.\<close>

definition name_slots :: "fs \<Rightarrow> u64 \<Rightarrow> u64 set" where
  "name_slots fs p = {p + 64 * word_of_nat k | k. k \<le> unat (cont_entries (entry_at fs p))}"

lemma p_in_name_slots [simp]: "p \<in> name_slots fs p"
  unfolding name_slots_def by (auto intro: exI [of _ 0])

lemma name_slots_in:
  assumes "laid_out fs" and "p \<in> set (index_offs fs)" and "headed (entry_at fs p)"
  shows "name_slots fs p \<subseteq> set (index_offs fs)"
    and "q \<in> name_slots fs p \<Longrightarrow> q \<noteq> p \<Longrightarrow> \<not> is_code (entry_type (entry_at fs q))"
proof -
  have k: "p + 64 * word_of_nat k \<in> set (index_offs fs) \<and> (k \<noteq> 0 \<longrightarrow> \<not> is_code (entry_type (entry_at fs (p + 64 * word_of_nat k))))"
    if "k \<le> unat (cont_entries (entry_at fs p))" for k
    using assms that by (cases "k = 0") (auto simp: laid_out_def)
  then show "name_slots fs p \<subseteq> set (index_offs fs)" by (auto simp: name_slots_def)
  show "\<not> is_code (entry_type (entry_at fs q))" if q: "q \<in> name_slots fs p" "q \<noteq> p"
  proof -
    obtain j where j: "j \<le> unat (cont_entries (entry_at fs p))" "q = p + 64 * word_of_nat j"
      using q(1) by (auto simp: name_slots_def)
    then have "j \<noteq> 0" using q(2) by (cases "j = 0") auto
    then show ?thesis using k [OF j(1)] j(2) by simp
  qed
qed

lemma name_slots_apart:
  assumes lo: "laid_out fs" and p: "p \<in> set (index_offs fs)" "headed (entry_at fs p)"
  shows "apart fs (name_slots fs p)"
  unfolding apart_def
proof (intro ballI impI allI notI)
  fix q k assume q: "q \<in> set (index_offs fs) - name_slots fs p" "headed (entry_at fs q)"
    "k \<le> unat (cont_entries (entry_at fs q))" "q + 64 * word_of_nat k \<in> name_slots fs p"
  then obtain j where j: "j \<le> unat (cont_entries (entry_at fs p))" "q + 64 * word_of_nat k = p + 64 * word_of_nat j"
    by (auto simp: name_slots_def)
  show False
  proof (cases "k \<le> j")
    case True
    then have "q = p + 64 * word_of_nat (j - k)"
      using j(2) by (simp add: of_nat_diff algebra_simps)
    moreover have "j - k \<le> unat (cont_entries (entry_at fs p))" using j(1) by simp
    ultimately have "q \<in> name_slots fs p" unfolding name_slots_def by blast
    then show False using q(1) by blast
  next
    case False
    then have "p = q + 64 * word_of_nat (k - j)"
      using j(2) by (simp add: of_nat_diff algebra_simps)
    moreover have "0 < k - j \<and> k - j \<le> unat (cont_entries (entry_at fs q))" using False q(3) by linarith
    ultimately have "\<not> is_code (entry_type (entry_at fs p))" using lo q(1,2) unfolding laid_out_def by blast
    then show False using headed_code [OF p(2)] by contradiction
  qed
qed

text \<open>After the slots of a name have been marked as unused, that name is gone and no other.\<close>

lemma cleared:
  assumes ok: "dir_ok fs" and p: "p \<in> set (index_offs fs)" "headed (entry_at fs p)"
    and u: "after fs at (del_begin fs) fs'"
    and gone: "\<forall>q \<in> name_slots fs p. entry_type (at q) = entry_code UNUSED_ENTRY"
    and same: "\<forall>q. q \<notin> name_slots fs p \<longrightarrow> at q = entry_at fs q"
  shows "dir_ok fs'"
    and "kind = FILE_ENTRY \<or> kind = DIR_ENTRY \<Longrightarrow> entry_type (entry_at fs p) \<noteq> entry_code kind \<Longrightarrow>
      lookup kind c fs' = lookup kind c fs"
    and "kind = FILE_ENTRY \<or> kind = DIR_ENTRY \<Longrightarrow> unique_names kind c fs \<Longrightarrow> lookup kind c fs path = Some p \<Longrightarrow>
      lookup kind c fs' path' = (if cstr path' = cstr path then None else lookup kind c fs path')"
proof -
  have d: "fs_ok fs" "laid_out fs" "names_ok FILE_ENTRY 34 fs" "names_ok DIR_ENTRY 10 fs"
    "unique_names FILE_ENTRY 34 fs" "unique_names DIR_ENTRY 10 fs"
    using ok by (simp_all add: dir_ok_def dir_names_ok_def)
  let ?Q = "name_slots fs p"
  note s = after_sel [OF u] and sl = name_slots_in [OF d(2) p] and ap = name_slots_apart [OF d(2) p]
  have ed: "edit_ok fs ?Q (entry_at fs')"
    unfolding edit_ok_def s(1) using same gone by (auto simp: headed_def)
  have none: "entry_type (entry_at fs' q) \<noteq> entry_code K" if "q \<in> ?Q" "K = FILE_ENTRY \<or> K = DIR_ENTRY" for q K
    using bspec [OF gone that(1)] that(2) s(1) by auto
  have tail: "entry_type (entry_at fs q) \<noteq> entry_code K" if "q \<in> ?Q" "q \<noteq> p" for q K
    using sl(2) [OF that] is_code_code by metis
  show "lookup kind c fs' = lookup kind c fs" if k: "kind = FILE_ENTRY \<or> kind = DIR_ENTRY" "entry_type (entry_at fs p) \<noteq> entry_code kind"
    by (rule ext, rule lookup_edit_other [OF ap ed s(7) k(1)]) (use none tail k in blast)+
  show "lookup kind c fs' path' = (if cstr path' = cstr path then None else lookup kind c fs path')"
    if k: "kind = FILE_ENTRY \<or> kind = DIR_ENTRY" "unique_names kind c fs" "lookup kind c fs path = Some p"
    by (rule lookup_edit_gone [OF ap ed s(7) k]) (use none tail k(1) in auto)
  have "names_ok K c fs'" if "names_ok K c fs" "K = FILE_ENTRY \<or> K = DIR_ENTRY" for K c
    by (rule names_ok_edit [OF that(1) ap ed s(7,2) that(2)]) (use none that(2) in blast)
  moreover have "unique_names K c fs'" if "unique_names K c fs" "K = FILE_ENTRY \<or> K = DIR_ENTRY" for K c
    by (rule unique_names_edit [OF ap ed s(7) that(2,1), where p = 0 and path = "[]"]) (use none that(2) in blast)
  ultimately show "dir_ok fs'"
    unfolding dir_ok_def dir_names_ok_def using after_ok [OF u] laid_out_edit [OF d(2) ap ed s(7)] d(3-6) by blast
qed

lemma cleared_slots:
  assumes "length u = 64" "entry_type u = entry_code UNUSED_ENTRY" and "\<forall>q \<in> name_slots fs p. length (entry_at fs q) = 64"
    and n: "n = unat (cont_entries (entry_at fs p))"
  defines "at \<equiv> free_slots (p + 64) n ((entry_at fs)(p := u))"
  shows "q \<in> name_slots fs p \<Longrightarrow> entry_type (at q) = entry_code UNUSED_ENTRY"
    and "q \<notin> name_slots fs p \<Longrightarrow> at q = entry_at fs q"
proof -
  have cont: "(\<exists>j<n. q = p + 64 + 64 * word_of_nat j) \<longleftrightarrow> (\<exists>k. 0 < k \<and> k \<le> n \<and> q = p + 64 * word_of_nat k)" for q
  proof
    assume "\<exists>j<n. q = p + 64 + 64 * word_of_nat j"
    then obtain j where "j < n" "q = p + 64 * word_of_nat (Suc j)" by (auto simp: algebra_simps)
    then show "\<exists>k. 0 < k \<and> k \<le> n \<and> q = p + 64 * word_of_nat k" by (intro exI [of _ "Suc j"]) simp
  next
    assume "\<exists>k. 0 < k \<and> k \<le> n \<and> q = p + 64 * word_of_nat k"
    then obtain k where "0 < k" "k \<le> n" "q = p + 64 * word_of_nat k" by blast
    then show "\<exists>j<n. q = p + 64 + 64 * word_of_nat j"
      by (intro exI [of _ "k - 1"]) (auto simp: algebra_simps of_nat_diff)
  qed
  have in_iff: "q \<in> name_slots fs p \<longleftrightarrow> q = p \<or> (\<exists>k. 0 < k \<and> k \<le> n \<and> q = p + 64 * word_of_nat k)" for q
  proof
    assume "q \<in> name_slots fs p"
    then obtain k where "k \<le> n" "q = p + 64 * word_of_nat k" unfolding name_slots_def n by blast
    then show "q = p \<or> (\<exists>k. 0 < k \<and> k \<le> n \<and> q = p + 64 * word_of_nat k)" by (cases "k = 0") auto
  qed (auto simp: name_slots_def n intro: exI [of _ "0 :: nat"])
  show "entry_type (at q) = entry_code UNUSED_ENTRY" if "q \<in> name_slots fs p"
    using assms(1,2) bspec [OF assms(3) that] that unfolding at_def free_slots_def cont in_iff [symmetric]
    by (auto simp: layout_simps in_iff)
  show "at q = entry_at fs q" if "q \<notin> name_slots fs p"
    using that unfolding at_def free_slots_def cont by (auto simp: in_iff)
qed

text \<open>The writing of the head and the call of \<open>free_entry\<close> for the rest.\<close>

lemma clear_name:
  assumes ok: "dir_ok fs" and un: "unchanged fs fs1" and p: "p \<in> set (index_offs fs)" "headed (entry_at fs p)"
    and u: "length u = 64" "entry_type u = entry_code UNUSED_ENTRY"
  obtains fs2 e3 fs3 at where "write_entry fs1 p u = (64, fs2)"
    "free_entry fs2 u (p + 64) (uint (cont_entries (entry_at fs p))) = (0, e3, fs3)" "length e3 = 64"
    "after fs at (del_begin fs) fs3" "\<forall>q \<in> name_slots fs p. entry_type (at q) = entry_code UNUSED_ENTRY"
    "\<forall>q. q \<notin> name_slots fs p \<longrightarrow> at q = entry_at fs q"
proof -
  have d: "fs_ok fs" "laid_out fs" using ok by (simp_all add: dir_ok_def)
  let ?n = "unat (cont_entries (entry_at fs p))"
  let ?at = "free_slots (p + 64) ?n ((entry_at fs)(p := u))"
  note sl = name_slots_in [OF d(2) p] and s1 = after_sel [OF un]
  have valid: "slot_valid fs q \<and> length (entry_at fs q) = 64" if "q \<in> set (index_offs fs)" for q
    using in_index_offs [OF d(1) that] length_entry_at by blast
  have v1: "slot_valid fs1 p" using valid [OF p(1)] s1(2) by simp
  obtain fs2 where w: "write_entry fs1 p u = (64, fs2)" "after fs1 ((entry_at fs1)(p := u)) (del_begin fs1) fs2"
    by (rule write_entry_after [OF after_ok [OF un] v1 u(1)])
  have u2: "after fs ((entry_at fs)(p := u)) (del_begin fs) fs2" using after_trans [OF un] w(2) s1 by simp
  note s2 = after_sel [OF u2]
  have slots: "slot_valid fs2 (p + 64 + 64 * word_of_nat j)" if "j < ?n" for j
  proof -
    have "p + 64 + 64 * word_of_nat j \<in> name_slots fs p"
      unfolding name_slots_def using that by (auto intro!: exI [of _ "Suc j"] simp: algebra_simps)
    then show ?thesis using sl(1) valid s2(2) by auto
  qed
  obtain e3 fs3 where fe: "free_entry fs2 u (p + 64) (int ?n) = (0, e3, fs3)" "length e3 = 64" "fs_ok fs3"
    "vol_upd fs2 (free_slots (p + 64) ?n (entry_at fs2)) fs3"
    by (rule free_entry_ok [OF after_ok [OF u2] slots u(1)])
  have u3: "after fs ?at (del_begin fs) fs3"
    using after_trans [OF u2 after_upd [OF after_ok [OF u2] fe(3,4)]] s2 by simp
  have q64: "\<forall>q \<in> name_slots fs p. length (entry_at fs q) = 64" using sl(1) valid by blast
  note cl = cleared_slots [OF u q64 refl]
  have "\<forall>q \<in> name_slots fs p. entry_type (?at q) = entry_code UNUSED_ENTRY"
    "\<forall>q. q \<notin> name_slots fs p \<longrightarrow> ?at q = entry_at fs q" using cl by blast+
  then show ?thesis using that [OF w(1) _ fe(2) u3] fe(1) by simp
qed

end
