(* ===== verification/MaskSearch.thy ===== *)
theory MaskSearch
  imports NameSearch "HOL-Library.Sublist"
begin

text \<open>
  What \<open>check_file_mask\<close> and \<open>search_file_mask\<close> of src/lib/sfs/fsutils.c compute: the next entry of a file
  or a directory whose name starts with the mask.
\<close>

section \<open>Comparing with a mask\<close>

lemma prefix_cstr_Nil: "hd0 m = 0 \<Longrightarrow> prefix (cstr m) t"
  by (simp add: cstr_Nil_iff [symmetric])

lemma hd0_Cons: "hd0 xs \<noteq> 0 \<Longrightarrow> \<exists>ys. xs = hd0 xs # ys"
  by (cases xs) (auto simp: hd0_def)

lemma cstr_hd0_Cons: "hd0 xs \<noteq> 0 \<Longrightarrow> cstr xs = hd0 xs # cstr (tl xs)"
  by (cases xs) (auto simp: hd0_def cstr_cons)

lemma match_first_prefix:
  assumes "length cur = c"
  shows "case match_first m cur c of
      None \<Rightarrow> \<not> prefix (cstr m) (cstr (cur @ q))
    | Some (m', cur', c') \<Rightarrow>
        length cur' = c' \<and> (prefix (cstr m) (cstr (cur @ q)) \<longleftrightarrow> prefix (cstr m') (cstr (cur' @ q)))
        \<and> (c' \<noteq> 0 \<longrightarrow> hd0 m' = 0) \<and> (0 \<in> set (cur @ q) \<and> hd0 m' \<noteq> 0 \<longrightarrow> 0 \<in> set (cur' @ q))"
  using assms
proof (induction m cur c rule: match_first.induct)
  case (2 m cur c)
  then obtain x xs where cur: "cur = x # xs" by (cases cur) auto
  show ?case
  proof (cases "hd0 m = 0 \<or> hd0 cur \<noteq> hd0 m")
    case True
    then show ?thesis using 2(2) cur prefix_cstr_Nil [of m] cstr_hd0_Cons [of m]
      by (cases "hd0 m = 0") (auto simp: hd0_def cstr_cons)
  next
    case False
    then have m: "cstr m = x # cstr (tl m)" "x \<noteq> 0" using cstr_hd0_Cons [of m] cur by (auto simp: hd0_def)
    show ?thesis using 2 False cur m by (auto simp: cstr_cons split: option.splits)
  qed
qed simp

lemma match_mask_prefix:
  assumes "fs_ok fs" and "\<forall>k \<le> n. slot_valid fs (off + 64 * word_of_nat k)"
    and "0 < c" and "length cur = c" and "length e = 64"
    and "0 \<in> set (cur @ conts (entry_at fs) (off + 64) n)"
  shows "\<exists>e' fs'. match_mask m cur c off e fs = (prefix (cstr m) (cstr (cur @ conts (entry_at fs) (off + 64) n)), e', fs')
      \<and> length e' = 64 \<and> fs_ok fs' \<and> same_vol fs fs'"
  using assms
proof (induction m arbitrary: cur c off e fs n)
  case Nil
  then show ?case by (auto simp: cstr_def)
next
  case (Cons x m)
  then obtain y ys where cur: "cur = y # ys" by (cases cur) auto
  show ?case
  proof (cases "x \<noteq> 0 \<and> x = y")
    case False
    then show ?thesis using Cons.prems cur by (auto simp: cstr_cons hd0_def)
  next
    case same: True
    show ?thesis
    proof (cases "c = 1")
      case False
      then have "0 < c - 1" "length ys = c - 1" "0 \<in> set (ys @ conts (entry_at fs) (off + 64) n)"
        using Cons.prems cur same by auto
      then obtain e' fs' where "match_mask m ys (c - 1) off e fs
          = (prefix (cstr m) (cstr (ys @ conts (entry_at fs) (off + 64) n)), e', fs')"
        "length e' = 64" "fs_ok fs'" "same_vol fs fs'"
        using Cons.IH [of fs n off "c - 1" ys e] Cons.prems by blast
      then show ?thesis using Cons.prems cur same False by (simp add: cstr_cons hd0_def)
    next
      case True
      then have ys: "ys = []" using Cons.prems(4) cur by simp
      then obtain k where k: "n = Suc k" using Cons.prems(6) cur same by (cases n) auto
      have valid: "slot_valid fs (off + 64)" using Cons.prems(2) k by (auto dest: spec [of _ 1])
      obtain fs1 where rd: "read_entry fs (off + 64) e = (64, entry_at fs (off + 64), fs1)"
        and ok1: "fs_ok fs1" and sv: "same_vol fs fs1"
        by (rule read_entry_fs [OF Cons.prems(1) valid Cons.prems(5)])
      have len: "length (entry_at fs (off + 64)) = 64" by (rule length_entry_at [OF valid])
      have valid1: "\<forall>j \<le> k. slot_valid fs1 (off + 64 + 64 * word_of_nat j)"
      proof (intro allI impI)
        fix j assume "j \<le> k"
        then show "slot_valid fs1 (off + 64 + 64 * word_of_nat j)"
          using Cons.prems(2) [rule_format, of "Suc j"] k same_vol_cong(2) [OF sv] by (simp add: algebra_simps)
      qed
      have "0 \<in> set (entry_at fs (off + 64) @ conts (entry_at fs1) (off + 64 + 64) k)"
        using Cons.prems(6) cur same ys k same_vol_cong(1) [OF sv] by (auto simp: conts_Suc)
      then obtain e' fs' where "match_mask m (entry_at fs (off + 64)) 64 (off + 64) (entry_at fs (off + 64)) fs1
          = (prefix (cstr m) (cstr (entry_at fs (off + 64) @ conts (entry_at fs1) (off + 64 + 64) k)), e', fs')"
        "length e' = 64" "fs_ok fs'" "same_vol fs1 fs'"
        using Cons.IH [OF ok1 valid1 _ len len] by auto
      then show ?thesis
        using Cons.prems cur same True ys rd k same_vol_cong(1) [OF sv] same_vol_trans [OF sv]
        by (simp add: cstr_cons conts_Suc hd0_def)
    qed
  qed
qed

section \<open>The entries a mask matches\<close>

definition starts :: "entry_kind \<Rightarrow> nat \<Rightarrow> (u64 \<Rightarrow> entry) \<Rightarrow> bytes \<Rightarrow> u64 \<Rightarrow> bool" where
  "starts kind b at m p \<longleftrightarrow> entry_type (at p) = entry_code kind \<and> prefix (cstr m) (entry_name b at p)"

definition masked :: "(u64 \<Rightarrow> entry) \<Rightarrow> bytes \<Rightarrow> u64 \<Rightarrow> bool" where
  "masked at m p \<longleftrightarrow> starts FILE_ENTRY 34 at m p \<or> starts DIR_ENTRY 10 at m p"

lemma masked_type: "masked at m p \<Longrightarrow> entry_type (at p) \<in> {entry_code FILE_ENTRY, entry_code DIR_ENTRY}"
  by (auto simp: masked_def starts_def)

text \<open>\<open>check_file_mask\<close> on an entry with the name at the offset \<open>b\<close>.\<close>

definition mask_at :: "nat \<Rightarrow> nat \<Rightarrow> fs \<Rightarrow> entry \<Rightarrow> u64 \<Rightarrow> bytes \<Rightarrow> int \<times> entry \<times> fs \<times> bytes" where
  "mask_at b first_size fs e p m =
     (if hd0 m = 0 then (1, e, fs, m)
      else
        (case match_first m (drop b e) first_size of
           None \<Rightarrow> (0, e, fs, m)
         | Some (m', _, _) \<Rightarrow>
             (case read_entry fs (p + 64) e of (_, e, fs) \<Rightarrow>
               (case match_mask m' e 64 (p + 64) e fs of (hit, e, fs) \<Rightarrow> (if hit then 1 else 0, e, fs, m)))))"

lemma check_file_mask_at:
  "entry_type e = entry_code FILE_ENTRY \<Longrightarrow> check_file_mask fs e p m = mask_at 34 30 fs e p m"
  "entry_type e = entry_code DIR_ENTRY \<Longrightarrow> check_file_mask fs e p m = mask_at 10 54 fs e p m"
  by (simp_all add: check_file_mask_def mask_at_def Let_def split: option.splits)

lemma mask_at_ok:
  assumes ok: "fs_ok fs" and p: "slot_valid fs p" "slot_valid fs (p + 64)" and nm: "name_ok b fs p"
    and size: "b + first_size = 64"
  shows "\<exists>c e' fs'. mask_at b first_size fs (entry_at fs p) p m = (c, e', fs', m)
    \<and> (c \<noteq> 0 \<longleftrightarrow> prefix (cstr m) (entry_name b (entry_at fs) p)) \<and> length e' = 64 \<and> fs_ok fs' \<and> same_vol fs fs'"
proof (cases "hd0 m = 0")
  case True
  then show ?thesis using prefix_cstr_Nil [OF True] ok length_entry_at [OF p(1)] by (simp add: mask_at_def)
next
  case False
  let ?e = "entry_at fs p" and ?ce = "unat (cont_entries (entry_at fs p))"
  let ?cur = "drop b ?e" and ?q = "conts (entry_at fs) (p + 64) ?ce"
  have len: "length ?e = 64" by (rule length_entry_at [OF p(1)])
  have cl: "length ?cur = first_size" using len size by simp
  have nul: "0 \<in> set (?cur @ ?q)" and slots: "\<forall>k \<le> ?ce. slot_valid fs (p + 64 * word_of_nat k)"
    using nm by (auto simp: name_ok_def name_bytes_def)
  have name: "entry_name b (entry_at fs) p = cstr (?cur @ ?q)" by (simp add: entry_name_def name_bytes_def)
  note mf = match_first_prefix [OF cl, of m ?q]
  show ?thesis
  proof (cases "match_first m ?cur first_size")
    case None
    then show ?thesis using mf False ok len name by (simp add: mask_at_def)
  next
    case (Some t)
    then obtain m' cur' c' where t: "match_first m ?cur first_size = Some (m', cur', c')" by (cases t) auto
    then have h: "length cur' = c'" "prefix (cstr m) (cstr (?cur @ ?q)) \<longleftrightarrow> prefix (cstr m') (cstr (cur' @ ?q))"
      "c' \<noteq> 0 \<longrightarrow> hd0 m' = 0" "hd0 m' \<noteq> 0 \<longrightarrow> 0 \<in> set (cur' @ ?q)"
      using mf nul by auto
    obtain fs1 where rd: "read_entry fs (p + 64) ?e = (64, entry_at fs (p + 64), fs1)" and ok1: "fs_ok fs1"
      and sv: "same_vol fs fs1"
      by (rule read_entry_fs [OF ok p(2) len])
    note c1 = same_vol_cong [OF sv]
    have len1: "length (entry_at fs (p + 64)) = 64" by (rule length_entry_at [OF p(2)])
    show ?thesis
    proof (cases "hd0 m' = 0")
      case True
      then have "match_mask m' (entry_at fs (p + 64)) 64 (p + 64) (entry_at fs (p + 64)) fs1
          = (True, entry_at fs (p + 64), fs1)" by (cases m') (auto simp: hd0_def)
      then show ?thesis using False t rd h(2) prefix_cstr_Nil [OF True] name len1 ok1 sv by (simp add: mask_at_def)
    next
      case more: False
      then have c: "cur' = []" using h(1,3) by simp
      obtain k where k: "?ce = Suc k" using h(4) more c by (cases ?ce) auto
      have q: "?q = entry_at fs (p + 64) @ conts (entry_at fs1) (p + 64 + 64) k" using k c1 by (simp add: conts_Suc)
      have valid: "\<forall>j \<le> k. slot_valid fs1 (p + 64 + 64 * word_of_nat j)"
      proof (intro allI impI)
        fix j assume "j \<le> k"
        then show "slot_valid fs1 (p + 64 + 64 * word_of_nat j)"
          using slots [rule_format, of "Suc j"] k c1 by (simp add: algebra_simps)
      qed
      obtain e' fs' where "match_mask m' (entry_at fs (p + 64)) 64 (p + 64) (entry_at fs (p + 64)) fs1
          = (prefix (cstr m') (cstr (entry_at fs (p + 64) @ conts (entry_at fs1) (p + 64 + 64) k)), e', fs')"
        "length e' = 64" "fs_ok fs'" "same_vol fs1 fs'"
        using match_mask_prefix [OF ok1 valid _ len1 len1, of m'] h(4) more c q by auto
      then show ?thesis using False t rd h(2) c q name same_vol_trans [OF sv] by (simp add: mask_at_def)
    qed
  qed
qed

lemma check_file_mask_ok:
  assumes ok: "fs_ok fs" and names: "dir_names_ok fs" and i: "i < index_size fs" "p = index_off fs i"
  shows "\<exists>c e' fs'. check_file_mask fs (entry_at fs p) p m = (c, e', fs', m)
    \<and> (c \<noteq> 0 \<longleftrightarrow> masked (entry_at fs) m p) \<and> length e' = 64 \<and> fs_ok fs' \<and> same_vol fs fs'"
proof -
  have v: "slot_valid fs p" "slot_valid fs (p + 64)"
    using index_off_valid [OF ok, of i] index_off_valid [OF ok, of "Suc i"] i by (simp_all add: index_off_Suc)
  have p: "p \<in> set (index_offs fs)" using i by (simp add: index_offs_def)
  consider (isfile) "entry_type (entry_at fs p) = entry_code FILE_ENTRY" | (isdir) "entry_type (entry_at fs p) = entry_code DIR_ENTRY"
    | (none) "entry_type (entry_at fs p) \<noteq> entry_code FILE_ENTRY" "entry_type (entry_at fs p) \<noteq> entry_code DIR_ENTRY" by blast
  then show ?thesis
  proof cases
    case isfile
    then have "name_ok 34 fs p" using names p by (simp add: dir_names_ok_def names_ok_def)
    from mask_at_ok [OF ok v this, of 30 m] show ?thesis
      using isfile by (simp add: check_file_mask_at masked_def starts_def)
  next
    case isdir
    then have "name_ok 10 fs p" using names p by (simp add: dir_names_ok_def names_ok_def)
    from mask_at_ok [OF ok v this, of 54 m] show ?thesis
      using isdir by (simp add: check_file_mask_at masked_def starts_def)
  next
    case none
    then show ?thesis using ok length_entry_at [OF v(1)] by (simp add: check_file_mask_def masked_def starts_def)
  qed
qed

section \<open>The search\<close>

definition next_masked :: "fs \<Rightarrow> bytes \<Rightarrow> nat \<Rightarrow> u64 option" where
  "next_masked fs m i = List.find (masked (entry_at fs) m) (map (index_off fs) [i..<index_size fs])"

lemma mask_loop_ok:
  assumes "fs_ok fs" and "dir_names_ok fs" and "length e = 64" and "i \<le> index_size fs"
  shows "\<exists>e' fs'. mask_loop fs m e (index_off fs i) = (found (next_masked fs m i), e', fs') \<and> length e' = 64
    \<and> fs_ok fs' \<and> same_vol fs fs' \<and> (next_masked fs m i \<noteq> None \<longrightarrow> e' = entry_at fs (found (next_masked fs m i)))"
  using assms
proof (induction "index_size fs - i" arbitrary: i fs e)
  case 0
  then have "i = index_size fs" by simp
  with 0 show ?case by (subst mask_loop.simps) (simp add: index_off_end next_masked_def)
next
  case (Suc k)
  then have lt: "i < index_size fs" by simp
  let ?p = "index_off fs i"
  have valid: "slot_valid fs ?p" using Suc.prems by (simp add: index_off_valid)
  have not_end: "?p \<noteq> vol_ident fs"
    using index_off_inj [of fs i "index_size fs"] index_off_end [of fs] Suc.prems(1) lt by simp
  have up: "\<not> ?p + 64 < ?p"
    using unat_index_off [of fs i] unat_index_off [of fs "Suc i"] Suc.prems(1) lt
    by (simp add: word_less_nat_alt index_off_Suc)
  have split: "next_masked fs m i = (if masked (entry_at fs) m ?p then Some ?p else next_masked fs m (Suc i))"
    using lt by (simp add: next_masked_def upt_conv_Cons)
  obtain fs1 where rd: "read_entry fs ?p e = (64, entry_at fs ?p, fs1)" and ok1: "fs_ok fs1" and sv1: "same_vol fs fs1"
    by (rule read_entry_fs [OF Suc.prems(1) valid Suc.prems(3)])
  note c1 = same_vol_cong [OF sv1] same_vol_sel [OF sv1]
  have n1: "dir_names_ok fs1" using dir_names_ok_same_vol [OF sv1] Suc.prems(2) by simp
  have len: "length (entry_at fs ?p) = 64" by (rule length_entry_at [OF valid])
  obtain c e2 fs2 where ck: "check_file_mask fs1 (entry_at fs ?p) ?p m = (c, e2, fs2, m)"
    "c \<noteq> 0 \<longleftrightarrow> masked (entry_at fs) m ?p" "length e2 = 64" "fs_ok fs2" "same_vol fs1 fs2"
    using check_file_mask_ok [OF ok1 n1, of i ?p m] lt c1 by auto
  have rest: "\<exists>e' fs''. mask_loop fs' m e2 (?p + 64) = (found (next_masked fs m (Suc i)), e', fs'') \<and> length e' = 64
      \<and> fs_ok fs'' \<and> same_vol fs fs'' \<and> (next_masked fs m (Suc i) \<noteq> None \<longrightarrow> e' = entry_at fs (found (next_masked fs m (Suc i))))"
    if h: "fs_ok fs'" "same_vol fs fs'" "length e2 = 64" for fs' e2
  proof -
    note c = same_vol_cong [OF h(2)]
    have "k = index_size fs' - Suc i" "Suc i \<le> index_size fs'" using Suc.hyps(2) lt by (simp_all add: c)
    moreover have "dir_names_ok fs'" using dir_names_ok_same_vol [OF h(2)] Suc.prems(2) by simp
    ultimately obtain e' fs'' where
      "mask_loop fs' m e2 (index_off fs' (Suc i)) = (found (next_masked fs' m (Suc i)), e', fs'')" "length e' = 64"
      "fs_ok fs''" "same_vol fs' fs''" "next_masked fs' m (Suc i) \<noteq> None \<longrightarrow> e' = entry_at fs' (found (next_masked fs' m (Suc i)))"
      using Suc.hyps(1) [of fs' "Suc i" e2] h by blast
    moreover have "next_masked fs' m (Suc i) = next_masked fs m (Suc i)" by (simp add: next_masked_def c)
    ultimately show ?thesis using same_vol_trans [OF h(2)] by (simp add: c index_off_Suc)
  qed
  note r1 = rest [OF ok1 sv1 len]
  have sv2: "same_vol fs fs2" by (rule same_vol_trans [OF sv1 ck(5)])
  note c2 = same_vol_cong [OF sv2]
  have v2: "slot_valid fs2 ?p" using valid c2 by simp
  obtain fs3 where rd3: "read_entry fs2 ?p e2 = (64, entry_at fs2 ?p, fs3)" and ok3: "fs_ok fs3" and sv3: "same_vol fs2 fs3"
    by (rule read_entry_fs [OF ck(4) v2 ck(3)])
  have vi: "vol_ident fs = vol_ident fs" ..
  show ?case
  proof (cases "masked (entry_at fs) m ?p")
    case True
    then have t: "entry_type (entry_at fs ?p) \<in> {entry_code FILE_ENTRY, entry_code DIR_ENTRY}" by (rule masked_type)
    have "mask_loop fs m e ?p = (?p, entry_at fs2 ?p, fs3)"
      using not_end rd ck(1,2) True t rd3 by (subst mask_loop.simps) auto
    then show ?thesis
      using True split ok3 same_vol_trans [OF sv2 sv3] len c2 by simp
  next
    case False
    then have s: "next_masked fs m i = next_masked fs m (Suc i)" using split by simp
    show ?thesis
    proof (cases "entry_type (entry_at fs ?p) = entry_code FILE_ENTRY \<or> entry_type (entry_at fs ?p) = entry_code DIR_ENTRY")
      case True
      then have "mask_loop fs m e ?p = mask_loop fs2 m e2 (?p + 64)"
        using not_end rd ck(1,2) False up by (subst mask_loop.simps) auto
      then show ?thesis using rest [OF ck(4) sv2 ck(3)] s by simp
    next
      case no: False
      then have "mask_loop fs m e ?p = mask_loop fs1 m (entry_at fs ?p) (?p + 64)"
        using not_end rd up by (subst mask_loop.simps) auto
      then show ?thesis using r1 s by simp
    qed
  qed
qed

lemma search_file_mask_ok:
  assumes "fs_ok fs" and "dir_names_ok fs" and "length e = 64" and "i \<le> index_size fs"
  obtains e' fs' where "search_file_mask fs m e (index_off fs i) = (found (next_masked fs m i), e', fs')" "length e' = 64"
    "fs_ok fs'" "same_vol (SET_ERRNO 0 fs) fs'" "next_masked fs m i \<noteq> None \<longrightarrow> e' = entry_at fs (found (next_masked fs m i))"
proof -
  have "next_masked (SET_ERRNO 0 fs) m i = next_masked fs m i" by (simp add: next_masked_def)
  then show ?thesis
    using mask_loop_ok [of "SET_ERRNO 0 fs" e i m] assms that by (auto simp: search_file_mask_def)
qed

lemma next_masked_None:
  "next_masked fs m i = None \<longleftrightarrow> (\<forall>j. i \<le> j \<and> j < index_size fs \<longrightarrow> \<not> masked (entry_at fs) m (index_off fs j))"
  by (auto simp: next_masked_def find_None_iff)

lemma next_masked_Some:
  assumes "next_masked fs m i = Some q"
  obtains j where "q = index_off fs j" "i \<le> j" "j < index_size fs" "masked (entry_at fs) m q"
    "\<And>k. i \<le> k \<Longrightarrow> k < j \<Longrightarrow> \<not> masked (entry_at fs) m (index_off fs k)"
proof -
  from assms obtain n where n: "n < index_size fs - i" "masked (entry_at fs) m q" "q = index_off fs (i + n)"
    "\<forall>k<n. \<not> masked (entry_at fs) m (index_off fs (i + k))"
    by (auto simp: next_masked_def find_Some_iff)
  show ?thesis
  proof (rule that [of "i + n"])
    fix k assume "i \<le> k" "k < i + n"
    then have "k - i < n" "i + (k - i) = k" by auto
    then show "\<not> masked (entry_at fs) m (index_off fs k)" using n(4) by metis
  qed (use n in auto)
qed

end
