(* ===== verification/Rmdir.thy ===== *)
theory Rmdir
  imports NameSlots MaskSearch
begin

text \<open>
  The specification of src/lib/sfs/sfs_rmdir.c: the directory goes when no other entry has a name that
  starts with its path, letter by letter; a name that only begins with the same letters counts too.
\<close>

section \<open>The contents of a directory\<close>

definition occupied :: "fs \<Rightarrow> bytes \<Rightarrow> u64 \<Rightarrow> bool" where
  "occupied fs path p \<longleftrightarrow> (\<exists>q \<in> set (index_offs fs). q \<noteq> p \<and> masked (entry_at fs) path q)"

lemma search_file_mask_after:
  assumes "fs_ok fs" and "dir_names_ok fs" and "length e = 64" and "i \<le> index_size fs"
  obtains e' fs' where "search_file_mask fs m e (index_off fs i) = (found (next_masked fs m i), e', fs')" "length e' = 64"
    "unchanged fs fs'"
  by (rule search_file_mask_ok [OF assms, of m]) (use after_same_errno in \<open>fastforce intro: that\<close>)

lemma next_masked_after: "unchanged fs fs' \<Longrightarrow> next_masked fs' = next_masked fs"
  by (rule ext)+ (simp add: next_masked_def after_sel)

lemma named_masked: "has_name DIR_ENTRY 10 at path p \<Longrightarrow> masked at path p"
  by (simp add: masked_def starts_def has_name_def)

text \<open>The two searches of \<open>sfs_rmdir\<close> find exactly the directory when nothing else matches.\<close>

lemma rmdir_searches:
  assumes ok: "fs_ok fs" and i: "i < index_size fs" and hit: "masked (entry_at fs) path (index_off fs i)"
  shows "next_masked fs path 0 = Some (index_off fs i) \<and> next_masked fs path (Suc i) = None
    \<longleftrightarrow> \<not> occupied fs path (index_off fs i)"
proof -
  have inj: "index_off fs j = index_off fs k \<longleftrightarrow> j = k" if "j < index_size fs" "k < index_size fs" for j k
    using index_off_inj [OF ok, of j k] that by simp
  have occ: "occupied fs path (index_off fs i) \<longleftrightarrow> (\<exists>j < index_size fs. j \<noteq> i \<and> masked (entry_at fs) path (index_off fs j))"
    unfolding occupied_def index_offs_def using inj i by (auto simp: image_iff) 
  show ?thesis
  proof
    assume "next_masked fs path 0 = Some (index_off fs i) \<and> next_masked fs path (Suc i) = None"
    then have h: "next_masked fs path 0 = Some (index_off fs i)" "next_masked fs path (Suc i) = None" by simp_all
    obtain j where j: "index_off fs i = index_off fs j" "j < index_size fs"
      "\<And>k. k < j \<Longrightarrow> \<not> masked (entry_at fs) path (index_off fs k)"
      by (rule next_masked_Some [OF h(1)]) auto
    then have "j = i" using inj [OF i j(2)] by simp
    then show "\<not> occupied fs path (index_off fs i)"
      using j(3) h(2) unfolding occ next_masked_None by (metis Suc_leI linorder_neqE_nat)
  next
    assume n: "\<not> occupied fs path (index_off fs i)"
    have "next_masked fs path 0 \<noteq> None" using i hit unfolding next_masked_None by auto
    then obtain q where q: "next_masked fs path 0 = Some q" by blast
    obtain j where "q = index_off fs j" "j < index_size fs" "masked (entry_at fs) path q"
      by (rule next_masked_Some [OF q]) auto
    then have "q = index_off fs i" using n unfolding occ by blast
    moreover have "next_masked fs path (Suc i) = None" using n unfolding occ next_masked_None by (metis Suc_n_not_le_n)
    ultimately show "next_masked fs path 0 = Some (index_off fs i) \<and> next_masked fs path (Suc i) = None" using q by simp
  qed
qed

section \<open>sfs_rmdir\<close>

lemma sfs_rmdir_ok:
  assumes ok: "dir_ok fs" and len: "length e = 64" and path: "padded path"
  obtains (fails) fs' where "sfs_rmdir fs e path = (-1, fs')" "unchanged fs fs'"
      "sfs_errno fs' = EINVAL \<and> (is_correct_filepath path \<noteq> 0 \<or> lookup_dir fs path = None)
       \<or> sfs_errno fs' = ENOTEMPTY \<and> is_correct_filepath path = 0
         \<and> (\<exists>p. lookup_dir fs path = Some p \<and> occupied fs path p)"
  | (removes) p fs' at where "sfs_rmdir fs e path = (0, fs')" "lookup_dir fs path = Some p" "\<not> occupied fs path p"
      "dir_ok fs'" "after fs at (del_begin fs) fs'" "\<forall>q \<in> name_slots fs p. entry_type (at q) = entry_code UNUSED_ENTRY"
      "\<forall>q. q \<notin> name_slots fs p \<longrightarrow> at q = entry_at fs q"
      "\<And>path'. lookup_dir fs' path' = (if cstr path' = cstr path then None else lookup_dir fs path')"
      "\<And>path'. lookup_file fs' path' = lookup_file fs path'" "is_correct_filepath path = 0"
proof -
  have d: "fs_ok fs" "dir_names_ok fs" "unique_names DIR_ENTRY 10 fs" using ok by (simp_all add: dir_ok_def)
  have pk: "path_ok DIR_ENTRY fs' path" for fs' using path by (simp add: path_ok_def)
  have names: "dir_names_ok fs'" if "unchanged fs fs'" for fs' using dir_names_ok_after [OF that] d by simp
  obtain e1 fs1 where c: "search_dir fs path e = (found (lookup_dir fs path), e1, fs1)" "length e1 = 64" "unchanged fs fs1"
    by (rule search_dir_after [OF d(1,2) len pk])
  note s1 = after_sel [OF c(3)]
  consider (chars) "is_correct_filepath path \<noteq> 0" | (none) "is_correct_filepath path = 0" "lookup_dir fs path = None"
    | (some) p where "is_correct_filepath path = 0" "lookup_dir fs path = Some p" by blast
  then show ?thesis
  proof cases
    case chars
    then show ?thesis using after_refl [OF d(1)] by (intro fails [of "SET_ERRNO EINVAL fs"]) (simp_all add: sfs_rmdir_def)
  next
    case none
    then show ?thesis using c by (intro fails [of "SET_ERRNO EINVAL fs1"]) (simp_all add: sfs_rmdir_def)
  next
    case some
    note p = lookup_Some [OF d(1) some(2)]
    obtain i where i: "i < index_size fs" "p = index_off fs i" using p(3) by (auto simp: index_offs_def)
    have start: "entry_start fs = index_off fs1 0" using s1(6) by (simp add: index_off_0)
    have next_i: "p + 64 = index_off fs (Suc i)" using i(2) by (simp add: index_off_Suc)
    have hit: "masked (entry_at fs) path (index_off fs i)" using named_masked [OF p(4)] i(2) by simp
    note se = rmdir_searches [OF d(1) i(1) hit, folded i(2)]
    obtain e2 fs2 where m1: "search_file_mask fs1 path e1 (index_off fs1 0) = (found (next_masked fs path 0), e2, fs2)"
      "length e2 = 64" "unchanged fs1 fs2"
      by (rule search_file_mask_after [OF after_ok [OF c(3)] names [OF c(3)] c(2), of 0 path])
        (use next_masked_after [OF c(3)] in auto)
    have u2: "unchanged fs fs2" using after_trans [OF c(3)] m1(3) s1 by simp
    note s2 = after_sel [OF u2]
    obtain e3 fs3 where m2: "search_file_mask fs2 path e2 (index_off fs2 (Suc i)) = (found (next_masked fs path (Suc i)), e3, fs3)"
      "length e3 = 64" "unchanged fs2 fs3"
      by (rule search_file_mask_after [OF after_ok [OF u2] names [OF u2] m1(2), of "Suc i" path])
        (use next_masked_after [OF u2] i(1) s2(5) in auto)
    have u3: "unchanged fs fs3" using after_trans [OF u2] m2(3) s2 by simp
    have zero: "found (next_masked fs path k) = 0 \<longleftrightarrow> next_masked fs path k = None" for k
    proof (cases "next_masked fs path k")
      case (Some q)
      then obtain j where "q = index_off fs j" "j < index_size fs" by (rule next_masked_Some) auto
      then show ?thesis using Some index_off_nonzero [OF d(1), of j] by simp
    qed simp
    have first: "found (next_masked fs path 0) = p \<longleftrightarrow> next_masked fs path 0 = Some p"
      using p(2) by (cases "next_masked fs path 0") auto
    show ?thesis
    proof (cases "occupied fs path p")
      case True
      then have "next_masked fs path 0 \<noteq> Some p \<or> next_masked fs path (Suc i) \<noteq> None" using se by simp
      then have "\<exists>fs'. sfs_rmdir fs e path = (-1, SET_ERRNO ENOTEMPTY fs') \<and> unchanged fs fs'"
        using some c(1) p(2) m1(1) m2(1) first zero u2 u3 start next_i s2(6)
        by (cases "next_masked fs path 0 = Some p") (auto simp: sfs_rmdir_def Let_def)
      then show ?thesis using fails True some by fastforce
    next
      case False
      then have f: "next_masked fs path 0 = Some p" "next_masked fs path (Suc i) = None" using se by blast+
      obtain e4 fs4 where c4: "search_dir fs3 path e3 = (found (lookup_dir fs3 path), e4, fs4)" "unchanged fs3 fs4"
        "lookup_dir fs3 path \<noteq> None \<longrightarrow> e4 = entry_at fs3 (found (lookup_dir fs3 path))"
        by (rule search_dir_after [OF after_ok [OF u3] names [OF u3] m2(2) pk])
      have l3: "lookup_dir fs3 path = Some p" using lookup_after [OF u3] some(2) by simp
      have e4: "e4 = entry_at fs p" using c4(3) l3 after_sel(1) [OF u3] by simp
      have u4: "unchanged fs fs4" using after_trans [OF u3] c4(2) after_sel [OF u3] by simp
      let ?u = "set_entry_type (entry_code UNUSED_ENTRY) (set_cont_entries 0 (entry_at fs p))"
      have u: "length ?u = 64" "entry_type ?u = entry_code UNUSED_ENTRY" using p(5) by (simp_all add: layout_simps)
      have ty: "entry_type (entry_at fs p) = entry_code DIR_ENTRY" using p(4) by (simp add: has_name_def)
      then have hd: "headed (entry_at fs p)" by (auto simp: headed_def)
      obtain fs5 e6 fs6 at where w: "write_entry fs4 p ?u = (64, fs5)"
        "free_entry fs5 ?u (p + 64) (uint (cont_entries (entry_at fs p))) = (0, e6, fs6)"
        and a6: "after fs at (del_begin fs) fs6" and at: "\<forall>q \<in> name_slots fs p. entry_type (at q) = entry_code UNUSED_ENTRY"
        "\<forall>q. q \<notin> name_slots fs p \<longrightarrow> at q = entry_at fs q"
        by (rule clear_name [OF ok u4 p(3) hd u])
      have run: "sfs_rmdir fs e path = (0, update fs6)"
        using some c(1) p(2) m1(1) m2(1) f start next_i s2(6) c4(1) l3 e4 w
        by (simp add: sfs_rmdir_def Let_def del: One_nat_def)
      have a7: "after fs at (del_begin fs) (update fs6)" using a6 by simp
      note cd = cleared [OF ok p(3) hd a7 at]
      have lf: "lookup_file (update fs6) path' = lookup_file fs path'" for path' using cd(2) [of FILE_ENTRY 34] ty by simp
      have "DIR_ENTRY = FILE_ENTRY \<or> DIR_ENTRY = DIR_ENTRY" by simp
      note ld = cd(3) [OF this d(3) some(2)]
      show ?thesis by (rule removes [OF run some(2) False cd(1) a7 at ld lf some(1)])
    qed
  qed
qed

end
