(* ===== verification/NameSpace.thy ===== *)
theory NameSpace
  imports Rmdir
begin

text \<open>
  The interface of a name space: names that are made and removed, and looked up in between. Its
  client lemmas hold for every provider; the files of a volume, with \<open>sfs_creat\<close> and
  \<open>sfs_unlink\<close>, and its directories, with \<open>sfs_mkdir\<close> and \<open>sfs_rmdir\<close>, provide it.
\<close>

section \<open>The interface\<close>

text \<open>\<open>good\<close> are the names the client may use, \<open>junk\<close> the contents of the local variable the
  operation starts with. \<open>make\<close> may fail for other reasons than a name that is taken.\<close>

locale name_maker =
  fixes ok :: "'s \<Rightarrow> bool" and names :: "'s \<Rightarrow> 'n \<Rightarrow> 'f option"
    and good :: "'s \<Rightarrow> 'n \<Rightarrow> bool" and junk :: "'g \<Rightarrow> bool"
    and make :: "'g \<Rightarrow> 'n \<Rightarrow> 's \<Rightarrow> bool \<times> 's"
  assumes make_ok: "ok s \<Longrightarrow> good s n \<Longrightarrow> junk g \<Longrightarrow> make g n s = (b, s') \<Longrightarrow> ok s'"
    and make_done: "ok s \<Longrightarrow> good s n \<Longrightarrow> junk g \<Longrightarrow> make g n s = (True, s') \<Longrightarrow>
      names s n = None \<and> (\<exists>f. f \<notin> ran (names s) \<and> names s' = (names s)(n \<mapsto> f))"
    and make_refused: "ok s \<Longrightarrow> good s n \<Longrightarrow> junk g \<Longrightarrow> make g n s = (False, s') \<Longrightarrow> names s' = names s"
begin

lemma make_finds:
  assumes "ok s" and "good s n" and "junk g" and "make g n s = (True, s')"
  obtains f where "names s' n = Some f" "\<And>n'. names s n' \<noteq> Some f"
  using make_done [OF assms] by (auto simp: ran_def)

lemma make_twice:
  assumes "ok s" and "good s n" and "junk g" and "make g n s = (True, s1)"
    and "good s1 n" and "junk g'" and "make g' n s1 = (b, s2)"
  shows "\<not> b" and "names s2 = names s1"
proof -
  have s1: "ok s1" "names s1 n \<noteq> None"
    using make_ok [OF assms(1-4)] make_done [OF assms(1-4)] by auto
  have nb: "\<not> b" using make_done [OF s1(1) assms(5,6), of s2] assms(7) s1(2) by (cases b) auto
  then show "\<not> b" "names s2 = names s1"
    using make_refused [OF s1(1) assms(5,6), of s2] assms(7) by simp_all
qed

lemma make_apart:
  assumes "ok s" and "inj_on (names s) (dom (names s))" and "good s n" and "junk g" and "make g n s = (b, s')"
  shows "inj_on (names s') (dom (names s'))"
proof (cases b)
  case True
  then have d: "make g n s = (True, s')" using assms(5) by simp
  obtain f where "names s n = None" "f \<notin> ran (names s)" "names s' = (names s)(n \<mapsto> f)"
    using make_done [OF assms(1,3,4) d] by blast
  then show ?thesis using assms(2) by (auto simp: inj_on_def dom_def ran_def split: if_splits)
next
  case False
  then have "make g n s = (False, s')" using assms(5) by simp
  then show ?thesis using make_refused [OF assms(1,3,4)] assms(2) by simp
qed

end

locale name_space = name_maker +
  fixes remove :: "'g \<Rightarrow> 'n \<Rightarrow> 's \<Rightarrow> 'f option \<times> 's"
  assumes remove_ok: "ok s \<Longrightarrow> good s n \<Longrightarrow> junk g \<Longrightarrow> remove g n s = (r, s') \<Longrightarrow> ok s'"
    and remove_done: "ok s \<Longrightarrow> good s n \<Longrightarrow> junk g \<Longrightarrow> remove g n s = (Some f, s') \<Longrightarrow>
      names s n = Some f \<and> names s' = (names s)(n := None)"
    and remove_refused: "ok s \<Longrightarrow> good s n \<Longrightarrow> junk g \<Longrightarrow> remove g n s = (None, s') \<Longrightarrow> names s' = names s"
begin

text \<open>Making a name and removing it leaves the names as they were.\<close>

lemma make_remove:
  assumes "ok s" and "good s n" and "junk g" and "make g n s = (True, s1)"
    and "good s1 n" and "junk g'" and "remove g' n s1 = (Some f, s2)"
  shows "names s2 = names s" and "names s1 n = Some f"
proof -
  have s1: "ok s1" by (rule make_ok [OF assms(1-4)])
  obtain h where "names s n = None" "names s1 = (names s)(n \<mapsto> h)"
    using make_done [OF assms(1-4)] by blast
  then show "names s2 = names s" "names s1 n = Some f"
    using remove_done [OF s1 assms(5-7)] by auto
qed

lemma remove_twice:
  assumes "ok s" and "good s n" and "junk g" and "remove g n s = (Some f, s1)"
    and "good s1 n" and "junk g'" and "remove g' n s1 = (r, s2)"
  shows "r = None"
proof (cases r)
  case (Some f')
  have "names s1 n = None" using remove_done [OF assms(1-4)] by simp
  then show ?thesis
    using remove_done [OF remove_ok [OF assms(1-4)] assms(5,6)] assms(7) Some by fastforce
qed

end

section \<open>The names of a volume\<close>

text \<open>A name is the list of its bytes, none of them 0.\<close>

definition name_map :: "entry_kind \<Rightarrow> nat \<Rightarrow> fs \<Rightarrow> bytes \<Rightarrow> u64 option" where
  "name_map kind b fs n = (if 0 \<in> set n then None else lookup kind b fs n)"

abbreviation "file_names \<equiv> name_map FILE_ENTRY 34"
abbreviation "dir_names \<equiv> name_map DIR_ENTRY 10"

definition good_name :: "fs \<Rightarrow> bytes \<Rightarrow> bool" where
  "good_name fs n \<longleftrightarrow> 0 \<notin> set n \<and> walkable fs n"

definition make_file :: "entry \<Rightarrow> bytes \<Rightarrow> fs \<Rightarrow> bool \<times> fs" where
  "make_file e n fs = (case sfs_creat fs e n of (r, fs) \<Rightarrow> (r = 0, fs))"

definition make_dir :: "entry \<Rightarrow> bytes \<Rightarrow> fs \<Rightarrow> bool \<times> fs" where
  "make_dir e n fs = (case sfs_mkdir fs e n of (r, fs) \<Rightarrow> (r = 0, fs))"

definition remove_file :: "entry \<Rightarrow> bytes \<Rightarrow> fs \<Rightarrow> u64 option \<times> fs" where
  "remove_file e n fs = (case sfs_unlink fs e n of (r, fs) \<Rightarrow> (if r = 0 then None else Some r, fs))"

definition remove_dir :: "entry \<Rightarrow> bytes \<Rightarrow> fs \<Rightarrow> u64 option \<times> fs" where
  "remove_dir e n fs = (case sfs_rmdir fs e n of (r, fs') \<Rightarrow> (if r = 0 then dir_names fs n else None, fs'))"

lemma created_dir_ok: "created fs kind b path i n fs' \<Longrightarrow> dir_ok fs'"
  by (simp add: created_def)

lemma created_fresh:
  assumes "created fs kind b path i n fs'" and "0 < n" and "fs_ok fs" and "kind = FILE_ENTRY \<or> kind = DIR_ENTRY"
  shows "lookup kind b fs path' \<noteq> Some (index_off fs i)"
proof
  assume "lookup kind b fs path' = Some (index_off fs i)"
  then have "has_name kind b (entry_at fs) path' (index_off fs i)" using lookup_Some(4) [OF assms(3)] by blast
  then have t: "entry_type (entry_at fs (index_off fs i)) = entry_code kind" by (simp add: has_name_def)
  have "unused fs i" using assms(1,2) by (auto simp: created_def free_run_def dest: spec [of _ 0])
  then show False using t assms(4) by (auto simp: unused_def)
qed

text \<open>The maps of names after a creation, for files and for directories.\<close>

lemma created_names:
  assumes "created fs kind b n i k fs'" and "0 < k" and "fs_ok fs" and "kind = FILE_ENTRY \<or> kind = DIR_ENTRY"
    and "0 \<notin> set n" and "lookup kind b fs n = None"
  shows "name_map kind b fs n = None
    \<and> (\<exists>f. f \<notin> ran (name_map kind b fs) \<and> name_map kind b fs' = (name_map kind b fs)(n \<mapsto> f))"
proof -
  have "name_map kind b fs' n' = ((name_map kind b fs)(n \<mapsto> index_off fs i)) n'" for n'
    using assms(1,5) by (auto simp: created_def name_map_def cstr_id)
  then have "name_map kind b fs' = (name_map kind b fs)(n \<mapsto> index_off fs i)" by (rule ext)
  moreover have "index_off fs i \<notin> ran (name_map kind b fs)"
    using created_fresh [OF assms(1-4)] by (auto simp: ran_def name_map_def split: if_splits)
  ultimately show ?thesis using assms(5,6) by (auto simp: name_map_def)
qed

lemma names_after: "unchanged fs fs' \<Longrightarrow> name_map kind b fs' = name_map kind b fs"
  by (simp add: name_map_def lookup_after fun_eq_iff)

lemma dir_ok_after:
  assumes "unchanged fs fs'" and "dir_ok fs"
  shows "dir_ok fs'"
  using assms after_ok [OF assms(1)] dir_names_ok_after [OF assms(1)] after_sel [OF assms(1)]
  by (simp add: dir_ok_def laid_out_def unique_names_def)

lemma make_file_cases:
  assumes "dir_ok fs" and "good_name fs n" and "length e = 64" and "make_file e n fs = (b, fs')"
  shows "dir_ok fs' \<and> (if b then file_names fs n = None \<and>
           (\<exists>f. f \<notin> ran (file_names fs) \<and> file_names fs' = (file_names fs)(n \<mapsto> f))
         else file_names fs' = file_names fs)"
proof -
  have n: "walkable fs n" "0 \<notin> set n" "length (cstr n) < 16000"
    using assms(2) by (auto simp: good_name_def walkable_def)
  have d: "fs_ok fs" using assms(1) by (simp add: dir_ok_def)
  show ?thesis
  proof (rule sfs_creat_ok [OF assms(1,3) n(1)])
    fix fs'' assume "sfs_creat fs e n = (-1, fs'')" "unchanged fs fs''"
    then show ?thesis using assms(1,4) dir_ok_after names_after by (auto simp: make_file_def)
  next
    fix i fs'' assume h: "sfs_creat fs e n = (0, fs'')" "lookup_file fs n = None"
      "created fs FILE_ENTRY 34 n i (name_entries 30 (length (cstr n))) fs''"
    show ?thesis
      using created_names [OF h(3) name_entries_room(1) [OF n(3)] d _ n(2) h(2)]
        created_dir_ok [OF h(3)] h(1) assms(4) by (auto simp: make_file_def)
  qed
qed

lemma make_dir_cases:
  assumes "dir_ok fs" and "good_name fs n" and "length e = 64" and "make_dir e n fs = (b, fs')"
  shows "dir_ok fs' \<and> (if b then dir_names fs n = None \<and>
           (\<exists>f. f \<notin> ran (dir_names fs) \<and> dir_names fs' = (dir_names fs)(n \<mapsto> f))
         else dir_names fs' = dir_names fs)"
proof -
  have n: "walkable fs n" "0 \<notin> set n" "length (cstr n) < 16000"
    using assms(2) by (auto simp: good_name_def walkable_def)
  have d: "fs_ok fs" using assms(1) by (simp add: dir_ok_def)
  show ?thesis
  proof (rule sfs_mkdir_ok [OF assms(1,3) n(1)])
    fix fs'' assume "sfs_mkdir fs e n = (-1, fs'')" "unchanged fs fs''"
    then show ?thesis using assms(1,4) dir_ok_after names_after by (auto simp: make_dir_def)
  next
    fix i fs'' assume h: "sfs_mkdir fs e n = (0, fs'')" "lookup_dir fs n = None"
      "created fs DIR_ENTRY 10 n i (name_entries 54 (length (cstr n))) fs''"
    show ?thesis
      using created_names [OF h(3) name_entries_room(1) [OF n(3)] d _ n(2) h(2)]
        created_dir_ok [OF h(3)] h(1) assms(4) by (auto simp: make_dir_def)
  qed
qed

lemma remove_file_cases:
  assumes "dir_ok fs" and "good_name fs n" and "length e = 64" and "remove_file e n fs = (r, fs')"
  shows "dir_ok fs' \<and> (case r of Some f \<Rightarrow> file_names fs n = Some f \<and> file_names fs' = (file_names fs)(n := None)
         | None \<Rightarrow> file_names fs' = file_names fs)"
proof -
  have n: "padded n" "0 \<notin> set n" using assms(2) by (auto simp: good_name_def walkable_def)
  show ?thesis
  proof (rule sfs_unlink_ok [OF assms(1,3) n(1)])
    fix fs'' assume "sfs_unlink fs e n = (0, fs'')" "unchanged fs fs''"
    then show ?thesis using assms(1,4) dir_ok_after names_after by (auto simp: remove_file_def)
  next
    fix p fs'' assume h: "sfs_unlink fs e n = (p, fs'')" "lookup_file fs n = Some p" "dir_ok fs''"
      "\<And>path'. lookup_file fs'' path' = (if cstr path' = cstr n then None else lookup_file fs path')"
    have "p \<noteq> 0" using lookup_Some(2) [OF _ h(2)] assms(1) by (simp add: dir_ok_def)
    moreover have "file_names fs'' = (file_names fs)(n := None)"
      using n(2) h(4) by (auto simp: name_map_def cstr_id fun_eq_iff)
    moreover have "file_names fs n = Some p" using h(2) n(2) by (simp add: name_map_def)
    moreover have "r = Some p" "fs' = fs''" using h(1) assms(4) \<open>p \<noteq> 0\<close> by (simp_all add: remove_file_def)
    ultimately show ?thesis using h(3) by simp
  qed
qed

lemma remove_dir_cases:
  assumes "dir_ok fs" and "good_name fs n" and "length e = 64" and "remove_dir e n fs = (r, fs')"
  shows "dir_ok fs' \<and> (case r of Some f \<Rightarrow> dir_names fs n = Some f \<and> dir_names fs' = (dir_names fs)(n := None)
         | None \<Rightarrow> dir_names fs' = dir_names fs)"
proof -
  have n: "padded n" "0 \<notin> set n" using assms(2) by (auto simp: good_name_def walkable_def)
  show ?thesis
  proof (rule sfs_rmdir_ok [OF assms(1,3) n(1)])
    fix fs'' assume "sfs_rmdir fs e n = (-1, fs'')" "unchanged fs fs''"
    then show ?thesis using assms(1,4) dir_ok_after names_after by (auto simp: remove_dir_def)
  next
    fix p fs'' assume h: "sfs_rmdir fs e n = (0, fs'')" "lookup_dir fs n = Some p" "dir_ok fs''"
      "\<And>path'. lookup_dir fs'' path' = (if cstr path' = cstr n then None else lookup_dir fs path')"
    have "dir_names fs'' = (dir_names fs)(n := None)"
      using n(2) h(4) by (auto simp: name_map_def cstr_id fun_eq_iff)
    moreover have "dir_names fs n = Some p" using h(2) n(2) by (simp add: name_map_def)
    moreover have "r = Some p" "fs' = fs''" using h(1) assms(4) calculation(2) by (simp_all add: remove_dir_def)
    ultimately show ?thesis using h(3) by simp
  qed
qed

interpretation files: name_space dir_ok file_names good_name "\<lambda>e. length e = 64" make_file remove_file
proof
  fix fs n e b fs'
  assume "dir_ok fs" "good_name fs n" "length (e :: entry) = 64" "make_file e n fs = (b, fs')"
  then show "dir_ok fs'" using make_file_cases [of fs n e b fs'] by blast
next
  fix fs n e fs'
  assume "dir_ok fs" "good_name fs n" "length (e :: entry) = 64" "make_file e n fs = (True, fs')"
  then show "file_names fs n = None \<and> (\<exists>f. f \<notin> ran (file_names fs) \<and> file_names fs' = (file_names fs)(n \<mapsto> f))"
    using make_file_cases [of fs n e True fs'] by simp
next
  fix fs n e fs'
  assume "dir_ok fs" "good_name fs n" "length (e :: entry) = 64" "make_file e n fs = (False, fs')"
  then show "file_names fs' = file_names fs" using make_file_cases [of fs n e False fs'] by simp
next
  fix fs n e r fs'
  assume "dir_ok fs" "good_name fs n" "length (e :: entry) = 64" "remove_file e n fs = (r, fs')"
  then show "dir_ok fs'" using remove_file_cases [of fs n e r fs'] by blast
next
  fix fs n e f fs'
  assume "dir_ok fs" "good_name fs n" "length (e :: entry) = 64" "remove_file e n fs = (Some f, fs')"
  then show "file_names fs n = Some f \<and> file_names fs' = (file_names fs)(n := None)"
    using remove_file_cases [of fs n e "Some f" fs'] by simp
next
  fix fs n e fs'
  assume "dir_ok fs" "good_name fs n" "length (e :: entry) = 64" "remove_file e n fs = (None, fs')"
  then show "file_names fs' = file_names fs" using remove_file_cases [of fs n e None fs'] by simp
qed

interpretation dirs: name_space dir_ok dir_names good_name "\<lambda>e. length e = 64" make_dir remove_dir
proof
  fix fs n e b fs'
  assume "dir_ok fs" "good_name fs n" "length (e :: entry) = 64" "make_dir e n fs = (b, fs')"
  then show "dir_ok fs'" using make_dir_cases [of fs n e b fs'] by blast
next
  fix fs n e fs'
  assume "dir_ok fs" "good_name fs n" "length (e :: entry) = 64" "make_dir e n fs = (True, fs')"
  then show "dir_names fs n = None \<and> (\<exists>f. f \<notin> ran (dir_names fs) \<and> dir_names fs' = (dir_names fs)(n \<mapsto> f))"
    using make_dir_cases [of fs n e True fs'] by simp
next
  fix fs n e fs'
  assume "dir_ok fs" "good_name fs n" "length (e :: entry) = 64" "make_dir e n fs = (False, fs')"
  then show "dir_names fs' = dir_names fs" using make_dir_cases [of fs n e False fs'] by simp
next
  fix fs n e r fs'
  assume "dir_ok fs" "good_name fs n" "length (e :: entry) = 64" "remove_dir e n fs = (r, fs')"
  then show "dir_ok fs'" using remove_dir_cases [of fs n e r fs'] by blast
next
  fix fs n e f fs'
  assume "dir_ok fs" "good_name fs n" "length (e :: entry) = 64" "remove_dir e n fs = (Some f, fs')"
  then show "dir_names fs n = Some f \<and> dir_names fs' = (dir_names fs)(n := None)"
    using remove_dir_cases [of fs n e "Some f" fs'] by simp
next
  fix fs n e fs'
  assume "dir_ok fs" "good_name fs n" "length (e :: entry) = 64" "remove_dir e n fs = (None, fs')"
  then show "dir_names fs' = dir_names fs" using remove_dir_cases [of fs n e None fs'] by simp
qed

end
