(* ===== verification/Volume.thy ===== *)
theory Volume
  imports NameSpace NameSlots
begin

text \<open>
  The invariant of a whole volume: the names are in order, the free extents are in order, every
  file, and every unlinked file that still has its blocks, has an extent of its own in the data
  area, and no block has two owners. What keeps it: the operations on names, the freeing of a file
  (src/lib/sfs/sfs_delete.c) and the writing of one (sfs_write.c).
\<close>

section \<open>Who owns which blocks\<close>

definition file_ext :: "entry \<Rightarrow> nat set" where
  "file_ext e = (if start_block e = 0 then {} else ext e)"

text \<open>An empty file has no blocks; another has as many as its size needs.\<close>

definition file_ok :: "fs \<Rightarrow> entry \<Rightarrow> bool" where
  "file_ok fs e \<longleftrightarrow> start_block e = 0 \<and> end_block e = 0 \<and> file_size e = 0
     \<or> ext_ok fs e \<and> card (ext e) = needed fs (file_size e) \<and> unat (file_size e) < 2 ^ 63"

definition owns :: "fs \<Rightarrow> u64 list \<Rightarrow> u64 \<Rightarrow> bool" where
  "owns fs ps p \<longleftrightarrow> p \<in> set (index_offs fs) \<and> p \<notin> set ps
     \<and> entry_type (entry_at fs p) \<in> {entry_code FILE_ENTRY, entry_code DEL_FILE_ENTRY}"

text \<open>The blocks before the index.\<close>

definition below :: "fs \<Rightarrow> nat set \<Rightarrow> bool" where
  "below fs B \<longleftrightarrow> (\<forall>b \<in> B. Suc b * unat (block_size fs) \<le> unat (entry_start fs))"

definition volume_ok :: "fs \<Rightarrow> u64 list \<Rightarrow> bool" where
  "volume_ok fs ps \<longleftrightarrow> dir_ok fs \<and> free_ok fs ps \<and> bare (entry_at fs) ps \<and> below fs (blocks (entry_at fs) ps)
     \<and> (\<forall>p. owns fs ps p \<longrightarrow> file_ok fs (entry_at fs p) \<and> below fs (file_ext (entry_at fs p))
             \<and> file_ext (entry_at fs p) \<inter> blocks (entry_at fs) ps = {})
     \<and> (\<forall>p q. owns fs ps p \<and> owns fs ps q \<and> p \<noteq> q \<longrightarrow>
             file_ext (entry_at fs p) \<inter> file_ext (entry_at fs q) = {})"

lemma volume_okD:
  assumes "volume_ok fs ps"
  shows "fs_ok fs" "dir_ok fs" "free_ok fs ps" "bare (entry_at fs) ps" "below fs (blocks (entry_at fs) ps)"
    and "owns fs ps p \<Longrightarrow> file_ok fs (entry_at fs p)" "owns fs ps p \<Longrightarrow> below fs (file_ext (entry_at fs p))"
    and "owns fs ps p \<Longrightarrow> file_ext (entry_at fs p) \<inter> blocks (entry_at fs) ps = {}"
    and "owns fs ps p \<Longrightarrow> owns fs ps q \<Longrightarrow> p \<noteq> q \<Longrightarrow> file_ext (entry_at fs p) \<inter> file_ext (entry_at fs q) = {}"
  using assms by (auto simp: volume_ok_def dir_ok_def)

lemma below_Un [simp]: "below fs (A \<union> B) \<longleftrightarrow> below fs A \<and> below fs B" "below fs {}"
  by (auto simp: below_def)

lemma below_subset: "below fs B \<Longrightarrow> A \<subseteq> B \<Longrightarrow> below fs A"
  by (auto simp: below_def)

lemma geometry_after:
  assumes "after fs at b fs'"
  shows "below fs' B = below fs B" "ext_ok fs' e = ext_ok fs e" "needed fs' z = needed fs z" "file_ok fs' e = file_ok fs e"
  using after_sel [OF assms] by (simp_all add: below_def ext_ok_def needed_def file_ok_def)

lemma free_ok_frame:
  assumes u: "after fs at (del_begin fs) fs'" and same: "\<And>q. q \<in> set ps \<Longrightarrow> at q = entry_at fs q"
  shows "free_ok fs' ps = free_ok fs ps"
proof -
  note s = after_sel [OF u]
  have d: "dpath at 0 b ps l 0 = dpath (entry_at fs) 0 b ps l 0" for b l
    using same by (intro dpath_cong) simp
  show ?thesis
    using same by (simp add: free_ok_def free_list_def d s geometry_after [OF u])
qed

lemma blocks_frame: "(\<And>q. q \<in> set ps \<Longrightarrow> at q = entry_at fs q) \<Longrightarrow> blocks at ps = blocks (entry_at fs) ps"
  by (intro blocks_cong) simp

text \<open>A change that leaves the blocks of every owner but \<open>p\<close> as they are keeps the invariant, if what
  \<open>p\<close> has and what is free afterwards come from what they were.\<close>

lemma volume_change:
  assumes vol: "volume_ok fs ps" and u: "after fs at b fs'" and dir: "dir_ok fs'"
    and fr: "free_ok fs' ps'" "bare at ps'"
    and other: "\<And>q. owns fs' ps' q \<Longrightarrow> q \<noteq> p \<Longrightarrow> owns fs ps q \<and> file_ok fs (at q) \<and> file_ext (at q) = file_ext (entry_at fs q)"
    and own: "owns fs' ps' p \<Longrightarrow> file_ok fs (at p) \<and> file_ext (at p) \<inter> blocks at ps' = {}"
    and space: "blocks at ps' \<subseteq> blocks (entry_at fs) ps \<union> (if owns fs ps p then file_ext (entry_at fs p) else {})"
      "owns fs' ps' p \<Longrightarrow> file_ext (at p) \<subseteq> blocks (entry_at fs) ps \<union> (if owns fs ps p then file_ext (entry_at fs p) else {})"
  shows "volume_ok fs' ps'"
proof -
  note v = volume_okD [OF vol] and s = after_sel [OF u] and g = geometry_after [OF u]
  let ?S = "blocks (entry_at fs) ps \<union> (if owns fs ps p then file_ext (entry_at fs p) else {})"
  have bS: "below fs ?S" using v(5,7) by simp
  have apart: "file_ext (at q) \<inter> ?S = {}" if "owns fs' ps' q" "q \<noteq> p" for q
    using other [OF that] v(8) [of q] v(9) [of q p] that(2) by auto
  have pS: "owns fs' ps' p \<Longrightarrow> file_ext (at p) \<subseteq> ?S" by (rule space(2))
  have bq: "below fs (file_ext (at q))" if "owns fs' ps' q" for q
  proof (cases "q = p")
    case True
    then show ?thesis using pS that below_subset [OF bS] by simp
  next
    case False
    then show ?thesis using other [OF that] v(7) [of q] by simp
  qed
  have fb: "file_ok fs (at q) \<and> file_ext (at q) \<inter> blocks at ps' = {}" if "owns fs' ps' q" for q
  proof (cases "q = p")
    case True
    then show ?thesis using own that by simp
  next
    case False
    then show ?thesis using other [OF that False] apart [OF that False] space(1) by blast
  qed
  have dj: "file_ext (at q) \<inter> file_ext (at r) = {}" if "owns fs' ps' q" "owns fs' ps' r" "q \<noteq> r" for q r
  proof (cases "q = p \<or> r = p")
    case True
    then show ?thesis using apart [of q] apart [of r] pS that by auto
  next
    case False
    then show ?thesis using other [of q] other [of r] v(9) [of q r] that by auto
  qed
  show ?thesis
    unfolding volume_ok_def s(1) g using dir fr fb bq dj below_subset [OF bS space(1)] by blast
qed

text \<open>The blocks the volume accounts for: those that are free and those that have an owner.\<close>

definition space :: "fs \<Rightarrow> u64 list \<Rightarrow> nat set" where
  "space fs ps = blocks (entry_at fs) ps \<union> (\<Union>p \<in> {p. owns fs ps p}. file_ext (entry_at fs p))"

lemma space_kept:
  assumes same: "\<And>q. q \<noteq> p \<Longrightarrow> owns fs' ps' q = owns fs ps q"
    "\<And>q. q \<noteq> p \<Longrightarrow> owns fs ps q \<Longrightarrow> file_ext (entry_at fs' q) = file_ext (entry_at fs q)"
    and p: "blocks (entry_at fs') ps' \<union> (if owns fs' ps' p then file_ext (entry_at fs' p) else {})
      = blocks (entry_at fs) ps \<union> (if owns fs ps p then file_ext (entry_at fs p) else {})"
  shows "space fs' ps' = space fs ps"
proof -
  have "space gs qs = (blocks (entry_at gs) qs \<union> (if owns gs qs p then file_ext (entry_at gs p) else {}))
      \<union> (\<Union>q \<in> {q. owns gs qs q \<and> q \<noteq> p}. file_ext (entry_at gs q))" for gs qs
    unfolding space_def by auto
  moreover have "(\<Union>q \<in> {q. owns fs' ps' q \<and> q \<noteq> p}. file_ext (entry_at fs' q))
      = (\<Union>q \<in> {q. owns fs ps q \<and> q \<noteq> p}. file_ext (entry_at fs q))"
    using same by auto
  ultimately show ?thesis using p by simp
qed

section \<open>Names\<close>

lemma owns_headed: "owns fs ps p \<Longrightarrow> headed (entry_at fs p)"
  by (auto simp: owns_def headed_def)

lemma free_entries_coded:
  assumes "free_ok fs ps" and "q \<in> set ps"
  shows "entry_type (entry_at fs q) = entry_code DEL_FILE_ENTRY" and "q \<in> set (index_offs fs)"
  using assms by (auto simp: free_ok_def free_list_def)

lemma volume_created:
  assumes vol: "volume_ok fs ps" and cr: "created fs kind b path i n fs'" and n: "0 < n"
    and kind: "kind = FILE_ENTRY \<or> kind = DIR_ENTRY"
    and empty: "kind = FILE_ENTRY \<Longrightarrow> start_block (entry_at fs' (index_off fs i)) = 0
      \<and> end_block (entry_at fs' (index_off fs i)) = 0 \<and> file_size (entry_at fs' (index_off fs i)) = 0"
  shows "volume_ok fs' ps" and "space fs' ps = space fs ps"
    and "owns fs' ps q \<longleftrightarrow> owns fs ps q \<or> q = index_off fs i \<and> kind = FILE_ENTRY" and "\<not> owns fs ps (index_off fs i)"
    and "owns fs ps q \<Longrightarrow> entry_at fs' q = entry_at fs q"
    and "q \<notin> set (index_offs fs) \<Longrightarrow> entry_at fs' q = entry_at fs q"
proof -
  note v = volume_okD [OF vol]
  let ?p = "index_off fs i" and ?Q = "run_slots fs i n"
  have c: "dir_ok fs'" "free_run fs i n" "entry_type (entry_at fs' ?p) = entry_code kind"
    "\<And>q. q \<notin> ?Q \<Longrightarrow> entry_at fs' q = entry_at fs q"
    "\<And>q. q \<in> ?Q \<Longrightarrow> q \<noteq> ?p \<Longrightarrow> \<not> is_code (entry_type (entry_at fs' q))"
    using cr by (auto simp: created_def)
  obtain at where "after fs at (del_begin fs) fs'" using cr by (auto simp: created_def)
  then have u: "after fs (entry_at fs') (del_begin fs) fs'" using after_sel(1) by blast
  note s = after_sel [OF u]
  have un: "entry_type (entry_at fs q) = entry_code UNUSED_ENTRY" if "q \<in> ?Q" for q
    by (rule run_slots_type [OF c(2) that])
  have ps: "entry_at fs' q = entry_at fs q" if "q \<in> set ps" for q
    using un [of q] free_entries_coded(1) [OF v(3) that] c(4) [of q] by (cases "q \<in> ?Q") simp_all
  have pQ: "?p \<in> ?Q" using n by (auto simp: run_slots_def)
  have np: "\<not> owns fs ps ?p" using un [OF pQ] by (simp add: owns_def)
  have bl: "blocks (entry_at fs') ps = blocks (entry_at fs) ps" using ps by (rule blocks_frame)
  have was: "owns fs ps q \<and> entry_at fs' q = entry_at fs q" if q: "owns fs' ps q" "q \<noteq> ?p" for q
  proof -
    have "is_code (entry_type (entry_at fs' q))" using headed_code [OF owns_headed] q(1) by blast
    then have "q \<notin> ?Q" using c(5) q(2) by blast
    then show ?thesis using q(1) c(4) s(7) by (simp add: owns_def)
  qed
  have new: "file_ext (entry_at fs' ?p) = {} \<and> file_ok fs (entry_at fs' ?p)" if "owns fs' ps ?p"
  proof -
    have "entry_type (entry_at fs' ?p) \<noteq> entry_code DIR_ENTRY" using that by (auto simp: owns_def)
    then have "kind = FILE_ENTRY" using kind c(3) by auto
    from empty [OF this] show ?thesis by (simp add: file_ok_def file_ext_def)
  qed
  show "volume_ok fs' ps"
  proof (rule volume_change [OF vol u c(1), where p = ?p])
    show "free_ok fs' ps" using free_ok_frame [OF u ps] v(3) by simp
    show "bare (entry_at fs') ps" using v(4) ps by (simp add: bare_def)
    show "owns fs ps q \<and> file_ok fs (entry_at fs' q) \<and> file_ext (entry_at fs' q) = file_ext (entry_at fs q)"
      if "owns fs' ps q" "q \<noteq> ?p" for q
      using was [OF that] v(6) by simp
  qed (use new bl in auto)
  have keep: "owns fs' ps q \<and> entry_at fs' q = entry_at fs q" if "owns fs ps q" for q
  proof -
    have "q \<notin> ?Q" using un [of q] that by (auto simp: owns_def)
    then show ?thesis using that c(4) s(7) by (simp add: owns_def)
  qed
  then show "owns fs ps q \<Longrightarrow> entry_at fs' q = entry_at fs q" by blast
  show "\<not> owns fs ps ?p" by (rule np)
  have lim: "i + n \<le> index_size fs" using cr by (simp add: created_def)
  have Q: "?Q \<subseteq> set (index_offs fs)" using lim by (auto simp: run_slots_def index_offs_def)
  then show "q \<notin> set (index_offs fs) \<Longrightarrow> entry_at fs' q = entry_at fs q" using c(4) by blast
  have "owns fs' ps ?p \<longleftrightarrow> kind = FILE_ENTRY"
  proof -
    have "?p \<notin> set ps" using un [OF pQ] free_entries_coded(1) [OF v(3), of ?p] by auto
    then show ?thesis using kind c(3) Q pQ s(7) by (auto simp: owns_def)
  qed
  then show "owns fs' ps q \<longleftrightarrow> owns fs ps q \<or> q = ?p \<and> kind = FILE_ENTRY" using was keep by blast
  show "space fs' ps = space fs ps"
  proof (rule space_kept [where p = ?p])
    show "owns fs' ps q = owns fs ps q" if "q \<noteq> ?p" for q using that was keep by blast
    then show "file_ext (entry_at fs' q) = file_ext (entry_at fs q)" if "q \<noteq> ?p" "owns fs ps q" for q
      using that was by simp
  qed (use new bl np in auto)
qed

lemma volume_unchanged:
  assumes vol: "volume_ok fs ps" and u: "unchanged fs fs'"
  shows "volume_ok fs' ps" and "space fs' ps = space fs ps" and "owns fs' ps q = owns fs ps q"
proof -
  have own: "owns fs' ps q = owns fs ps q" for q using after_sel [OF u] by (simp add: owns_def)
  then show "owns fs' ps q = owns fs ps q" .
  have "free_ok fs' ps = free_ok fs ps" by (rule free_ok_frame [OF u]) simp
  then show "volume_ok fs' ps"
    using vol own dir_ok_after [OF u] after_sel(1) [OF u] geometry_after [OF u] by (simp add: volume_ok_def)
  show "space fs' ps = space fs ps" using own after_sel(1) [OF u] by (simp add: space_def)
qed

lemma volume_unlinked:
  assumes vol: "volume_ok fs ps" and p: "p \<in> set (index_offs fs)" "entry_type (entry_at fs p) = entry_code FILE_ENTRY"
    and u: "after fs ((entry_at fs)(p := set_entry_type (entry_code DEL_FILE_ENTRY) (entry_at fs p))) (del_begin fs) fs'"
    and dir: "dir_ok fs'"
  shows "volume_ok fs' ps" and "owns fs' ps p" and "file_ext (entry_at fs' p) = file_ext (entry_at fs p)"
    and "space fs' ps = space fs ps"
proof -
  note v = volume_okD [OF vol] and s = after_sel [OF u]
  let ?at = "(entry_at fs)(p := set_entry_type (entry_code DEL_FILE_ENTRY) (entry_at fs p))"
  have len: "length (entry_at fs p) = 64" using in_index_offs [OF v(1) p(1)] length_entry_at by blast
  have np: "p \<notin> set ps" using free_entries_coded(1) [OF v(3), of p] p(2) by auto
  have own: "owns fs ps p" using p np by (simp add: owns_def)
  have f: "start_block (?at p) = start_block (entry_at fs p)" "end_block (?at p) = end_block (entry_at fs p)"
    "file_size (?at p) = file_size (entry_at fs p)" "entry_type (?at p) = entry_code DEL_FILE_ENTRY"
    using len by (simp_all add: layout_simps)
  have x: "file_ext (?at p) = file_ext (entry_at fs p)" "file_ok fs (?at p) = file_ok fs (entry_at fs p)"
    unfolding file_ext_def file_ok_def ext_ok_def ext_def f by (rule refl)+
  then show ext_p: "file_ext (entry_at fs' p) = file_ext (entry_at fs p)" using s(1) by simp
  show own': "owns fs' ps p" using p(1) np f(4) s(1,7) by (simp add: owns_def)
  have ps: "?at q = entry_at fs q" if "q \<in> set ps" for q using that np by auto
  have bl: "blocks ?at ps = blocks (entry_at fs) ps" using ps by (rule blocks_frame)
  show "volume_ok fs' ps"
  proof (rule volume_change [OF vol u dir, where p = p])
    show "free_ok fs' ps" using free_ok_frame [OF u ps] v(3) by simp
    show "bare ?at ps" using v(4) ps by (simp add: bare_def)
    show "owns fs ps q \<and> file_ok fs (?at q) \<and> file_ext (?at q) = file_ext (entry_at fs q)"
      if "owns fs' ps q" "q \<noteq> p" for q
      using that v(6) [of q] s(1,7) by (simp add: owns_def)
    show "file_ok fs (?at p) \<and> file_ext (?at p) \<inter> blocks ?at ps = {}"
      unfolding x bl using v(6,8) [OF own] by simp
  qed (use bl x own in auto)
  show "space fs' ps = space fs ps"
    by (rule space_kept [where p = p]) (use bl s ext_p own own' in \<open>auto simp: owns_def\<close>)
qed

lemma sfs_creat_volume:
  assumes vol: "volume_ok fs ps" and len: "length e = 64" and walk: "walkable fs path"
    and run: "sfs_creat fs e path = (r, fs')"
  shows "volume_ok fs' ps \<and> space fs' ps = space fs ps"
proof (rule sfs_creat_ok [OF volume_okD(2) [OF vol] len walk])
  fix fs'' assume "sfs_creat fs e path = (-1, fs'')" "unchanged fs fs''"
  then show ?thesis using run volume_unchanged [OF vol] by simp
next
  fix i fs'' assume h: "sfs_creat fs e path = (0, fs'')"
    "created fs FILE_ENTRY 34 path i (name_entries 30 (length (cstr path))) fs''"
    "start_block (entry_at fs'' (index_off fs i)) = 0" "end_block (entry_at fs'' (index_off fs i)) = 0"
    "file_size (entry_at fs'' (index_off fs i)) = 0"
  have "0 < name_entries 30 (length (cstr path))" using walk name_entries_room(1) by (auto simp: walkable_def)
  then have "volume_ok fs'' ps \<and> space fs'' ps = space fs ps" using volume_created(1,2) [OF vol h(2)] h(3-5) by simp
  then show ?thesis using run h(1) by simp
qed

lemma sfs_mkdir_volume:
  assumes vol: "volume_ok fs ps" and len: "length e = 64" and walk: "walkable fs path"
    and run: "sfs_mkdir fs e path = (r, fs')"
  shows "volume_ok fs' ps \<and> space fs' ps = space fs ps"
proof (rule sfs_mkdir_ok [OF volume_okD(2) [OF vol] len walk])
  fix fs'' assume "sfs_mkdir fs e path = (-1, fs'')" "unchanged fs fs''"
  then show ?thesis using run volume_unchanged [OF vol] by simp
next
  fix i fs'' assume h: "sfs_mkdir fs e path = (0, fs'')"
    "created fs DIR_ENTRY 10 path i (name_entries 54 (length (cstr path))) fs''"
  have "0 < name_entries 54 (length (cstr path))" using walk name_entries_room(1) by (auto simp: walkable_def)
  then have "volume_ok fs'' ps \<and> space fs'' ps = space fs ps" using volume_created(1,2) [OF vol h(2)] by simp
  then show ?thesis using run h(1) by simp
qed

text \<open>An unlinked file keeps its blocks.\<close>

lemma sfs_unlink_volume:
  assumes vol: "volume_ok fs ps" and len: "length e = 64" and path: "padded path"
    and run: "sfs_unlink fs e path = (r, fs')"
  shows "volume_ok fs' ps" and "space fs' ps = space fs ps"
    and "r \<noteq> 0 \<Longrightarrow> owns fs' ps r \<and> entry_type (entry_at fs' r) = entry_code DEL_FILE_ENTRY
           \<and> file_ext (entry_at fs' r) = file_ext (entry_at fs r)"
proof -
  have "volume_ok fs' ps \<and> space fs' ps = space fs ps \<and> (r \<noteq> 0 \<longrightarrow> owns fs' ps r \<and> entry_type (entry_at fs' r) = entry_code DEL_FILE_ENTRY
           \<and> file_ext (entry_at fs' r) = file_ext (entry_at fs r))"
  proof (rule sfs_unlink_ok [OF volume_okD(2) [OF vol] len path])
    fix fs'' assume "sfs_unlink fs e path = (0, fs'')" "unchanged fs fs''"
    then show ?thesis using run volume_unchanged [OF vol] by simp
  next
    fix p fs'' assume h: "sfs_unlink fs e path = (p, fs'')" "lookup_file fs path = Some p" "dir_ok fs''"
      "after fs ((entry_at fs)(p := set_entry_type (entry_code DEL_FILE_ENTRY) (entry_at fs p))) (del_begin fs) fs''"
    note l = lookup_Some [OF volume_okD(1) [OF vol] h(2)]
    have t: "entry_type (entry_at fs p) = entry_code FILE_ENTRY" using l(4) by (simp add: has_name_def)
    note un = volume_unlinked [OF vol l(3) t h(4,3)]
    have "entry_type (entry_at fs'' p) = entry_code DEL_FILE_ENTRY"
      using after_sel(1) [OF h(4)] l(5) by (simp add: layout_simps)
    then show ?thesis using un run h(1) by simp
  qed
  then show "volume_ok fs' ps" "space fs' ps = space fs ps" "r \<noteq> 0 \<Longrightarrow> owns fs' ps r \<and> entry_type (entry_at fs' r) = entry_code DEL_FILE_ENTRY
           \<and> file_ext (entry_at fs' r) = file_ext (entry_at fs r)" by simp_all
qed

text \<open>Removing a directory touches no block.\<close>

lemma sfs_rmdir_volume:
  assumes vol: "volume_ok fs ps" and len: "length e = 64" and path: "padded path"
    and run: "sfs_rmdir fs e path = (r, fs')"
  shows "volume_ok fs' ps \<and> space fs' ps = space fs ps \<and> (\<forall>q. owns fs ps q \<longrightarrow> entry_at fs' q = entry_at fs q)"
proof (rule sfs_rmdir_ok [OF volume_okD(2) [OF vol] len path])
  fix fs'' assume "sfs_rmdir fs e path = (-1, fs'')" "unchanged fs fs''"
  then show ?thesis using run volume_unchanged [OF vol] after_sel(1) [of fs "entry_at fs" "del_begin fs" fs''] by simp
next
  fix p fs'' at
  assume h: "sfs_rmdir fs e path = (0, fs'')" "lookup_dir fs path = Some p" "dir_ok fs''" "after fs at (del_begin fs) fs''"
    and at: "\<forall>q \<in> name_slots fs p. entry_type (at q) = entry_code UNUSED_ENTRY" "\<forall>q. q \<notin> name_slots fs p \<longrightarrow> at q = entry_at fs q"
  note v = volume_okD [OF vol] and l = lookup_Some [OF volume_okD(1) [OF vol] h(2)] and s = after_sel [OF h(4)]
  have t: "entry_type (entry_at fs p) = entry_code DIR_ENTRY" using l(4) by (simp add: has_name_def)
  have hd: "headed (entry_at fs p)" using t by (auto simp: headed_def)
  have lo: "laid_out fs" using v(2) by (simp add: dir_ok_def)
  note sl = name_slots_in [OF lo l(3) hd]
  have out: "q \<notin> name_slots fs p" if "entry_type (entry_at fs q) \<in> {entry_code FILE_ENTRY, entry_code DEL_FILE_ENTRY}" for q
  proof
    assume q: "q \<in> name_slots fs p"
    have "q \<noteq> p" using that t by auto
    from sl(2) [OF q this] that show False by (metis insertE is_code_code singletonD)
  qed
  have ps: "at q = entry_at fs q" if "q \<in> set ps" for q using at(2) out free_entries_coded(1) [OF v(3) that] by simp
  have was: "owns fs'' ps q \<longleftrightarrow> owns fs ps q" "owns fs ps q \<Longrightarrow> at q = entry_at fs q" for q
    using out [of q] at s(1,7) by (cases "q \<in> name_slots fs p"; auto simp: owns_def)+
  have bl: "blocks at ps = blocks (entry_at fs) ps" using ps by (rule blocks_frame)
  have "volume_ok fs'' ps"
  proof (rule volume_change [OF vol h(4,3), where p = p])
    show "free_ok fs'' ps" using free_ok_frame [OF h(4) ps] v(3) by simp
    show "bare at ps" using v(4) ps by (simp add: bare_def)
    show "owns fs ps q \<and> file_ok fs (at q) \<and> file_ext (at q) = file_ext (entry_at fs q)" if "owns fs'' ps q" "q \<noteq> p" for q
      using that was v(6) by simp
  qed (use bl was v(6,8) in auto)
  moreover have "space fs'' ps = space fs ps"
    by (rule space_kept [where p = p]) (use bl was s(1) in auto)
  ultimately show ?thesis using run h(1) was s(1) by simp
qed

section \<open>Freeing a file\<close>

text \<open>A list operation as a change of the volume.\<close>

lemma list_step_after:
  assumes "fs_ok fs" and "list_step fs ps fs' ps'"
  obtains b where "after fs (entry_at fs') b fs'"
proof -
  obtain at b where "vol_to fs at b fs'" "fs_ok fs'" using assms(2) by (auto simp: list_step_def)
  then have u: "after fs at b fs'" by (intro after_to [OF assms(1)])
  then show ?thesis using that after_sel(1) [OF u] by simp
qed

lemma list_step_names:
  assumes ok: "dir_ok fs" and fr: "free_ok fs ps" and bare: "bare (entry_at fs) ps" and ls: "list_step fs ps fs' ps'"
    and new: "\<forall>q \<in> set ps' - set ps. entry_type (entry_at fs q) = entry_code UNUSED_ENTRY"
  shows "dir_ok fs'" and "kind = FILE_ENTRY \<or> kind = DIR_ENTRY \<Longrightarrow> lookup kind c fs' = lookup kind c fs"
    and "bare (entry_at fs') ps'"
proof -
  have d: "fs_ok fs" "laid_out fs" "names_ok FILE_ENTRY 34 fs" "names_ok DIR_ENTRY 10 fs"
    "unique_names FILE_ENTRY 34 fs" "unique_names DIR_ENTRY 10 fs"
    using ok by (simp_all add: dir_ok_def dir_names_ok_def)
  obtain b where u: "after fs (entry_at fs') b fs'" by (rule list_step_after [OF d(1) ls])
  note s = after_sel [OF u]
  let ?Q = "set ps \<union> set ps'"
  have l: "free_ok fs' ps'" "\<And>q. q \<notin> ?Q \<Longrightarrow> entry_at fs' q = entry_at fs q"
    "\<And>q. q \<in> set ps - set ps' \<Longrightarrow> entry_type (entry_at fs' q) = entry_code UNUSED_ENTRY"
    using ls by (auto simp: list_step_def)
  show b': "bare (entry_at fs') ps'" using ls bare by (simp add: list_step_def)
  have old: "entry_type (entry_at fs q) \<in> {entry_code DEL_FILE_ENTRY, entry_code UNUSED_ENTRY}" if "q \<in> ?Q" for q
    using that new free_entries_coded(1) [OF fr, of q] by auto
  have now: "entry_type (entry_at fs' q) \<in> {entry_code DEL_FILE_ENTRY, entry_code UNUSED_ENTRY}" if "q \<in> ?Q" for q
    using that l(3) free_entries_coded(1) [OF l(1), of q] by auto
  have "is_code (entry_type (entry_at fs q))" if "q \<in> ?Q" for q
    using old [OF that] by (auto simp del: entry_code.simps)
  then have ap: "apart fs ?Q" by (rule apart_codes [OF d(2)])
  have un: "\<not> headed (entry_at fs' q)" if "q \<in> ?Q" "q \<notin> set ps'" for q
    using l(3) [of q] that by (simp add: headed_def)
  have ed: "edit_ok fs ?Q (entry_at fs')"
    unfolding edit_ok_def
  proof (intro conjI allI impI ballI)
    fix q k assume q: "q \<in> set (index_offs fs) \<inter> ?Q" "headed (entry_at fs' q)"
      "0 < k \<and> k \<le> unat (cont_entries (entry_at fs' q))"
    then have "q \<in> set ps'" using un by blast
    then have "cont_entries (entry_at fs' q) = 0" using b' by (simp add: bare_def)
    then show "q + 64 * word_of_nat k \<in> set (index_offs fs)" "\<not> is_code (entry_type (entry_at fs' (q + 64 * word_of_nat k)))"
      using q(3) by auto
  qed (use l(2) in blast)
  have none: "entry_type (entry_at fs q) \<noteq> entry_code K" "entry_type (entry_at fs' q) \<noteq> entry_code K"
    if "q \<in> ?Q" "K = FILE_ENTRY \<or> K = DIR_ENTRY" for q K
    using old [OF that(1)] now [OF that(1)] that(2) by auto
  show "lookup kind c fs' = lookup kind c fs" if "kind = FILE_ENTRY \<or> kind = DIR_ENTRY"
    by (rule ext, rule lookup_edit_other [OF ap ed s(7) that]) (use none that in blast)+
  have "names_ok K c fs'" if "names_ok K c fs" "K = FILE_ENTRY \<or> K = DIR_ENTRY" for K c
    by (rule names_ok_edit [OF that(1) ap ed s(7,2) that(2)]) (use none that(2) in blast)
  moreover have "unique_names K c fs'" if "unique_names K c fs" "K = FILE_ENTRY \<or> K = DIR_ENTRY" for K c
    by (rule unique_names_edit [OF ap ed s(7) that(2,1), where p = 0 and path = "[]"]) (use none that(2) in blast)
  ultimately show "dir_ok fs'"
    unfolding dir_ok_def dir_names_ok_def using after_ok [OF u] laid_out_edit [OF d(2) ap ed s(7)] d(3-6) by blast
qed

lemma file_ext_add:
  assumes "file_ok fs e"
  shows "start_block e = 0 \<longleftrightarrow> end_block e = 0 \<and> file_ext e = {}"
    and "start_block e \<noteq> 0 \<Longrightarrow> file_ext e = {unat (start_block e) .. unat (end_block e)} \<and> ext_ok fs e"
  using assms by (auto simp: file_ok_def file_ext_def ext_def ext_ok_def)

text \<open>The list operation at the end of \<open>sfs_delete\<close> and \<open>sfs_truncate\<close>.\<close>

lemma give_back:
  assumes vol: "volume_ok fs ps" and u: "after fs at (del_begin fs) fs'" and dir: "dir_ok fs'" and len: "length entr = 64"
    and own: "owns fs ps p" and ps: "\<And>q. q \<in> set ps \<Longrightarrow> at q = entry_at fs q" and room: "unused fs' i"
  obtains e' fs'' ps' where
    "del_file_list_add fs' entr (start_block (entry_at fs p)) (end_block (entry_at fs p)) = (0, e', fs'')"
    "length e' = 64" "list_step fs' ps fs'' ps'"
    "\<forall>q \<in> set ps' - set ps. entry_type (at q) = entry_code UNUSED_ENTRY"
    "blocks (entry_at fs'') ps' = blocks (entry_at fs) ps \<union> file_ext (entry_at fs p)"
proof -
  note v = volume_okD [OF vol] and s = after_sel [OF u] and g = geometry_after [OF u]
  note fo = v(6) [OF own] and x = file_ext_add [OF v(6) [OF own]]
  have fr: "free_ok fs' ps" using free_ok_frame [OF u ps] v(3) by simp
  have bl: "blocks (entry_at fs') ps = blocks (entry_at fs) ps" unfolding s(1) using ps by (rule blocks_frame)
  show ?thesis
  proof (cases "start_block (entry_at fs p) = 0")
    case True
    then have "del_file_list_add fs' entr (start_block (entry_at fs p)) (end_block (entry_at fs p)) = (0, entr, fs')"
      using x(1) by (simp add: del_file_list_add_def)
    moreover have "list_step fs' ps fs' ps" by (rule list_step_refl [OF after_ok [OF u] fr same_vol_refl])
    ultimately show ?thesis using that len bl True x(1) by simp
  next
    case False
    note y = x(2) [OF False]
    have eo: "ext_ok fs' (entry_at fs p)" using y g by simp
    have new: "new_ext_ok fs' ps (start_block (entry_at fs p)) (end_block (entry_at fs p))"
      using eo y v(8) [OF own] bl by (simp add: new_ext_ok_def ext_ok_def)
    show ?thesis
    proof (rule del_file_list_add_ok [OF after_ok [OF u] fr len new])
      fix e' fs'' assume "\<forall>i. \<not> unused fs' i"
      then show ?thesis using room by blast
    next
      fix e' fs'' ps'
      assume h: "del_file_list_add fs' entr (start_block (entry_at fs p)) (end_block (entry_at fs p)) = (0, e', fs'')"
        "length e' = 64" "list_step fs' ps fs'' ps'"
        "\<forall>q \<in> set ps' - set ps. entry_type (entry_at fs' q) = entry_code UNUSED_ENTRY"
        "blocks (entry_at fs'') ps' = blocks (entry_at fs') ps \<union> {unat (start_block (entry_at fs p)) .. unat (end_block (entry_at fs p))}"
      show ?thesis using that [OF h(1-3)] h(4,5) y bl s(1) by simp
    qed
  qed
qed

text \<open>Deleting takes the file out of the volume, whether it still has a name, which goes with it, or not.
  Slots that were unused stay so when there are no blocks to give back.\<close>

lemma sfs_delete_any:
  assumes vol: "volume_ok fs ps" and len: "length e = 64" and own: "owns fs ps p"
  obtains fs' ps' where "sfs_delete fs e p = (0, fs')" "sfs_errno fs' = 0" "volume_ok fs' ps'"
    "blocks (entry_at fs') ps' = blocks (entry_at fs) ps \<union> file_ext (entry_at fs p)" "\<not> owns fs' ps' p"
    "\<And>q. owns fs ps q \<Longrightarrow> q \<noteq> p \<Longrightarrow> owns fs' ps' q \<and> entry_at fs' q = entry_at fs q"
    "entry_type (entry_at fs p) \<noteq> entry_code FILE_ENTRY \<Longrightarrow> lookup_file fs' = lookup_file fs"
    "\<And>path path'. lookup_file fs path = Some p \<Longrightarrow>
       lookup_file fs' path' = (if cstr path' = cstr path then None else lookup_file fs path')"
    "lookup_dir fs' = lookup_dir fs"
    "\<exists>b. after fs (entry_at fs') b fs'" "\<forall>q. q \<notin> set (index_offs fs) \<longrightarrow> entry_at fs' q = entry_at fs q"
    "space fs' ps' = space fs ps" "\<forall>q. owns fs' ps' q \<longleftrightarrow> owns fs ps q \<and> q \<noteq> p"
    "start_block (entry_at fs p) = 0 \<Longrightarrow> ps' = ps \<and> (\<forall>q. entry_type (entry_at fs q) = entry_code UNUSED_ENTRY \<longrightarrow>
       entry_type (entry_at fs' q) = entry_code UNUSED_ENTRY)"
proof -
  note v = volume_okD [OF vol]
  let ?e = "entry_at fs p" let ?u = "set_entry_type (entry_code UNUSED_ENTRY) ?e"
  have p: "p \<in> set (index_offs fs)" "p \<notin> set ps" using own by (simp_all add: owns_def)
  have lo: "laid_out fs" using v(2) by (simp add: dir_ok_def)
  have hd: "headed ?e" by (rule owns_headed [OF own])
  note sl = name_slots_in [OF lo p(1) hd]
  have vp: "slot_valid fs p" using in_index_offs [OF v(1) p(1)] by blast
  then have le: "length ?e = 64" by (rule length_entry_at)
  have lu: "length ?u = 64" "entry_type ?u = entry_code UNUSED_ENTRY" using le by (simp_all add: layout_simps)
  obtain fs1 where r: "read_entry fs p e = (64, ?e, fs1)" "unchanged fs fs1"
    by (rule read_entry_after [OF v(1) vp len])
  obtain fs2 e3 fs3 at where w: "write_entry fs1 p ?u = (64, fs2)"
    and fe: "free_entry fs2 ?u (p + 64) (uint (cont_entries ?e)) = (0, e3, fs3)" "length e3 = 64"
    and u3: "after fs at (del_begin fs) fs3" and at: "\<forall>q \<in> name_slots fs p. entry_type (at q) = entry_code UNUSED_ENTRY"
      "\<forall>q. q \<notin> name_slots fs p \<longrightarrow> at q = entry_at fs q"
    by (rule clear_name [OF v(2) r(2) p(1) hd lu])
  note s3 = after_sel [OF u3]
  have cl: "q \<in> name_slots fs p \<Longrightarrow> entry_type (at q) = entry_code UNUSED_ENTRY"
    "q \<notin> name_slots fs p \<Longrightarrow> at q = entry_at fs q" for q using at by blast+
  note cd = cleared [OF v(2) p(1) hd u3 at]
  have ft: "entry_type ?e \<noteq> entry_code DIR_ENTRY" using own by (auto simp: owns_def)
  have type_p: "entry_type (at p) = entry_code UNUSED_ENTRY" by (rule cl(1)) simp
  have out: "q \<notin> name_slots fs p" if "is_code (entry_type (entry_at fs q))" "q \<noteq> p" for q using sl(2) that by blast
  have ps: "at q = entry_at fs q" if "q \<in> set ps" for q
  proof (rule cl(2), rule out)
    show "is_code (entry_type (entry_at fs q))" unfolding free_entries_coded(1) [OF v(3) that] by (rule is_code_code)
  qed (use that p(2) in blast)
  obtain i where i: "unused fs3 i"
  proof -
    obtain i where "i < index_size fs" "p = index_off fs i" using p(1) by (auto simp: index_offs_def)
    then show thesis using that [of i] type_p s3 by (simp add: unused_def)
  qed
  obtain e4 fs4 ps' where ad: "del_file_list_add fs3 e3 (start_block ?e) (end_block ?e) = (0, e4, fs4)"
    "length e4 = 64" "list_step fs3 ps fs4 ps'"
    "\<forall>q \<in> set ps' - set ps. entry_type (at q) = entry_code UNUSED_ENTRY"
    "blocks (entry_at fs4) ps' = blocks (entry_at fs) ps \<union> file_ext ?e"
    by (rule give_back [OF vol u3 cd(1) fe(2) own ps i])
  let ?fs = "SET_ERRNO 0 (update fs4)"
  have run: "sfs_delete fs e p = (0, ?fs)"
    using r(1) w fe(1) ad(1) by (simp add: sfs_delete_def Let_def del: One_nat_def)
  have fr3: "free_ok fs3 ps" using free_ok_frame [OF u3 ps] v(3) by simp
  have bare3: "bare (entry_at fs3) ps" using v(4) ps s3(1) by (simp add: bare_def)
  have new3: "\<forall>q \<in> set ps' - set ps. entry_type (entry_at fs3 q) = entry_code UNUSED_ENTRY" using ad(4) s3(1) by simp
  note ln = list_step_names [OF cd(1) fr3 bare3 ad(3) new3]
  obtain b where u4: "after fs3 (entry_at fs4) b fs4" by (rule list_step_after [OF after_ok [OF u3] ad(3)])
  have u5: "after fs (entry_at fs4) b ?fs" using after_trans [OF u3 u4] by simp
  have u6: "unchanged fs4 ?fs" using after_refl [OF after_ok [OF u4]] by simp
  note s6 = after_sel [OF u6]
  have ls: "free_ok fs4 ps'" "\<And>q. q \<notin> set ps \<union> set ps' \<Longrightarrow> entry_at fs4 q = at q"
    "\<And>q. q \<in> set ps - set ps' \<Longrightarrow> entry_type (entry_at fs4 q) = entry_code UNUSED_ENTRY"
    using ad(3) s3(1) by (auto simp: list_step_def)
  have keep: "owns ?fs ps' q \<and> entry_at ?fs q = entry_at fs q" if "owns fs ps q" "q \<noteq> p" for q
  proof -
    have q: "at q = entry_at fs q" using cl(2) [OF out] headed_code [OF owns_headed] that by blast
    have "entry_type (at q) \<noteq> entry_code UNUSED_ENTRY" using that(1) unfolding q by (auto simp: owns_def)
    then have "q \<notin> set ps \<union> set ps'" using ad(4) that(1) by (auto simp: owns_def)
    then show ?thesis using ls(2) q that(1) s6(1) after_sel(7) [OF u5] by (simp add: owns_def)
  qed
  have origin: "owns fs ps q \<and> entry_at fs4 q = entry_at fs q" if "owns ?fs ps' q" for q
  proof -
    have q: "q \<in> set (index_offs fs)" "q \<notin> set ps'" "entry_type (entry_at fs4 q) \<noteq> entry_code UNUSED_ENTRY"
      using that s6(1) after_sel(7) [OF u5] by (auto simp: owns_def)
    then have "q \<notin> set ps" using ls(3) by blast
    then have a: "entry_at fs4 q = at q" using ls(2) q(2) by blast
    then have "q \<notin> name_slots fs p" using cl(1) q(3) by auto
    then show ?thesis using a cl(2) q(1) \<open>q \<notin> set ps\<close> that s6(1) by (simp add: owns_def)
  qed
  have gone: "\<not> owns ?fs ps' p"
  proof
    assume "owns ?fs ps' p"
    then have "p \<notin> set ps'" "entry_type (entry_at fs4 p) \<noteq> entry_code UNUSED_ENTRY"
      using s6(1) by (auto simp: owns_def)
    then show False using ls(2) [of p] p(2) type_p by simp
  qed
  have l3: "lookup K c ?fs = lookup K c fs3" if "K = FILE_ENTRY \<or> K = DIR_ENTRY" for K c
    using lookup_after [OF u6] ln(2) [OF that] by (simp add: fun_eq_iff)
  have "volume_ok ?fs ps'"
  proof (rule volume_change [OF vol u5, where p = p])
    show "dir_ok ?fs" by (rule dir_ok_after [OF u6 ln(1)])
    show "free_ok ?fs ps'" using free_ok_frame [OF u6] ls(1) by simp
    show "bare (entry_at fs4) ps'" by (rule ln(3))
    show "owns fs ps q \<and> file_ok fs (entry_at fs4 q) \<and> file_ext (entry_at fs4 q) = file_ext (entry_at fs q)"
      if "owns ?fs ps' q" "q \<noteq> p" for q
      using origin [OF that(1)] v(6) by simp
  qed (use gone ad(5) own in simp_all)
  moreover have "lookup_dir ?fs = lookup_dir fs" using l3 [of DIR_ENTRY 10] cd(2) [of DIR_ENTRY 10, OF _ ft] by simp
  moreover have "lookup_file ?fs = lookup_file fs" if "entry_type ?e \<noteq> entry_code FILE_ENTRY"
    using l3 [of FILE_ENTRY 34] cd(2) [of FILE_ENTRY 34, OF _ that] by simp
  moreover have "lookup_file ?fs path' = (if cstr path' = cstr path then None else lookup_file fs path')"
    if "lookup_file fs path = Some p" for path path'
  proof -
    have "unique_names FILE_ENTRY 34 fs" using v(2) by (simp add: dir_ok_def)
    then show ?thesis using l3 [of FILE_ENTRY 34] cd(3) [of FILE_ENTRY 34, OF _ _ that] by simp
  qed
  moreover have "ps' = ps \<and> (\<forall>q. entry_type (entry_at fs q) = entry_code UNUSED_ENTRY \<longrightarrow>
      entry_type (entry_at ?fs q) = entry_code UNUSED_ENTRY)" if z: "start_block ?e = 0"
  proof -
    have "end_block ?e = 0" using file_ext_add(1) [OF v(6) [OF own]] z by simp
    then have f4: "fs4 = fs3" using ad(1) z by (simp add: del_file_list_add_def)
    have "ps' = ps" using ls(1) fr3 by (auto simp: f4 free_ok_def free_list_def dest: dpath_det)
    then show ?thesis using cl s6(1) s3(1) f4 by metis
  qed
  moreover have "entry_at ?fs q = entry_at fs q" if "q \<notin> set (index_offs fs)" for q
  proof -
    have "q \<notin> set ps \<union> set ps'"
      using that free_entries_coded(2) [OF v(3)] free_entries_coded(2) [OF ls(1)] after_sel(7) [OF u4] s3(7) by auto
    moreover have "q \<notin> name_slots fs p" using sl(1) that by blast
    ultimately show ?thesis using ls(2) cl(2) s6(1) by simp
  qed
  moreover have "\<exists>b. after fs (entry_at ?fs) b ?fs" using u5 s6(1) by auto
  moreover have "space ?fs ps' = space fs ps"
    by (rule space_kept [where p = p]) (use origin keep gone own ad(5) s6(1) in auto)
  moreover have "\<forall>q. owns ?fs ps' q \<longleftrightarrow> owns fs ps q \<and> q \<noteq> p" using origin keep gone by blast
  ultimately show ?thesis using keep gone ad(5) s6(1) by (intro that [of ?fs ps', OF run]) simp_all
qed

lemma sfs_delete_ok:
  assumes "volume_ok fs ps" and "length e = 64" and "owns fs ps p"
    and del: "entry_type (entry_at fs p) = entry_code DEL_FILE_ENTRY"
  obtains fs' ps' where "sfs_delete fs e p = (0, fs')" "sfs_errno fs' = 0" "volume_ok fs' ps'"
    "blocks (entry_at fs') ps' = blocks (entry_at fs) ps \<union> file_ext (entry_at fs p)" "\<not> owns fs' ps' p"
    "\<And>q. owns fs ps q \<Longrightarrow> q \<noteq> p \<Longrightarrow> owns fs' ps' q \<and> entry_at fs' q = entry_at fs q"
    "lookup_file fs' = lookup_file fs" "lookup_dir fs' = lookup_dir fs"
    "\<exists>b. after fs (entry_at fs') b fs'" "\<forall>q. q \<notin> set (index_offs fs) \<longrightarrow> entry_at fs' q = entry_at fs q"
    "space fs' ps' = space fs ps" "\<forall>q. owns fs' ps' q \<longleftrightarrow> owns fs ps q \<and> q \<noteq> p"
  by (rule sfs_delete_any [OF assms(1-3)]) (use del that in auto)

end
