(* ===== verification/Contents.thy ===== *)
theory Contents
  imports Volume BlockTransfer
begin

text \<open>
  The bytes of the files: what src/lib/sfs/sfs_read.c returns and what sfs_write.c changes, on a
  volume in order.
\<close>

section \<open>The data area\<close>

definition contents :: "fs \<Rightarrow> u64 \<Rightarrow> bytes" where
  "contents fs p = seg (unat (start_block (entry_at fs p)) * unat (block_size fs))
     (unat (file_size (entry_at fs p))) (host_file fs)"

text \<open>The bytes before the index, as slots.\<close>

lemma data_area_frame:
  assumes ok: "fs_ok fs" and u: "after fs at b fs'" and same: "\<And>q. q \<notin> set (index_offs fs) \<Longrightarrow> at q = entry_at fs q"
  shows "take (unat (entry_start fs)) (host_file fs') = take (unat (entry_start fs)) (host_file fs)"
proof (rule nth_equalityI)
  note s = after_sel [OF u] and ib = index_bounds [OF ok]
  have st: "64 dvd unat (entry_start fs)" "unat (entry_start fs) \<le> length (host_file fs)"
    using ok by (auto simp: fs_ok_def)
  show "length (take (unat (entry_start fs)) (host_file fs')) = length (take (unat (entry_start fs)) (host_file fs))"
    using s(8) by simp
  fix i assume "i < length (take (unat (entry_start fs)) (host_file fs'))"
  then have i: "i < unat (entry_start fs)" by simp
  let ?q = "word_of_nat (64 * (i div 64)) :: u64"
  have le: "64 * (i div 64) + 64 \<le> unat (entry_start fs)" using block_in_range [OF st(1) i] by simp
  have uq: "unat ?q = 64 * (i div 64)" unfolding unat_of_nat by (rule mod_less) (use le ib in simp)
  have valid: "slot_valid fs ?q" using uq le st(2) by (simp add: slot_valid_def)
  have "?q \<notin> set (index_offs fs)"
  proof
    assume "?q \<in> set (index_offs fs)"
    then obtain j where "j < index_size fs" "?q = index_off fs j" by (auto simp: index_offs_def)
    then have "unat (entry_start fs) \<le> unat ?q" using unat_index_off [OF ok, of j] by simp
    then show False using uq le by linarith
  qed
  then have "entry_at fs' ?q = entry_at fs ?q" using same s(1) by simp
  then have "seg (64 * (i div 64)) 64 (host_file fs') = seg (64 * (i div 64)) 64 (host_file fs)"
    using valid s(2) uq by (simp add: entry_at_def)
  from arg_cong [OF this, of "\<lambda>xs. xs ! (i mod 64)"] show "take (unat (entry_start fs)) (host_file fs') ! i = take (unat (entry_start fs)) (host_file fs) ! i"
    using le i st(2) s(8) by (simp add: nth_seg)
qed

lemma seg_take: "p + n \<le> m \<Longrightarrow> seg p n (take m xs) = seg p n xs"
  by (simp add: seg_def drop_take min_def)

lemma take_seg: "m \<le> n \<Longrightarrow> take m (seg p n xs) = seg p m xs"
  by (simp add: seg_def min_def)

lemma file_ext_area:
  assumes ok: "fs_ok fs" and fo: "file_ok fs e" and bl: "below fs (file_ext e)"
  shows "unat (start_block e) * unat (block_size fs) + card (file_ext e) * unat (block_size fs) \<le> unat (entry_start fs)"
    and "unat (file_size e) \<le> card (file_ext e) * unat (block_size fs)"
    and "card (file_ext e) = needed fs (file_size e)" and "unat (file_size e) < 2 ^ 63"
    and "\<And>b. b \<in> file_ext e \<longleftrightarrow> unat (start_block e) \<le> b \<and> b < unat (start_block e) + card (file_ext e)"
proof -
  have z: "needed fs 0 = 0" using block_size_bounds(1) [OF ok] by (simp add: needed_def)
  consider (none) "start_block e = 0" "file_ext e = {}" "file_size e = 0"
    | (some) "file_ext e = ext e" "ext e = {unat (start_block e) .. unat (end_block e)}" "ext_ok fs e"
        "card (ext e) = needed fs (file_size e)" "unat (file_size e) < 2 ^ 63"
  proof (cases "start_block e = 0")
    case True
    then show ?thesis using fo none by (auto simp: file_ok_def file_ext_def ext_ok_def)
  next
    case False
    then show ?thesis using fo some by (auto simp: file_ok_def file_ext_def ext_def)
  qed
  note cases = this
  show c: "card (file_ext e) = needed fs (file_size e)" "unat (file_size e) < 2 ^ 63"
    using cases z by (cases, simp_all)+
  show "unat (file_size e) \<le> card (file_ext e) * unat (block_size fs)"
    unfolding c(1) using get_real_size_ok(5) [OF ok c(2)] by (simp add: mult.commute)
  show "b \<in> file_ext e \<longleftrightarrow> unat (start_block e) \<le> b \<and> b < unat (start_block e) + card (file_ext e)" for b
    using cases by cases (simp_all add: ext_ok_def, arith)
  show "unat (start_block e) * unat (block_size fs) + card (file_ext e) * unat (block_size fs) \<le> unat (entry_start fs)"
    using cases
  proof cases
    case some
    have "unat (end_block e) \<in> file_ext e" using some(1-3) by (simp add: ext_ok_def)
    then have "Suc (unat (end_block e)) * unat (block_size fs) \<le> unat (entry_start fs)" using bl by (simp add: below_def)
    moreover have "unat (start_block e) + card (file_ext e) = Suc (unat (end_block e))"
      using some(1-3) by (simp add: ext_ok_def)
    ultimately show ?thesis by (simp add: add_mult_distrib [symmetric])
  qed simp
qed

lemma file_ext_run:
  assumes "fs_ok fs" and "file_ok fs e" and "below fs (file_ext e)"
  shows "{unat (start_block e) ..< unat (start_block e) + card (file_ext e)} = file_ext e"
  by (simp only: set_eq_iff atLeastLessThan_iff file_ext_area(5) [OF assms] simp_thms)

text \<open>The bytes of a file do not depend on the index, except for its entry.\<close>

lemma contents_frame:
  assumes vol: "volume_ok fs ps" and own: "owns fs ps q" and u: "after fs at b fs'"
    and area: "take (unat (entry_start fs)) (host_file fs') = take (unat (entry_start fs)) (host_file fs)"
    and e: "start_block (at q) = start_block (entry_at fs q)" "file_size (at q) = file_size (entry_at fs q)"
  shows "contents fs' q = contents fs q"
proof -
  note v = volume_okD [OF vol] and s = after_sel [OF u]
  note x = file_ext_area [OF v(1) v(6,7) [OF own]]
  let ?p = "unat (start_block (entry_at fs q)) * unat (block_size fs)" and ?n = "unat (file_size (entry_at fs q))"
  have "?p + ?n \<le> unat (entry_start fs)" using x(1,2) by linarith
  then have "seg ?p ?n (host_file fs') = seg ?p ?n (host_file fs)"
    using seg_take [of ?p ?n "unat (entry_start fs)" "host_file fs'"] seg_take [of ?p ?n "unat (entry_start fs)" "host_file fs"]
      area by simp
  then show ?thesis using e s by (simp add: contents_def)
qed

section \<open>Reading\<close>

text \<open>Positions inside a file as offsets on the device.\<close>

lemma file_pos:
  assumes ok: "fs_ok fs" and fo: "file_ok fs e" and bl: "below fs (file_ext e)"
    and off: "unat off \<le> card (file_ext e) * unat (block_size fs)"
  shows "unat (start_block e * block_size fs + off) = unat (start_block e) * unat (block_size fs) + unat off"
    and "unat (start_block e * block_size fs + off) \<le> unat (entry_start fs)"
    and "unat (start_block e * block_size fs + off) mod unat (block_size fs) = unat off mod unat (block_size fs)"
    and "unat (block_size fs) dvd unat (start_block e * block_size fs + off) \<longleftrightarrow> unat (block_size fs) dvd unat off"
    and "unat (entry_start fs) < length (host_file fs)"
proof -
  note x = file_ext_area(1) [OF ok fo bl] and ib = index_bounds [OF ok]
  let ?s = "unat (start_block e) * unat (block_size fs)"
  have b: "?s + unat off \<le> unat (entry_start fs)" "unat (entry_start fs) < 2 ^ 63" using x off ib by linarith+
  have m: "unat (start_block e * block_size fs) = ?s" using b by (intro unat_mult_small) simp
  then show u: "unat (start_block e * block_size fs + off) = ?s + unat off" using b by (subst unat_add_small) auto
  show "unat (start_block e * block_size fs + off) \<le> unat (entry_start fs)" unfolding u by (rule b)
  show "unat (start_block e * block_size fs + off) mod unat (block_size fs) = unat off mod unat (block_size fs)"
    unfolding u by simp
  show "unat (block_size fs) dvd unat (start_block e * block_size fs + off) \<longleftrightarrow> unat (block_size fs) dvd unat off"
    unfolding u by (rule dvd_add_right_iff) simp
  show "unat (entry_start fs) < length (host_file fs)" using ok by (auto simp: fs_ok_def)
qed

lemma owns_valid:
  assumes "volume_ok fs ps" and "owns fs ps p"
  shows "slot_valid fs p" and "length (entry_at fs p) = 64" and "p \<noteq> 0"
  using in_index_offs [OF volume_okD(1) [OF assms(1)], of p] length_entry_at [of fs p] assms(2)
  by (auto simp: owns_def)

lemma host_same: "fs_ok fs \<Longrightarrow> slot_valid fs p \<Longrightarrow> length e = 64 \<Longrightarrow> read_entry fs p e = (64, x, fs') \<Longrightarrow> host_file fs' = host_file fs"
  by (rule read_entry_fs [of fs p e]) (use same_vol_sel(6) in auto)

text \<open>A read inside one block, or from a block boundary, on a device in order.\<close>

lemma read_data_exact:
  assumes dev: "dev_ok d" and off: "unat off < length (host_file d)" "unat off + unat sz \<le> length (host_file d)"
    and room: "unat sz \<le> length data"
    and al: "unat off mod unat (block_size d) + unat sz \<le> unat (block_size d) \<or> unat (block_size d) dvd unat off"
  obtains d' where "read_data d off data sz = (sz, patch 0 (seg (unat off) (unat sz) (host_file d)) data, d')"
    "host_file d' = host_file d"
proof (cases "unat off mod unat (block_size d) + unat sz \<le> unat (block_size d)")
  case True
  show ?thesis
    by (rule that [OF read_data_within_block [OF dev off(1) True room]]) (rule core_eqD(1) [OF core_load])
next
  case False
  then have al: "unat (block_size d) dvd unat off" "unat (block_size d) < unat sz" using al by auto
  show ?thesis using read_data_aligned [OF dev off(2) al room] that core_eqD(1) by blast
qed

lemma sfs_read_ok:
  assumes vol: "volume_ok fs ps" and own: "owns fs ps p" and len: "length e = 64"
    and room: "unat sz \<le> length data" and sum: "unat off + unat sz < 2 ^ 64"
    and al: "unat off mod unat (block_size fs) + unat sz \<le> unat (block_size fs) \<or> unat (block_size fs) dvd unat off"
  defines "fz \<equiv> unat (file_size (entry_at fs p))"
  obtains (beyond) fs' where "fz < unat off" "sfs_read fs e p data sz off = (-1, data, fs')" "sfs_errno fs' = EINVAL"
      "host_file fs' = host_file fs"
  | (bytes) fs' where "unat off \<le> fz"
      "sfs_read fs e p data sz off = (word_of_nat (min (unat sz) (fz - unat off)),
         patch 0 (take (unat sz) (drop (unat off) (contents fs p))) data, fs')" "host_file fs' = host_file fs"
proof -
  note v = volume_okD [OF vol] and ov = owns_valid [OF vol own]
  let ?e = "entry_at fs p"
  obtain fs1 where r: "read_entry fs p e = (64, ?e, fs1)" "unchanged fs fs1" by (rule read_entry_after [OF v(1) ov(1) len])
  note s = after_sel [OF r(2)] and h = host_same [OF v(1) ov(1) len r(1)]
  show ?thesis
  proof (cases "fz < unat off")
    case True
    then have "off > file_size ?e" by (simp add: fz_def word_less_nat_alt)
    then show ?thesis using beyond [OF True, of "SET_ERRNO EINVAL fs1"] r(1) h by (simp add: sfs_read_def SET_ERRNO_def)
  next
    case False
    then have le: "unat off \<le> fz" by simp
    define n where "n = (if off + sz > file_size ?e then file_size ?e - off else sz)"
    have un: "unat n = min (unat sz) (fz - unat off)"
      using sum le by (simp add: n_def fz_def word_less_nat_alt unat_add_small unat_sub_small min_def) arith
    have nw: "word_of_nat (min (unat sz) (fz - unat off)) = n" unfolding un [symmetric] by simp
    note x = file_ext_area [OF v(1) v(6,7) [OF own]]
    have "unat off \<le> card (file_ext ?e) * unat (block_size fs)" using le x(2) by (simp add: fz_def)
    note fp = file_pos [OF v(1) v(6,7) [OF own] this]
    let ?f = "SET_ERRNO 0 (update fs1)" and ?pos = "start_block ?e * block_size fs + off"
    have f: "dev_ok ?f" "host_file ?f = host_file fs" "block_size ?f = block_size fs"
      using after_ok [OF r(2)] h s(4) by (simp_all add: fs_ok_def entry_dev_ok_def update_def get_time_def
          dev_ok_def geom_ok_def cache_ok_def disk_block_def)
    have end_: "unat ?pos + unat n \<le> length (host_file ?f)"
      using fp(1,5) un x(1,2) f(2) le by (simp add: fz_def)
    have al': "unat ?pos mod unat (block_size ?f) + unat n \<le> unat (block_size ?f) \<or> unat (block_size ?f) dvd unat ?pos"
      using al fp(3,4) f(3) un by auto
    have pos_lt: "unat ?pos < length (host_file ?f)" using fp(2,5) f(2) by simp
    have nr: "unat n \<le> length data" using un room by simp
    obtain d' where d': "read_data ?f ?pos data n = (n, patch 0 (seg (unat ?pos) (unat n) (host_file ?f)) data, d')"
      "host_file d' = host_file ?f"
      by (rule read_data_exact [OF f(1) pos_lt end_ nr al'])
    have seg: "seg (unat ?pos) (unat n) (host_file fs) = take (unat sz) (drop (unat off) (contents fs p))"
      unfolding contents_def fp(1) un seg_def fz_def [symmetric]
      by (simp add: drop_take min.commute add.commute)
    have run: "sfs_read fs e p data sz off = read_data ?f ?pos data n"
      using r(1) False s(4) by (simp add: sfs_read_def Let_def n_def fz_def word_less_nat_alt)
    show ?thesis
      by (rule bytes [of d', OF le]) (use run d' seg f(2) nw in simp_all)
  qed
qed

section \<open>Writing\<close>

text \<open>A change of the data area alone keeps the invariant and the names.\<close>

lemma index_same:
  assumes ok: "dir_ok fs" and u: "after fs at b fs'" and same: "\<forall>q \<in> set (index_offs fs). at q = entry_at fs q"
  shows "dir_ok fs'" and "kind = FILE_ENTRY \<or> kind = DIR_ENTRY \<Longrightarrow> lookup kind c fs' = lookup kind c fs"
proof -
  have d: "fs_ok fs" "laid_out fs" "names_ok FILE_ENTRY 34 fs" "names_ok DIR_ENTRY 10 fs"
    "unique_names FILE_ENTRY 34 fs" "unique_names DIR_ENTRY 10 fs"
    using ok by (simp_all add: dir_ok_def dir_names_ok_def)
  note s = after_sel [OF u]
  let ?Q = "- set (index_offs fs)"
  have same': "\<And>q. q \<in> set (index_offs fs) \<Longrightarrow> entry_at fs' q = entry_at fs q" using same s(1) by simp
  have ap: "apart fs ?Q"
    unfolding apart_def
  proof (intro ballI impI allI)
    fix p k assume p: "p \<in> set (index_offs fs) - ?Q" "headed (entry_at fs p)" "k \<le> unat (cont_entries (entry_at fs p))"
    show "p + 64 * word_of_nat k \<notin> ?Q" using p d(2) by (cases "k = 0") (auto simp: laid_out_def)
  qed
  have ed: "edit_ok fs ?Q (entry_at fs')" using same' by (auto simp: edit_ok_def)
  have h: "has_name K c (entry_at fs') path q = has_name K c (entry_at fs) path q"
    if "q \<in> set (index_offs fs)" "K = FILE_ENTRY \<or> K = DIR_ENTRY" for K c path q
    by (rule has_name_edit [OF ap ed _ that(2)]) (use that in simp)
  show "lookup kind c fs' = lookup kind c fs" if "kind = FILE_ENTRY \<or> kind = DIR_ENTRY"
    unfolding lookup_def s(7) fun_eq_iff by (intro allI find_cong) (use h that in blast)
  have "names_ok K c fs'" if "names_ok K c fs" "K = FILE_ENTRY \<or> K = DIR_ENTRY" for K c
    by (rule names_ok_edit [OF that(1) ap ed s(7,2) that(2)]) simp
  moreover have "unique_names K c fs'" if un: "unique_names K c fs" "K = FILE_ENTRY \<or> K = DIR_ENTRY" for K c
  proof -
    have e: "entry_name c (entry_at fs') q = entry_name c (entry_at fs) q"
      if "q \<in> set (index_offs fs)" "entry_type (entry_at fs q) = entry_code K" for q
      unfolding entry_name_def
      by (subst has_name_frame [OF ap, of q "entry_at fs'"]) (use that un(2) same' in \<open>auto intro: headed_kind\<close>)
    show ?thesis using un(1) same' e unfolding unique_names_def s(7) by auto
  qed
  ultimately show "dir_ok fs'"
    unfolding dir_ok_def dir_names_ok_def using after_ok [OF u] laid_out_edit [OF d(2) ap ed s(7)] d(3-6) by blast
qed

lemma data_change_volume:
  assumes vol: "volume_ok fs ps" and u: "after fs at (del_begin fs) fs'" and same: "\<forall>q \<in> set (index_offs fs). at q = entry_at fs q"
  shows "volume_ok fs' ps" and "owns fs' ps q = owns fs ps q" and "space fs' ps = space fs ps"
proof -
  note v = volume_okD [OF vol] and s = after_sel [OF u] and g = geometry_after [OF u]
  have ps: "at q = entry_at fs q" if "q \<in> set ps" for q using free_entries_coded(2) [OF v(3) that] same by blast
  have o': "owns fs' ps q = owns fs ps q" for q
    using same s(1,7) by (auto simp: owns_def)
  then show "owns fs' ps q = owns fs ps q" .
  have e: "at q = entry_at fs q" if "owns fs ps q" for q using same that by (simp add: owns_def)
  have bl: "blocks at ps = blocks (entry_at fs) ps" using ps by (rule blocks_frame)
  have "free_ok fs' ps" using free_ok_frame [OF u ps] v(3) by simp
  moreover have "bare at ps" using v(4) ps by (simp add: bare_def)
  moreover show "space fs' ps = space fs ps" using o' e bl s(1) by (auto simp: space_def)
  ultimately show "volume_ok fs' ps"
    unfolding volume_ok_def s(1) g o' bl using index_same(1) [OF v(2) u same] v(5-9) e by simp
qed

lemma data_patched:
  assumes ok: "fs_ok fs" and dev: "dev_ok fs'" and pos: "off + length data \<le> unat (entry_start fs)"
    and core: "core fs' = (core fs)\<lparr>host_file := patch off data (host_file fs)\<rparr>"
  shows "after fs (entry_at fs') (del_begin fs) fs'" and "host_file fs' = patch off data (host_file fs)"
    and "\<forall>q \<in> set (index_offs fs). entry_at fs' q = entry_at fs q" and "sfs_errno fs' = sfs_errno fs"
proof -
  have st: "unat (entry_start fs) < length (host_file fs)" using ok by (auto simp: fs_ok_def)
  have a: "off + length data \<le> length (host_file fs)" using pos st by linarith
  show h: "host_file fs' = patch off data (host_file fs)" using arg_cong [OF core, of host_file] by simp
  have len: "length (host_file fs') = length (host_file fs)" using h a by simp
  have f: "entry_start fs' = entry_start fs" "vol_ident fs' = vol_ident fs" "del_begin fs' = del_begin fs"
    "block_size fs' = block_size fs" "sfs_errno fs' = sfs_errno fs"
    using arg_cong [OF core, of entry_start] arg_cong [OF core, of vol_ident] arg_cong [OF core, of del_begin]
      arg_cong [OF core, of block_size] arg_cong [OF core, of sfs_errno] by simp_all
  have v: "slot_valid fs' = slot_valid fs" by (simp add: slot_valid_def len fun_eq_iff)
  have "fs_ok fs'" using ok dev f len by (simp add: fs_ok_def entry_dev_ok_def)
  then show u: "after fs (entry_at fs') (del_begin fs) fs'" using f len v by (simp add: after_def)
  have "entry_at fs' q = entry_at fs q" if "q \<in> set (index_offs fs)" for q
  proof -
    obtain j where "j < index_size fs" "q = index_off fs j" using \<open>q \<in> _\<close> by (auto simp: index_offs_def)
    then have "unat (entry_start fs) \<le> unat q" using unat_index_off [OF ok, of j] by simp
    then have "off + length data \<le> unat q" using pos by simp
    then show ?thesis unfolding entry_at_def v h using in_index_offs [OF ok that] a
      by (subst seg_patch_other) (auto simp: slot_valid_def)
  qed
  then show "\<forall>q \<in> set (index_offs fs). entry_at fs' q = entry_at fs q" by blast
  show "sfs_errno fs' = sfs_errno fs" by (rule f(5))
qed

lemma write_data_area:
  assumes ok: "fs_ok fs" and pos: "unat off + unat sz \<le> unat (entry_start fs)" and room: "unat sz \<le> length data"
  obtains fs' where "write_data fs off data sz = (sz, fs')" "after fs (entry_at fs') (del_begin fs) fs'"
    "host_file fs' = patch (unat off) (take (unat sz) data) (host_file fs)"
    "\<forall>q \<in> set (index_offs fs). entry_at fs' q = entry_at fs q" "sfs_errno fs' = sfs_errno fs"
proof -
  have st: "unat (entry_start fs) < length (host_file fs)" using ok by (auto simp: fs_ok_def)
  have dev: "dev_ok fs" using ok by (simp add: fs_ok_def entry_dev_ok_def)
  have a: "unat off < length (host_file fs)" "unat off + unat sz \<le> length (host_file fs)" using pos st by linarith+
  obtain fs' where w: "write_data fs off data sz = (sz, fs')" "dev_ok fs'"
    "core fs' = (core fs)\<lparr>host_file := patch (unat off) (take (unat sz) data) (host_file fs)\<rparr>"
    using write_data_ok [OF dev a room] by blast
  have p: "unat off + length (take (unat sz) data) \<le> unat (entry_start fs)" using pos room by simp
  show ?thesis by (rule that [OF w(1) data_patched [OF ok w(2) p w(3)]])
qed

text \<open>An entry of a file that keeps its name.\<close>

lemma same_names:
  assumes "index_offs fs' = index_offs fs" and "slot_valid fs' = slot_valid fs"
    and "\<forall>q \<in> set (index_offs fs). entry_type (entry_at fs' q) = entry_type (entry_at fs q)"
    and "\<forall>q \<in> set (index_offs fs). entry_type (entry_at fs q) = entry_code K \<longrightarrow>
      name_bytes c (entry_at fs') q = name_bytes c (entry_at fs) q
      \<and> cont_entries (entry_at fs' q) = cont_entries (entry_at fs q)"
  shows "names_ok K c fs' = names_ok K c fs" and "unique_names K c fs' = unique_names K c fs"
    and "lookup K c fs' = lookup K c fs"
proof -
  have h: "has_name K c (entry_at fs') path q = has_name K c (entry_at fs) path q" if "q \<in> set (index_offs fs)" for path q
    using assms(3,4) that by (auto simp: has_name_def entry_name_def)
  show "lookup K c fs' = lookup K c fs"
    unfolding lookup_def assms(1) fun_eq_iff by (intro allI find_cong) (use h in blast)
  show "names_ok K c fs' = names_ok K c fs"
    using assms by (auto simp: names_ok_def name_ok_def)
  show "unique_names K c fs' = unique_names K c fs"
    unfolding unique_names_def assms(1) entry_name_def using assms(3,4) by auto
qed

lemma renewed:
  assumes ok: "dir_ok fs" and p: "p \<in> set (index_offs fs)" "headed (entry_at fs p)" "entry_type (entry_at fs p) \<noteq> entry_code DIR_ENTRY"
    and u: "after fs ((entry_at fs)(p := e)) b fs'"
    and e: "entry_type e = entry_type (entry_at fs p)" "cont_entries e = cont_entries (entry_at fs p)"
      "drop 34 e = drop 34 (entry_at fs p)"
  shows "dir_ok fs'" and "lookup_file fs' = lookup_file fs" and "lookup_dir fs' = lookup_dir fs"
proof -
  have d: "fs_ok fs" "laid_out fs" "names_ok FILE_ENTRY 34 fs" "names_ok DIR_ENTRY 10 fs"
    "unique_names FILE_ENTRY 34 fs" "unique_names DIR_ENTRY 10 fs"
    using ok by (simp_all add: dir_ok_def dir_names_ok_def)
  note s = after_sel [OF u]
  have "is_code (entry_type (entry_at fs q))" if "q \<in> {p}" for q using that headed_code [OF p(2)] by simp
  then have ap: "apart fs {p}" by (rule apart_codes [OF d(2)])
  have ed: "edit_ok fs {p} (entry_at fs')"
    using d(2) p e cont_slot_other by (auto simp: edit_ok_def s laid_out_def simp del: One_nat_def)
  have out: "entry_at fs' q = entry_at fs q" if "q \<noteq> p" for q using that s(1) by simp
  have t: "\<forall>q \<in> set (index_offs fs). entry_type (entry_at fs' q) = entry_type (entry_at fs q)"
    using s(1) e(1) by simp
  have cs: "conts (entry_at fs') (p + 64) (unat (cont_entries (entry_at fs p))) = conts (entry_at fs) (p + 64) (unat (cont_entries (entry_at fs p)))"
  proof (rule conts_cong)
    fix k assume "k < unat (cont_entries (entry_at fs p))"
    then have "p + 64 * word_of_nat (Suc k) \<noteq> p" by (intro cont_slot_other [of _ "cont_entries (entry_at fs p)"]) auto
    then show "entry_at fs' (p + 64 + 64 * word_of_nat k) = entry_at fs (p + 64 + 64 * word_of_nat k)"
      by (intro out) (simp add: algebra_simps)
  qed
  have nb: "name_bytes c (entry_at fs') q = name_bytes c (entry_at fs) q
      \<and> cont_entries (entry_at fs' q) = cont_entries (entry_at fs q)"
    if "q \<in> set (index_offs fs)" "entry_type (entry_at fs q) = entry_code K" "K = FILE_ENTRY \<and> c = 34 \<or> K = DIR_ENTRY \<and> c = 10" for K c q
  proof (cases "q = p")
    case True
    then have "c = 34" using that(2,3) p(3) by auto
    then show ?thesis using True cs e s(1) by (simp add: name_bytes_def del: One_nat_def)
  next
    case False
    have "name_bytes c (entry_at fs') q = name_bytes c (entry_at fs) q"
      by (rule has_name_frame [OF ap]) (use that False out headed_kind [OF that(2)] in auto)
    then show ?thesis using out [OF False] by simp
  qed
  have f: "\<forall>q \<in> set (index_offs fs). entry_type (entry_at fs q) = entry_code FILE_ENTRY \<longrightarrow>
      name_bytes 34 (entry_at fs') q = name_bytes 34 (entry_at fs) q \<and> cont_entries (entry_at fs' q) = cont_entries (entry_at fs q)"
    using nb [of _ FILE_ENTRY 34] by blast
  have g: "\<forall>q \<in> set (index_offs fs). entry_type (entry_at fs q) = entry_code DIR_ENTRY \<longrightarrow>
      name_bytes 10 (entry_at fs') q = name_bytes 10 (entry_at fs) q \<and> cont_entries (entry_at fs' q) = cont_entries (entry_at fs q)"
    using nb [of _ DIR_ENTRY 10] by blast
  note sf = same_names [OF s(7,2) t f] and sd = same_names [OF s(7,2) t g]
  show "lookup_file fs' = lookup_file fs" "lookup_dir fs' = lookup_dir fs" by (rule sf(3), rule sd(3))
  show "dir_ok fs'"
    unfolding dir_ok_def dir_names_ok_def using after_ok [OF u] laid_out_edit [OF d(2) ap ed s(7)] d(3-6) sf sd by blast
qed

lemma seg_patched:
  assumes "off \<le> z" and "a + off + length d \<le> length h" and "m = max z (off + length d)"
  shows "seg a m (patch (a + off) d h) = take off (seg a z h) @ d @ drop (off + length d) (seg a z h)"
proof -
  have "drop a (patch (a + off) d h) = patch off d (drop a h)"
    using assms(2) by (simp add: patch_def drop_take drop_drop add.commute add.left_commute)
  then have "seg a m (patch (a + off) d h) = take m (take off (drop a h) @ d @ drop (off + length d) (drop a h))"
    by (simp add: seg_def patch_def)
  also have "\<dots> = take off (drop a h) @ d @ take (m - off - length d) (drop (off + length d) (drop a h))"
  proof -
    have "length (take off (drop a h)) = off" using assms(2) by simp
    moreover have "off \<le> m" "length d \<le> m - off" using assms(3) by auto
    ultimately show ?thesis by (simp only: take_append take_all)
  qed
  also have "take (m - off - length d) (drop (off + length d) (drop a h)) = drop (off + length d) (take z (drop a h))"
    unfolding drop_take using assms(1,3) by (simp add: max_def)
  finally show ?thesis using assms(1) by (simp add: seg_def min_def)
qed

text \<open>Bytes put into one run of blocks leave those of another run as they are.\<close>

lemma runs_apart:
  fixes a b c k n :: nat
  assumes len: "a * n + off + length d \<le> length h" and dj: "{a ..< a + c} \<inter> {b ..< b + k} = {}"
    and fit: "off + length d \<le> c * n" "m \<le> k * n"
  shows "seg (b * n) m (patch (a * n + off) d h) = seg (b * n) m h"
proof (cases "c = 0 \<or> k = 0")
  case True
  then consider "d = []" | "m = 0" using fit by auto
  then show ?thesis by cases (simp_all add: patch_def)
next
  case False
  have "a + c \<le> b \<or> b + k \<le> a"
  proof (rule ccontr)
    assume "\<not> ?thesis"
    then have "max a b \<in> {a ..< a + c} \<inter> {b ..< b + k}" using False by (auto simp: max_def)
    then show False using dj by blast
  qed
  then have "(a + c) * n \<le> b * n \<or> (b + k) * n \<le> a * n" by (meson mult_le_mono1)
  then have "b * n + m \<le> a * n + off \<or> a * n + off + length d \<le> b * n"
    using fit by (auto simp: add_mult_distrib)
  then show ?thesis by (intro seg_patch_other [OF len]) blast
qed

text \<open>A write to one file leaves the bytes of the others.\<close>

lemma contents_apart:
  assumes vol: "volume_ok fs ps" and pq: "owns fs ps p" "owns fs ps q" "p \<noteq> q"
    and off: "unat off + length d \<le> card (file_ext (entry_at fs p)) * unat (block_size fs)"
    and u: "after fs at b fs'"
    and h: "host_file fs' = patch (unat (start_block (entry_at fs p)) * unat (block_size fs) + unat off) d (host_file fs)"
    and same: "at q = entry_at fs q"
  shows "contents fs' q = contents fs q"
proof -
  note v = volume_okD [OF vol] and s = after_sel [OF u]
  note xp = file_ext_area [OF v(1) v(6,7) [OF pq(1)]] and xq = file_ext_area [OF v(1) v(6,7) [OF pq(2)]]
  let ?a = "unat (start_block (entry_at fs p))" and ?c = "card (file_ext (entry_at fs p))"
    and ?b = "unat (start_block (entry_at fs q))" and ?k = "card (file_ext (entry_at fs q))"
  have len: "?a * unat (block_size fs) + unat off + length d \<le> length (host_file fs)"
    using off xp(1) v(1) by (auto simp: fs_ok_def)
  note run = file_ext_run [OF v(1) v(6,7) [OF pq(1)]] file_ext_run [OF v(1) v(6,7) [OF pq(2)]]
  have "{?a ..< ?a + ?c} \<inter> {?b ..< ?b + ?k} = {}" unfolding run by (rule v(9) [OF pq])
  from runs_apart [OF len this off xq(2)] show ?thesis
    unfolding contents_def s(1) same s(4) h .
qed

lemma write_in_extent:
  assumes vol: "volume_ok fs ps" and own: "owns fs ps p" and room: "length data = unat sz"
    and fit: "unat off + unat sz \<le> card (file_ext (entry_at fs p)) * unat (block_size fs)"
  obtains fs' where "write_data fs (start_block (entry_at fs p) * block_size fs + off) data sz = (sz, fs')"
    "volume_ok fs' ps" "space fs' ps = space fs ps" "sfs_errno fs' = sfs_errno fs"
    "\<forall>q. owns fs ps q \<longrightarrow> owns fs' ps q \<and> entry_at fs' q = entry_at fs q"
    "\<forall>q. owns fs ps q \<and> q \<noteq> p \<longrightarrow> contents fs' q = contents fs q"
    "host_file fs' = patch (unat (start_block (entry_at fs p)) * unat (block_size fs) + unat off) data (host_file fs)"
    "unat (start_block (entry_at fs p)) * unat (block_size fs) + unat off + unat sz \<le> length (host_file fs)"
    "block_size fs' = block_size fs" "lookup_file fs' = lookup_file fs" "lookup_dir fs' = lookup_dir fs"
    "\<forall>q. owns fs' ps q = owns fs ps q"
proof -
  note v = volume_okD [OF vol]
  note x = file_ext_area [OF v(1) v(6,7) [OF own]]
  have "unat off \<le> card (file_ext (entry_at fs p)) * unat (block_size fs)" using fit by linarith
  note fp = file_pos [OF v(1) v(6,7) [OF own] this]
  let ?pos = "start_block (entry_at fs p) * block_size fs + off"
  have area: "unat ?pos + unat sz \<le> unat (entry_start fs)" using x(1) fit fp(1) by linarith
  obtain fs' where wr: "write_data fs ?pos data sz = (sz, fs')" "after fs (entry_at fs') (del_begin fs) fs'"
    "host_file fs' = patch (unat ?pos) (take (unat sz) data) (host_file fs)"
    "\<forall>q \<in> set (index_offs fs). entry_at fs' q = entry_at fs q" "sfs_errno fs' = sfs_errno fs"
    by (rule write_data_area [OF v(1) area eq_imp_le [OF room [symmetric]]])
  have h: "host_file fs' = patch (unat (start_block (entry_at fs p)) * unat (block_size fs) + unat off) data (host_file fs)"
    using wr(3) fp(1) room by simp
  note dv = data_change_volume [OF vol wr(2,4)]
  have e: "entry_at fs' q = entry_at fs q" if "owns fs ps q" for q using wr(4) that by (simp add: owns_def)
  have c: "contents fs' q = contents fs q" if "owns fs ps q" "q \<noteq> p" for q
    by (rule contents_apart [OF vol own that(1) _ _ wr(2) h]) (use that fit room e in simp_all)
  show ?thesis
    by (rule that [OF wr(1) dv(1,3) wr(5)])
      (use dv(2) e c h fp(1,5) area after_sel(4) [OF wr(2)] index_same(2) [OF v(2) wr(2,4)] in \<open>simp_all add: fun_eq_iff\<close>)
qed

end
