(* ===== verification/Resize.thy ===== *)
theory Resize
  imports Contents
begin

text \<open>
  The extent of a file when its size changes: it stays, grows over the free blocks behind it, is
  taken from the free blocks, or moves to other blocks with its bytes. Every way ends with the
  entry of the file written anew.
\<close>

section \<open>A volume whose free list has changed\<close>

text \<open>The list of free extents has gone from \<open>ps\<close> to \<open>ps'\<close>; the other entries of the index are as they
  were. The data area may have changed.\<close>

definition index_step :: "fs \<Rightarrow> u64 list \<Rightarrow> fs \<Rightarrow> u64 list \<Rightarrow> bool" where
  "index_step fs ps fs' ps' \<longleftrightarrow> dir_ok fs' \<and> lookup_file fs' = lookup_file fs \<and> lookup_dir fs' = lookup_dir fs
     \<and> bare (entry_at fs') ps' \<and> free_ok fs' ps' \<and> (\<exists>b. after fs (entry_at fs') b fs')
     \<and> (\<forall>q \<in> set (index_offs fs). q \<notin> set ps \<union> set ps' \<longrightarrow> entry_at fs' q = entry_at fs q)
     \<and> (\<forall>q \<in> set ps - set ps'. entry_type (entry_at fs' q) = entry_code UNUSED_ENTRY)
     \<and> (\<forall>q \<in> set ps' - set ps. entry_type (entry_at fs q) = entry_code UNUSED_ENTRY)"

lemma index_step_list:
  assumes vol: "volume_ok fs ps" and ls: "list_step fs ps fs' ps'"
    and new: "\<forall>q \<in> set ps' - set ps. entry_type (entry_at fs q) = entry_code UNUSED_ENTRY"
  shows "index_step fs ps fs' ps'"
    and "take (unat (entry_start fs)) (host_file fs') = take (unat (entry_start fs)) (host_file fs)"
proof -
  note v = volume_okD [OF vol]
  note ln = list_step_names [OF v(2-4) ls new]
  obtain b where ub: "after fs (entry_at fs') b fs'" by (rule list_step_after [OF v(1) ls])
  have l: "free_ok fs' ps'" "\<And>q. q \<notin> set ps \<union> set ps' \<Longrightarrow> entry_at fs' q = entry_at fs q"
    "\<And>q. q \<in> set ps - set ps' \<Longrightarrow> entry_type (entry_at fs' q) = entry_code UNUSED_ENTRY"
    using ls by (auto simp: list_step_def)
  show "index_step fs ps fs' ps'"
    unfolding index_step_def using ln(1,3) ln(2) [of FILE_ENTRY 34] ln(2) [of DIR_ENTRY 10] l ub new by blast
  have "q \<notin> set ps \<union> set ps'" if "q \<notin> set (index_offs fs)" for q
    using that free_entries_coded(2) [OF v(3)] free_entries_coded(2) [OF l(1)] after_sel(7) [OF ub] by auto
  then show "take (unat (entry_start fs)) (host_file fs') = take (unat (entry_start fs)) (host_file fs)"
    by (intro data_area_frame [OF v(1) ub]) (use l(2) in blast)
qed

lemma index_step_data:
  assumes fr: "free_ok fs ps" and st: "index_step fs ps fs1 ps1" and u: "after fs1 (entry_at fs2) (del_begin fs1) fs2"
    and same: "\<forall>q \<in> set (index_offs fs1). entry_at fs2 q = entry_at fs1 q"
  shows "index_step fs ps fs2 ps1"
proof -
  obtain b where ub: "after fs (entry_at fs1) b fs1" using st by (auto simp: index_step_def)
  have i: "index_offs fs1 = index_offs fs" by (rule after_sel(7) [OF ub])
  have h: "dir_ok fs1" "lookup_file fs1 = lookup_file fs" "lookup_dir fs1 = lookup_dir fs"
    "bare (entry_at fs1) ps1" "free_ok fs1 ps1"
    "\<And>q. q \<in> set (index_offs fs) \<Longrightarrow> q \<notin> set ps \<union> set ps1 \<Longrightarrow> entry_at fs1 q = entry_at fs q"
    "\<And>q. q \<in> set ps - set ps1 \<Longrightarrow> entry_type (entry_at fs1 q) = entry_code UNUSED_ENTRY"
    "\<And>q. q \<in> set ps1 - set ps \<Longrightarrow> entry_type (entry_at fs q) = entry_code UNUSED_ENTRY"
    using st by (auto simp: index_step_def)
  note is1 = index_same [OF h(1) u same]
  have e1: "entry_at fs2 q = entry_at fs1 q" if "q \<in> set ps1" for q
    using free_entries_coded(2) [OF h(5) that] same by blast
  have "entry_type (entry_at fs2 q) = entry_code UNUSED_ENTRY" if q: "q \<in> set ps - set ps1" for q
    using h(7) [OF q] same i q free_entries_coded(2) [OF fr] by simp
  moreover have "free_ok fs2 ps1" using free_ok_frame [OF u e1] h(5) by simp
  moreover have "bare (entry_at fs2) ps1" using h(4) e1 by (simp add: bare_def)
  moreover have "after fs (entry_at fs2) (del_begin fs1) fs2" by (rule after_trans [OF ub u])
  ultimately show ?thesis
    unfolding index_step_def using is1(1) is1(2) [of FILE_ENTRY 34] is1(2) [of DIR_ENTRY 10] h(2,3,6,8) same i by auto
qed

section \<open>The new entry\<close>

text \<open>A file that gets a new entry after an operation of the list of free extents.\<close>

lemma resized:
  assumes vol: "volume_ok fs ps" and own: "owns fs ps p" and st: "index_step fs ps fs2 ps2"
    and u2: "after fs2 ((entry_at fs2)(p := e)) (del_begin fs2) fs3"
    and e: "entry_type e = entry_type (entry_at fs p)" "cont_entries e = cont_entries (entry_at fs p)"
      "drop 34 e = drop 34 (entry_at fs p)"
    and fo: "file_ok fs e"
    and space: "blocks (entry_at fs2) ps2 \<union> file_ext e = blocks (entry_at fs) ps \<union> file_ext (entry_at fs p)"
      "file_ext e \<inter> blocks (entry_at fs2) ps2 = {}"
  shows "volume_ok fs3 ps2" and "owns fs3 ps2 p" and "entry_at fs3 p = e"
    and "owns fs ps q \<Longrightarrow> q \<noteq> p \<Longrightarrow> owns fs3 ps2 q \<and> entry_at fs3 q = entry_at fs q"
    and "lookup_file fs3 = lookup_file fs" and "lookup_dir fs3 = lookup_dir fs"
    and "\<exists>b. after fs (entry_at fs3) b fs3"
    and "q \<notin> set (index_offs fs) \<Longrightarrow> entry_at fs3 q = entry_at fs2 q"
    and "space fs3 ps2 = space fs ps" and "owns fs3 ps2 q = owns fs ps q"
proof -
  note v = volume_okD [OF vol]
  have p: "p \<in> set (index_offs fs)" "p \<notin> set ps" using own by (simp_all add: owns_def)
  obtain b where ub: "after fs (entry_at fs2) b fs2" using st by (auto simp: index_step_def)
  note s = after_sel [OF ub] and t = after_sel [OF u2]
  have ln: "dir_ok fs2" "lookup_file fs2 = lookup_file fs" "lookup_dir fs2 = lookup_dir fs" "bare (entry_at fs2) ps2"
    and l: "free_ok fs2 ps2" "\<And>q. q \<in> set (index_offs fs) \<Longrightarrow> q \<notin> set ps \<union> set ps2 \<Longrightarrow> entry_at fs2 q = entry_at fs q"
    "\<And>q. q \<in> set ps - set ps2 \<Longrightarrow> entry_type (entry_at fs2 q) = entry_code UNUSED_ENTRY"
    and new: "\<forall>q \<in> set ps2 - set ps. entry_type (entry_at fs q) = entry_code UNUSED_ENTRY"
    using st by (simp_all add: index_step_def)
  have owned: "q \<notin> set ps2" if "owns fs ps q" for q using new that by (auto simp: owns_def)
  then have p2': "p \<notin> set ps2" using own by blast
  then have e2: "entry_at fs2 p = entry_at fs p" using l(2) p by blast
  have p2: "p \<in> set (index_offs fs2)" "headed (entry_at fs2 p)" "entry_type (entry_at fs2 p) \<noteq> entry_code DIR_ENTRY"
    using p(1) owns_headed [OF own] own s(7) e2 by (auto simp: owns_def)
  have c2: "entry_type e = entry_type (entry_at fs2 p)" "cont_entries e = cont_entries (entry_at fs2 p)"
    "drop 34 e = drop 34 (entry_at fs2 p)" using e e2 by (simp_all del: One_nat_def)
  note rn = renewed [OF ln(1) p2 u2 c2]
  show "lookup_file fs3 = lookup_file fs" "lookup_dir fs3 = lookup_dir fs"
    using rn(2,3) ln(2,3) by simp_all
  show e3: "entry_at fs3 p = e" using t(1) by simp
  show "entry_at fs3 q = entry_at fs2 q" if "q \<notin> set (index_offs fs)" for q
    using that p(1) t(1) by auto
  have u3: "after fs ((entry_at fs2)(p := e)) (del_begin fs2) fs3" using after_trans [OF ub u2] .
  then show "\<exists>b. after fs (entry_at fs3) b fs3" using t(1) by auto
  have fr: "\<And>q. q \<in> set ps2 \<Longrightarrow> ((entry_at fs2)(p := e)) q = entry_at fs2 q" using p2' by auto
  have bl: "blocks ((entry_at fs2)(p := e)) ps2 = blocks (entry_at fs2) ps2" using fr by (rule blocks_frame)
  show own3: "owns fs3 ps2 p" using p(1) p2' own e(1) t(1) after_sel(7) [OF u3] by (simp add: owns_def)
  show keep: "owns fs3 ps2 q \<and> entry_at fs3 q = entry_at fs q" if "owns fs ps q" "q \<noteq> p" for q
  proof -
    have "q \<notin> set ps" "q \<in> set (index_offs fs)" using that(1) by (simp_all add: owns_def)
    then have "entry_at fs3 q = entry_at fs q" "q \<notin> set ps2" using l(2) t(1) that owned by auto
    then show ?thesis using that(1) after_sel(7) [OF u3] by (simp add: owns_def)
  qed
  have other: "owns fs ps q \<and> entry_at fs3 q = entry_at fs q" if "owns fs3 ps2 q" "q \<noteq> p" for q
  proof -
    have e3q: "entry_at fs3 q = entry_at fs2 q" using t(1) that(2) by simp
    have q: "q \<in> set (index_offs fs)" "q \<notin> set ps2" "entry_type (entry_at fs2 q) \<noteq> entry_code UNUSED_ENTRY"
      using that(1) e3q after_sel(7) [OF u3] by (auto simp: owns_def)
    then have "q \<notin> set ps" using l(3) by blast
    then have "entry_at fs2 q = entry_at fs q" using l(2) q(1,2) by blast
    then show ?thesis using that(1) q(1) e3q \<open>q \<notin> set ps\<close> by (simp add: owns_def)
  qed
  show "volume_ok fs3 ps2"
  proof (rule volume_change [OF vol u3 rn(1), where p = p])
    show "free_ok fs3 ps2" using free_ok_frame [OF u2 fr] l(1) by simp
    show "bare ((entry_at fs2)(p := e)) ps2" using ln(4) fr by (simp add: bare_def)
    show "owns fs ps q \<and> file_ok fs (((entry_at fs2)(p := e)) q) \<and> file_ext (((entry_at fs2)(p := e)) q) = file_ext (entry_at fs q)"
      if "owns fs3 ps2 q" "q \<noteq> p" for q
      using other [OF that] v(6) t(1) by simp
    show "file_ok fs (((entry_at fs2)(p := e)) p) \<and> file_ext (((entry_at fs2)(p := e)) p) \<inter> blocks ((entry_at fs2)(p := e)) ps2 = {}"
      using fo space(2) bl by simp
  qed (use space(1) bl own in auto)
  show "owns fs3 ps2 q = owns fs ps q" using other [of q] keep [of q] own own3 by blast
  show "space fs3 ps2 = space fs ps"
    by (rule space_kept [where p = p]) (use other keep own own3 space(1) bl t(1) in auto)
qed

lemma store_extent_ok:
  assumes "fs_ok fs" and "slot_valid fs p" and "length e = 64"
  obtains e' fs' t where "store_extent fs e p ns ne nz = (e', fs')"
    "after fs ((entry_at fs)(p := set_time_stamp t (set_file_size nz (set_end_block ne (set_start_block ns (entry_at fs p))))))
       (del_begin fs) fs'"
proof -
  obtain fs1 where r: "read_entry fs p e = (64, entry_at fs p, fs1)" "unchanged fs fs1" by (rule read_entry_after [OF assms])
  note s = after_sel [OF r(2)]
  obtain t fs2 where g: "get_time fs1 = (t, fs2)" by (cases "get_time fs1")
  let ?e = "set_time_stamp t (set_file_size nz (set_end_block ne (set_start_block ns (entry_at fs p))))"
  have u2: "unchanged fs fs2" using get_time_upd(5) [OF g] r(2) by simp
  note s2 = after_sel [OF u2]
  have l: "length ?e = 64" using length_entry_at [OF assms(2)] by simp
  have v: "slot_valid fs2 p" using assms(2) s2(2) by simp
  obtain fs3 where w: "write_entry fs2 p ?e = (64, fs3)" "after fs2 ((entry_at fs2)(p := ?e)) (del_begin fs2) fs3"
    by (rule write_entry_after [OF after_ok [OF u2] v l])
  show ?thesis
    by (rule that [of ?e fs3 t]) (use r(1) g w after_trans [OF u2] s2 in \<open>simp_all add: store_extent_def Let_def\<close>)
qed

lemma resized_fields:
  fixes ns ne nz t :: u64
  assumes "length e = 64"
  defines "e' \<equiv> set_time_stamp t (set_file_size nz (set_end_block ne (set_start_block ns e)))"
  shows "entry_type e' = entry_type e" "cont_entries e' = cont_entries e" "drop 34 e' = drop 34 e"
    "start_block e' = ns" "end_block e' = ne" "file_size e' = nz"
  using assms by (simp_all add: layout_simps drop_put del: One_nat_def)

lemma needed_mono: "unat a \<le> unat b \<Longrightarrow> needed fs a \<le> needed fs b"
  unfolding needed_def by (intro div_le_mono) simp

section \<open>Where the file goes\<close>

text \<open>The file \<open>p\<close> may take the extent from \<open>ns\<close> to \<open>ne\<close> for \<open>nz\<close> bytes: the blocks it gets and the blocks that
  are then free are those it had and those that were free, its bytes are already there, and no other
  file has changed.\<close>

definition placed :: "fs \<Rightarrow> u64 list \<Rightarrow> u64 \<Rightarrow> u64 \<Rightarrow> u64 \<Rightarrow> u64 \<Rightarrow> fs \<Rightarrow> u64 list \<Rightarrow> bool" where
  "placed fs ps p nz ns ne fs' ps' \<longleftrightarrow> index_step fs ps fs' ps'
     \<and> (\<forall>x. start_block x = ns \<and> end_block x = ne \<and> file_size x = nz \<longrightarrow> file_ok fs x
           \<and> blocks (entry_at fs') ps' \<union> file_ext x = blocks (entry_at fs) ps \<union> file_ext (entry_at fs p)
           \<and> file_ext x \<inter> blocks (entry_at fs') ps' = {})
     \<and> (\<forall>q. owns fs ps q \<and> q \<noteq> p \<longrightarrow> contents fs' q = contents fs q)
     \<and> take (unat nz) (seg (unat ns * unat (block_size fs)) (unat (file_size (entry_at fs p))) (host_file fs'))
         = take (unat nz) (contents fs p)"

lemma list_contents:
  assumes vol: "volume_ok fs ps" and ls: "list_step fs ps fs' ps'"
    and new: "\<forall>q \<in> set ps' - set ps. entry_type (entry_at fs q) = entry_code UNUSED_ENTRY" and own: "owns fs ps q"
  shows "contents fs' q = contents fs q" and "entry_at fs' q = entry_at fs q"
proof -
  note st = index_step_list [OF vol ls new]
  obtain b where u: "after fs (entry_at fs') b fs'" using st(1) by (auto simp: index_step_def)
  have "q \<in> set (index_offs fs)" "q \<notin> set ps \<union> set ps'" using own new by (auto simp: owns_def)
  then show e: "entry_at fs' q = entry_at fs q" using st(1) by (simp add: index_step_def)
  show "contents fs' q = contents fs q" by (rule contents_frame [OF vol own u st(2)]) (use e in simp_all)
qed

lemma run_extent:
  assumes ok: "fs_ok fs" and nz: "unat nz < 2 ^ 63" and r: "0 < unat r" and n: "0 < needed fs nz"
    and area: "(unat r + needed fs nz) * unat (block_size fs) \<le> unat (entry_start fs)"
    and x: "start_block x = r" "end_block x = r + get_real_size fs nz div block_size fs - 1" "file_size x = nz"
  shows "file_ok fs x" and "file_ext x = {unat r ..< unat r + needed fs nz}"
proof -
  note gn = get_real_size_ok [OF ok nz]
  let ?n = "needed fs nz"
  have bs: "0 < unat (block_size fs)" by (rule block_size_bounds(1) [OF ok])
  have st: "unat (entry_start fs) \<le> length (host_file fs)" "unat (entry_start fs) < 2 ^ 63"
    using ok index_bounds [OF ok] by (auto simp: fs_ok_def)
  have "unat r + ?n \<le> (unat r + ?n) * unat (block_size fs)" using bs by simp
  then have small: "unat r + ?n < 2 ^ 63" using area st(2) by linarith
  have u: "unat (r + get_real_size fs nz div block_size fs) = unat r + ?n"
    unfolding gn(2) using small gn(3) by (subst unat_add_small) auto
  have u1: "unat (r + get_real_size fs nz div block_size fs - 1) = unat r + ?n - 1"
    using u n by (subst unat_sub_small) auto
  have ex: "ext x = {unat r ..< unat r + ?n}" unfolding ext_def x u1 using n by auto
  have sc: "Suc (unat r + ?n - 1) = unat r + ?n" using n by simp
  have eo: "ext_ok fs x" unfolding ext_ok_def x u1 sc using r n area st(1) by simp
  show "file_ok fs x" using eo nz x(3) ex by (simp add: file_ok_def)
  have "start_block x \<noteq> 0" using x(1) r by auto
  then show "file_ext x = {unat r ..< unat r + ?n}" using ex by (simp add: file_ext_def)
qed

lemma run_in_area:
  assumes "below fs B" and "{r ..< r + n} \<subseteq> B" and "0 < n"
  shows "(r + n) * unat (block_size fs) \<le> unat (entry_start fs)"
proof -
  have "r + n - 1 \<in> B" using assms(2,3) by auto
  then have "Suc (r + n - 1) * unat (block_size fs) \<le> unat (entry_start fs)"
    using assms(1) unfolding below_def by blast
  moreover have "Suc (r + n - 1) = r + n" using assms(3) by simp
  ultimately show ?thesis by (simp only:)
qed

text \<open>\<open>copy_block\<close> of the blocks of a file into free ones. The buffer must not stand for a block of the
  image, since the copying goes through it.\<close>

lemma move_blocks:
  assumes vol: "volume_ok fs ps" and own: "owns fs ps p" and st: "index_step fs ps fs1 ps1" and flushed: "buf_num fs1 = -1"
    and s0: "start_block (entry_at fs p) \<noteq> 0" and dst: "{unat r ..< unat r + n} \<subseteq> blocks (entry_at fs) ps"
    and n: "needed fs (file_size (entry_at fs p)) \<le> n"
    and same: "\<And>q. owns fs ps q \<Longrightarrow> contents fs1 q = contents fs q" "\<And>q. owns fs ps q \<Longrightarrow> entry_at fs1 q = entry_at fs q"
  obtains fs2 where
    "copy_block fs1 (start_block (entry_at fs p)) r (end_block (entry_at fs p) - start_block (entry_at fs p) + 1) = (0, fs2)"
    "index_step fs ps fs2 ps1" "blocks (entry_at fs2) ps1 = blocks (entry_at fs1) ps1"
    "\<forall>q. owns fs ps q \<and> q \<noteq> p \<longrightarrow> contents fs2 q = contents fs q"
    "seg (unat r * unat (block_size fs)) (unat (file_size (entry_at fs p))) (host_file fs2) = contents fs p"
proof -
  note v = volume_okD [OF vol]
  let ?e = "entry_at fs p"
  let ?s = "start_block ?e" and ?k = "card (file_ext (entry_at fs p))" and ?bs = "unat (block_size fs)"
  note x = file_ext_area [OF v(1) v(6,7) [OF own]]
  have fe: "file_ext ?e = ext ?e" "ext_ok fs ?e"
    using s0 v(6) [OF own] by (auto simp: file_ext_def file_ok_def)
  note eb = ext_ok_bounds [OF v(1) fe(2)]
  have cnt: "unat (end_block ?e - ?s + 1) = ?k" using eb(3) fe(1) by simp
  have kpos: "0 < ?k" using eb(6) fe(1) by simp
  have kn: "?k \<le> n" using n x(3) by simp
  obtain b where ub: "after fs (entry_at fs1) b fs1" using st by (auto simp: index_step_def)
  note s = after_sel [OF ub] and ok1 = after_ok [OF ub]
  have area: "(unat ?s + ?k) * ?bs \<le> unat (entry_start fs)" using x(1) by (simp add: add_mult_distrib)
  have "(unat r + n) * ?bs \<le> unat (entry_start fs)" by (rule run_in_area [OF v(5) dst]) (use kpos kn in simp)
  moreover have "(unat r + ?k) * ?bs \<le> (unat r + n) * ?bs" using kn by (intro mult_le_mono1) simp
  ultimately have darea: "(unat r + ?k) * ?bs \<le> unat (entry_start fs)" by linarith
  have len: "unat (entry_start fs) \<le> length (host_file fs1)" using v(1) s(8) by (auto simp: fs_ok_def)
  have dj: "{unat ?s ..< unat ?s + ?k} \<inter> {unat r ..< unat r + n} = {}"
    unfolding file_ext_run [OF v(1) v(6,7) [OF own]] using v(8) [OF own] dst by (meson disjoint_iff subsetD)
  have order: "unat r \<le> unat ?s \<or> unat ?s + ?k \<le> unat r"
  proof (rule ccontr)
    assume "\<not> ?thesis"
    then have "unat r \<in> {unat ?s ..< unat ?s + ?k} \<inter> {unat r ..< unat r + n}" using kpos kn by auto
    then show False using dj by blast
  qed
  have g1: "geom_ok fs1" using ok1 by (simp add: fs_ok_def entry_dev_ok_def dev_ok_def)
  let ?data = "seg (unat ?s * ?bs) (?k * ?bs) (host_file fs1)"
  obtain fs2 where cp: "copy_block fs1 ?s r (end_block ?e - ?s + 1) = (0, fs2)" "geom_ok fs2" "buf_num fs2 = -1"
    "core fs2 = (core fs1)\<lparr>host_file := patch (unat r * ?bs) ?data (host_file fs1)\<rparr>"
    using copy_block_ok [OF g1, of ?s "end_block ?e - ?s + 1" r, unfolded cnt s(4)] area darea len order flushed by auto
  have dl: "length ?data = ?k * ?bs" using area len by (simp add: length_seg add_mult_distrib)
  have dev: "dev_ok fs2" using cp(2,3) by (simp add: dev_ok_def cache_ok_def)
  have pos: "unat r * ?bs + length ?data \<le> unat (entry_start fs1)" using darea dl s(9) by (simp add: add_mult_distrib)
  note dp = data_patched [OF ok1 dev pos cp(4)]
  have st2: "index_step fs ps fs2 ps1" by (rule index_step_data [OF v(3) st dp(1,3)])
  have e2: "entry_at fs2 q = entry_at fs1 q" if "q \<in> set (index_offs fs)" for q using dp(3) that s(7) by simp
  have fr1: "free_ok fs1 ps1" using st by (simp add: index_step_def)
  have lenp: "unat r * ?bs + 0 + length ?data \<le> length (host_file fs1)" using pos len s(9) by simp
  have moved: "seg (unat r * ?bs) m (host_file fs2) = seg (unat ?s * ?bs) m (host_file fs1)" if m: "m \<le> ?k * ?bs" for m
  proof -
    have "seg (unat r * ?bs) (length ?data) (host_file fs2) = ?data"
      unfolding dp(2) by (rule seg_patch_same) (use lenp in simp)
    then have "take m (seg (unat r * ?bs) (?k * ?bs) (host_file fs2)) = take m ?data" unfolding dl by simp
    then show ?thesis by (simp only: take_seg [OF m])
  qed
  have sub: "{unat r ..< unat r + ?k} \<subseteq> blocks (entry_at fs) ps"
    by (rule subset_trans [OF _ dst]) (use kn in simp)
  have others: "contents fs2 q = contents fs q" if q: "owns fs ps q" "q \<noteq> p" for q
  proof -
    note xq = file_ext_area [OF v(1) v(6,7) [OF q(1)]]
    let ?b = "unat (start_block (entry_at fs q))" and ?c = "card (file_ext (entry_at fs q))"
    have "{unat r ..< unat r + ?k} \<inter> {?b ..< ?b + ?c} = {}"
      unfolding file_ext_run [OF v(1) v(6,7) [OF q(1)]]
      using v(8) [OF q(1)] sub by (meson disjoint_iff subsetD)
    from runs_apart [OF lenp this, of "unat (file_size (entry_at fs q))"]
    have "seg (?b * ?bs) (unat (file_size (entry_at fs q))) (host_file fs2)
        = seg (?b * ?bs) (unat (file_size (entry_at fs q))) (host_file fs1)"
      using dl xq(2) dp(2) by simp
    moreover have "entry_at fs2 q = entry_at fs q" using e2 same(2) [OF q(1)] q(1) by (simp add: owns_def)
    moreover have "block_size fs2 = block_size fs1" by (rule after_sel(4) [OF dp(1)])
    ultimately show ?thesis using same [OF q(1)] s(4) by (simp add: contents_def)
  qed
  have "blocks (entry_at fs2) ps1 = blocks (entry_at fs1) ps1"
    by (rule blocks_frame) (use e2 free_entries_coded(2) [OF fr1] s(7) in auto)
  moreover have "seg (unat r * ?bs) (unat (file_size ?e)) (host_file fs2) = contents fs p"
    using moved [OF x(2)] same [OF own] s(4) by (simp add: contents_def)
  ultimately show ?thesis using that [OF cp(1) st2] others by blast
qed

section \<open>Getting more blocks\<close>

text \<open>The blocks come from the free extent behind the file.\<close>

lemma placed_expand:
  assumes vol: "volume_ok fs ps" and own: "owns fs ps p" and s0: "start_block (entry_at fs p) \<noteq> 0"
    and n: "needed fs (file_size (entry_at fs p)) < needed fs nz" "unat nz < 2 ^ 63"
    and ls: "list_step fs ps fs' ps'" and sub: "set ps' \<subseteq> set ps"
  defines "B \<equiv> {Suc (unat (end_block (entry_at fs p))) ..< Suc (unat (end_block (entry_at fs p)))
      + (needed fs nz - needed fs (file_size (entry_at fs p)))}"
  assumes B: "B \<subseteq> blocks (entry_at fs) ps" and bl: "blocks (entry_at fs') ps' = blocks (entry_at fs) ps - B"
  shows "placed fs ps p nz (start_block (entry_at fs p))
      (start_block (entry_at fs p) + get_real_size fs nz div block_size fs - 1) fs' ps'"
proof -
  note v = volume_okD [OF vol]
  let ?e = "entry_at fs p"
  let ?s = "start_block ?e" and ?k = "card (file_ext (entry_at fs p))" and ?n = "needed fs nz"
  note x = file_ext_area [OF v(1) v(6,7) [OF own]] and run = file_ext_run [OF v(1) v(6,7) [OF own]]
  have fe: "file_ext ?e = ext ?e" "ext_ok fs ?e" using s0 v(6) [OF own] by (auto simp: file_ext_def file_ok_def)
  have eb: "0 < unat ?s" "unat ?s \<le> unat (end_block ?e)" using fe(2) by (auto simp: ext_ok_def)
  have k: "?k = Suc (unat (end_block ?e)) - unat ?s" using fe(1) by (simp add: ext_def)
  have ends: "unat ?s + ?k = Suc (unat (end_block ?e))" using k eb(2) by simp
  have kn: "?k < ?n" using n(1) x(3) by simp
  have Beq: "B = {unat ?s + ?k ..< unat ?s + ?n}" unfolding B_def ends [symmetric] x(3) [symmetric] using kn by simp
  have "{unat ?s ..< unat ?s + ?n} = {unat ?s ..< unat ?s + ?k} \<union> B" unfolding Beq using kn by auto
  then have new: "{unat ?s ..< unat ?s + ?n} = file_ext ?e \<union> B" by (simp only: run)
  have "{unat ?s + ?k ..< (unat ?s + ?k) + (?n - ?k)} \<subseteq> blocks (entry_at fs) ps" using B kn unfolding Beq by simp
  from run_in_area [OF v(5) this] have area: "(unat ?s + ?n) * unat (block_size fs) \<le> unat (entry_start fs)" using kn by simp
  have un: "\<forall>q \<in> set ps' - set ps. entry_type (entry_at fs q) = entry_code UNUSED_ENTRY" using sub by blast
  note st = index_step_list [OF vol ls un] and c = list_contents [OF vol ls un]
  have npos: "0 < ?n" using kn by simp
  have seg_p: "seg (unat ?s * unat (block_size fs)) (unat (file_size ?e)) (host_file fs') = contents fs p"
  proof -
    have "block_size fs' = block_size fs" using st(1) after_sel(4) by (auto simp: index_step_def)
    then show ?thesis using c(1) [OF own] unfolding contents_def c(2) [OF own] by simp
  qed
  show ?thesis
    unfolding placed_def
  proof (intro conjI allI impI)
    fix y assume y: "start_block y = ?s \<and> end_block y = ?s + get_real_size fs nz div block_size fs - 1 \<and> file_size y = nz"
    note re = run_extent [OF v(1) n(2) eb(1) npos area conjunct1 [OF y] conjunct1 [OF conjunct2 [OF y]] conjunct2 [OF conjunct2 [OF y]]]
    show "file_ok fs y" by (rule re(1))
    show "blocks (entry_at fs') ps' \<union> file_ext y = blocks (entry_at fs) ps \<union> file_ext ?e"
      unfolding re(2) new bl using B by auto
    show "file_ext y \<inter> blocks (entry_at fs') ps' = {}"
      unfolding re(2) new bl using v(8) [OF own] by auto
  qed (use st(1) c(1) seg_p in auto)
qed

text \<open>The blocks come from the allocator; a file that has blocks gives them back and takes its bytes
  along.\<close>

lemma placed_alloc:
  assumes vol: "volume_ok fs ps" and own: "owns fs ps p" and n: "0 < needed fs nz" "unat nz < 2 ^ 63"
    and r: "0 < unat r" "{unat r ..< unat r + needed fs nz} \<subseteq> blocks (entry_at fs) ps"
    and st: "index_step fs ps fs' ps'"
    and bl: "blocks (entry_at fs') ps' = blocks (entry_at fs) ps - {unat r ..< unat r + needed fs nz} \<union> file_ext (entry_at fs p)"
    and others: "\<And>q. owns fs ps q \<Longrightarrow> q \<noteq> p \<Longrightarrow> contents fs' q = contents fs q"
    and seg: "seg (unat r * unat (block_size fs)) (unat (file_size (entry_at fs p))) (host_file fs') = contents fs p"
  shows "placed fs ps p nz r (r + get_real_size fs nz div block_size fs - 1) fs' ps'"
  unfolding placed_def
proof (intro conjI allI impI)
  note v = volume_okD [OF vol]
  note area = run_in_area [OF v(5) r(2) n(1)]
  fix y assume y: "start_block y = r \<and> end_block y = r + get_real_size fs nz div block_size fs - 1 \<and> file_size y = nz"
  note re = run_extent [OF v(1) n(2) r(1) n(1) area conjunct1 [OF y] conjunct1 [OF conjunct2 [OF y]] conjunct2 [OF conjunct2 [OF y]]]
  show "file_ok fs y" by (rule re(1))
  show "blocks (entry_at fs') ps' \<union> file_ext y = blocks (entry_at fs) ps \<union> file_ext (entry_at fs p)"
    unfolding re(2) bl using r(2) by auto
  show "file_ext y \<inter> blocks (entry_at fs') ps' = {}"
    unfolding re(2) bl using v(8) [OF own] r(2) by (auto simp: disjoint_iff)
qed (use st others seg in auto)

lemma unused_after:
  assumes fr: "free_ok fs ps" and ok: "fs_ok fs" and ls: "list_step fs ps fs' ps'" and sub: "set ps' \<subseteq> set ps" and u: "unused fs i"
  shows "unused fs' i"
proof -
  obtain b where ub: "after fs (entry_at fs') b fs'" by (rule list_step_after [OF ok ls])
  note s = after_sel [OF ub]
  let ?q = "index_off fs i"
  have "?q \<notin> set ps" using free_entries_coded(1) [OF fr, of ?q] u by (auto simp: unused_def)
  then have "entry_at fs' ?q = entry_at fs ?q" using ls sub by (auto simp: list_step_def)
  then show ?thesis using u s(5,6) by (simp add: unused_def)
qed

lemma needed_pos: "needed fs a < needed fs b \<Longrightarrow> 0 < unat b"
proof (rule ccontr)
  assume h: "needed fs a < needed fs b" "\<not> 0 < unat b"
  have "needed fs b = 0"
    using h(2) by (cases "unat (block_size fs) = 0") (simp_all add: needed_def)
  then show False using h(1) by simp
qed

text \<open>The old blocks are given back before their bytes are copied out of them.\<close>

lemma relocate_ok:
  assumes vol: "volume_ok fs ps" and own: "owns fs ps p" and s0: "start_block (entry_at fs p) \<noteq> 0"
    and n: "needed fs (file_size (entry_at fs p)) < needed fs nz" "unat nz < 2 ^ 63" and i: "unused fs i"
    and r: "0 < unat r" "{unat r ..< unat r + needed fs nz} \<subseteq> blocks (entry_at fs) ps"
    and ls: "list_step fs ps fs2 ps2" and sub: "set ps2 \<subseteq> set ps" and len: "length e = 64"
    and bl: "blocks (entry_at fs2) ps2 = blocks (entry_at fs) ps - {unat r ..< unat r + needed fs nz}"
  obtains e' fs3 fs' ps' where
    "del_file_list_add fs2 e (start_block (entry_at fs p)) (end_block (entry_at fs p)) = (0, e', fs3)" "length e' = 64"
    "copy_block fs3 (start_block (entry_at fs p)) r (end_block (entry_at fs p) - start_block (entry_at fs p) + 1) = (0, fs')"
    "placed fs ps p nz r (r + get_real_size fs nz div block_size fs - 1) fs' ps'"
proof -
  note v = volume_okD [OF vol]
  let ?e = "entry_at fs p"
  let ?R = "{unat r ..< unat r + needed fs nz}"
  have fe: "file_ext ?e = {unat (start_block ?e) .. unat (end_block ?e)}" "ext_ok fs ?e"
    using file_ext_add(2) [OF v(6) [OF own] s0] by simp_all
  obtain b where ub: "after fs (entry_at fs2) b fs2" by (rule list_step_after [OF v(1) ls])
  note s = after_sel [OF ub]
  have fr2: "free_ok fs2 ps2" using ls by (simp add: list_step_def)
  have "{unat (start_block ?e) .. unat (end_block ?e)} \<inter> blocks (entry_at fs2) ps2 = {}"
    unfolding fe(1) [symmetric] bl using v(8) [OF own] by auto
  then have new: "new_ext_ok fs2 ps2 (start_block ?e) (end_block ?e)"
    using fe(2) s(4,8) by (simp add: new_ext_ok_def ext_ok_def)
  show ?thesis
  proof (rule del_file_list_add_ok [OF after_ok [OF ub] fr2 len new])
    assume "\<forall>i. \<not> unused fs2 i"
    then show ?thesis using unused_after [OF v(3,1) ls sub i] by blast
  next
    fix e' fs3 ps'
    assume h: "del_file_list_add fs2 e (start_block ?e) (end_block ?e) = (0, e', fs3)" "length e' = 64"
      "list_step fs2 ps2 fs3 ps'" "\<forall>q \<in> set ps' - set ps2. entry_type (entry_at fs2 q) = entry_code UNUSED_ENTRY"
      "blocks (entry_at fs3) ps' = blocks (entry_at fs2) ps2 \<union> {unat (start_block ?e) .. unat (end_block ?e)}"
      "buf_num fs3 = -1"
    have ls3: "list_step fs ps fs3 ps'" by (rule list_step_trans [OF ls h(3) sub])
    have un: "\<forall>q \<in> set ps' - set ps. entry_type (entry_at fs q) = entry_code UNUSED_ENTRY"
    proof
      fix q assume q: "q \<in> set ps' - set ps"
      then have "q \<notin> set ps \<union> set ps2" using sub by auto
      then have "entry_at fs2 q = entry_at fs q" using ls by (simp add: list_step_def)
      then show "entry_type (entry_at fs q) = entry_code UNUSED_ENTRY" using bspec [OF h(4), of q] q sub by auto
    qed
    note c = list_contents [OF vol ls3 un]
    obtain fs' where m: "copy_block fs3 (start_block ?e) r (end_block ?e - start_block ?e + 1) = (0, fs')"
      "index_step fs ps fs' ps'" "blocks (entry_at fs') ps' = blocks (entry_at fs3) ps'"
      "\<forall>q. owns fs ps q \<and> q \<noteq> p \<longrightarrow> contents fs' q = contents fs q"
      "seg (unat r * unat (block_size fs)) (unat (file_size ?e)) (host_file fs') = contents fs p"
      by (rule move_blocks [OF vol own index_step_list(1) [OF vol ls3 un] h(6) s0 r(2) less_imp_le [OF n(1)] c])
    have npos: "0 < needed fs nz" using n(1) by simp
    have bl': "blocks (entry_at fs') ps' = blocks (entry_at fs) ps - ?R \<union> file_ext ?e"
      unfolding m(3) h(5) bl fe(1) ..
    have "placed fs ps p nz r (r + get_real_size fs nz div block_size fs - 1) fs' ps'"
      by (rule placed_alloc [OF vol own npos n(2) r m(2) bl' _ m(5)]) (use m(4) in blast)
    with h(1,2) m(1) show ?thesis by (rule that)
  qed
qed

lemma grow_ok:
  fixes err :: int
  assumes vol: "volume_ok fs ps" and own: "owns fs ps p" and len: "length e = 64"
    and n: "needed fs (file_size (entry_at fs p)) < needed fs nz" "unat nz < 2 ^ 63"
    and room: "start_block (entry_at fs p) = 0 \<or> (\<exists>i. unused fs i)"
  defines "G \<equiv> grow err fs e p (start_block (entry_at fs p)) (end_block (entry_at fs p)) nz"
  obtains (full) e' fs' where "G = (None, e', fs')" "sfs_errno fs' = ENOSPC" "unchanged fs fs'"
      "\<forall>q \<in> set ps. card (ext (entry_at fs q)) < needed fs nz"
  | (got) ns ne e' fs' ps' where "G = (Some (ns, ne), e', fs')" "length e' = 64" "placed fs ps p nz ns ne fs' ps'"
proof -
  note v = volume_okD [OF vol] and ov = owns_valid [OF vol own]
  let ?e = "entry_at fs p"
  let ?nb = "get_real_size fs nz div block_size fs"
  note x = file_ext_area [OF v(1) v(6,7) [OF own]]
  have pos: "0 < unat nz" by (rule needed_pos [OF n(1)])
  have npos: "0 < needed fs nz" using n(1) by simp
  show ?thesis
  proof (cases "start_block ?e = 0")
    case True
    have z0: "unat (file_size ?e) = 0" using v(6) [OF own] True by (auto simp: file_ok_def ext_ok_def)
    have e0: "file_ext ?e = {}" using True by (simp add: file_ext_def)
    have gr: "G = (case del_file_list_alloc fs e nz of
           (new_start, entr, fs) \<Rightarrow>
             if new_start = 0 then (None, entr, SET_ERRNO ENOSPC fs)
             else (Some (new_start, new_start + ?nb - 1), entr, fs))"
      unfolding G_def grow_def using True by (simp add: Let_def split: prod.splits)
    show ?thesis
    proof (rule del_file_list_alloc_ok [OF v(1,3) len pos n(2)])
      fix e' fs' assume h: "del_file_list_alloc fs e nz = (0, e', fs')" "fs_ok fs'" "same_vol (SET_ERRNO ENOSPC fs) fs'"
        "\<forall>q \<in> set ps. card (ext (entry_at fs q)) < needed fs nz"
      show ?thesis
        by (rule full [of e' "SET_ERRNO ENOSPC fs'"]) (use gr h after_same_errno in simp_all)
    next
      fix r e' fs' ps'
      assume h: "del_file_list_alloc fs e nz = (r, e', fs')" "length e' = 64" "list_step fs ps fs' ps'" "set ps' \<subseteq> set ps"
        "0 < unat r" "{unat r ..< unat r + needed fs nz} \<subseteq> blocks (entry_at fs) ps"
        "blocks (entry_at fs') ps' = blocks (entry_at fs) ps - {unat r ..< unat r + needed fs nz}"
      have un: "\<forall>q \<in> set ps' - set ps. entry_type (entry_at fs q) = entry_code UNUSED_ENTRY" using h(4) by blast
      have "G = (Some (r, r + ?nb - 1), e', fs')" using gr h(1,5) by auto
      then show ?thesis
        by (rule got [OF _ h(2) placed_alloc [OF vol own npos n(2) h(5,6) index_step_list(1) [OF vol h(3) un]]])
          (use h(7) e0 z0 list_contents(1) [OF vol h(3) un] in \<open>simp_all add: contents_def\<close>)
    qed
  next
    case s0: False
    have en: "unat (end_block ?e) < 2 ^ 63"
    proof -
      have "ext_ok fs ?e" using v(6) [OF own] s0 by (auto simp: file_ok_def)
      then show ?thesis using ext_ok_bounds(1) [OF v(1)] by fastforce
    qed
    obtain i where i: "unused fs i" using room s0 by blast
    show ?thesis
    proof (rule try_expand_ok [OF v(1,3) len ov(1) n(1) x(4) n(2) en])
      fix e' fs' ps'
      let ?B = "{Suc (unat (end_block ?e)) ..< Suc (unat (end_block ?e)) + (needed fs nz - needed fs (file_size ?e))}"
      assume h: "try_expand fs p nz e = (0, e', fs')" "length e' = 64" "list_step fs ps fs' ps'" "set ps' \<subseteq> set ps"
        "?B \<subseteq> blocks (entry_at fs) ps" "blocks (entry_at fs') ps' = blocks (entry_at fs) ps - ?B"
      have "G = (Some (start_block ?e, start_block ?e + ?nb - 1), e', fs')"
        unfolding G_def grow_def using s0 h(1) by (simp add: Let_def)
      then show ?thesis by (rule got [OF _ h(2) placed_expand [OF vol own s0 n h(3-6)]])
    next
      fix e1 fs1
      assume t: "try_expand fs p nz e = (1, e1, fs1)" "length e1 = 64" "fs_ok fs1" "same_vol fs fs1"
      note c1 = same_vol_cong [OF t(4)] and s1 = same_vol_sel [OF t(4)]
      have nd: "needed fs1 = needed fs" by (simp add: needed_def s1(5) fun_eq_iff)
      have gr: "G = (case del_file_list_alloc fs1 e1 nz of
           (new_start, entr, fs) \<Rightarrow>
             if new_start = 0 then (None, entr, SET_ERRNO ENOSPC fs)
             else
               (case del_file_list_add fs entr (start_block ?e) (end_block ?e) of
                  (_, entr, fs) \<Rightarrow>
                    (case copy_block fs (start_block ?e) new_start (end_block ?e - start_block ?e + 1) of
                       (c, fs) \<Rightarrow>
                         if c \<noteq> 0 then (None, entr, SET_ERRNO err fs)
                         else (Some (new_start, new_start + ?nb - 1), entr, fs))))"
        unfolding G_def grow_def using s0 t(1) by (simp add: Let_def split: prod.splits)
      have fr1: "free_ok fs1 ps" using free_ok_same_vol [OF t(4)] v(3) by simp
      show ?thesis
      proof (rule del_file_list_alloc_ok [OF t(3) fr1 t(2) pos n(2)])
        fix e' fs' assume h: "del_file_list_alloc fs1 e1 nz = (0, e', fs')" "fs_ok fs'" "same_vol (SET_ERRNO ENOSPC fs1) fs'"
          "\<forall>q \<in> set ps. card (ext (entry_at fs1 q)) < needed fs1 nz"
        have "same_vol (SET_ERRNO ENOSPC fs) fs'" by (rule same_vol_trans [OF same_vol_errno [OF t(4)] h(3)])
        then show ?thesis
          by (intro full [of e' "SET_ERRNO ENOSPC fs'"]) (use gr h nd c1(1) after_same_errno in simp_all)
      next
        fix r e2 fs2 ps2
        assume h: "del_file_list_alloc fs1 e1 nz = (r, e2, fs2)" "length e2 = 64" "list_step fs1 ps fs2 ps2" "set ps2 \<subseteq> set ps"
          "0 < unat r" "{unat r ..< unat r + needed fs1 nz} \<subseteq> blocks (entry_at fs1) ps"
          "blocks (entry_at fs2) ps2 = blocks (entry_at fs1) ps - {unat r ..< unat r + needed fs1 nz}"
        have ls2: "list_step fs ps fs2 ps2" by (rule list_step_same_vol [OF t(4) h(3)])
        have dst: "{unat r ..< unat r + needed fs nz} \<subseteq> blocks (entry_at fs) ps"
          "blocks (entry_at fs2) ps2 = blocks (entry_at fs) ps - {unat r ..< unat r + needed fs nz}"
          using h(6,7) nd c1(1) by simp_all
        obtain e' fs3 fs' ps' where m: "del_file_list_add fs2 e2 (start_block ?e) (end_block ?e) = (0, e', fs3)" "length e' = 64"
          "copy_block fs3 (start_block ?e) r (end_block ?e - start_block ?e + 1) = (0, fs')"
          "placed fs ps p nz r (r + ?nb - 1) fs' ps'"
          by (rule relocate_ok [OF vol own s0 n i h(5) dst(1) ls2 h(4,2) dst(2)])
        have "r \<noteq> 0" using h(5) by auto
        then have "G = (Some (r, r + ?nb - 1), e', fs')" using gr h(1) m(1,3) by simp
        then show ?thesis by (rule got [OF _ m(2,4)])
      qed
    qed
  qed
qed

text \<open>The choice that \<open>sfs_write\<close> and \<open>sfs_truncate\<close> make.\<close>

lemma placed_same:
  assumes vol: "volume_ok fs ps" and own: "owns fs ps p" and eq: "needed fs nz = needed fs (file_size (entry_at fs p))"
    and nz: "unat nz < 2 ^ 63"
  shows "placed fs ps p nz (start_block (entry_at fs p)) (end_block (entry_at fs p)) fs ps"
proof -
  note v = volume_okD [OF vol]
  let ?e = "entry_at fs p"
  note x = file_ext_area [OF v(1) v(6,7) [OF own]]
  have z: "nz = 0" if "start_block ?e = 0"
  proof -
    have "needed fs nz = 0" using eq x(3) that by (simp add: file_ext_def)
    then have "unat nz = 0" using get_real_size_ok(4) [OF v(1) nz] by auto
    then show ?thesis by (simp add: unat_eq_0)
  qed
  have fx: "file_ok fs y \<and> file_ext y = file_ext ?e"
    if "start_block y = start_block ?e" "end_block y = end_block ?e" "file_size y = nz" for y
  proof -
    have "file_ok fs y"
      using v(6) [OF own] that eq nz z x(3)
      by (cases "start_block ?e = 0") (auto simp: file_ok_def ext_ok_def ext_def file_ext_def)
    then show ?thesis using that by (simp add: file_ext_def ext_def)
  qed
  have ls: "list_step fs ps fs ps" by (rule list_step_refl [OF v(1,3) same_vol_refl])
  show ?thesis
    unfolding placed_def using index_step_list(1) [OF vol ls] fx v(8) [OF own] by (auto simp: contents_def)
qed

lemma choose_extent:
  fixes err :: int
  assumes vol: "volume_ok fs ps" and own: "owns fs ps p" and len: "length e = 64"
    and nz: "needed fs (file_size (entry_at fs p)) \<le> needed fs nz" "unat nz < 2 ^ 63"
    and room: "needed fs nz \<le> card (file_ext (entry_at fs p)) \<or> start_block (entry_at fs p) = 0 \<or> (\<exists>i. unused fs i)"
  defines "choice \<equiv> (if get_real_size fs nz > get_real_size fs (file_size (entry_at fs p))
        then grow err fs e p (start_block (entry_at fs p)) (end_block (entry_at fs p)) nz
        else (Some (start_block (entry_at fs p), end_block (entry_at fs p)), e, fs))"
  obtains (full) e' fs' where "choice = (None, e', fs')" "sfs_errno fs' = ENOSPC" "unchanged fs fs'"
      "\<forall>q \<in> set ps. card (ext (entry_at fs q)) < needed fs nz"
  | (got) ns ne e' fs' ps' where "choice = (Some (ns, ne), e', fs')" "length e' = 64" "placed fs ps p nz ns ne fs' ps'"
proof -
  note v = volume_okD [OF vol]
  note x = file_ext_area [OF v(1) v(6,7) [OF own]]
  note go = get_real_size_ok [OF v(1) x(4)] and gn = get_real_size_ok [OF v(1) nz(2)]
  have bs: "0 < unat (block_size fs)" by (rule block_size_bounds(1) [OF v(1)])
  have cmp: "get_real_size fs nz > get_real_size fs (file_size (entry_at fs p)) \<longleftrightarrow> needed fs (file_size (entry_at fs p)) < needed fs nz"
    unfolding word_less_nat_alt go(1) gn(1) using bs by simp
  show ?thesis
  proof (cases "needed fs (file_size (entry_at fs p)) < needed fs nz")
    case False
    then have "choice = (Some (start_block (entry_at fs p), end_block (entry_at fs p)), e, fs)" "needed fs nz = needed fs (file_size (entry_at fs p))"
      unfolding choice_def cmp using nz(1) by simp_all
    then show ?thesis using got len placed_same [OF vol own _ nz(2)] by blast
  next
    case True
    then have ch: "choice = grow err fs e p (start_block (entry_at fs p)) (end_block (entry_at fs p)) nz"
      unfolding choice_def cmp by simp
    have rm: "start_block (entry_at fs p) = 0 \<or> (\<exists>i. unused fs i)" using room True x(3) by auto
    show ?thesis
    proof (rule grow_ok [OF vol own len True nz(2) rm, where err = err])
      fix e' fs' assume h: "grow err fs e p (start_block (entry_at fs p)) (end_block (entry_at fs p)) nz = (None, e', fs')"
        "sfs_errno fs' = ENOSPC" "unchanged fs fs'" "\<forall>q \<in> set ps. card (ext (entry_at fs q)) < needed fs nz"
      show ?thesis by (rule full [OF _ h(2-4)]) (simp only: ch h(1))
    next
      fix ns ne e' fs' ps'
      assume h: "grow err fs e p (start_block (entry_at fs p)) (end_block (entry_at fs p)) nz = (Some (ns, ne), e', fs')"
        "length e' = 64" "placed fs ps p nz ns ne fs' ps'"
      show ?thesis by (rule got [OF _ h(2,3)]) (simp only: ch h(1))
    qed
  qed
qed

text \<open>The end of \<open>sfs_write\<close> and \<open>sfs_truncate\<close>: the file gets the extent and the size that were chosen.\<close>

lemma stored:
  assumes vol: "volume_ok fs ps" and own: "owns fs ps p" and pl: "placed fs ps p nz ns ne fs2 ps2" and len: "length e = 64"
  obtains e' fs3 fs' where "store_extent fs2 e p ns ne nz = (e', fs3)" "fs' = SET_ERRNO 0 (update fs3)"
    "volume_ok fs' ps2" "owns fs' ps2 p" "entry_type (entry_at fs' p) = entry_type (entry_at fs p)"
    "start_block (entry_at fs' p) = ns" "file_size (entry_at fs' p) = nz"
    "\<And>q. owns fs ps q \<Longrightarrow> q \<noteq> p \<Longrightarrow> owns fs' ps2 q \<and> entry_at fs' q = entry_at fs q \<and> contents fs' q = contents fs q"
    "lookup_file fs' = lookup_file fs" "lookup_dir fs' = lookup_dir fs" "space fs' ps2 = space fs ps"
    "take (unat nz) (seg (unat ns * unat (block_size fs)) (unat (file_size (entry_at fs p))) (host_file fs')) = take (unat nz) (contents fs p)"
    "\<exists>b. after fs (entry_at fs') b fs'"
    "\<forall>q. owns fs' ps2 q = owns fs ps q"
proof -
  note ov = owns_valid [OF vol own] and v = volume_okD [OF vol]
  have step: "index_step fs ps fs2 ps2" and oth: "\<And>q. owns fs ps q \<Longrightarrow> q \<noteq> p \<Longrightarrow> contents fs2 q = contents fs q"
    and sp: "\<And>x. start_block x = ns \<Longrightarrow> end_block x = ne \<Longrightarrow> file_size x = nz \<Longrightarrow> file_ok fs x
         \<and> blocks (entry_at fs2) ps2 \<union> file_ext x = blocks (entry_at fs) ps \<union> file_ext (entry_at fs p)
         \<and> file_ext x \<inter> blocks (entry_at fs2) ps2 = {}"
    and sg: "take (unat nz) (seg (unat ns * unat (block_size fs)) (unat (file_size (entry_at fs p))) (host_file fs2))
      = take (unat nz) (contents fs p)"
    using pl by (simp_all add: placed_def)
  obtain b where ub: "after fs (entry_at fs2) b fs2" using step by (auto simp: index_step_def)
  have v2: "slot_valid fs2 p" using ov(1) after_sel(2) [OF ub] by simp
  have e2: "entry_at fs2 q = entry_at fs q" if "owns fs ps q" for q
    using that step by (auto simp: owns_def index_step_def)
  obtain e3 fs3 t where st: "store_extent fs2 e p ns ne nz = (e3, fs3)"
    "after fs2 ((entry_at fs2)(p := set_time_stamp t (set_file_size nz (set_end_block ne (set_start_block ns (entry_at fs2 p))))))
       (del_begin fs2) fs3"
    by (rule store_extent_ok [OF after_ok [OF ub] v2 len])
  let ?new = "set_time_stamp t (set_file_size nz (set_end_block ne (set_start_block ns (entry_at fs p))))"
  note f = resized_fields [OF ov(2), of t nz ne ns]
  have u3: "after fs2 ((entry_at fs2)(p := ?new)) (del_begin fs2) fs3" using st(2) e2 [OF own] by simp
  note sx = sp [OF f(4,5,6)]
  note rz = resized [OF vol own step u3 f(1-3) conjunct1 [OF sx] conjunct1 [OF conjunct2 [OF sx]] conjunct2 [OF conjunct2 [OF sx]]]
  let ?fs4 = "SET_ERRNO 0 (update fs3)"
  have u4: "unchanged fs3 ?fs4" using after_refl [OF after_ok [OF u3]] by simp
  note s4 = after_sel [OF u4] and vu = volume_unchanged [OF rz(1) u4]
  obtain b4 where u1: "after fs (entry_at ?fs4) b4 ?fs4" using rz(7) s4(1) by auto
  have uu: "after fs2 (entry_at ?fs4) (del_begin fs2) ?fs4" using after_trans [OF u3 u4] after_sel(1,3) [OF u3] s4(1) by simp
  have out: "entry_at ?fs4 q = entry_at fs2 q" if "q \<notin> set (index_offs fs2)" for q
    using rz(8) [of q] that s4(1) after_sel(7) [OF ub] by simp
  have host: "take (unat (entry_start fs)) (host_file ?fs4) = take (unat (entry_start fs)) (host_file fs2)"
    using data_area_frame [OF after_ok [OF ub] uu out] after_sel(9) [OF ub] by simp
  have keep: "seg a m (host_file ?fs4) = seg a m (host_file fs2)" if "a + m \<le> unat (entry_start fs)" for a m
    using seg_take [OF that, of "host_file ?fs4"] seg_take [OF that, of "host_file fs2"] host by simp
  have bs: "block_size ?fs4 = block_size fs" "block_size fs2 = block_size fs" by (rule after_sel(4) [OF u1], rule after_sel(4) [OF ub])
  have others: "owns ?fs4 ps2 q \<and> entry_at ?fs4 q = entry_at fs q \<and> contents ?fs4 q = contents fs q"
    if q: "owns fs ps q" "q \<noteq> p" for q
  proof -
    have q3: "owns ?fs4 ps2 q" "entry_at ?fs4 q = entry_at fs q" using rz(4) [OF q] vu(3) s4(1) by simp_all
    note xq = file_ext_area [OF v(1) v(6,7) [OF q(1)]]
    have "contents ?fs4 q = contents fs2 q"
      unfolding contents_def q3(2) e2 [OF q(1)] bs by (rule keep) (use xq(1,2) in linarith)
    then show ?thesis using q3 oth [OF q] by simp
  qed
  have e4: "entry_at ?fs4 p = ?new" using rz(3) s4(1) by simp
  show ?thesis
  proof (rule that [OF st(1) refl vu(1)])
    show "\<exists>b. after fs (entry_at ?fs4) b ?fs4" using u1 by blast
    show "lookup_file ?fs4 = lookup_file fs" "lookup_dir ?fs4 = lookup_dir fs"
      using rz(5,6) lookup_after [OF u4] by (simp_all add: fun_eq_iff)
    show "\<forall>q. owns ?fs4 ps2 q = owns fs ps q" using vu(3) rz(10) by simp
    show "owns ?fs4 ps2 p" "space ?fs4 ps2 = space fs ps" using rz(2,9) vu(2,3) by simp_all
    show "entry_type (entry_at ?fs4 p) = entry_type (entry_at fs p)" "start_block (entry_at ?fs4 p) = ns"
      "file_size (entry_at ?fs4 p) = nz"
      unfolding e4 by (rule f)+
    have len4: "unat nz \<le> card (file_ext ?new) * unat (block_size fs)"
      "unat ns * unat (block_size fs) + card (file_ext ?new) * unat (block_size fs) \<le> unat (entry_start fs)"
    proof -
      have "below fs (file_ext ?new)"
        using conjunct1 [OF conjunct2 [OF sx]] v(5) v(7) [OF own] unfolding below_def by blast
      note xn = file_ext_area [OF v(1) conjunct1 [OF sx] this]
      show "unat nz \<le> card (file_ext ?new) * unat (block_size fs)" using xn(2) unfolding f(6) .
      show "unat ns * unat (block_size fs) + card (file_ext ?new) * unat (block_size fs) \<le> unat (entry_start fs)"
        using xn(1) unfolding f(4) .
    qed
    let ?a = "unat ns * unat (block_size fs)" and ?m = "unat (file_size (entry_at fs p))"
    have cut: "take (unat nz) (seg a m h) = seg a (min (unat nz) m) h" for a m and h :: bytes
      by (simp add: seg_def)
    have "?a + min (unat nz) ?m \<le> unat (entry_start fs)" using len4 by linarith
    then show "take (unat nz) (seg ?a ?m (host_file ?fs4)) = take (unat nz) (contents fs p)"
      using sg unfolding cut [of ?a] by (simp only: keep)
  qed (use others in blast)
qed

end
