(* ===== verification/FileWrites.thy ===== *)
theory FileWrites
  imports Resize
begin

text \<open>
  \<open>sfs_write\<close> and \<open>sfs_truncate\<close> on a volume in order: what the file reads as afterwards, that the other
  files have not changed, and that the volume is in order again.
\<close>

section \<open>Writing\<close>

lemma sfs_write_ok:
  assumes vol: "volume_ok fs ps" and own: "owns fs ps p" and len: "length e = 64" and room: "length data = unat sz"
    and off: "unat off \<le> unat (file_size (entry_at fs p))" and sum: "unat off + unat sz < 2 ^ 63"
    and fit: "needed fs (off + sz) \<le> card (file_ext (entry_at fs p)) \<or> start_block (entry_at fs p) = 0 \<or> (\<exists>i. unused fs i)"
  obtains (full) fs' where "sfs_write fs e p data sz off = (-1, fs')" "sfs_errno fs' = ENOSPC" "unchanged fs fs'"
      "\<forall>q \<in> set ps. card (ext (entry_at fs q)) < needed fs (off + sz)"
  | (written) fs' ps' where "sfs_write fs e p data sz off = (sz, fs')" "sfs_errno fs' = 0" "volume_ok fs' ps'" "owns fs' ps' p"
      "unat (file_size (entry_at fs' p)) = max (unat (file_size (entry_at fs p))) (unat off + unat sz)"
      "contents fs' p = take (unat off) (contents fs p) @ data @ drop (unat off + unat sz) (contents fs p)"
      "\<And>q. owns fs ps q \<Longrightarrow> q \<noteq> p \<Longrightarrow> owns fs' ps' q \<and> entry_at fs' q = entry_at fs q \<and> contents fs' q = contents fs q"
      "lookup_file fs' = lookup_file fs" "lookup_dir fs' = lookup_dir fs" "space fs' ps' = space fs ps"
      "\<forall>q. owns fs' ps' q = owns fs ps q" "block_size fs' = block_size fs"
proof -
  note ov = owns_valid [OF vol own]
  let ?fz = "file_size (entry_at fs p)"
  obtain fs1 where r: "read_entry fs p e = (64, entry_at fs p, fs1)" "unchanged fs fs1"
    by (rule read_entry_after [OF volume_okD(1) [OF vol] ov(1) len])
  note s1 = after_sel [OF r(2)]
  have vol1: "volume_ok fs1 ps" by (rule volume_unchanged [OF vol r(2)])
  have own1: "owns fs1 ps q = owns fs ps q" for q using s1 by (simp add: owns_def)
  have e1: "entry_at fs1 = entry_at fs" by (rule s1(1))
  have c1: "contents fs1 q = contents fs q" if "owns fs ps q" for q
    by (rule contents_frame [OF vol that r(2) data_area_frame [OF volume_okD(1) [OF vol] r(2)]]) simp_all
  have o1: "owns fs1 ps p" using own own1 by simp
  note v = volume_okD [OF vol1]
  note x = file_ext_area [OF v(1) v(6,7) [OF o1]]
  define nz where "nz = (if off + sz > ?fz then off + sz else ?fz)"
  have us: "unat (off + sz) = unat off + unat sz" using sum by (subst unat_add_small) auto
  have unz: "unat nz = max (unat ?fz) (unat off + unat sz)" using us by (simp add: nz_def word_less_nat_alt max_def)
  have nz: "needed fs1 (file_size (entry_at fs1 p)) \<le> needed fs1 nz" "unat nz < 2 ^ 63"
    using needed_mono [of ?fz nz] unz sum x(4) e1 by simp_all
  have un: "unused fs1 i = unused fs i" for i using s1 by (simp add: unused_def)
  have fit1: "needed fs1 nz \<le> card (file_ext (entry_at fs1 p)) \<or> start_block (entry_at fs1 p) = 0 \<or> (\<exists>i. unused fs1 i)"
    unfolding un using fit x(3) geometry_after(3) [OF r(2)] e1 by (auto simp: nz_def)
  let ?ch = "if get_real_size fs1 nz > get_real_size fs1 (file_size (entry_at fs1 p))
        then grow EIO fs1 (entry_at fs p) p (start_block (entry_at fs1 p)) (end_block (entry_at fs1 p)) nz
        else (Some (start_block (entry_at fs1 p), end_block (entry_at fs1 p)), entry_at fs p, fs1)"
  have run: "sfs_write fs e p data sz off =
      (case ?ch of (x, entr, fs) \<Rightarrow>
         (case x of
            None \<Rightarrow> (-1, fs)
          | Some (new_start, new_end) \<Rightarrow>
              (case store_extent fs entr p new_start new_end nz of
                 (entr, fs) \<Rightarrow>
                   let fs = SET_ERRNO 0 (update fs) in
                   write_data fs (new_start * block_size fs + off) data sz)))"
    unfolding sfs_write_def r(1) nz_def e1 by (simp add: Let_def)
  show ?thesis
  proof (rule choose_extent [OF vol1 o1 ov(2) nz fit1, of EIO])
    fix e' fs' assume h: "?ch = (None, e', fs')" "sfs_errno fs' = ENOSPC" "unchanged fs1 fs'"
      "\<forall>q \<in> set ps. card (ext (entry_at fs1 q)) < needed fs1 nz"
    have "get_real_size fs1 nz > get_real_size fs1 ?fz" using h(1) e1 by (auto split: if_splits)
    then have "nz = off + sz" by (auto simp: nz_def)
    moreover have "unchanged fs fs'" using after_trans [OF r(2)] h(3) s1 by simp
    ultimately show ?thesis using full [of fs'] run h(1,2,4) geometry_after(3) [OF r(2)] e1 by simp
  next
    fix ns ne e' fs2 ps2
    assume h: "?ch = (Some (ns, ne), e', fs2)" "length e' = 64" "placed fs1 ps p nz ns ne fs2 ps2"
    obtain e3 fs3 fs4 where st: "store_extent fs2 e' p ns ne nz = (e3, fs3)" "fs4 = SET_ERRNO 0 (update fs3)"
      "volume_ok fs4 ps2" "owns fs4 ps2 p" "start_block (entry_at fs4 p) = ns" "file_size (entry_at fs4 p) = nz"
      and kept: "\<And>q. owns fs1 ps q \<Longrightarrow> q \<noteq> p \<Longrightarrow> owns fs4 ps2 q \<and> entry_at fs4 q = entry_at fs1 q \<and> contents fs4 q = contents fs1 q"
      and nm: "lookup_file fs4 = lookup_file fs1" "lookup_dir fs4 = lookup_dir fs1" "space fs4 ps2 = space fs1 ps"
      and sg: "take (unat nz) (seg (unat ns * unat (block_size fs1)) (unat (file_size (entry_at fs1 p))) (host_file fs4))
        = take (unat nz) (contents fs1 p)"
      and "\<exists>b. after fs1 (entry_at fs4) b fs4" and oo: "\<forall>q. owns fs4 ps2 q = owns fs1 ps q"
      by (rule stored [OF vol1 o1 h(3,2)]) blast+
    then obtain b4 where u1: "after fs1 (entry_at fs4) b4 fs4" by blast
    note s4 = after_sel [OF u1] and vol4 = st(3) and o4 = st(4) and fields = st(5,6)
    note w = volume_okD [OF vol4]
    note x4 = file_ext_area [OF w(1) w(6,7) [OF o4]]
    have end_: "unat off + unat sz \<le> card (file_ext (entry_at fs4 p)) * unat (block_size fs4)"
      using x4(2) unz unfolding fields by simp
    obtain fs5 where wr: "write_data fs4 (ns * block_size fs4 + off) data sz = (sz, fs5)"
      "volume_ok fs5 ps2" "space fs5 ps2 = space fs4 ps2" "sfs_errno fs5 = sfs_errno fs4"
      and own5: "\<forall>q. owns fs4 ps2 q \<longrightarrow> owns fs5 ps2 q \<and> entry_at fs5 q = entry_at fs4 q"
      and c5: "\<forall>q. owns fs4 ps2 q \<and> q \<noteq> p \<longrightarrow> contents fs5 q = contents fs4 q"
      and h5: "host_file fs5 = patch (unat ns * unat (block_size fs4) + unat off) data (host_file fs4)"
      "unat ns * unat (block_size fs4) + unat off + unat sz \<le> length (host_file fs4)" "block_size fs5 = block_size fs4"
      "lookup_file fs5 = lookup_file fs4" "lookup_dir fs5 = lookup_dir fs4" "\<forall>q. owns fs5 ps2 q = owns fs4 ps2 q"
      by (rule write_in_extent [OF vol4 o4 room end_, unfolded fields])
    have bs: "block_size fs4 = block_size fs" using s4(4) s1(4) by simp
    have old: "seg (unat ns * unat (block_size fs)) (unat ?fz) (host_file fs4) = contents fs p"
    proof -
      let ?S = "seg (unat ns * unat (block_size fs)) (unat ?fz) (host_file fs4)"
      have "length ?S \<le> unat nz" "length (contents fs p) \<le> unat nz" using unz by (simp_all add: seg_def contents_def)
      then show ?thesis using sg c1 [OF own] s1(4) e1 by simp
    qed
    have "seg (unat ns * unat (block_size fs)) (unat nz) (host_file fs5)
        = take (unat off) (contents fs p) @ data @ drop (unat off + length data) (contents fs p)"
      unfolding h5(1) bs old [symmetric] by (rule seg_patched [OF off]) (use h5(2) bs unz room in simp_all)
    then have cp: "contents fs5 p = take (unat off) (contents fs p) @ data @ drop (unat off + unat sz) (contents fs p)"
      using own5 o4 fields bs h5(3) room by (simp add: contents_def)
    have others: "owns fs5 ps2 q \<and> entry_at fs5 q = entry_at fs q \<and> contents fs5 q = contents fs q"
      if "owns fs ps q" "q \<noteq> p" for q
      using kept [of q] own5 c5 that own1 e1 c1 by simp
    have "sfs_write fs e p data sz off = (sz, fs5)" unfolding run h(1) using st(1,2) wr(1) by simp
    then show ?thesis
    proof (rule written [OF _ _ wr(2)])
      show "sfs_errno fs5 = 0" using wr(4) st(2) by simp
      show "lookup_file fs5 = lookup_file fs" "lookup_dir fs5 = lookup_dir fs"
        using h5(4,5) nm lookup_after [OF r(2)] by (simp_all add: fun_eq_iff)
      show "\<forall>q. owns fs5 ps2 q = owns fs ps q" using h5(6) oo own1 by simp
      show "block_size fs5 = block_size fs" using h5(3) bs by simp
    qed (use own5 o4 others cp fields unz wr(3) nm(3) volume_unchanged(2) [OF vol r(2)] in simp_all)
  qed
qed

section \<open>Truncating\<close>

text \<open>To no bytes at all, where the index has a slot for the extent that is given back.\<close>

lemma placed_nowhere:
  assumes vol: "volume_ok fs ps" and own: "owns fs ps p" and i: "unused fs i" and len: "length e = 64"
  obtains e' fs' ps' where "del_file_list_add fs e (start_block (entry_at fs p)) (end_block (entry_at fs p)) = (0, e', fs')"
    "length e' = 64" "placed fs ps p 0 0 0 fs' ps'"
proof -
  note v = volume_okD [OF vol]
  obtain e' fs' ps' where ad: "del_file_list_add fs e (start_block (entry_at fs p)) (end_block (entry_at fs p)) = (0, e', fs')"
    "length e' = 64" "list_step fs ps fs' ps'" "\<forall>q \<in> set ps' - set ps. entry_type (entry_at fs q) = entry_code UNUSED_ENTRY"
    "blocks (entry_at fs') ps' = blocks (entry_at fs) ps \<union> file_ext (entry_at fs p)"
    by (rule give_back [OF vol after_refl [OF v(1)] v(2) len own refl i])
  have z: "file_ok fs x \<and> file_ext x = {}" if "start_block x = 0" "end_block x = 0" "file_size x = 0" for x
    using that by (simp add: file_ok_def file_ext_def)
  have "placed fs ps p 0 0 0 fs' ps'"
    unfolding placed_def
  proof (intro conjI allI impI)
    show "index_step fs ps fs' ps'" by (rule index_step_list(1) [OF vol ad(3,4)])
    show "contents fs' q = contents fs q" if "owns fs ps q \<and> q \<noteq> p" for q
      using list_contents(1) [OF vol ad(3,4)] that by blast
  qed (use z ad(5) in auto)
  then show ?thesis by (rule that [OF ad(1,2)])
qed

text \<open>To a size that needs as many blocks as the file has or more. (Fewer blocks but one or more is
  \<open>file_shrink\<close>, which mistakes bytes for blocks.)\<close>

lemma sfs_truncate_ok:
  assumes vol: "volume_ok fs ps" and own: "owns fs ps p" and len: "length e = 64" and z: "unat z < 2 ^ 63"
    and fit: "z = 0 \<or> card (file_ext (entry_at fs p)) \<le> needed fs z"
    and free: "z \<noteq> 0 \<and> (needed fs z = card (file_ext (entry_at fs p)) \<or> start_block (entry_at fs p) = 0) \<or> (\<exists>i. unused fs i)"
  obtains (full) fs' where "sfs_truncate fs e p z = (-1, fs')" "sfs_errno fs' = ENOSPC" "unchanged fs fs'"
      "\<forall>q \<in> set ps. card (ext (entry_at fs q)) < needed fs z"
  | (cut) fs' ps' where "sfs_truncate fs e p z = (0, fs')" "sfs_errno fs' = 0" "volume_ok fs' ps'" "owns fs' ps' p"
      "file_size (entry_at fs' p) = z"
      "take (unat (file_size (entry_at fs p))) (contents fs' p) = take (unat z) (contents fs p)"
      "\<forall>q. owns fs ps q \<and> q \<noteq> p \<longrightarrow> owns fs' ps' q \<and> entry_at fs' q = entry_at fs q \<and> contents fs' q = contents fs q"
      "lookup_file fs' = lookup_file fs" "lookup_dir fs' = lookup_dir fs" "space fs' ps' = space fs ps"
      "\<forall>q. owns fs' ps' q = owns fs ps q" "block_size fs' = block_size fs"
proof -
  note ov = owns_valid [OF vol own]
  let ?e = "entry_at fs p"
  obtain fs1 where r: "read_entry fs p e = (64, ?e, fs1)" "unchanged fs fs1"
    by (rule read_entry_after [OF volume_okD(1) [OF vol] ov(1) len])
  note s1 = after_sel [OF r(2)] and vu = volume_unchanged [OF vol r(2)]
  have e1: "entry_at fs1 = entry_at fs" by (rule s1(1))
  have o1: "owns fs1 ps p" using own vu(3) by simp
  have unusedI: "unused fs1 i" if "unused fs i" for i using that s1 by (simp add: unused_def)
  have c1: "contents fs1 q = contents fs q" if "owns fs ps q" for q
    by (rule contents_frame [OF vol that r(2) data_area_frame [OF volume_okD(1) [OF vol] r(2)]]) simp_all
  note v = volume_okD [OF vu(1)]
  note x = file_ext_area [OF v(1) v(6,7) [OF o1]]
  note go = get_real_size_ok [OF v(1) x(4)] and gz = get_real_size_ok [OF v(1) z]
  have bs: "0 < unat (block_size fs1)" by (rule block_size_bounds(1) [OF v(1)])
  define choice where "choice = (if z = 0 then (case del_file_list_add fs1 ?e (start_block ?e) (end_block ?e) of
        (_, entr, fs) \<Rightarrow> (Some (0, 0), entr, fs))
      else if get_real_size fs1 z > get_real_size fs1 (file_size (entry_at fs1 p))
        then grow ENOSPC fs1 ?e p (start_block (entry_at fs1 p)) (end_block (entry_at fs1 p)) z
        else (Some (start_block (entry_at fs1 p), end_block (entry_at fs1 p)), ?e, fs1))"
  have mono: "needed fs1 (file_size (entry_at fs1 p)) \<le> needed fs1 z" if "z \<noteq> 0"
    using fit that x(3) geometry_after(3) [OF r(2)] e1 by simp
  have "\<not> get_real_size fs1 z < get_real_size fs1 (file_size (entry_at fs1 p))" if "z \<noteq> 0"
    unfolding word_less_nat_alt go(1) gz(1) using mono [OF that] bs by simp
  then have run: "sfs_truncate fs e p z = (case choice of (x, entr, fs) \<Rightarrow>
       (case x of None \<Rightarrow> (-1, fs)
        | Some (new_start, new_end) \<Rightarrow>
            (case store_extent fs entr p new_start new_end z of (entr, fs) \<Rightarrow> (0, SET_ERRNO 0 (update fs)))))"
    unfolding sfs_truncate_def r(1) choice_def e1 by (simp add: Let_def)
  have finish: thesis
    if ch: "choice = (Some (ns, ne), e', fs2)" "length e' = 64" "placed fs1 ps p z ns ne fs2 ps2" for ns ne e' fs2 ps2
  proof (rule stored [OF vu(1) o1 ch(3,2)])
    fix e3 fs3 fs4
    assume h: "store_extent fs2 e' p ns ne z = (e3, fs3)" "fs4 = SET_ERRNO 0 (update fs3)" "volume_ok fs4 ps2" "owns fs4 ps2 p"
      "start_block (entry_at fs4 p) = ns" "file_size (entry_at fs4 p) = z"
      and kept: "\<And>q. owns fs1 ps q \<Longrightarrow> q \<noteq> p \<Longrightarrow> owns fs4 ps2 q \<and> entry_at fs4 q = entry_at fs1 q \<and> contents fs4 q = contents fs1 q"
      and nm: "lookup_file fs4 = lookup_file fs1" "lookup_dir fs4 = lookup_dir fs1" "space fs4 ps2 = space fs1 ps"
      and sg: "take (unat z) (seg (unat ns * unat (block_size fs1)) (unat (file_size (entry_at fs1 p))) (host_file fs4))
        = take (unat z) (contents fs1 p)"
      and "\<exists>b. after fs1 (entry_at fs4) b fs4" and oo: "\<forall>q. owns fs4 ps2 q = owns fs1 ps q"
    then obtain b4 where u1: "after fs1 (entry_at fs4) b4 fs4" by blast
    have "take (unat (file_size ?e)) (contents fs4 p)
        = take (unat z) (seg (unat ns * unat (block_size fs1)) (unat (file_size (entry_at fs1 p))) (host_file fs4))"
      unfolding contents_def h(5,6) e1 after_sel(4) [OF u1] by (simp add: seg_def min.commute)
    then have pre: "take (unat (file_size ?e)) (contents fs4 p) = take (unat z) (contents fs p)" unfolding sg c1 [OF own] .
    show thesis
      by (rule cut [of fs4 ps2])
        (use run ch h pre kept nm oo after_sel(4) [OF u1] s1(4) vu(2,3) c1 e1 lookup_after [OF r(2)] in \<open>simp_all add: fun_eq_iff\<close>)
  qed
  show ?thesis
  proof (cases "z = 0")
    case True
    obtain i where i: "unused fs1 i" using free True unusedI by blast
    obtain e' fs2 ps2 where ad: "del_file_list_add fs1 ?e (start_block ?e) (end_block ?e) = (0, e', fs2)" "length e' = 64"
      "placed fs1 ps p 0 0 0 fs2 ps2"
      by (rule placed_nowhere [OF vu(1) o1 i ov(2), unfolded e1])
    show ?thesis by (rule finish [of 0 0 e' fs2 ps2]) (use ad True in \<open>simp_all add: choice_def\<close>)
  next
    case False
    have fit1: "needed fs1 z \<le> card (file_ext (entry_at fs1 p)) \<or> start_block (entry_at fs1 p) = 0 \<or> (\<exists>i. unused fs1 i)"
      using free False unusedI geometry_after(3) [OF r(2)] e1 by auto
    show ?thesis
    proof (rule choose_extent [OF vu(1) o1 ov(2) mono [OF False] z fit1, of ENOSPC])
      fix e' fs' assume h: "(if get_real_size fs1 z > get_real_size fs1 (file_size (entry_at fs1 p))
          then grow ENOSPC fs1 ?e p (start_block (entry_at fs1 p)) (end_block (entry_at fs1 p)) z
          else (Some (start_block (entry_at fs1 p), end_block (entry_at fs1 p)), ?e, fs1)) = (None, e', fs')"
        "sfs_errno fs' = ENOSPC" "unchanged fs1 fs'" "\<forall>q \<in> set ps. card (ext (entry_at fs1 q)) < needed fs1 z"
      have "unchanged fs fs'" using after_trans [OF r(2)] h(3) s1 by simp
      then show ?thesis using full [of fs'] run h False geometry_after(3) [OF r(2)] e1 by (simp add: choice_def)
    next
      fix ns ne e' fs' ps'
      assume h: "(if get_real_size fs1 z > get_real_size fs1 (file_size (entry_at fs1 p))
          then grow ENOSPC fs1 ?e p (start_block (entry_at fs1 p)) (end_block (entry_at fs1 p)) z
          else (Some (start_block (entry_at fs1 p), end_block (entry_at fs1 p)), ?e, fs1)) = (Some (ns, ne), e', fs')"
        "length e' = 64" "placed fs1 ps p z ns ne fs' ps'"
      show ?thesis by (rule finish [OF _ h(2,3)]) (use h(1) False in \<open>simp add: choice_def\<close>)
    qed
  qed
qed

end
