(* ===== verification/FileStore.thy ===== *)
theory FileStore
  imports FileWrites
begin

text \<open>
  The interface of a store of files: byte sequences that are changed and read at an offset, and
  removed. Its client lemmas hold for every provider; a volume in order, with \<open>sfs_write\<close>,
  \<open>sfs_read\<close> and \<open>sfs_delete\<close>, provides it.
\<close>

section \<open>The interface\<close>

text \<open>\<open>may_put s k n\<close>: the file \<open>k\<close> may be written up to its byte \<open>n\<close>; \<open>may_get s p n\<close>: files may be
  read from \<open>p\<close> on for \<open>n\<close> bytes. \<open>junk\<close> are the contents of the local variables the operations start
  with. \<open>put\<close> may fail for lack of space.\<close>

locale file_store =
  fixes ok :: "'s \<Rightarrow> bool" and files :: "'s \<Rightarrow> 'k \<Rightarrow> 'b list option" and junk :: "'g \<Rightarrow> bool"
    and may_put :: "'s \<Rightarrow> 'k \<Rightarrow> nat \<Rightarrow> bool" and may_get :: "'s \<Rightarrow> nat \<Rightarrow> nat \<Rightarrow> bool"
    and put :: "'g \<Rightarrow> 'k \<Rightarrow> nat \<Rightarrow> 'b list \<Rightarrow> 's \<Rightarrow> bool \<times> 's"
    and get :: "'g \<Rightarrow> 'k \<Rightarrow> nat \<Rightarrow> nat \<Rightarrow> 's \<Rightarrow> 'b list option \<times> 's"
  assumes put_law: "ok s \<Longrightarrow> files s k = Some c \<Longrightarrow> p \<le> length c \<Longrightarrow> may_put s k (p + length d) \<Longrightarrow> junk g \<Longrightarrow>
      put g k p d s = (b, s') \<Longrightarrow>
      ok s' \<and> files s' = (if b then (files s)(k \<mapsto> patch p d c) else files s) \<and> may_get s' = may_get s"
    and get_law: "ok s \<Longrightarrow> files s k = Some c \<Longrightarrow> p \<le> length c \<Longrightarrow> may_get s p n \<Longrightarrow> junk g \<Longrightarrow>
      get g k p n s = (r, s') \<Longrightarrow> r = Some (take n (drop p c))"
begin

lemma put_get:
  assumes "ok s" and "files s k = Some c" and "p \<le> length c" and "may_put s k (p + length d)" and "junk g"
    and "put g k p d s = (True, s1)" and "may_get s p (length d)" and "junk g'" and "get g' k p (length d) s1 = (r, s2)"
  shows "r = Some d"
proof -
  note h = put_law [OF assms(1-6)]
  have f: "files s1 k = Some (patch p d c)" using h by simp
  have l: "p \<le> length (patch p d c)" using assms(3) by (simp add: patch_def)
  show ?thesis
    using get_law [OF conjunct1 [OF h] f l _ assms(8,9)] h assms(3,7) by (simp add: patch_def)
qed

lemma put_get_other:
  assumes "ok s" and "files s k = Some c" and "p \<le> length c" and "may_put s k (p + length d)" and "junk g"
    and "put g k p d s = (b, s1)" and "files s k' = Some c'" and "k' \<noteq> k" and "q \<le> length c'" and "may_get s q n"
    and "junk g'" and "get g' k' q n s1 = (r, s2)"
  shows "r = Some (take n (drop q c'))"
proof -
  note h = put_law [OF assms(1-6)]
  have "files s1 k' = Some c'" using h assms(7,8) by (simp split: if_splits)
  then show ?thesis using get_law [OF conjunct1 [OF h] _ assms(9) _ assms(11,12)] h assms(10) by simp
qed

end

locale file_store_removal = file_store +
  fixes removable :: "'s \<Rightarrow> 'k \<Rightarrow> bool" and remove :: "'g \<Rightarrow> 'k \<Rightarrow> 's \<Rightarrow> 's"
  assumes remove_law: "ok s \<Longrightarrow> removable s k \<Longrightarrow> junk g \<Longrightarrow>
      ok (remove g k s) \<and> files (remove g k s) = (files s)(k := None)"
    and removable_file: "ok s \<Longrightarrow> removable s k \<Longrightarrow> k \<in> dom (files s)"
begin

lemma remove_frame:
  assumes "ok s" and "removable s k" and "junk g" and "k' \<noteq> k"
  shows "files (remove g k s) k' = files s k'" and "files (remove g k s) k = None"
  using remove_law [OF assms(1-3)] assms(4) by simp_all

lemma remove_one_less:
  assumes "ok s" and "removable s k" and "junk g" and "finite (dom (files s))"
  shows "card (dom (files (remove g k s))) < card (dom (files s))"
  using remove_law [OF assms(1-3)] removable_file [OF assms(1,2)] assms(4) card_gt_0_iff [of "dom (files s)"] by auto

end

section \<open>The files of a volume\<close>

definition in_order :: "fs \<Rightarrow> bool" where
  "in_order fs \<longleftrightarrow> (\<exists>ps. volume_ok fs ps)"

text \<open>A file is known by the offset of its entry, an unlinked one too until it is deleted.\<close>

definition files_of :: "fs \<Rightarrow> u64 \<Rightarrow> bytes option" where
  "files_of fs p = (if \<exists>ps. volume_ok fs ps \<and> owns fs ps p then Some (contents fs p) else None)"

lemma volume_unique: "volume_ok fs ps \<Longrightarrow> volume_ok fs qs \<Longrightarrow> ps = qs"
  by (auto dest!: volume_okD(3) simp: free_ok_def free_list_def dest: dpath_det)

lemma files_of_eq: "volume_ok fs ps \<Longrightarrow> files_of fs p = (if owns fs ps p then Some (contents fs p) else None)"
  unfolding files_of_def using volume_unique by metis

lemma files_of_Some: "volume_ok fs ps \<Longrightarrow> files_of fs p = Some c \<longleftrightarrow> owns fs ps p \<and> c = contents fs p"
  by (auto simp: files_of_eq)

lemma length_contents:
  assumes "volume_ok fs ps" and "owns fs ps p"
  shows "length (contents fs p) = unat (file_size (entry_at fs p))"
proof -
  note v = volume_okD [OF assms(1)]
  note x = file_ext_area [OF v(1) v(6,7) [OF assms(2)]]
  have "unat (start_block (entry_at fs p)) * unat (block_size fs) + unat (file_size (entry_at fs p)) \<le> length (host_file fs)"
    using x(1,2) v(1) by (auto simp: fs_ok_def)
  then show ?thesis by (simp add: contents_def)
qed

lemma files_of_cong:
  assumes "volume_ok fs ps" and "volume_ok fs' ps'" and "\<forall>q. owns fs' ps' q = owns fs ps q"
    and "\<forall>q. owns fs ps q \<longrightarrow> contents fs' q = contents fs q"
  shows "files_of fs' = files_of fs"
  using assms by (auto simp: files_of_eq fun_eq_iff)

lemma files_unchanged:
  assumes "volume_ok fs ps" and "unchanged fs fs'"
  shows "files_of fs' = files_of fs"
proof (rule files_of_cong [OF assms(1)])
  show "\<forall>q. owns fs ps q \<longrightarrow> contents fs' q = contents fs q"
    using contents_frame [OF assms(1) _ assms(2) data_area_frame [OF volume_okD(1) [OF assms(1)] assms(2)]] by simp
qed (use volume_unchanged [OF assms] in auto)

section \<open>The operations on the files\<close>

definition may_write :: "fs \<Rightarrow> u64 \<Rightarrow> nat \<Rightarrow> bool" where
  "may_write fs p n \<longleftrightarrow> n < 2 ^ 63
     \<and> (needed fs (word_of_nat n) \<le> card (file_ext (entry_at fs p)) \<or> start_block (entry_at fs p) = 0 \<or> (\<exists>i. unused fs i))"

definition may_read :: "fs \<Rightarrow> nat \<Rightarrow> nat \<Rightarrow> bool" where
  "may_read fs p n \<longleftrightarrow> p + n < 2 ^ 63
     \<and> (p mod unat (block_size fs) + n \<le> unat (block_size fs) \<or> unat (block_size fs) dvd p)"

definition put_bytes :: "entry \<Rightarrow> u64 \<Rightarrow> nat \<Rightarrow> bytes \<Rightarrow> fs \<Rightarrow> bool \<times> fs" where
  "put_bytes e p off d fs =
     (case sfs_write fs e p d (word_of_nat (length d)) (word_of_nat off) of (r, fs) \<Rightarrow> (r \<noteq> -1, fs))"

definition get_bytes :: "entry \<Rightarrow> u64 \<Rightarrow> nat \<Rightarrow> nat \<Rightarrow> fs \<Rightarrow> bytes option \<times> fs" where
  "get_bytes e p off n fs =
     (case sfs_read fs e p (replicate n 0) (word_of_nat n) (word_of_nat off) of
        (r, out, fs) \<Rightarrow> (if r = -1 then None else Some (take (unat r) out), fs))"

definition delete_file :: "entry \<Rightarrow> u64 \<Rightarrow> fs \<Rightarrow> fs" where
  "delete_file e p fs = snd (sfs_delete fs e p)"

definition unlinked :: "fs \<Rightarrow> u64 \<Rightarrow> bool" where
  "unlinked fs p \<longleftrightarrow> (\<exists>ps. volume_ok fs ps \<and> owns fs ps p) \<and> entry_type (entry_at fs p) = entry_code DEL_FILE_ENTRY"

lemma unat_small: "n < 2 ^ 63 \<Longrightarrow> unat (word_of_nat n :: u64) = n"
  by (simp add: unat_of_nat)

lemma sfs_write_files:
  assumes vol: "volume_ok fs ps" and own: "owns fs ps p" and len: "length e = 64" and room: "length data = unat sz"
    and off: "unat off \<le> unat (file_size (entry_at fs p))" and sum: "unat off + unat sz < 2 ^ 63"
    and fit: "needed fs (off + sz) \<le> card (file_ext (entry_at fs p)) \<or> start_block (entry_at fs p) = 0 \<or> (\<exists>i. unused fs i)"
  obtains (full) fs' where "sfs_write fs e p data sz off = (-1, fs')" "sfs_errno fs' = ENOSPC" "unchanged fs fs'"
      "\<forall>q \<in> set ps. card (ext (entry_at fs q)) < needed fs (off + sz)"
  | (written) fs' where "sfs_write fs e p data sz off = (sz, fs')" "sfs_errno fs' = 0" "in_order fs'"
      "files_of fs' = (files_of fs)(p \<mapsto> patch (unat off) data (contents fs p))" "block_size fs' = block_size fs"
      "lookup_file fs' = lookup_file fs" "lookup_dir fs' = lookup_dir fs"
proof (rule sfs_write_ok [OF assms])
  fix fs' ps' assume h: "sfs_write fs e p data sz off = (sz, fs')" "sfs_errno fs' = 0" "volume_ok fs' ps'"
    "contents fs' p = take (unat off) (contents fs p) @ data @ drop (unat off + unat sz) (contents fs p)"
    "lookup_file fs' = lookup_file fs" "lookup_dir fs' = lookup_dir fs" "\<forall>q. owns fs' ps' q = owns fs ps q" "block_size fs' = block_size fs"
    and others: "\<And>q. owns fs ps q \<Longrightarrow> q \<noteq> p \<Longrightarrow> owns fs' ps' q \<and> entry_at fs' q = entry_at fs q \<and> contents fs' q = contents fs q"
  have "files_of fs' q = ((files_of fs)(p \<mapsto> patch (unat off) data (contents fs p))) q" for q
    using h(4,7) others [of q] own room by (auto simp: files_of_eq [OF vol] files_of_eq [OF h(3)] patch_def)
  then have "files_of fs' = (files_of fs)(p \<mapsto> patch (unat off) data (contents fs p))" by (rule ext)
  then show ?thesis using written h by (auto simp: in_order_def)
qed (use full in blast)

lemma sfs_truncate_files:
  assumes vol: "volume_ok fs ps" and own: "owns fs ps p" and len: "length e = 64" and z: "unat z < 2 ^ 63"
    and fit: "z = 0 \<or> card (file_ext (entry_at fs p)) \<le> needed fs z"
    and free: "z \<noteq> 0 \<and> (needed fs z = card (file_ext (entry_at fs p)) \<or> start_block (entry_at fs p) = 0) \<or> (\<exists>i. unused fs i)"
  obtains (full) fs' where "sfs_truncate fs e p z = (-1, fs')" "sfs_errno fs' = ENOSPC" "unchanged fs fs'"
      "\<forall>q \<in> set ps. card (ext (entry_at fs q)) < needed fs z"
  | (cut) fs' c where "sfs_truncate fs e p z = (0, fs')" "sfs_errno fs' = 0" "in_order fs'" "length c = unat z"
      "take (unat (file_size (entry_at fs p))) c = take (unat z) (contents fs p)" "files_of fs' = (files_of fs)(p \<mapsto> c)"
      "lookup_file fs' = lookup_file fs" "lookup_dir fs' = lookup_dir fs"
proof (rule sfs_truncate_ok [OF assms])
  fix fs' ps' assume h: "sfs_truncate fs e p z = (0, fs')" "sfs_errno fs' = 0" "volume_ok fs' ps'" "owns fs' ps' p"
    "file_size (entry_at fs' p) = z" "take (unat (file_size (entry_at fs p))) (contents fs' p) = take (unat z) (contents fs p)"
    "\<forall>q. owns fs ps q \<and> q \<noteq> p \<longrightarrow> owns fs' ps' q \<and> entry_at fs' q = entry_at fs q \<and> contents fs' q = contents fs q"
    "lookup_file fs' = lookup_file fs" "lookup_dir fs' = lookup_dir fs" "\<forall>q. owns fs' ps' q = owns fs ps q"
  have "files_of fs' q = ((files_of fs)(p \<mapsto> contents fs' p)) q" for q
    using h(7,10) own by (auto simp: files_of_eq [OF vol] files_of_eq [OF h(3)])
  then have "files_of fs' = (files_of fs)(p \<mapsto> contents fs' p)" by (rule ext)
  then show ?thesis using cut h length_contents [OF h(3,4)] by (auto simp: in_order_def)
qed (use full in blast)

text \<open>A new file is empty; an unlinked one stays, without a name.\<close>

lemma sfs_creat_files:
  assumes vol: "volume_ok fs ps" and len: "length e = 64" and walk: "walkable fs path" and run: "sfs_creat fs e path = (0, fs')"
  obtains p where "volume_ok fs' ps" "lookup_file fs path = None"
    "\<forall>path'. lookup_file fs' path' = (if cstr path' = cstr path then Some p else lookup_file fs path')" "files_of fs p = None" "files_of fs' = (files_of fs)(p \<mapsto> [])"
    "start_block (entry_at fs' p) = 0" "\<And>q. files_of fs q \<noteq> None \<Longrightarrow> entry_at fs' q = entry_at fs q"
proof (rule sfs_creat_ok [OF volume_okD(2) [OF vol] len walk])
  fix i fs'' assume none: "lookup_file fs path = None" and h: "sfs_creat fs e path = (0, fs'')"
    "created fs FILE_ENTRY 34 path i (name_entries 30 (length (cstr path))) fs''"
    "start_block (entry_at fs'' (index_off fs i)) = 0" "end_block (entry_at fs'' (index_off fs i)) = 0"
    "file_size (entry_at fs'' (index_off fs i)) = 0"
  let ?p = "index_off fs i"
  have [simp]: "fs'' = fs'" using run h(1) by simp
  have n: "0 < name_entries 30 (length (cstr path))" using walk name_entries_room(1) by (auto simp: walkable_def)
  note vc = volume_created [OF vol h(2) n disjI1 [OF refl] conjI [OF h(3) conjI [OF h(4,5)]]]
  have lk: "\<forall>path'. lookup_file fs' path' = (if cstr path' = cstr path then Some ?p else lookup_file fs path')"
    using h(2) by (simp add: created_def)
  obtain at where "after fs at (del_begin fs) fs'" using h(2) by (auto simp: created_def)
  then have u: "after fs (entry_at fs') (del_begin fs) fs'" using after_sel(1) by blast
  have area: "take (unat (entry_start fs)) (host_file fs') = take (unat (entry_start fs)) (host_file fs)"
    by (rule data_area_frame [OF volume_okD(1) [OF vol] u]) (use vc(6) in simp)
  have old: "contents fs' q = contents fs q" if "owns fs ps q" for q
    by (rule contents_frame [OF vol that u area]) (use vc(5) [OF that] in simp_all)
  have v: "volume_ok fs' ps" using vc(1) by simp
  have "contents fs' ?p = []" using h(5) by (simp add: contents_def)
  then have "files_of fs' q = ((files_of fs)(?p \<mapsto> [])) q" for q
    using vc(3) [of q] old [of q] by (auto simp: files_of_eq [OF vol] files_of_eq [OF v])
  then have "files_of fs' = (files_of fs)(?p \<mapsto> [])" by (rule ext)
  moreover have "files_of fs ?p = None" using vc(4) files_of_eq [OF vol] by simp
  moreover have "entry_at fs' q = entry_at fs q" if "files_of fs q \<noteq> None" for q
    using that vc(5) [of q] by (simp add: files_of_eq [OF vol] split: if_splits)
  ultimately show ?thesis using that [OF v none lk] h(3) by simp
qed (use run in simp_all)

lemma sfs_unlink_files:
  assumes vol: "volume_ok fs ps" and len: "length e = 64" and path: "padded path" and run: "sfs_unlink fs e path = (p, fs')"
    and p: "p \<noteq> 0"
  shows "volume_ok fs' ps" and "lookup_file fs path = Some p" and "unlinked fs' p" and "files_of fs' = files_of fs"
    and "lookup_file fs' path' = (if cstr path' = cstr path then None else lookup_file fs path')"
proof -
  have own: "owns fs' ps p" "entry_type (entry_at fs' p) = entry_code DEL_FILE_ENTRY" and vol': "volume_ok fs' ps"
    using sfs_unlink_volume [OF vol len path run] p by auto
  then show "volume_ok fs' ps" "unlinked fs' p" by (auto simp: unlinked_def)
  have "lookup_file fs path = Some p \<and> files_of fs' = files_of fs
      \<and> lookup_file fs' path' = (if cstr path' = cstr path then None else lookup_file fs path')" for path'
  proof (rule sfs_unlink_ok [OF volume_okD(2) [OF vol] len path])
    fix q fs'' assume h: "sfs_unlink fs e path = (q, fs'')" "lookup_file fs path = Some q"
      "after fs ((entry_at fs)(q := set_entry_type (entry_code DEL_FILE_ENTRY) (entry_at fs q))) (del_begin fs) fs''"
      "\<And>path'. lookup_file fs'' path' = (if cstr path' = cstr path then None else lookup_file fs path')"
    have [simp]: "fs'' = fs'" "q = p" using run h(1) by simp_all
    note l = lookup_Some [OF volume_okD(1) [OF vol] h(2)] and s = after_sel [OF h(3)]
    let ?at = "(entry_at fs)(p := set_entry_type (entry_code DEL_FILE_ENTRY) (entry_at fs p))"
    have u: "after fs ?at (del_begin fs) fs'" using h(3) by simp
    have f: "start_block (?at r) = start_block (entry_at fs r)" "file_size (?at r) = file_size (entry_at fs r)" for r
      using l(5) by (simp_all add: layout_simps)
    have area: "take (unat (entry_start fs)) (host_file fs') = take (unat (entry_start fs)) (host_file fs)"
      by (rule data_area_frame [OF volume_okD(1) [OF vol] u]) (use l(3) in auto)
    have c: "contents fs' r = contents fs r" if "owns fs ps r" for r
      by (rule contents_frame [OF vol that u area]) (rule f)+
    have "entry_type (entry_at fs p) = entry_code FILE_ENTRY" using l(4) by (simp add: has_name_def)
    then have "owns fs' ps r = owns fs ps r" for r
      using own s(1,7) by (auto simp: owns_def)
    then have "files_of fs' = files_of fs" by (intro files_of_cong [OF vol vol']) (use c in simp_all)
    then show ?thesis using h(2,4) by simp
  qed (use run p in simp_all)
  then show "lookup_file fs path = Some p" "files_of fs' = files_of fs"
    "lookup_file fs' path' = (if cstr path' = cstr path then None else lookup_file fs path')" by blast+
qed

lemma small_not_error: "unat (x :: u64) < 2 ^ 63 \<Longrightarrow> x \<noteq> -1"
proof
  assume "unat x < 2 ^ 63" "x = -1"
  moreover have "unat (-1 :: u64) = 2 ^ 64 - 1" by (simp add: unsigned_minus_1_eq_mask mask_eq_exp_minus_1)
  ultimately show False by simp
qed

lemma put_bytes_law:
  assumes ok: "in_order fs" and f: "files_of fs p = Some c" "off \<le> length c" and may: "may_write fs p (off + length d)"
    and len: "length e = 64" and run: "put_bytes e p off d fs = (b, fs')"
  shows "in_order fs' \<and> files_of fs' = (if b then (files_of fs)(p \<mapsto> patch off d c) else files_of fs) \<and> may_read fs' = may_read fs"
proof -
  obtain ps where vol: "volume_ok fs ps" using ok by (auto simp: in_order_def)
  have own: "owns fs ps p" "c = contents fs p" using f(1) files_of_Some [OF vol] by simp_all
  have n: "off + length d < 2 ^ 63" using may by (simp add: may_write_def)
  then have u: "unat (word_of_nat off :: u64) = off" "unat (word_of_nat (length d) :: u64) = length d" by (auto intro: unat_small)
  have o: "unat (word_of_nat off :: u64) \<le> unat (file_size (entry_at fs p))" using f(2) own(2) length_contents [OF vol own(1)] u by simp
  have fit: "needed fs (word_of_nat off + word_of_nat (length d)) \<le> card (file_ext (entry_at fs p))
      \<or> start_block (entry_at fs p) = 0 \<or> (\<exists>i. unused fs i)"
    using may by (simp add: may_write_def)
  have s: "unat (word_of_nat off :: u64) + unat (word_of_nat (length d) :: u64) < 2 ^ 63" using n u by simp
  show ?thesis
  proof (rule sfs_write_files [OF vol own(1) len u(2) [symmetric] o s fit])
    fix fs'' assume h: "sfs_write fs e p d (word_of_nat (length d)) (word_of_nat off) = (-1, fs'')" "unchanged fs fs''"
    then have "\<not> b" "fs' = fs''" using run by (auto simp: put_bytes_def)
    moreover have "may_read fs'' = may_read fs" using after_sel(4) [OF h(2)] by (simp add: may_read_def fun_eq_iff)
    ultimately show ?thesis
      using volume_unchanged(1) [OF vol h(2)] files_unchanged [OF vol h(2)] by (auto simp: in_order_def)
  next
    fix fs'' assume h: "sfs_write fs e p d (word_of_nat (length d)) (word_of_nat off) = (word_of_nat (length d), fs'')"
      "in_order fs''" "files_of fs'' = (files_of fs)(p \<mapsto> patch (unat (word_of_nat off :: u64)) d (contents fs p))"
      "block_size fs'' = block_size fs"
    have "(word_of_nat (length d) :: u64) \<noteq> -1" using u(2) n by (intro small_not_error) simp
    then have "b" "fs' = fs''" using run h(1) by (auto simp: put_bytes_def)
    then show ?thesis using h(2-4) u own(2) by (auto simp: may_read_def fun_eq_iff)
  qed
qed

lemma get_bytes_law:
  assumes ok: "in_order fs" and f: "files_of fs p = Some c" "off \<le> length c" and may: "may_read fs off n"
    and len: "length e = 64" and run: "get_bytes e p off n fs = (r, fs')"
  shows "r = Some (take n (drop off c))"
proof -
  obtain ps where vol: "volume_ok fs ps" using ok by (auto simp: in_order_def)
  have own: "owns fs ps p" "c = contents fs p" using f(1) files_of_Some [OF vol] by simp_all
  have b: "off + n < 2 ^ 63" using may by (simp add: may_read_def)
  then have u: "unat (word_of_nat off :: u64) = off" "unat (word_of_nat n :: u64) = n" by (auto intro: unat_small)
  let ?d = "take n (drop off c)"
  have l: "length ?d \<le> n" "min n (length c - off) = length ?d" by simp_all
  show ?thesis
  proof (rule sfs_read_ok [OF vol own(1) len, of "word_of_nat n" "replicate n 0" "word_of_nat off"])
    assume "unat (file_size (entry_at fs p)) < unat (word_of_nat off :: u64)"
    then show ?thesis using f(2) own(2) length_contents [OF vol own(1)] u by simp
  next
    fix fs'' assume h: "sfs_read fs e p (replicate n 0) (word_of_nat n) (word_of_nat off)
      = (word_of_nat (min (unat (word_of_nat n :: u64)) (unat (file_size (entry_at fs p)) - unat (word_of_nat off :: u64))),
         patch 0 (take (unat (word_of_nat n :: u64)) (drop (unat (word_of_nat off :: u64)) (contents fs p))) (replicate n 0), fs'')"
    have "sfs_read fs e p (replicate n 0) (word_of_nat n) (word_of_nat off)
        = (word_of_nat (length ?d), patch 0 ?d (replicate n 0), fs'')"
      using h u l(2) own(2) length_contents [OF vol own(1)] by simp
    moreover have w: "unat (word_of_nat (length ?d) :: u64) = length ?d" using l(1) b by (intro unat_small) linarith
    moreover have "(word_of_nat (length ?d) :: u64) \<noteq> -1"
      using w l(1) b by (intro small_not_error) linarith
    moreover have "take (length x) (patch 0 x y) = x" for x y :: bytes by (simp add: patch_def)
    ultimately show ?thesis using run by (simp only: get_bytes_def prod.case if_False) (metis prod.inject)
  qed (use b u may in \<open>simp_all add: may_read_def\<close>)
qed

lemma delete_file_law:
  assumes "in_order fs" and un: "unlinked fs p" and len: "length e = 64"
  shows "in_order (delete_file e p fs) \<and> files_of (delete_file e p fs) = (files_of fs)(p := None)"
proof -
  obtain ps where vol: "volume_ok fs ps" "owns fs ps p" "entry_type (entry_at fs p) = entry_code DEL_FILE_ENTRY"
    using un by (auto simp: unlinked_def)
  show ?thesis
  proof (rule sfs_delete_ok [OF vol(1) len vol(2,3)])
    fix fs' ps' assume h: "sfs_delete fs e p = (0, fs')" "volume_ok fs' ps'" "\<forall>q. owns fs' ps' q \<longleftrightarrow> owns fs ps q \<and> q \<noteq> p"
      "\<exists>b. after fs (entry_at fs') b fs'" "\<forall>q. q \<notin> set (index_offs fs) \<longrightarrow> entry_at fs' q = entry_at fs q"
      and keep: "\<And>q. owns fs ps q \<Longrightarrow> q \<noteq> p \<Longrightarrow> owns fs' ps' q \<and> entry_at fs' q = entry_at fs q"
    obtain b where u: "after fs (entry_at fs') b fs'" using h(4) by blast
    have area: "take (unat (entry_start fs)) (host_file fs') = take (unat (entry_start fs)) (host_file fs)"
      by (rule data_area_frame [OF volume_okD(1) [OF vol(1)] u]) (use h(5) in blast)
    have "contents fs' q = contents fs q" if "owns fs ps q" "q \<noteq> p" for q
      by (rule contents_frame [OF vol(1) that(1) u area]) (use keep [OF that] in simp_all)
    then have "files_of fs' = (files_of fs)(p := None)"
      using h(3) by (auto simp: files_of_eq [OF vol(1)] files_of_eq [OF h(2)] fun_eq_iff)
    then show ?thesis using h(1,2) by (auto simp: delete_file_def in_order_def)
  qed
qed

interpretation volume: file_store_removal in_order files_of "\<lambda>e. length e = 64" may_write may_read put_bytes get_bytes
  unlinked delete_file
proof
  fix fs p c off d e b fs'
  assume "in_order fs" "files_of fs p = Some c" "off \<le> length c" "may_write fs p (off + length d)"
    "length (e :: entry) = 64" "put_bytes e p off d fs = (b, fs')"
  then show "in_order fs' \<and> files_of fs' = (if b then (files_of fs)(p \<mapsto> patch off d c) else files_of fs)
      \<and> may_read fs' = may_read fs" by (rule put_bytes_law)
next
  fix fs p c off n e r fs'
  assume "in_order fs" "files_of fs p = Some c" "off \<le> length c" "may_read fs off n"
    "length (e :: entry) = 64" "get_bytes e p off n fs = (r, fs')"
  then show "r = Some (take n (drop off c))" by (rule get_bytes_law)
next
  fix fs p e
  assume "in_order fs" "unlinked fs p" "length (e :: entry) = 64"
  then show "in_order (delete_file e p fs) \<and> files_of (delete_file e p fs) = (files_of fs)(p := None)" by (rule delete_file_law)
next
  fix fs p
  assume "in_order fs" "unlinked fs p"
  then show "p \<in> dom (files_of fs)" by (auto simp: unlinked_def files_of_def)
qed

end
