(* ===== verification/Rename.thy ===== *)
theory Rename
  imports FileStore
begin

text \<open>
  The specification of src/lib/sfs/sfs_rename.c. It allocates slots for the new name, deletes the
  file and then writes the old fields under the new name: right for an empty file, while the blocks
  of any other file are free and in the file afterwards.
\<close>

section \<open>The head of the new name\<close>

definition moved_head :: "byte \<Rightarrow> u64 \<Rightarrow> u64 \<Rightarrow> u64 \<Rightarrow> u64 \<Rightarrow> entry \<Rightarrow> entry" where
  "moved_head n t sz s e entr = set_cont_entries n (set_entry_type (entry_code FILE_ENTRY)
     (set_end_block e (set_start_block s (set_file_size sz (set_time_stamp t entr)))))"

lemma moved_head_fields:
  assumes "length entr = 64"
  shows "length (moved_head n t sz s e entr) = 64" "entry_type (moved_head n t sz s e entr) = entry_code FILE_ENTRY"
    "cont_entries (moved_head n t sz s e entr) = n" "start_block (moved_head n t sz s e entr) = s"
    "end_block (moved_head n t sz s e entr) = e" "file_size (moved_head n t sz s e entr) = sz"
  using assms by (simp_all add: moved_head_def layout_simps del: One_nat_def)

text \<open>Storing the first part of a name changes no field before it.\<close>

lemma put_first_take:
  assumes "padded path" and "length (cstr path) < 16000" and "length e = 64" and "first_off + first_size = 64"
    and w: "unat w = name_entries first_size (length (cstr path))"
  shows "take first_off (fst (put_first first_off first_size w e path)) = take first_off e"
proof (cases "w = 1")
  case True
  then have "length (cstr path) < first_size" using name_entries_room(4) [OF assms(2), of first_size] w by simp
  then show ?thesis
    using True assms(3,4) put_name_patch [of first_off path e] by (simp add: put_first_def patch_def)
next
  case False
  then have "mem_put first_off (mem_get 0 first_size path) e = e
      \<or> mem_put first_off (mem_get 0 first_size path) e = patch first_off (mem_get 0 first_size path) e"
    using assms(3,4) by (auto simp: mem_put_def)
  then show ?thesis using False assms(3,4) by (auto simp: put_first_def patch_def)
qed

lemma get_of_take:
  assumes "take b e' = take b e"
  shows "k < b \<Longrightarrow> get_u8 k e' = get_u8 k e" and "k + 8 \<le> b \<Longrightarrow> get_u64 k e' = get_u64 k e"
proof -
  have n: "cs_at e' k = cs_at e k" if "k < b"
  proof -
    have "cs_at (take b x) k = cs_at x k" for x :: entry using that by (auto simp: cs_at_def)
    then show ?thesis using assms by metis
  qed
  then show "k < b \<Longrightarrow> get_u8 k e' = get_u8 k e" by (simp add: get_u8_def)
  assume "k + 8 \<le> b"
  then have "seg k 8 (take b x) = seg k 8 x" for x :: entry by (simp add: seg_def drop_take min_absorb2)
  then show "get_u64 k e' = get_u64 k e" using assms by (metis get_u64_def)
qed

section \<open>sfs_rename\<close>

lemma sfs_rename_ok:
  assumes vol: "volume_ok fs ps" and own: "owns fs ps p" and len: "length e = 64" and walk: "walkable fs path"
    and named: "entry_type (entry_at fs p) = entry_code FILE_ENTRY"
  defines "n \<equiv> name_entries 30 (length (cstr path))"
  obtains (fails) fs' where "sfs_rename fs e p path = (0, fs')" "unchanged fs fs'"
      "make_error fs n path (lookup_dir fs path \<noteq> None \<or> lookup_file fs path \<noteq> None) (sfs_errno fs')"
  | (moves) i fs0 fs1 fs' w entr h path1 where "sfs_rename fs e p path = (index_off fs i, fs')" "index_off fs i \<noteq> 0"
      "lookup_dir fs path = None" "lookup_file fs path = None" "\<forall>b \<in> set (cstr path). is_correct_char b = 0"
      "free_run fs i n" "i + n \<le> index_size fs" "unchanged fs fs0" "sfs_delete fs0 e p = (0, fs1)"
      "length entr = 64" "unat w = n" "put_first 34 30 w entr path = (h, path1)"
      "cont_entries h = w - 1" "entry_type h = entry_code FILE_ENTRY" "length h = 64"
      "start_block h = start_block (entry_at fs p)" "end_block h = end_block (entry_at fs p)" "file_size h = file_size (entry_at fs p)"
      "after fs1 (put_conts (n - 1) (index_off fs i + 64) path1 ((entry_at fs1)(index_off fs i := h))) (del_begin fs1) fs'"
proof -
  note v = volume_okD [OF vol]
  have path: "padded path" "length (cstr path) < 16000" using walk by (simp_all add: walkable_def)
  note chars = correct_path_chars(1) [OF path(2)] and nz = lookup_nonzero [OF v(1)]
  note room = name_entries_room [OF path(2), of 30, folded n_def]
  obtain e1 fs1 e2 fs2 e3 fs3
    where c: "check_dirs fs path e = (if dirs_exist fs path 0 (strlen path + 1) then 0 else -1, e1, fs1)"
      "search_dir fs1 path e1 = (found (lookup_dir fs path), e2, fs2)"
      "search_file fs2 path e2 = (found (lookup_file fs path), e3, fs3)"
    and u: "unchanged fs fs1" "unchanged fs fs2" "unchanged fs fs3"
    by (rule check_parent [OF v(2) len walk])
  let ?w = "count_entry FIRST_FILE_NAME_SIZE (word_of_nat (strlen path) + 1)"
  have w: "unat ?w = n" using count_entry_eq [OF path(2), of 30] by (simp add: n_def strlen_cstr)
  have "int (unat ?w) = uint ?w" by simp
  then have ui: "uint ?w = int n" unfolding w by simp
  have m: "unat (?w - 1) = n - 1" using w room(1) by (subst unat_minus_one) auto
  consider (chars) "is_correct_filepath path \<noteq> 0"
    | (parent) "is_correct_filepath path = 0" "\<not> dirs_exist fs path 0 (strlen path + 1)"
    | (isdir) "is_correct_filepath path = 0" "dirs_exist fs path 0 (strlen path + 1)" "lookup_dir fs path \<noteq> None"
    | (isfile) "is_correct_filepath path = 0" "dirs_exist fs path 0 (strlen path + 1)" "lookup_dir fs path = None"
        "lookup_file fs path \<noteq> None"
    | (free) "is_correct_filepath path = 0" "dirs_exist fs path 0 (strlen path + 1)" "lookup_dir fs path = None"
        "lookup_file fs path = None" by blast
  then show ?thesis
  proof cases
    case chars
    then show ?thesis using correct_path_chars(1) [OF path(2)] after_refl [OF v(1)]
      by (intro fails [of "SET_ERRNO EINVAL fs"]) (auto simp: sfs_rename_def make_error_def)
  next
    case parent
    then show ?thesis using c u
      by (intro fails [of "SET_ERRNO EEXIST fs1"]) (simp_all add: sfs_rename_def make_error_def)
  next
    case isdir
    then show ?thesis using c u nz
      by (intro fails [of "SET_ERRNO EEXIST fs2"]) (simp_all add: sfs_rename_def make_error_def)
  next
    case isfile
    then show ?thesis using c u nz
      by (intro fails [of "SET_ERRNO EEXIST fs3"]) (simp_all add: sfs_rename_def make_error_def)
  next
    case free
    show ?thesis
    proof (rule alloc_entry_after [OF after_ok [OF u(3)], of "replicate 64 0" n])
      fix e4 fs4
      assume h: "alloc_entry fs3 (replicate 64 0) (int n) = (0, e4, fs4)" "unchanged fs3 fs4" "\<forall>i. \<not> free_run fs3 i n"
      then show ?thesis
        using free c free_run_after [OF u(3)] after_trans [OF u(3)] after_sel [OF u(3)] ui
        by (intro fails [of "SET_ERRNO ENOSPC fs4"]) (simp_all add: sfs_rename_def make_error_def Let_def)
    next
      fix i e4 fs4
      assume h: "alloc_entry fs3 (replicate 64 0) (int n) = (index_off fs3 i, e4, fs4)" "length e4 = 64"
        "unchanged fs3 fs4" "index_off fs3 i \<noteq> 0" "i + n \<le> index_size fs3" "free_run fs3 i n"
      have s3: "index_off fs3 = index_off fs" "index_size fs3 = index_size fs" "free_run fs3 = free_run fs"
        using after_sel [OF u(3)] free_run_after [OF u(3)] by simp_all
      have u4: "unchanged fs fs4" using after_trans [OF u(3)] h(3) after_sel [OF u(3)] by simp
      have p: "p \<in> set (index_offs fs)" using own by (simp add: owns_def)
      have vp: "slot_valid fs p" using in_index_offs [OF v(1) p] by blast
      have vp4: "slot_valid fs4 p" using vp after_sel(2) [OF u4] by simp
      obtain fs5 where r: "read_entry fs4 p e4 = (64, entry_at fs p, fs5)" "unchanged fs fs5"
        using read_entry_after [OF after_ok [OF u4] vp4 h(2)] after_sel [OF u4] after_trans [OF u4] by metis
      have le: "length (entry_at fs p) = 64" by (rule length_entry_at [OF vp])
      have v5: "volume_ok fs5 ps" "owns fs5 ps p" using volume_unchanged [OF vol r(2)] own by simp_all
      obtain fs6 b where d: "sfs_delete fs5 e p = (0, fs6)" "after fs5 (entry_at fs6) b fs6"
        by (rule sfs_delete_any [OF v5(1) len v5(2)]) blast
      have s6: "slot_valid fs6 = slot_valid fs" using after_sel(2) [OF d(2)] after_sel(2) [OF r(2)] by simp
      let ?q = "index_off fs i" and ?o = "entry_at fs p"
      have valid: "slot_valid fs (?q + 64 * word_of_nat k)" if "k < n" for k
        using index_off_valid [OF v(1), of "i + k"] that h(5) s3 by (simp add: index_off_add)
      have v6: "slot_valid fs6 ?q" using valid [of 0] room(1) s6 by simp
      obtain fs7 where r7: "read_entry fs6 ?q ?o = (64, entry_at fs6 ?q, fs7)" "unchanged fs6 fs7"
        by (rule read_entry_after [OF after_ok [OF d(2)] v6 le])
      note s7 = after_sel [OF r7(2)]
      have l6: "length (entry_at fs6 ?q) = 64" by (rule length_entry_at [OF v6])
      let ?m = "moved_head (?w - 1) (time_stamp ?o) (file_size ?o) (start_block ?o) (end_block ?o) (entry_at fs6 ?q)"
      note mh = moved_head_fields [OF l6, of "?w - 1" "time_stamp ?o" "file_size ?o" "start_block ?o" "end_block ?o"]
      obtain g path1 where pf: "put_first 34 30 ?w ?m path = (g, path1)" by (cases "put_first 34 30 ?w ?m path")
      have g: "take 34 g = take 34 ?m"
        using put_first_take [OF path mh(1), of 34 30 ?w] w pf by (simp add: n_def)
      have lg: "length g = 64"
        using put_first_name [OF path mh(1), of 34 30 n ?w] w pf by (fastforce simp: n_def)
      have v7: "slot_valid fs7 (?q + 64 * word_of_nat k)" if "k < Suc (n - 1)" for k
        using valid [of k] that room(1) s6 s7(2) by simp
      obtain fs8 where st: "(case write_entry fs7 ?q g of (_, f) \<Rightarrow>
          (case write_conts (n - 1) f g path1 (?q + 64) of (entr, f) \<Rightarrow> (0, SET_ERRNO 0 (update f)))) = (0 :: int, fs8)"
        "after fs7 (put_conts (n - 1) (?q + 64) path1 ((entry_at fs7)(?q := g))) (del_begin fs7) fs8"
        by (rule store_name [where path = path1 and m = "n - 1" and p = ?q, OF after_ok [OF r7(2)] _ lg])
          (rule v7, assumption, rule that)
      have "sfs_rename fs e p path = (?q, fs8)"
        using free c h(1,4) s3(1) ui r(1) named d(1) r7(1) pf m st(1)
        by (simp add: sfs_rename_def moved_head_def Let_def split: prod.splits)
      moreover have "after fs6 (put_conts (n - 1) (?q + 64) path1 ((entry_at fs6)(?q := g))) (del_begin fs6) fs8"
        using after_trans [OF r7(2)] st(2) s7 by simp
      ultimately show ?thesis
        using h(4-6) s3 free chars r(2) d(1) mh w pf lg get_of_take(1) [OF g, of 0] get_of_take(1) [OF g, of 1] get_of_take(2) [OF g]
        by (intro moves [of i fs8 fs5 fs6 ?m ?w g path1]) simp_all
    qed (use room(1) in auto)
  qed
qed

lemma lookup_owns:
  assumes "volume_ok fs ps" and "lookup_file fs path = Some p"
  shows "owns fs ps p" and "entry_type (entry_at fs p) = entry_code FILE_ENTRY"
proof -
  note v = volume_okD [OF assms(1)] and l = lookup_Some [OF volume_okD(1) [OF assms(1)] assms(2)]
  show t: "entry_type (entry_at fs p) = entry_code FILE_ENTRY" using l(4) by (simp add: has_name_def)
  have "p \<notin> set ps" using free_entries_coded(1) [OF v(3), of p] t by auto
  then show "owns fs ps p" using l(3) t by (simp add: owns_def)
qed

section \<open>An empty file\<close>

lemma sfs_rename_empty:
  assumes vol: "volume_ok fs ps" and len: "length e = 64" and walk: "walkable fs path"
    and old: "lookup_file fs old = Some p" and empty: "start_block (entry_at fs p) = 0"
  obtains (fails) fs' where "sfs_rename fs e p path = (0, fs')" "unchanged fs fs'"
      "make_error fs (name_entries 30 (length (cstr path))) path
         (lookup_dir fs path \<noteq> None \<or> lookup_file fs path \<noteq> None) (sfs_errno fs')"
  | (moves) q fs' where "sfs_rename fs e p path = (q, fs')" "q \<noteq> 0" "volume_ok fs' ps" "space fs' ps = space fs ps"
      "\<forall>path'. lookup_file fs' path' = (if cstr path' = cstr path then Some q
         else if cstr path' = cstr old then None else lookup_file fs path')"
      "lookup_dir fs' = lookup_dir fs" "files_of fs' = (files_of fs)(p := None, q \<mapsto> [])"
proof -
  note v = volume_okD [OF vol]
  note own = lookup_owns(1) [OF vol old] and named = lookup_owns(2) [OF vol old]
  show ?thesis
  proof (rule sfs_rename_ok [OF vol own len walk named])
    fix i fs0 fs1 fs' w entr h path1
    let ?n = "name_entries 30 (length (cstr path))" and ?q = "index_off fs i"
    assume run: "sfs_rename fs e p path = (?q, fs')" "?q \<noteq> 0" and none: "lookup_file fs path = None"
      and chars: "\<forall>b \<in> set (cstr path). is_correct_char b = 0" and free: "free_run fs i ?n" "i + ?n \<le> index_size fs"
      and u0: "unchanged fs fs0" and del: "sfs_delete fs0 e p = (0, fs1)"
      and put: "length entr = 64" "unat w = ?n" "put_first 34 30 w entr path = (h, path1)"
      and h: "cont_entries h = w - 1" "entry_type h = entry_code FILE_ENTRY"
        "start_block h = start_block (entry_at fs p)" "end_block h = end_block (entry_at fs p)" "file_size h = file_size (entry_at fs p)"
      and aft: "after fs1 (put_conts (?n - 1) (?q + 64) path1 ((entry_at fs1)(?q := h))) (del_begin fs1) fs'"
    have path: "padded path" "length (cstr path) < 16000" using walk by (simp_all add: walkable_def)
    note s0 = after_sel [OF u0]
    have v0: "volume_ok fs0 ps" "owns fs0 ps p" "space fs0 ps = space fs ps"
      using volume_unchanged [OF vol u0] own by simp_all
    have l0: "lookup_file fs0 = lookup_file fs" "lookup_dir fs0 = lookup_dir fs"
      using lookup_after [OF u0] by (simp_all add: fun_eq_iff)
    show ?thesis
    proof (rule sfs_delete_any [OF v0(1) len v0(2)])
      fix gs ps1 assume "sfs_delete fs0 e p = (0, gs)" "volume_ok gs ps1" "space gs ps1 = space fs0 ps"
        and own1: "\<forall>q. owns gs ps1 q \<longleftrightarrow> owns fs0 ps q \<and> q \<noteq> p"
        and keep: "\<And>q. owns fs0 ps q \<Longrightarrow> q \<noteq> p \<Longrightarrow> owns gs ps1 q \<and> entry_at gs q = entry_at fs0 q"
        and lk: "\<And>path path'. lookup_file fs0 path = Some p \<Longrightarrow>
          lookup_file gs path' = (if cstr path' = cstr path then None else lookup_file fs0 path')"
          "lookup_dir gs = lookup_dir fs0"
        and af: "\<exists>b. after fs0 (entry_at gs) b gs" "\<forall>q. q \<notin> set (index_offs fs0) \<longrightarrow> entry_at gs q = entry_at fs0 q"
        and em: "start_block (entry_at fs0 p) = 0 \<Longrightarrow> ps1 = ps \<and> (\<forall>q. entry_type (entry_at fs0 q) = entry_code UNUSED_ENTRY \<longrightarrow>
           entry_type (entry_at gs q) = entry_code UNUSED_ENTRY)"
      moreover have [simp]: "gs = fs1" using del calculation(1) by simp
      moreover have z: "ps1 = ps" "\<And>q. entry_type (entry_at fs q) = entry_code UNUSED_ENTRY \<Longrightarrow>
           entry_type (entry_at fs1 q) = entry_code UNUSED_ENTRY" using em empty s0(1) by simp_all
      ultimately have v1: "volume_ok fs1 ps" "space fs1 ps = space fs ps" using v0(3) by simp_all
      obtain b where u1: "after fs (entry_at fs1) b fs1" using af(1) after_trans [OF u0] by auto
      note s1 = after_sel [OF u1]
      have free1: "free_run fs1 i ?n" using free(1) z(2) s1(5,6) by (simp add: free_run_def unused_def)
      have new: "lookup_file fs1 path = None" using lk(1) [of old path] old none l0 by (simp split: if_splits)
      have size: "file_size (entry_at fs p) = 0" "end_block (entry_at fs p) = 0"
        using v(6) [OF own] empty by (auto simp: file_ok_def ext_ok_def)
      have cr: "created fs1 FILE_ENTRY 34 path i ?n fs'" "entry_at fs' ?q = h"
        using created_ok [of fs1 i ?n path FILE_ENTRY 34 30 w entr h path1 h fs']
          volume_okD(2) [OF v1(1)] free1 free(2) s1(5,6) path chars put h(1,2) aft new by simp_all
      have n: "0 < ?n" by (rule name_entries_room(1) [OF path(2)])
      note vc = volume_created [OF v1(1) cr(1) n disjI1 [OF refl], unfolded s1(6) cr(2)]
      have hz: "start_block h = 0 \<and> end_block h = 0 \<and> file_size h = 0" using h(3-5) empty size by simp
      note vc = vc(1-6) [OF hz]
      have lf: "lookup_file fs' path' = (if cstr path' = cstr path then Some ?q
         else if cstr path' = cstr old then None else lookup_file fs path')" for path'
        using cr(1) lk(1) [of old path'] old l0 s1(6) by (simp add: created_def)
      have ld: "lookup_dir fs' = lookup_dir fs" using cr(1) lk(2) l0(2) by (simp add: created_def fun_eq_iff)
      obtain at where "after fs1 at (del_begin fs1) fs'" using cr(1) by (auto simp: created_def)
      then have u2: "after fs1 (entry_at fs') (del_begin fs1) fs'" using after_sel(1) by blast
      have area1: "take (unat (entry_start fs)) (host_file fs1) = take (unat (entry_start fs)) (host_file fs)"
        by (rule data_area_frame [OF v(1) u1]) (use af(2) s0(1,7) in simp)
      have area2: "take (unat (entry_start fs1)) (host_file fs') = take (unat (entry_start fs1)) (host_file fs1)"
        by (rule data_area_frame [OF volume_okD(1) [OF v1(1)] u2]) (use vc(6) in simp)
      have own2: "owns fs' ps x \<longleftrightarrow> owns fs ps x \<and> x \<noteq> p \<or> x = ?q" for x
        using vc(3) own1 z(1) volume_unchanged(3) [OF vol u0] by simp
      have c: "contents fs' x = contents fs x" if "owns fs ps x" "x \<noteq> p" for x
      proof -
        have x1: "owns fs1 ps x" "entry_at fs1 x = entry_at fs x"
          using keep [of x] that z(1) s0(1) volume_unchanged(3) [OF vol u0] by auto
        have "contents fs1 x = contents fs x"
          by (rule contents_frame [OF vol that(1) u1 area1]) (use x1 in simp_all)
        moreover have "contents fs' x = contents fs1 x"
          by (rule contents_frame [OF v1(1) x1(1) u2 area2]) (use vc(5) [OF x1(1)] in simp_all)
        ultimately show ?thesis by simp
      qed
      have "contents fs' ?q = []" using cr(2) hz by (simp add: contents_def)
      moreover have "\<not> owns fs ps ?q \<or> ?q = p" using vc(4) own1 z(1) volume_unchanged(3) [OF vol u0] by auto
      ultimately have "files_of fs' x = ((files_of fs)(p := None, ?q \<mapsto> [])) x" for x
        using own2 [of x] c [of x] own by (auto simp: files_of_eq [OF vol] files_of_eq [OF vc(1)])
      then have "files_of fs' = (files_of fs)(p := None, ?q \<mapsto> [])" by (rule ext)
      then show thesis using moves [OF run vc(1)] vc(2) v1(2) lf ld by simp
    qed
  qed (rule fails)
qed

section \<open>A file with blocks\<close>

text \<open>The volume afterwards is the one the deletion left, except for the slots of the new name. No list of
  free extents of a volume in order can run through these, so it is the list the deletion left, which has
  the blocks of the file.\<close>

lemma sfs_rename_blocks:
  assumes vol: "volume_ok fs ps" and own: "owns fs ps p" and len: "length e = 64" and walk: "walkable fs path"
    and named: "entry_type (entry_at fs p) = entry_code FILE_ENTRY" and blocks: "start_block (entry_at fs p) \<noteq> 0"
    and run: "sfs_rename fs e p path = (q, fs')" and q: "q \<noteq> 0"
  shows "\<not> in_order fs'" and "entry_type (entry_at fs' q) = entry_code FILE_ENTRY"
    and "file_ext (entry_at fs' q) = file_ext (entry_at fs p)"
    and "\<exists>fs0 fs1 ps1. unchanged fs fs0 \<and> sfs_delete fs0 e p = (0, fs1) \<and> volume_ok fs1 ps1
      \<and> blocks (entry_at fs1) ps1 = blocks (entry_at fs) ps \<union> file_ext (entry_at fs p)
      \<and> del_begin fs' = del_begin fs1 \<and> (\<forall>x. x \<notin> name_slots fs' q \<longrightarrow> entry_at fs' x = entry_at fs1 x)
      \<and> (set ps1 \<inter> name_slots fs' q = {} \<longrightarrow> free_ok fs' ps1
           \<and> blocks (entry_at fs') ps1 = blocks (entry_at fs) ps \<union> file_ext (entry_at fs p))"
proof -
  note v = volume_okD [OF vol]
  have path: "padded path" "length (cstr path) < 16000" using walk by (simp_all add: walkable_def)
  let ?n = "name_entries 30 (length (cstr path))"
  note room = name_entries_room(1,2) [OF path(2), of 30]
  obtain fs0 fs1 ps1 h path1 w b where q_in: "q \<in> set (index_offs fs)" and v1: "volume_ok fs1 ps1"
    and del: "unchanged fs fs0" "sfs_delete fs0 e p = (0, fs1)"
    and bl: "blocks (entry_at fs1) ps1 = blocks (entry_at fs) ps \<union> file_ext (entry_at fs p)" and u1: "after fs (entry_at fs1) b fs1"
    and w: "unat w = ?n" and h: "cont_entries h = w - 1" "entry_type h = entry_code FILE_ENTRY"
      "start_block h = start_block (entry_at fs p)" "end_block h = end_block (entry_at fs p)"
    and aft: "after fs1 (put_conts (?n - 1) (q + 64) path1 ((entry_at fs1)(q := h))) (del_begin fs1) fs'"
  proof (rule sfs_rename_ok [OF vol own len walk named])
    fix gs assume "sfs_rename fs e p path = (0, gs)"
    then show thesis using run q by simp
  next
    fix i fs0 gs1 gs' w entr h path1
    assume g: "sfs_rename fs e p path = (index_off fs i, gs')" "i + ?n \<le> index_size fs" "unchanged fs fs0"
      "sfs_delete fs0 e p = (0, gs1)" "unat w = ?n" "cont_entries h = w - 1" "entry_type h = entry_code FILE_ENTRY"
      "start_block h = start_block (entry_at fs p)" "end_block h = end_block (entry_at fs p)"
      "after gs1 (put_conts (?n - 1) (index_off fs i + 64) path1 ((entry_at gs1)(index_off fs i := h))) (del_begin gs1) gs'"
    have v0: "volume_ok fs0 ps" "owns fs0 ps p" using volume_unchanged [OF vol g(3)] own by simp_all
    have in_index: "index_off fs i \<in> set (index_offs fs)" using g(2) room(1) by (auto simp: index_offs_def)
    have [simp]: "index_off fs i = q" "gs' = fs'" using run g(1) by simp_all
    then have qi: "q \<in> set (index_offs fs)" using in_index by simp
    show thesis
    proof (rule sfs_delete_any [OF v0(1) len v0(2)])
      fix fs1 ps1 assume d: "sfs_delete fs0 e p = (0, fs1)" "volume_ok fs1 ps1"
        "blocks (entry_at fs1) ps1 = blocks (entry_at fs0) ps \<union> file_ext (entry_at fs0 p)"
        "\<exists>b. after fs0 (entry_at fs1) b fs1"
      obtain b where "after fs (entry_at fs1) b fs1" using d(4) after_trans [OF g(3)] by blast
      moreover have "gs1 = fs1" using g(4) d(1) by simp
      ultimately show thesis using that [OF qi d(2) g(3), of b w h path1] d(1) g(5-10) d(3) after_sel(1) [OF g(3)] by simp
    qed
  qed
  note s1 = after_sel [OF u1] and s = after_sel [OF aft]
  let ?S = "name_slots fs' q"
  have hq: "entry_at fs' q = h"
  proof -
    have "q \<noteq> q + 64 + 64 * word_of_nat j" if "j < ?n - 1" for j
      using offset_inj [of 0 "Suc j" q] that room(2) by (simp add: algebra_simps)
    then show ?thesis unfolding s(1) by (subst put_conts_outside) auto
  qed
  then show ft: "entry_type (entry_at fs' q) = entry_code FILE_ENTRY" using h(2) by simp
  show fe: "file_ext (entry_at fs' q) = file_ext (entry_at fs p)" using hq h(3,4) by (simp add: file_ext_def ext_def)
  have n1: "unat (cont_entries (entry_at fs' q)) = ?n - 1"
    using hq h(1) w room(1) by (subst hq, simp only: h(1)) (subst unat_minus_one, auto)
  have same: "entry_at fs' x = entry_at fs1 x" if "x \<notin> ?S" for x
  proof -
    have out: "x \<noteq> q + 64 * word_of_nat k" if "k \<le> ?n - 1" for k using \<open>x \<notin> ?S\<close> that n1 by (auto simp: name_slots_def)
    have "x \<noteq> q + 64 + 64 * word_of_nat j" if "j < ?n - 1" for j using out [of "Suc j"] that by (simp add: algebra_simps)
    then show ?thesis using out [of 0] unfolding s(1) by (subst put_conts_outside) auto
  qed
  have list: "free_ok fs' ps1 \<and> blocks (entry_at fs') ps1 = blocks (entry_at fs1) ps1"
    if "set ps1 \<inter> ?S = {}"
  proof -
    have e: "entry_at fs' x = entry_at fs1 x" if "x \<in> set ps1" for x using same that \<open>set ps1 \<inter> ?S = {}\<close> by auto
    then have "free_ok fs' ps1 = free_ok fs1 ps1" using s(1) by (intro free_ok_frame [OF aft]) simp
    moreover have "blocks (entry_at fs') ps1 = blocks (entry_at fs1) ps1" by (rule blocks_frame) (rule e)
    ultimately show ?thesis using volume_okD(3) [OF v1] by simp
  qed
  show "\<exists>fs0 fs1 ps1. unchanged fs fs0 \<and> sfs_delete fs0 e p = (0, fs1) \<and> volume_ok fs1 ps1
      \<and> blocks (entry_at fs1) ps1 = blocks (entry_at fs) ps \<union> file_ext (entry_at fs p)
      \<and> del_begin fs' = del_begin fs1 \<and> (\<forall>x. x \<notin> ?S \<longrightarrow> entry_at fs' x = entry_at fs1 x)
      \<and> (set ps1 \<inter> ?S = {} \<longrightarrow> free_ok fs' ps1
           \<and> blocks (entry_at fs') ps1 = blocks (entry_at fs) ps \<union> file_ext (entry_at fs p))"
    using del v1 bl s(3) same list by blast
  show "\<not> in_order fs'"
  proof
    assume "in_order fs'"
    then obtain ps' where v': "volume_ok fs' ps'" by (auto simp: in_order_def)
    note w' = volume_okD [OF v']
    have qi: "q \<in> set (index_offs fs')" using q_in s(7) s1(7) by simp
    have lo: "laid_out fs'" using w'(2) by (simp add: dir_ok_def)
    have hd: "headed (entry_at fs' q)" using ft by (simp add: headed_def)
    have out: "x \<notin> ?S" if x: "x \<in> set ps'" for x
    proof
      assume "x \<in> ?S"
      then show False
        using name_slots_in(2) [OF lo qi hd, of x] free_entries_coded(1) [OF w'(3) x] ft is_code_code [of DEL_FILE_ENTRY]
        by (cases "x = q") auto
    qed
    have l: "dpath (entry_at fs') 0 (del_begin fs1) ps' l 0 = dpath (entry_at fs1) 0 (del_begin fs1) ps' l 0" for l
      by (rule dpath_cong) (use same out in simp)
    have "ps' = ps1"
      using w'(3) volume_okD(3) [OF v1] l s(3) by (auto simp: free_ok_def free_list_def dest: dpath_det)
    moreover have "blocks (entry_at fs') ps' = blocks (entry_at fs1) ps'"
      by (rule blocks_frame) (use same out in simp)
    ultimately have sub: "file_ext (entry_at fs' q) \<subseteq> blocks (entry_at fs') ps'" using bl fe by simp
    have "q \<notin> set ps'" using out [of q] by auto
    then have "owns fs' ps' q" using qi ft by (simp add: owns_def)
    then have "file_ext (entry_at fs' q) = {}" using w'(8) sub by blast
    moreover have "file_ext (entry_at fs p) \<noteq> {}" using file_ext_add(2) [OF v(6) [OF own] blocks] by (auto simp: ext_ok_def)
    ultimately show False using fe by simp
  qed
qed

end
