(* ===== verification/Shrink.thy ===== *)
theory Shrink
  imports FileStore Samples
begin

text \<open>
  Making a file smaller, but not empty, with src/lib/sfs/sfs_truncate.c: \<open>file_shrink\<close> of fsutils.c
  takes the number of bytes that are left over for a number of blocks, and gives that many blocks up
  to the end of the file to the free ones.
\<close>

section \<open>What it frees\<close>

text \<open>The first block \<open>file_shrink\<close> gives back, when \<open>z\<close> bytes stay.\<close>

definition shrink_from :: "fs \<Rightarrow> entry \<Rightarrow> u64 \<Rightarrow> nat" where
  "shrink_from fs e z = unat (end_block e) + 1 - (card (file_ext e) - needed fs z) * unat (block_size fs)"

lemma sfs_truncate_shrink:
  assumes vol: "volume_ok fs ps" and own: "owns fs ps p" and len: "length e = 64" and z: "z \<noteq> 0" "unat z < 2 ^ 63"
    and less: "needed fs z < card (file_ext (entry_at fs p))"
    and low: "(card (file_ext (entry_at fs p)) - needed fs z) * unat (block_size fs) \<le> unat (end_block (entry_at fs p))"
    and taken: "{shrink_from fs (entry_at fs p) z .. unat (end_block (entry_at fs p))} \<inter> blocks (entry_at fs) ps = {}"
    and room: "(\<exists>i. unused fs i) \<or> Suc (unat (end_block (entry_at fs p))) \<in> blocks (entry_at fs) ps"
  obtains fs' ps' where "sfs_truncate fs e p z = (0, fs')" "\<not> in_order fs'" "file_size (entry_at fs' p) = z"
    "free_ok fs' ps'" "blocks (entry_at fs') ps' = blocks (entry_at fs) ps
       \<union> {shrink_from fs (entry_at fs p) z .. unat (end_block (entry_at fs p))}"
    "file_ext (entry_at fs' p) = {unat (start_block (entry_at fs p)) ..< unat (start_block (entry_at fs p)) + needed fs z}"
    "unat (start_block (entry_at fs p)) + needed fs z - 1 \<in> file_ext (entry_at fs' p) \<inter> blocks (entry_at fs') ps'"
proof -
  let ?e = "entry_at fs p" and ?bs = "unat (block_size fs)"
  note v = volume_okD [OF vol] and ov = owns_valid [OF vol own]
  have bs: "64 \<le> ?bs" using v(1) block_size_bounds(1) [OF v(1)] by (auto simp: fs_ok_def entry_dev_ok_def dvd_imp_le)
  note x = file_ext_area [OF v(1) v(6,7) [OF own]]
  have nz: "start_block ?e \<noteq> 0" using less by (auto simp: file_ext_def)
  note eo = file_ext_add(2) [OF v(6) [OF own] nz]
  define k where "k = card (file_ext ?e) - needed fs z"
  have k: "0 < k" "needed fs z + k = card (file_ext ?e)" using less by (simp_all add: k_def)
  have card: "card (file_ext ?e) = unat (end_block ?e) + 1 - unat (start_block ?e)" using eo by (simp add: ext_ok_def)
  have ends: "0 < unat (start_block ?e)" "unat (start_block ?e) \<le> unat (end_block ?e)"
    "Suc (unat (end_block ?e)) * ?bs \<le> length (host_file fs)" using eo by (auto simp: ext_ok_def)
  obtain fs1 where r1: "read_entry fs p e = (64, ?e, fs1)" "unchanged fs fs1" by (rule read_entry_after [OF v(1) ov(1) len])
  note s1 = after_sel [OF r1(2)]
  have vp1: "slot_valid fs1 p" using ov(1) s1(2) by simp
  obtain fs2 where r2: "read_entry fs1 p ?e = (64, ?e, fs2)" "unchanged fs fs2"
    using read_entry_after [OF after_ok [OF r1(2)] vp1 ov(2)] after_trans [OF r1(2)] s1 by metis
  note s2 = after_sel [OF r2(2)] and g1 = geometry_after [OF r1(2)] and g2 = geometry_after [OF r2(2)]
  note go = get_real_size_ok [OF after_ok [OF r1(2)] x(4)] and gz = get_real_size_ok [OF after_ok [OF r1(2)] z(2)]
  have real: "unat (get_real_size fs1 (file_size ?e)) = ?bs * card (file_ext ?e)" "unat (get_real_size fs1 z) = ?bs * needed fs z"
    using go(1) gz(1) g1(3) s1(4) x(3) by simp_all
  have sm: "get_real_size fs2 = get_real_size fs1" using s1(4) s2(4) by (simp add: get_real_size_def fun_eq_iff)
  have lt: "get_real_size fs1 z < get_real_size fs1 (file_size ?e)"
    using real k bs by (simp add: word_less_nat_alt)
  let ?d = "get_real_size fs1 (file_size ?e) - get_real_size fs1 z"
  have d: "unat ?d = k * ?bs"
  proof -
    have "get_real_size fs1 z \<le> get_real_size fs1 (file_size ?e)" using lt by (rule order_less_imp_le)
    then have "unat ?d = ?bs * card (file_ext ?e) - ?bs * needed fs z" by (simp only: unat_sub real)
    also have "\<dots> = k * ?bs" unfolding k(2) [symmetric] by (simp add: distrib_left mult.commute)
    finally show ?thesis .
  qed
  let ?s = "end_block ?e - ?d + 1"
  have klow: "k * ?bs \<le> unat (end_block ?e)" using low by (simp add: k_def)
  have s: "unat ?s = shrink_from fs ?e z"
  proof -
    have "unat (end_block ?e - ?d) = unat (end_block ?e) - k * ?bs"
      using d klow by (simp add: unat_sub word_le_nat_alt)
    moreover have "0 < k * ?bs" using k(1) bs by simp
    then have "unat (end_block ?e) - k * ?bs + 1 \<le> unat (end_block ?e)" using klow by linarith
    moreover have "unat (end_block ?e) < 2 ^ 64" using unsigned_less [of "end_block ?e", where ?'a = nat] by simp
    ultimately have "unat ?s = unat (end_block ?e) - k * ?bs + 1" by (subst unat_add_small) simp_all
    then show ?thesis using klow by (simp add: shrink_from_def k_def [symmetric])
  qed
  have kb: "k + 1 \<le> k * ?bs" using k(1) bs mult_le_mono2 [of 64 ?bs k] by linarith
  have new: "new_ext_ok fs2 ps ?s (end_block ?e)"
    using s klow kb ends taken s2 unfolding new_ext_ok_def by (simp add: shrink_from_def k_def [symmetric])
  have fr: "free_ok fs2 ps" using free_ok_frame [OF r2(2)] v(3) by simp
  obtain e3 fs3 ps3 where ad: "del_file_list_add fs2 ?e ?s (end_block ?e) = (0, e3, fs3)" "length e3 = 64"
    "list_step fs2 ps fs3 ps3" "\<forall>q \<in> set ps3 - set ps. entry_type (entry_at fs q) = entry_code UNUSED_ENTRY"
    "blocks (entry_at fs3) ps3 = blocks (entry_at fs) ps \<union> {unat ?s .. unat (end_block ?e)}"
  proof (rule del_file_list_add_ok [OF after_ok [OF r2(2)] fr ov(2) new])
    fix e' fs' assume "\<forall>i. \<not> unused fs2 i" "Suc (unat (end_block ?e)) \<notin> blocks (entry_at fs2) ps"
    then show thesis using room s2(1,5,6) by (auto simp: unused_def)
  next
    fix e' fs' ps'
    assume "del_file_list_add fs2 ?e ?s (end_block ?e) = (0, e', fs')" "length e' = 64" "list_step fs2 ps fs' ps'"
      "\<forall>q \<in> set ps' - set ps. entry_type (entry_at fs2 q) = entry_code UNUSED_ENTRY"
      "blocks (entry_at fs') ps' = blocks (entry_at fs2) ps \<union> {unat ?s .. unat (end_block ?e)}"
    then show thesis using that s2(1) by simp
  qed
  obtain b where u3: "after fs (entry_at fs3) b fs3"
    using list_step_after [OF after_ok [OF r2(2)] ad(3)] after_trans [OF r2(2)] by metis
  note s3 = after_sel [OF u3]
  have p3: "p \<notin> set ps3" using ad(4) own by (auto simp: owns_def)
  have ep: "entry_at fs3 p = ?e" using ad(3) own p3 s2(1) by (simp add: list_step_def owns_def)
  let ?ne = "start_block ?e + word_of_nat (needed fs z) - 1"
  have div: "get_real_size fs3 z div block_size fs3 = word_of_nat (needed fs z)"
    using get_real_size_ok(2) [OF after_ok [OF u3] z(2)] geometry_after(3) [OF u3] by simp
  have vp3: "slot_valid fs3 p" using ov(1) s3(2) by simp
  obtain e4 fs4 t where st: "store_extent fs3 e3 p (start_block ?e) ?ne z = (e4, fs4)"
    "after fs3 ((entry_at fs3)(p := set_time_stamp t (set_file_size z (set_end_block ?ne (set_start_block (start_block ?e) ?e)))))
       (del_begin fs3) fs4"
    by (rule store_extent_ok [OF after_ok [OF u3] vp3 ad(2), unfolded ep])
  let ?fs = "SET_ERRNO 0 (update fs4)"
  let ?n = "set_time_stamp t (set_file_size z (set_end_block ?ne (set_start_block (start_block ?e) ?e)))"
  note f = resized_fields [OF ov(2), of t z ?ne "start_block ?e"]
  have u5: "after fs3 ((entry_at fs3)(p := ?n)) (del_begin fs3) ?fs" using st(2) by simp
  note s5 = after_sel [OF u5]
  have real3: "get_real_size fs1 z = get_real_size fs3 z" "get_real_size fs1 z \<noteq> get_real_size fs1 (file_size ?e)"
    using s1(4) s3(4) lt by (simp_all add: get_real_size_def)
  have dn: "?d \<noteq> 0" using lt by auto
  have sh: "file_shrink fs1 p z ?e = (0, e3, fs3)"
    using r2(1) ad(1) dn by (simp add: file_shrink_def sm Let_def)
  have run: "sfs_truncate fs e p z = (0, ?fs)"
    using r1(1) z(1) lt sh st(1) div by (simp add: sfs_truncate_def Let_def)
  have last: "unat (start_block ?e) + needed fs z - 1 = unat (end_block ?e) - k" using card k(2) ends by linarith
  have un: "0 < needed fs z" using gz(4) z(1) g1(3) by (simp add: unat_gt_0)
  have ne: "unat ?ne = unat (end_block ?e) - k"
  proof -
    have w: "unat (word_of_nat (needed fs z) :: u64) = needed fs z" using gz(3) g1(3) by simp
    have "unat (start_block ?e) + needed fs z < 2 ^ 64"
      using k(2) card ends unsigned_less [of "end_block ?e", where ?'a = nat] k(1) by simp
    then have a: "unat (start_block ?e + word_of_nat (needed fs z)) = unat (start_block ?e) + needed fs z"
      using w by (subst unat_add_small) simp_all
    then have "start_block ?e + word_of_nat (needed fs z) \<noteq> 0" using ends(1) by auto
    then show ?thesis using a last by (simp add: unat_minus_one)
  qed
  have fr3: "free_ok fs3 ps3" using ad(3) by (simp add: list_step_def)
  have same: "entry_at ?fs q = entry_at fs3 q" if "q \<in> set ps3" for q using that p3 s5(1) by auto
  have "free_ok ?fs ps3 = free_ok fs3 ps3" by (rule free_ok_frame [OF u5]) (use p3 in auto)
  then have fr5: "free_ok ?fs ps3" using fr3 by simp
  have bl: "blocks (entry_at ?fs) ps3 = blocks (entry_at fs3) ps3" by (rule blocks_frame) (rule same)
  have ee: "entry_at ?fs p = ?n" unfolding s5(1) by simp
  have fe: "file_ext (entry_at ?fs p) = {unat (start_block ?e) ..< unat (start_block ?e) + needed fs z}"
    unfolding ee using f(4,5) nz ne last un by (auto simp: file_ext_def ext_def)
  have both: "unat (start_block ?e) + needed fs z - 1 \<in> file_ext (entry_at ?fs p) \<inter> blocks (entry_at ?fs) ps3"
  proof
    show "unat (start_block ?e) + needed fs z - 1 \<in> file_ext (entry_at ?fs p)" unfolding fe using un by auto
    show "unat (start_block ?e) + needed fs z - 1 \<in> blocks (entry_at ?fs) ps3"
      unfolding bl ad(5) last using s kb klow by (simp add: shrink_from_def k_def [symmetric]) linarith
  qed
  have "\<not> in_order ?fs"
  proof
    assume "in_order ?fs"
    then obtain ps' where v': "volume_ok ?fs ps'" by (auto simp: in_order_def)
    note w' = volume_okD [OF v']
    have "dpath (entry_at ?fs) 0 (del_begin fs3) ps3 l 0 = dpath (entry_at fs3) 0 (del_begin fs3) ps3 l 0" for l
      by (rule dpath_cong) (use same in simp)
    then have [simp]: "ps' = ps3"
      using fr3 w'(3) s5(3) by (auto simp: free_ok_def free_list_def dest: dpath_det)
    have own': "owns ?fs ps3 p" using own p3 s5(1,7) s3(7) f(1) by (simp add: owns_def)
    show False using w'(8) own' both by auto
  qed
  then show ?thesis using that [OF run _ _ fr5 _ fe both] bl ad(5) s f(6) ee by simp
qed

section \<open>A larger sample\<close>

text \<open>72 blocks before the index, of which 1 to 70 belong to one file and 71 is free.\<close>

definition big_entries :: "entry list" where
  "big_entries = [sample_start, sample_free 71 71 0 0, sample_dir [], sample_file [0x78] 1 70 4480,
     sample_unused, sample_unused, sample_unused]"

definition big_volume :: fs where
  "big_volume = blockdev.extend (sample_device (replicate 4608 0 @ concat big_entries @ sample_ident))
     (sfs_unit.fields 0 4608 4672 5056)"

lemma big_sel:
  "host_file big_volume = replicate 4608 0 @ concat big_entries @ sample_ident" "io_fail big_volume n = False"
  "fd big_volume = 3" "bdev_size big_volume = word_of_nat (length (host_file big_volume))" "block_size big_volume = 64"
  "buf_num big_volume = 0" "buf big_volume = take 64 (host_file big_volume)" "entry_start big_volume = 4608"
  "del_begin big_volume = 4672" "vol_ident big_volume = 5056"
  by (simp_all add: big_volume_def sample_device_def blockdev.extend_def sfs_unit.fields_def)

lemma big_entries_64: "list_all (\<lambda>e. length e = 64) big_entries" "length big_entries = 7"
  by (simp_all add: big_entries_def length_sample_names)

lemma big_length: "length (host_file big_volume) = 5120"
  unfolding big_sel(1) by (simp add: length_concat_entries [OF big_entries_64(1)] big_entries_64(2))

lemma big_fs_ok [simp]: "fs_ok big_volume"
proof -
  have "length (buf big_volume) = 64" using big_length by (simp add: big_sel(7))
  then show ?thesis
    using big_length
    by (simp add: fs_ok_def entry_dev_ok_def dev_ok_def geom_ok_def cache_ok_def disk_block_def seg_def big_sel(2-10) unat_of_nat)
qed

lemma big_valid [simp]: "slot_valid big_volume p \<longleftrightarrow> 64 dvd unat p \<and> unat p \<le> 5056"
  using big_length by (auto simp: slot_valid_def)

lemma big_entry:
  assumes "i < 7" and "unat p = 4608 + 64 * i"
  shows "entry_at big_volume p = big_entries ! i"
proof -
  have "seg (unat p) 64 (host_file big_volume) = seg (64 * i) 64 (concat big_entries @ sample_ident)"
    unfolding big_sel(1) assms(2) by (simp add: seg_def)
  also have "\<dots> = big_entries ! i" using seg_concat [OF big_entries_64(1)] assms(1) big_entries_64(2) by simp
  finally show ?thesis using assms by (simp add: entry_at_def)
qed

lemma big_at [simp]:
  "entry_at big_volume 4608 = sample_start" "entry_at big_volume 4672 = sample_free 71 71 0 0"
  "entry_at big_volume 4736 = sample_dir []" "entry_at big_volume 4800 = sample_file [0x78] 1 70 4480"
  "entry_at big_volume 4864 = sample_unused" "entry_at big_volume 4928 = sample_unused" "entry_at big_volume 4992 = sample_unused"
  using big_entry [of 0 4608] big_entry [of 1 4672] big_entry [of 2 4736] big_entry [of 3 4800] big_entry [of 4 4864]
    big_entry [of 5 4928] big_entry [of 6 4992]
  by (simp_all add: big_entries_def)

lemma big_index [simp]:
  "index_size big_volume = 7" "index_offs big_volume = [4608, 4672, 4736, 4800, 4864, 4928, 4992]"
  "index_off big_volume i = 4608 + 64 * word_of_nat i"
  by (simp_all add: index_size_def index_offs_def index_off_def upt_rec big_sel)

lemma big_needed [simp]: "needed big_volume z = (unat z + 63) div 64"
  by (simp add: needed_def big_sel)

lemma big_owns: "owns big_volume [4672] p \<longleftrightarrow> p = 4800"
  by (auto simp: owns_def)

lemma big_ok: "volume_ok big_volume [4672]"
proof -
  have names: "names_ok FILE_ENTRY 34 big_volume" "names_ok DIR_ENTRY 10 big_volume"
    by (simp_all add: names_ok_def name_ok_def name_bytes_def mem_put_def patch_def)
  have "laid_out big_volume" by (simp add: laid_out_def headed_def)
  moreover have "unique_names FILE_ENTRY 34 big_volume" "unique_names DIR_ENTRY 10 big_volume"
    by (simp_all add: unique_names_def)
  ultimately have d: "dir_ok big_volume" using names by (simp add: dir_ok_def dir_names_ok_def)
  have "free_ok big_volume [4672]" by (simp add: free_ok_def free_list_def ext_ok_def big_length big_sel(5,9))
  moreover have "bare (entry_at big_volume) [4672]" by (simp add: bare_def)
  moreover have "below big_volume (blocks (entry_at big_volume) [4672])" by (simp add: below_def big_sel)
  moreover have "file_ok big_volume (entry_at big_volume 4800)"
    by (simp add: file_ok_def ext_ok_def big_length big_sel(5))
  moreover have "below big_volume (file_ext (entry_at big_volume 4800))" by (auto simp: below_def file_ext_def big_sel)
  moreover have "file_ext (entry_at big_volume 4800) \<inter> blocks (entry_at big_volume) [4672] = {}" by (simp add: file_ext_def)
  ultimately show ?thesis using d by (simp add: volume_ok_def big_owns)
qed

end
