(* ===== verification/SpaceProps.thy ===== *)
theory SpaceProps
  imports Samples
begin

text \<open>
  The properties of the space management of src/lib/sfs/fsutils.c, src/lib/sfs/alloc.c and
  src/lib/sfs/statfs.c: the list of free extents stands for a set of blocks, and each operation of
  the list is an operation on that set.
\<close>

section \<open>Free extents\<close>

text \<open>C4: \<open>del_file_list_alloc\<close> either finds every free extent too short for the request, reports
  \<open>ENOSPC\<close> and leaves the free blocks as they are, or returns the first block of a contiguous run
  that was free, long enough for the request, and is free no longer; no other block changes hands
  and the list is in order again.\<close>

theorem alloc_takes_free_blocks:
  assumes ok: "fs_ok fs" and fr: "free_ok fs ps" and len: "length e = 64"
    and sz: "0 < unat sz" "unat sz < 2 ^ 63"
  shows "\<exists>r e' fs' ps'. del_file_list_alloc fs e sz = (r, e', fs') \<and> fs_ok fs' \<and> free_ok fs' ps'
      \<and> (r = 0 \<and> sfs_errno fs' = ENOSPC \<and> blocks (entry_at fs') ps' = blocks (entry_at fs) ps
              \<and> (\<forall>p \<in> set ps. card (ext (entry_at fs p)) < needed fs sz)
         \<or> r \<noteq> 0 \<and> {unat r ..< unat r + needed fs sz} \<subseteq> blocks (entry_at fs) ps
              \<and> blocks (entry_at fs') ps' = blocks (entry_at fs) ps - {unat r ..< unat r + needed fs sz})"
proof (rule del_file_list_alloc_ok [OF ok fr len sz])
  fix e' fs'
  assume h: "del_file_list_alloc fs e sz = (0, e', fs')" "fs_ok fs'" "same_vol (SET_ERRNO ENOSPC fs) fs'"
    "\<forall>p \<in> set ps. card (ext (entry_at fs p)) < needed fs sz"
  have "free_ok fs' ps" using free_ok_same_vol [OF h(3)] fr by simp
  then show ?thesis using h same_vol_cong(1) [OF h(3)] same_vol_sel(7) [OF h(3)] by fastforce
next
  fix r e' fs' ps'
  assume "del_file_list_alloc fs e sz = (r, e', fs')" "list_step fs ps fs' ps'" "0 < unat r"
    "{unat r ..< unat r + needed fs sz} \<subseteq> blocks (entry_at fs) ps"
    "blocks (entry_at fs') ps' = blocks (entry_at fs) ps - {unat r ..< unat r + needed fs sz}"
  moreover have "r \<noteq> 0" using \<open>0 < unat r\<close> by auto
  ultimately show ?thesis by (auto simp: list_step_def)
qed

theorem alloc_takes_free_blocks_witness:
  "\<exists>r e' fs' ps'. del_file_list_alloc split_volume sample_buffer 100 = (r, e', fs')
      \<and> fs_ok fs' \<and> free_ok fs' ps' \<and> r \<noteq> 0 \<and> {unat r ..< unat r + 2} \<subseteq> {1..2} \<union> {5..7}
      \<and> blocks (entry_at fs') ps' = {1..2} \<union> {5..7} - {unat r ..< unat r + 2}"
  using alloc_takes_free_blocks [of split_volume "[576, 768]" sample_buffer 100] by simp

text \<open>C6: \<open>del_file_list_add\<close> makes the blocks from \<open>s\<close> to \<open>e\<close> free, whichever of the neighbouring
  extents it merges them with: the free blocks are the old ones and exactly these. It fails only
  when no index entry is unused, with \<open>ENOMEM\<close>, and then changes nothing.\<close>

theorem add_frees_blocks:
  assumes ok: "fs_ok fs" and fr: "free_ok fs ps" and len: "length entr = 64" and new: "new_ext_ok fs ps s e"
  shows "\<exists>r e' fs' ps'. del_file_list_add fs entr s e = (r, e', fs') \<and> fs_ok fs' \<and> free_ok fs' ps'
      \<and> (r = 0 \<and> blocks (entry_at fs') ps' = blocks (entry_at fs) ps \<union> {unat s .. unat e}
         \<or> r = -1 \<and> sfs_errno fs' = ENOMEM \<and> (\<forall>i. \<not> unused fs i)
           \<and> blocks (entry_at fs') ps' = blocks (entry_at fs) ps)"
proof (rule del_file_list_add_ok [OF ok fr len new])
  fix e' fs'
  assume h: "del_file_list_add fs entr s e = (-1, e', fs')" "fs_ok fs'" "same_vol (SET_ERRNO ENOMEM fs) fs'"
    "\<forall>i. \<not> unused fs i"
  have "free_ok fs' ps" using free_ok_same_vol [OF h(3)] fr by simp
  then show ?thesis using h same_vol_cong(1) [OF h(3)] same_vol_sel(7) [OF h(3)] by fastforce
next
  fix e' fs' ps'
  assume "del_file_list_add fs entr s e = (0, e', fs')" "list_step fs ps fs' ps'"
    "blocks (entry_at fs') ps' = blocks (entry_at fs) ps \<union> {unat s .. unat e}"
  then show ?thesis by (auto simp: list_step_def)
qed

theorem add_frees_blocks_witness:
  "\<exists>r e' fs' ps'. del_file_list_add split_volume sample_buffer 3 4 = (r, e', fs') \<and> free_ok fs' ps'
      \<and> blocks (entry_at fs') ps' = {1, 2, 3, 4, 5, 6, 7}"
proof -
  have u: "unused split_volume 5" by (simp add: unused_def)
  have "new_ext_ok split_volume [576, 768] 3 4" by (simp add: new_ext_ok_def small_ranges)
  from add_frees_blocks [of split_volume "[576, 768]" sample_buffer 3 4, OF _ _ _ this] u
  show ?thesis by (auto simp: small_ranges insert_commute)
qed

text \<open>C19: Giving back an extent just taken always succeeds and makes the free blocks exactly what
  they were: an extent taken as a whole has left its index slot unused, and one taken from the
  beginning of a longer one is merged with the rest of it again.\<close>

theorem allocate_then_free:
  assumes "fs_ok fs" and "free_ok fs ps" and "length e = 64" and "0 < unat y" "unat y < 2 ^ 63"
    and "del_file_list_alloc fs e y = (a, e1, fs1)" and "a \<noteq> 0"
    and "unat c = unat a + needed fs y - 1" and "del_file_list_add fs1 e1 a c = (r, e2, fs2)"
  shows "r = 0 \<and> (\<exists>ps'. free_ok fs2 ps' \<and> blocks (entry_at fs2) ps' = blocks (entry_at fs) ps)"
proof -
  have "free_of (fs, e) (blocks (entry_at fs) ps)" using assms(1-3) by (auto simp: free_of_def)
  from extents.take_give [OF this assms(4,5), of a "(fs1, e1)" c r "(fs2, e2)"]
  show ?thesis using assms(6-9) by (auto simp: take_extent_def give_extent_def free_of_def)
qed

theorem allocate_then_free_witness:
  "\<exists>a e1 fs1 e2 fs2 ps'. del_file_list_alloc fresh_volume sample_buffer 64 = (a, e1, fs1)
      \<and> a \<noteq> 0 \<and> del_file_list_add fs1 e1 a a = (0, e2, fs2)
      \<and> free_ok fs2 ps' \<and> blocks (entry_at fs2) ps' = {1, 2, 3, 4, 5, 6, 7}"
proof -
  obtain a e1 fs1 where a: "del_file_list_alloc fresh_volume sample_buffer 64 = (a, e1, fs1)" "a \<noteq> 0"
    by (rule one_block_left [of fresh_volume "[576]" sample_buffer 64]) (simp_all add: small_ranges)
  obtain r e2 fs2 where "del_file_list_add fs1 e1 a a = (r, e2, fs2)" by (metis surj_pair)
  then show ?thesis
    using allocate_then_free [of fresh_volume "[576]" sample_buffer 64, OF _ _ _ _ _ a, of a r e2 fs2] a
    by (auto simp: small_ranges)
qed

text \<open>C20: \<open>scan_del_file_list\<close> reports the number of free blocks in bytes, and no error.\<close>

theorem free_space_is_exact:
  assumes "fs_ok fs" and "free_ok fs ps" and "length e = 64"
  shows "\<exists>r e' fs'. scan_del_file_list fs e = (r, e', fs')
      \<and> unat r = unat (block_size fs) * card (blocks (entry_at fs) ps)
      \<and> same_vol (SET_ERRNO 0 fs) fs'"
  by (rule scan_del_file_list_ok [OF assms]) blast

theorem free_space_is_exact_witness:
  "\<exists>r e' fs'. scan_del_file_list split_volume sample_buffer = (r, e', fs') \<and> unat r = 64 * 5"
  using free_space_is_exact [of split_volume "[576, 768]" sample_buffer]
  by (auto simp: small_ranges insert_commute)

text \<open>C21: A list of free extents that runs into a cycle (the \<open>j\<close>-th link leads to the same valid entry
  as an earlier one, \<open>i\<close>) is not reported as \<open>ETIMEDOUT\<close>: the guard \<open>while (off != 0 && watchdog--)\<close>
  leaves \<open>UINT64_MAX\<close> in \<open>watchdog\<close>, so the walk adds up the sizes of the extents of its first
  \<open>index_size fs + 1\<close> links, those of the cycle over and over, and succeeds with \<open>errno\<close> 0.\<close>

theorem cyclic_list_is_not_detected:
  assumes ok: "fs_ok fs" and len: "length e = 64"
    and cycle: "i < j" "free_link fs j = free_link fs i"
    and nodes: "\<forall>k < j. slot_valid fs (free_link fs k) \<and> free_link fs k \<noteq> 0"
  shows "\<exists>e' fs'. scan_del_file_list fs e
      = (\<Sum>k \<leftarrow> [0..<Suc (index_size fs)]. get_size fs (entry_at fs (free_link fs k)), e', fs')
      \<and> sfs_errno fs' = 0"
proof -
  have "slot_valid fs (free_link fs k) \<and> free_link fs k \<noteq> 0" for k
    using free_link_cycle [OF cycle, of k] nodes by auto
  then obtain e' fs' where "sum_loop (unat (watchdog_init fs)) fs e (free_link fs 0) 0
      = (Inr (-1, \<Sum>k \<leftarrow> [0..<Suc (index_size fs)]. get_size fs (entry_at fs (free_link fs k))), e', fs')"
    using sum_loop_links [OF ok len, of 0 "Suc (index_size fs)" 0] watchdog_init_ok [OF ok]
    by (auto simp del: upt_Suc)
  then show ?thesis by (simp add: scan_del_file_list_def del: upt_Suc)
qed

text \<open>Two extents of 4 and 3 blocks that lead to each other: 8 visits for the 7 slots of the index,
  28 blocks for the 7 there are.\<close>

theorem cyclic_list_is_not_detected_witness:
  "\<exists>e' fs'. scan_del_file_list (sample_volume [] 576 [sample_start, sample_free 1 4 640 640, sample_free 5 7 576 576,
       sample_unused, sample_unused, sample_unused, sample_unused]) sample_buffer = (64 * 28, e', fs')
     \<and> sfs_errno fs' = 0"
proof -
  let ?fs = "sample_volume [] 576 [sample_start, sample_free 1 4 640 640, sample_free 5 7 576 576,
       sample_unused, sample_unused, sample_unused, sample_unused]"
  have "sample_shape [] [sample_start, sample_free 1 4 640 640, sample_free 5 7 576 576,
       sample_unused, sample_unused, sample_unused, sample_unused]"
    by (simp add: sample_shape_def length_sample_names)
  note sh = sample_simps [OF this, of 576]
  have u: "[0..<Suc 7] = [0, Suc 0, Suc (Suc 0), Suc (Suc (Suc 0)), Suc (Suc (Suc (Suc 0))),
      Suc (Suc (Suc (Suc (Suc 0)))), Suc (Suc (Suc (Suc (Suc (Suc 0))))), Suc (Suc (Suc (Suc (Suc (Suc (Suc 0))))))]"
    by (simp add: upt_rec)
  have n: "\<forall>k < Suc (Suc 0). slot_valid ?fs (free_link ?fs k) \<and> free_link ?fs k \<noteq> 0"
    using sh by (simp add: All_less_Suc del: sample_sel(1))
  have "(\<Sum>k \<leftarrow> [0..<Suc 7]. get_size ?fs (entry_at ?fs (free_link ?fs k))) = 64 * 28"
    unfolding u using sh by (simp add: get_size_def del: sample_sel(1))
  then show ?thesis
    using cyclic_list_is_not_detected [OF sh(11), of sample_buffer 0 "Suc (Suc 0)", OF _ _ _ n] sh
    by (simp del: sample_sel(1) upt_Suc)
qed

end
