(* ===== verification/NameProps.thy ===== *)
theory NameProps
  imports NameSpace SpaceProps
begin

text \<open>
  The properties of the names of a volume: src/lib/sfs/sfs_creat.c, sfs_mkdir.c, sfs_unlink.c and
  sfs_open.c as operations on the map from names to index entries, the invariant they keep along
  every sequence of calls, and the round trips of a client.
\<close>

section \<open>The sample volumes have names in order\<close>

lemma sample_laid_out: "laid_out fresh_volume" "laid_out hello_volume" "laid_out split_volume"
  by (simp_all add: laid_out_def headed_def)

lemma sample_entry_names [simp]:
  "entry_name 34 (entry_at hello_volume) 704 = [0x61, 0x62]" "entry_name 34 (entry_at split_volume) 704 = [0x78]"
  "entry_name 10 (entry_at hello_volume) 768 = [0x64]" "entry_name 10 (entry_at hello_volume) 640 = []"
  "entry_name 10 (entry_at fresh_volume) 640 = []" "entry_name 10 (entry_at split_volume) 640 = []"
  by (simp_all add: entry_name_def name_bytes_def mem_put_def patch_def cstr_def)

lemma sample_unique:
  "unique_names FILE_ENTRY 34 fresh_volume" "unique_names DIR_ENTRY 10 fresh_volume"
  "unique_names FILE_ENTRY 34 hello_volume" "unique_names DIR_ENTRY 10 hello_volume"
  "unique_names FILE_ENTRY 34 split_volume" "unique_names DIR_ENTRY 10 split_volume"
  by (simp_all add: unique_names_def)

lemma sample_dir_ok [simp]: "dir_ok fresh_volume" "dir_ok hello_volume" "dir_ok split_volume"
  by (simp_all add: dir_ok_def sample_laid_out sample_unique)

lemma sample_lookup:
  "lookup_file hello_volume path = (if cstr path = [0x61, 0x62] then Some 704 else None)"
  "lookup_dir hello_volume path = (if cstr path = [] then Some 640 else if cstr path = [0x64] then Some 768 else None)"
  "lookup_file fresh_volume path = None" "lookup_dir fresh_volume path = (if cstr path = [] then Some 640 else None)"
  by (simp_all add: lookup_def has_name_def)

text \<open>Paths without a \<open>/\<close>.\<close>

lemma plain_path:
  assumes "0 \<notin> set path" and "0x2F \<notin> set path" and "length path < 16000"
  shows "walkable fs path" and "dirs_exist fs path 0 n" and "cstr path = path"
proof -
  have "cs_at path j \<noteq> 0x2F" for j using assms(2) by (auto simp: cs_at_def dest: nth_mem)
  then show "walkable fs path" "dirs_exist fs path 0 n" "cstr path = path"
    using assms(1,3) by (simp_all add: walkable_def dirs_exist_def padded_pure cstr_id)
qed

lemma sample_free_runs: "free_run hello_volume 5 1" "free_run fresh_volume 3 1"
  by (simp_all add: free_run_def unused_def)

section \<open>Making, removing and opening names\<close>

text \<open>C5: \<open>sfs_creat\<close> either reports why it cannot make the file (a forbidden character, a missing
  parent directory or a name that is taken, no room for the name) and changes no entry, or makes
  the path name a new empty file at the first gap of the index that is long enough; every other
  name keeps its entry, and no slot outside the gap changes.\<close>

theorem creat_makes_the_name:
  assumes ok: "dir_ok fs" and len: "length e = 64" and walk: "walkable fs path"
  shows "\<exists>r fs'. sfs_creat fs e path = (r, fs') \<and> dir_ok fs'
      \<and> (r = -1 \<and> entry_at fs' = entry_at fs
           \<and> make_error fs (name_entries 30 (length (cstr path))) path
               (lookup_dir fs path \<noteq> None \<or> lookup_file fs path \<noteq> None) (sfs_errno fs')
         \<or> r = 0 \<and> lookup_file fs path = None \<and> lookup_dir fs path = None
           \<and> (\<exists>i. free_run fs i (name_entries 30 (length (cstr path)))
               \<and> (\<forall>j < i. \<not> free_run fs j (name_entries 30 (length (cstr path))))
               \<and> (\<forall>path'. lookup_file fs' path'
                      = (if cstr path' = cstr path then Some (index_off fs i) else lookup_file fs path'))
               \<and> lookup_dir fs' = lookup_dir fs
               \<and> file_size (entry_at fs' (index_off fs i)) = 0 \<and> start_block (entry_at fs' (index_off fs i)) = 0
               \<and> (\<forall>q. q \<notin> run_slots fs i (name_entries 30 (length (cstr path))) \<longrightarrow> entry_at fs' q = entry_at fs q)))"
proof (rule sfs_creat_ok [OF assms])
  fix fs' assume "sfs_creat fs e path = (-1, fs')" "unchanged fs fs'"
    "make_error fs (name_entries 30 (length (cstr path))) path
       (lookup_dir fs path \<noteq> None \<or> lookup_file fs path \<noteq> None) (sfs_errno fs')"
  then show ?thesis using dir_ok_after [OF _ ok, of fs'] after_sel(1) [of fs "entry_at fs" "del_begin fs" fs'] by simp
next
  fix i fs' assume h: "sfs_creat fs e path = (0, fs')"
    "created fs FILE_ENTRY 34 path i (name_entries 30 (length (cstr path))) fs'" "lookup_dir fs path = None"
    "lookup_file fs path = None" "start_block (entry_at fs' (index_off fs i)) = 0"
    "file_size (entry_at fs' (index_off fs i)) = 0" "\<forall>j < i. \<not> free_run fs j (name_entries 30 (length (cstr path)))"
  have "lookup_dir fs' = lookup_dir fs" using h(2) by (simp add: created_def fun_eq_iff)
  moreover have "dir_ok fs'" by (rule created_dir_ok [OF h(2)])
  ultimately show ?thesis
    by (intro exI [of _ "0 :: int"] exI [of _ fs'] conjI disjI2 exI [of _ i])
      (use h in \<open>simp_all add: created_def\<close>)
qed

theorem creat_makes_the_name_witness:
  "\<exists>r fs'. sfs_creat hello_volume sample_buffer [0x63] = (r, fs') \<and> r = 0
     \<and> (\<exists>q. lookup_file fs' [0x63] = Some q \<and> file_size (entry_at fs' q) = 0)
     \<and> lookup_file fs' [0x61, 0x62] = Some 704"
proof -
  have n: "name_entries 30 (length (cstr [0x63 :: byte])) = 1" by (simp add: name_entries_def cstr_def)
  note p = plain_path [where path = "[0x63]", simplified]
  have "\<not> make_error hello_volume 1 [0x63] (lookup_dir hello_volume [0x63] \<noteq> None \<or> lookup_file hello_volume [0x63] \<noteq> None) x" for x
    using sample_free_runs(1) p by (auto simp: make_error_def sample_lookup is_correct_char_def)
  with creat_makes_the_name [of hello_volume sample_buffer "[0x63]", OF _ _ p(1)] n show ?thesis
    by (auto simp: sample_lookup p(3) cstr_id)
qed

text \<open>C22: \<open>sfs_mkdir\<close> does the same for directories, but looks only at directories with the path.\<close>

theorem mkdir_makes_the_name:
  assumes ok: "dir_ok fs" and len: "length e = 64" and walk: "walkable fs path"
  shows "\<exists>r fs'. sfs_mkdir fs e path = (r, fs') \<and> dir_ok fs'
      \<and> (r = -1 \<and> entry_at fs' = entry_at fs
           \<and> make_error fs (name_entries 54 (length (cstr path))) path (lookup_dir fs path \<noteq> None) (sfs_errno fs')
         \<or> r = 0 \<and> lookup_dir fs path = None
           \<and> (\<exists>i. free_run fs i (name_entries 54 (length (cstr path)))
               \<and> (\<forall>j < i. \<not> free_run fs j (name_entries 54 (length (cstr path))))
               \<and> (\<forall>path'. lookup_dir fs' path'
                      = (if cstr path' = cstr path then Some (index_off fs i) else lookup_dir fs path'))
               \<and> lookup_file fs' = lookup_file fs
               \<and> (\<forall>q. q \<notin> run_slots fs i (name_entries 54 (length (cstr path))) \<longrightarrow> entry_at fs' q = entry_at fs q)))"
proof (rule sfs_mkdir_ok [OF assms])
  fix fs' assume "sfs_mkdir fs e path = (-1, fs')" "unchanged fs fs'"
    "make_error fs (name_entries 54 (length (cstr path))) path (lookup_dir fs path \<noteq> None) (sfs_errno fs')"
  then show ?thesis using dir_ok_after [OF _ ok, of fs'] after_sel(1) [of fs "entry_at fs" "del_begin fs" fs'] by simp
next
  fix i fs' assume h: "sfs_mkdir fs e path = (0, fs')"
    "created fs DIR_ENTRY 10 path i (name_entries 54 (length (cstr path))) fs'" "lookup_dir fs path = None"
    "\<forall>j < i. \<not> free_run fs j (name_entries 54 (length (cstr path)))"
  have "lookup_file fs' = lookup_file fs" using h(2) by (simp add: created_def fun_eq_iff)
  moreover have "dir_ok fs'" by (rule created_dir_ok [OF h(2)])
  ultimately show ?thesis
    by (intro exI [of _ "0 :: int"] exI [of _ fs'] conjI disjI2 exI [of _ i])
      (use h in \<open>simp_all add: created_def\<close>)
qed

theorem mkdir_makes_the_name_witness:
  "\<exists>r fs'. sfs_mkdir fresh_volume sample_buffer [0x64] = (r, fs') \<and> r = 0 \<and> lookup_dir fs' [0x64] \<noteq> None"
proof -
  have n: "name_entries 54 (length (cstr [0x64 :: byte])) = 1" by (simp add: name_entries_def cstr_def)
  note p = plain_path [where path = "[0x64]", simplified]
  have "\<not> make_error fresh_volume 1 [0x64] (lookup_dir fresh_volume [0x64] \<noteq> None) x" for x
    using sample_free_runs(2) p by (auto simp: make_error_def sample_lookup is_correct_char_def)
  with mkdir_makes_the_name [of fresh_volume sample_buffer "[0x64]", OF _ _ p(1)] n show ?thesis
    by (auto simp: sample_lookup p(3))
qed

text \<open>C23: \<open>sfs_unlink\<close> returns the entry the path named, which is then one of a deleted file with
  its blocks still in it, and takes the path, and no other name, off the map; it fails for a
  forbidden character or an unknown path, and then changes no entry.\<close>

theorem unlink_removes_the_name:
  assumes ok: "dir_ok fs" and len: "length e = 64" and path: "padded path"
  shows "\<exists>r fs'. sfs_unlink fs e path = (r, fs') \<and> dir_ok fs'
      \<and> (r = 0 \<and> entry_at fs' = entry_at fs
           \<and> (sfs_errno fs' = EINVAL \<and> is_correct_filepath path \<noteq> 0 \<or> sfs_errno fs' = ENOENT \<and> lookup_file fs path = None)
         \<or> lookup_file fs path = Some r \<and> r \<noteq> 0
           \<and> (\<forall>path'. lookup_file fs' path' = (if cstr path' = cstr path then None else lookup_file fs path'))
           \<and> lookup_dir fs' = lookup_dir fs
           \<and> entry_at fs' = (entry_at fs)(r := set_entry_type (entry_code DEL_FILE_ENTRY) (entry_at fs r))
           \<and> start_block (entry_at fs' r) = start_block (entry_at fs r)
           \<and> end_block (entry_at fs' r) = end_block (entry_at fs r))"
proof (rule sfs_unlink_ok [OF assms])
  fix fs' assume "sfs_unlink fs e path = (0, fs')" "unchanged fs fs'"
    "sfs_errno fs' = EINVAL \<and> is_correct_filepath path \<noteq> 0 \<or> sfs_errno fs' = ENOENT \<and> lookup_file fs path = None"
  then show ?thesis using dir_ok_after [OF _ ok, of fs'] after_sel(1) [of fs "entry_at fs" "del_begin fs" fs'] by simp
next
  fix p fs' assume h: "sfs_unlink fs e path = (p, fs')" "lookup_file fs path = Some p" "dir_ok fs'"
    "after fs ((entry_at fs)(p := set_entry_type (entry_code DEL_FILE_ENTRY) (entry_at fs p))) (del_begin fs) fs'"
    "\<And>path'. lookup_file fs' path' = (if cstr path' = cstr path then None else lookup_file fs path')"
    "\<And>path'. lookup_dir fs' path' = lookup_dir fs path'"
  have "fs_ok fs" using ok by (simp add: dir_ok_def)
  note p = lookup_Some(2,5) [OF this h(2)]
  have "lookup_dir fs' = lookup_dir fs" using h(6) by (simp add: fun_eq_iff)
  then show ?thesis
    by (intro exI [of _ p] exI [of _ fs'] conjI disjI2)
      (use h(1-3,5) p after_sel(1) [OF h(4)] in \<open>simp_all add: layout_simps\<close>)
qed

theorem unlink_removes_the_name_witness:
  "\<exists>fs'. sfs_unlink hello_volume sample_buffer [0x61, 0x62] = (704, fs') \<and> lookup_file fs' [0x61, 0x62] = None
     \<and> start_block (entry_at fs' 704) = 1"
proof -
  have "is_correct_filepath [0x61, 0x62] = 0"
    by (simp add: is_correct_filepath_def is_correct_char_def)
  then show ?thesis
    using unlink_removes_the_name [of hello_volume sample_buffer "[0x61, 0x62]"]
    by (auto simp: sample_lookup padded_pure cstr_id)
qed

text \<open>What keeps \<open>sfs_rmdir\<close> from removing a directory, spelt out.\<close>

lemma occupied_iff:
  "occupied fs path p \<longleftrightarrow> (\<exists>q \<in> set (index_offs fs). q \<noteq> p
     \<and> (entry_type (entry_at fs q) = entry_code FILE_ENTRY \<and> prefix (cstr path) (entry_name 34 (entry_at fs) q)
        \<or> entry_type (entry_at fs q) = entry_code DIR_ENTRY \<and> prefix (cstr path) (entry_name 10 (entry_at fs) q)))"
  by (auto simp: occupied_def masked_def starts_def)

text \<open>C24: \<open>sfs_rmdir\<close> reports \<open>EINVAL\<close> for a path with a forbidden character or of no directory. A directory
  is removed exactly when no other file or directory has a name that starts with its path; every other
  name and the slots of every other name stay as they were. When there is such a name, \<open>sfs_rmdir\<close> reports
  \<open>ENOTEMPTY\<close>. A call that reports an error changes no entry.\<close>

theorem rmdir_removes_the_name:
  assumes ok: "dir_ok fs" and len: "length e = 64" and path: "padded path"
  shows "\<exists>r fs'. sfs_rmdir fs e path = (r, fs') \<and> dir_ok fs'
      \<and> ((is_correct_filepath path \<noteq> 0 \<or> lookup_dir fs path = None)
           \<and> r = -1 \<and> sfs_errno fs' = EINVAL \<and> entry_at fs' = entry_at fs
         \<or> is_correct_filepath path = 0 \<and> (\<exists>p. lookup_dir fs path = Some p
           \<and> (if \<exists>q \<in> set (index_offs fs). q \<noteq> p
                 \<and> (entry_type (entry_at fs q) = entry_code FILE_ENTRY \<and> prefix (cstr path) (entry_name 34 (entry_at fs) q)
                    \<or> entry_type (entry_at fs q) = entry_code DIR_ENTRY \<and> prefix (cstr path) (entry_name 10 (entry_at fs) q))
              then r = -1 \<and> sfs_errno fs' = ENOTEMPTY \<and> entry_at fs' = entry_at fs
              else r = 0
           \<and> (\<forall>path'. lookup_dir fs' path' = (if cstr path' = cstr path then None else lookup_dir fs path'))
           \<and> lookup_file fs' = lookup_file fs
           \<and> (\<forall>q \<in> name_slots fs p. entry_type (entry_at fs' q) = entry_code UNUSED_ENTRY)
           \<and> (\<forall>q. q \<notin> name_slots fs p \<longrightarrow> entry_at fs' q = entry_at fs q))))"
proof (rule sfs_rmdir_ok [OF assms, unfolded occupied_iff])
  fix fs' assume h: "sfs_rmdir fs e path = (-1, fs')" "unchanged fs fs'"
    "sfs_errno fs' = EINVAL \<and> (is_correct_filepath path \<noteq> 0 \<or> lookup_dir fs path = None)
       \<or> sfs_errno fs' = ENOTEMPTY \<and> is_correct_filepath path = 0
         \<and> (\<exists>p. lookup_dir fs path = Some p \<and> (\<exists>q \<in> set (index_offs fs). q \<noteq> p
              \<and> (entry_type (entry_at fs q) = entry_code FILE_ENTRY \<and> prefix (cstr path) (entry_name 34 (entry_at fs) q)
                 \<or> entry_type (entry_at fs q) = entry_code DIR_ENTRY \<and> prefix (cstr path) (entry_name 10 (entry_at fs) q))))"
  have "dir_ok fs'" "entry_at fs' = entry_at fs" using dir_ok_after [OF h(2) ok] after_sel(1) [OF h(2)] by simp_all
  with h(1,3) show ?thesis by (intro exI [of _ "-1 :: int"] exI [of _ fs']) auto
next
  fix p fs' at assume h: "sfs_rmdir fs e path = (0, fs')" "lookup_dir fs path = Some p"
    "\<not> (\<exists>q \<in> set (index_offs fs). q \<noteq> p
       \<and> (entry_type (entry_at fs q) = entry_code FILE_ENTRY \<and> prefix (cstr path) (entry_name 34 (entry_at fs) q)
          \<or> entry_type (entry_at fs q) = entry_code DIR_ENTRY \<and> prefix (cstr path) (entry_name 10 (entry_at fs) q)))"
    "dir_ok fs'" "after fs at (del_begin fs) fs'"
    "\<forall>q \<in> name_slots fs p. entry_type (at q) = entry_code UNUSED_ENTRY" "\<forall>q. q \<notin> name_slots fs p \<longrightarrow> at q = entry_at fs q"
    "\<And>path'. lookup_dir fs' path' = (if cstr path' = cstr path then None else lookup_dir fs path')"
    "\<And>path'. lookup_file fs' path' = lookup_file fs path'" "is_correct_filepath path = 0"
  have "lookup_file fs' = lookup_file fs" using h(9) by (rule ext)
  then show ?thesis
    by (intro exI [of _ "0 :: int"] exI [of _ fs'] conjI disjI2 exI [of _ p])
      (use h(1-4,6-8,10) after_sel(1) [OF h(5)] in simp_all)
qed

theorem rmdir_removes_the_name_witness:
  "\<exists>fs'. sfs_rmdir hello_volume sample_buffer [0x64] = (0, fs') \<and> lookup_dir fs' [0x64] = None
     \<and> lookup_file fs' [0x61, 0x62] = Some 704"
proof -
  have c: "is_correct_filepath [0x64] = 0" by (simp add: is_correct_filepath_def is_correct_char_def)
  show ?thesis
    using rmdir_removes_the_name [of hello_volume sample_buffer "[0x64]"] c
    by (auto simp: sample_lookup padded_pure cstr_id)
qed

text \<open>\<open>sfs_open\<close> finds the file with the path, else the directory with the path, else reports
  \<open>ENOENT\<close>; it changes nothing.\<close>

lemma open_finds_the_name:
  assumes "dir_ok fs" and "length e = 64" and "padded path"
  shows "\<exists>r fs'. sfs_open fs e path = (r, fs') \<and> dir_ok fs' \<and> entry_at fs' = entry_at fs
     \<and> (lookup_file fs path = Some r \<and> sfs_errno fs' = 0
        \<or> lookup_file fs path = None \<and> lookup_dir fs path = Some r \<and> sfs_errno fs' = 0
        \<or> lookup_file fs path = None \<and> lookup_dir fs path = None \<and> r = 0 \<and> sfs_errno fs' = ENOENT)"
proof -
  have d: "fs_ok fs" "dir_names_ok fs" using assms(1) by (simp_all add: dir_ok_def)
  show ?thesis
  proof (rule sfs_open_ok [OF d assms(2,3)])
    fix fs' assume h: "sfs_open fs e path
        = (case lookup_file fs path of Some p \<Rightarrow> p | None \<Rightarrow> found (lookup_dir fs path), fs')"
      "unchanged fs fs'" "sfs_errno fs' = (if lookup_file fs path = None \<and> lookup_dir fs path = None then ENOENT else 0)"
    then show ?thesis using dir_ok_after [OF h(2) assms(1)] after_sel(1) [OF h(2)]
      by (cases "lookup_file fs path"; cases "lookup_dir fs path") (auto simp: found_def)
  qed
qed

section \<open>Sequences of calls\<close>

text \<open>The calls a client makes on the names of a volume.\<close>

inductive name_step :: "fs \<Rightarrow> fs \<Rightarrow> bool" where
  creat: "length e = 64 \<Longrightarrow> walkable fs path \<Longrightarrow> sfs_creat fs e path = (r, fs') \<Longrightarrow> name_step fs fs'"
| mkdir: "length e = 64 \<Longrightarrow> walkable fs path \<Longrightarrow> sfs_mkdir fs e path = (r, fs') \<Longrightarrow> name_step fs fs'"
| unlink: "length e = 64 \<Longrightarrow> padded path \<Longrightarrow> sfs_unlink fs e path = (off, fs') \<Longrightarrow> name_step fs fs'"
| rmdir: "length e = 64 \<Longrightarrow> padded path \<Longrightarrow> sfs_rmdir fs e path = (r, fs') \<Longrightarrow> name_step fs fs'"
| opened: "length e = 64 \<Longrightarrow> padded path \<Longrightarrow> sfs_open fs e path = (off, fs') \<Longrightarrow> name_step fs fs'"

lemma sfs_creat_dir_ok:
  assumes "dir_ok fs" and "length e = 64" and "walkable fs path" and "sfs_creat fs e path = (r, fs')"
  shows "dir_ok fs'"
  by (rule sfs_creat_ok [OF assms(1-3)]) (use assms(1,4) dir_ok_after created_dir_ok in auto)

lemma sfs_mkdir_dir_ok:
  assumes "dir_ok fs" and "length e = 64" and "walkable fs path" and "sfs_mkdir fs e path = (r, fs')"
  shows "dir_ok fs'"
  by (rule sfs_mkdir_ok [OF assms(1-3)]) (use assms(1,4) dir_ok_after created_dir_ok in auto)

lemma sfs_unlink_dir_ok:
  assumes "dir_ok fs" and "length e = 64" and "padded path" and "sfs_unlink fs e path = (r, fs')"
  shows "dir_ok fs'"
  by (rule sfs_unlink_ok [OF assms(1-3)]) (use assms(1,4) dir_ok_after in auto)

lemma sfs_rmdir_dir_ok:
  assumes "dir_ok fs" and "length e = 64" and "padded path" and "sfs_rmdir fs e path = (r, fs')"
  shows "dir_ok fs'"
  by (rule sfs_rmdir_ok [OF assms(1-3)]) (use assms(1,4) dir_ok_after in auto)

lemma sfs_open_dir_ok:
  assumes "dir_ok fs" and "length e = 64" and "padded path" and "sfs_open fs e path = (r, fs')"
  shows "dir_ok fs'"
  by (rule sfs_open_ok [OF _ _ assms(2,3)]) (use assms(1,4) dir_ok_after in \<open>auto simp: dir_ok_def\<close>)

lemma name_step_dir_ok: "name_step fs fs' \<Longrightarrow> dir_ok fs \<Longrightarrow> dir_ok fs'"
  by (induction rule: name_step.induct)
    (auto intro: sfs_creat_dir_ok sfs_mkdir_dir_ok sfs_unlink_dir_ok sfs_rmdir_dir_ok sfs_open_dir_ok)

lemma name_steps_dir_ok: "name_step\<^sup>*\<^sup>* fs fs' \<Longrightarrow> dir_ok fs \<Longrightarrow> dir_ok fs'"
  by (induction rule: rtranclp_induct) (auto dest: name_step_dir_ok)

text \<open>C14: Whatever sequence of creations, removals and openings a client runs on a volume in order,
  the volume is in order after it: no two files have the same path, and the entries with the rest of
  a name stay inside the index and are never taken for entries of their own.\<close>

theorem names_stay_in_order:
  assumes "name_step\<^sup>*\<^sup>* fs fs'" and "dir_ok fs"
  shows "dir_ok fs' \<and>
    (\<forall>p q. p \<in> set (index_offs fs') \<and> q \<in> set (index_offs fs')
        \<and> entry_type (entry_at fs' p) = entry_code FILE_ENTRY \<and> entry_type (entry_at fs' q) = entry_code FILE_ENTRY
        \<and> entry_name 34 (entry_at fs') p = entry_name 34 (entry_at fs') q \<longrightarrow> p = q)"
  using name_steps_dir_ok [OF assms] by (simp add: dir_ok_def unique_names_def)

theorem names_stay_in_order_witness:
  "\<exists>fs'. name_step hello_volume fs' \<and> sfs_unlink hello_volume sample_buffer [0x61, 0x62] = (704, fs') \<and> dir_ok fs'"
proof -
  obtain r fs' where u: "sfs_unlink hello_volume sample_buffer [0x61, 0x62] = (r, fs')" by (metis surj_pair)
  have c: "is_correct_filepath [0x61, 0x62] = 0" by (simp add: is_correct_filepath_def is_correct_char_def)
  have "r = 704"
    by (rule sfs_unlink_ok [of hello_volume sample_buffer "[0x61, 0x62]"])
      (use u c in \<open>auto simp: sample_lookup padded_pure cstr_id\<close>)
  moreover have st: "name_step hello_volume fs'" by (rule name_step.unlink [OF _ _ u]) (simp_all add: padded_pure)
  moreover have "name_step\<^sup>*\<^sup>* hello_volume fs'" using st by (rule r_into_rtranclp)
  ultimately show ?thesis using u names_stay_in_order by auto
qed

text \<open>C25: A directory that was made and is removed again, whatever happens to the buffers in between,
  leaves the names of the volume as they were, and a second removal fails.\<close>

theorem mkdir_then_rmdir:
  assumes ok: "dir_ok fs" and len: "length e = 64" "length e' = 64" "length e'' = 64" and name: "0 \<notin> set path" "walkable fs path"
    and made: "sfs_mkdir fs e path = (0, fs1)" and walk: "walkable fs1 path" "walkable fs2 path"
    and removed: "sfs_rmdir fs1 e' path = (0, fs2)"
  shows "dir_names fs2 = dir_names fs \<and> dir_names fs1 path \<noteq> None \<and> (\<exists>fs3. sfs_rmdir fs2 e'' path = (-1, fs3))"
proof -
  have m: "make_dir e path fs = (True, fs1)" using made by (simp add: make_dir_def)
  have g: "good_name fs path" "good_name fs1 path" "good_name fs2 path" using name walk by (simp_all add: good_name_def)
  obtain f where f: "dir_names fs1 path = Some f" by (rule dirs.make_finds [OF ok g(1) len(1) m])
  have r: "remove_dir e' path fs1 = (Some f, fs2)" using removed f by (simp add: remove_dir_def)
  note k = dirs.make_remove [OF ok g(1) len(1) m g(2) len(2) r]
  obtain x fs3 where t: "remove_dir e'' path fs2 = (x, fs3)" by (metis surj_pair)
  have ok1: "dir_ok fs1" by (rule dirs.make_ok [OF ok g(1) len(1) m])
  have ok2: "dir_ok fs2" by (rule dirs.remove_ok [OF ok1 g(2) len(2) r])
  have "x = None" by (rule dirs.remove_twice [OF ok1 g(2) len(2) r g(3) len(3) t])
  have pad: "padded path" using name(1) by (rule padded_pure)
  have "\<exists>fs3. sfs_rmdir fs2 e'' path = (-1, fs3)"
  proof (rule sfs_rmdir_ok [OF ok2 len(3) pad])
    fix p fs' assume h: "sfs_rmdir fs2 e'' path = (0, fs')" "lookup_dir fs2 path = Some p"
    then have "x = dir_names fs2 path" using t by (simp add: remove_dir_def)
    then have "x = Some p" using h(2) name(1) by (simp add: name_map_def)
    then show ?thesis using \<open>x = None\<close> by simp
  qed blast
  then show ?thesis using k(1) f by simp
qed

lemma lookup_own_name:
  assumes "unique_names kind b fs" and "q \<in> set (index_offs fs)" and "entry_type (entry_at fs q) = entry_code kind"
  shows "lookup kind b fs (entry_name b (entry_at fs) q) = Some q"
proof -
  have c: "cstr (entry_name b (entry_at fs) q) = entry_name b (entry_at fs) q"
    unfolding entry_name_def by (rule cstr_id) (rule cstr_no_nul)
  show ?thesis
    unfolding lookup_def by (rule find_unique [OF assms(2)]) (use assms c in \<open>auto simp: has_name_def unique_names_def\<close>)
qed

theorem mkdir_then_rmdir_witness:
  "\<exists>fs1 fs2 fs3. sfs_mkdir fresh_volume sample_buffer [0x64] = (0, fs1) \<and> sfs_rmdir fs1 sample_buffer [0x64] = (0, fs2)
     \<and> sfs_rmdir fs2 sample_buffer [0x64] = (-1, fs3) \<and> dir_names fs2 = dir_names fresh_volume"
proof -
  note w = plain_path [where path = "[0x64]", simplified]
  have n: "name_entries 54 (length (cstr [0x64 :: byte])) = 1" by (simp add: name_entries_def cstr_def)
  have pad: "padded [0x64 :: byte]" by (simp add: padded_pure)
  show ?thesis
  proof (rule sfs_mkdir_ok [of fresh_volume sample_buffer "[0x64]"])
    fix fs' assume "make_error fresh_volume (name_entries 54 (length (cstr [0x64]))) [0x64] (lookup_dir fresh_volume [0x64] \<noteq> None) (sfs_errno fs')"
    then show ?thesis using sample_free_runs(2) w n by (auto simp: make_error_def sample_lookup is_correct_char_def)
  next
    fix i fs1 assume m: "sfs_mkdir fresh_volume sample_buffer [0x64] = (0, fs1)"
      "created fresh_volume DIR_ENTRY 10 [0x64] i (name_entries 54 (length (cstr [0x64]))) fs1"
    have ok1: "dir_ok fs1" by (rule created_dir_ok [OF m(2)])
    have ld: "lookup_dir fs1 path' = (if cstr path' = [0x64] then Some (index_off fresh_volume i) else if cstr path' = [] then Some 640 else None)"
      and lf: "lookup_file fs1 path' = None" for path'
      using m(2) w(3) by (auto simp: created_def sample_lookup)
    have free: "\<not> occupied fs1 [0x64] (index_off fresh_volume i)"
    proof
      assume "occupied fs1 [0x64] (index_off fresh_volume i)"
      then obtain q where q: "q \<in> set (index_offs fs1)" "q \<noteq> index_off fresh_volume i" "masked (entry_at fs1) [0x64] q"
        by (auto simp: occupied_def)
      from q(3) show False
        unfolding masked_def starts_def
      proof (elim disjE conjE)
        assume "entry_type (entry_at fs1 q) = entry_code FILE_ENTRY"
        then show False using lookup_own_name [OF _ q(1), of FILE_ENTRY 34] ok1 lf by (simp add: dir_ok_def)
      next
        assume h: "entry_type (entry_at fs1 q) = entry_code DIR_ENTRY" "prefix (cstr [0x64]) (entry_name 10 (entry_at fs1) q)"
        let ?n = "entry_name 10 (entry_at fs1) q"
        have "lookup_dir fs1 ?n = Some q" using lookup_own_name [OF _ q(1) h(1)] ok1 by (simp add: dir_ok_def)
        then have "cstr ?n = []" using ld [of ?n] q(2) by (auto split: if_splits)
        moreover have "cstr ?n = ?n" unfolding entry_name_def by (rule cstr_id) (rule cstr_no_nul)
        ultimately show False using h(2) w(3) by simp
      qed
    qed
    show ?thesis
    proof (rule sfs_rmdir_ok [OF ok1 _ pad, of sample_buffer])
      fix fs' assume "sfs_errno fs' = EINVAL \<and> (is_correct_filepath [0x64] \<noteq> 0 \<or> lookup_dir fs1 [0x64] = None)
        \<or> sfs_errno fs' = ENOTEMPTY \<and> is_correct_filepath [0x64] = 0 \<and> (\<exists>p. lookup_dir fs1 [0x64] = Some p \<and> occupied fs1 [0x64] p)"
      then show ?thesis using ld [of "[0x64]"] free w(3) by (auto simp: is_correct_filepath_def is_correct_char_def)
    next
      fix p fs2 assume r: "sfs_rmdir fs1 sample_buffer [0x64] = (0, fs2)"
      show ?thesis
        using mkdir_then_rmdir [of fresh_volume sample_buffer sample_buffer sample_buffer "[0x64]" fs1 fs2, OF _ _ _ _ _ w(1) m(1) w(1,1) r]
          m(1) r by auto
    qed simp
  qed (use w in simp_all)
qed

lemma creat_on_hello:
  obtains fs1 where "sfs_creat hello_volume sample_buffer [0x63] = (0, fs1)" "dir_ok fs1"
    "lookup_file fs1 [0x63] \<noteq> None" "created hello_volume FILE_ENTRY 34 [0x63] 5 1 fs1"
proof -
  have n: "name_entries 30 (length (cstr [0x63 :: byte])) = 1" by (simp add: name_entries_def cstr_def)
  note p = plain_path [where path = "[0x63]", simplified]
  show ?thesis
  proof (rule sfs_creat_ok [of hello_volume sample_buffer "[0x63]"])
    fix fs' assume "make_error hello_volume (name_entries 30 (length (cstr [0x63]))) [0x63]
      (lookup_dir hello_volume [0x63] \<noteq> None \<or> lookup_file hello_volume [0x63] \<noteq> None) (sfs_errno fs')"
    then show ?thesis
      using sample_free_runs(1) p n by (auto simp: make_error_def sample_lookup is_correct_char_def)
  next
    fix i fs' assume h: "sfs_creat hello_volume sample_buffer [0x63] = (0, fs')"
      "created hello_volume FILE_ENTRY 34 [0x63] i (name_entries 30 (length (cstr [0x63]))) fs'"
      "\<forall>j < i. \<not> free_run hello_volume j (name_entries 30 (length (cstr [0x63])))"
    have c: "\<not> free_run hello_volume j 1" if "j < 5" for j
    proof -
      from that have "j = 0 \<or> j = 1 \<or> j = 2 \<or> j = 3 \<or> j = 4" by arith
      then show ?thesis by (auto simp: free_run_def unused_def)
    qed
    have "i = 5"
    proof (rule linorder_cases [of i 5])
      assume "i < 5"
      then show ?thesis using h(2) c n by (simp add: created_def)
    next
      assume "5 < i"
      then show ?thesis using h(3) sample_free_runs(1) n by auto
    qed
    then show ?thesis using h that created_dir_ok [OF h(2)] n by (auto simp: created_def)
  qed (use p in simp_all)
qed

text \<open>C26: \<open>sfs_mkdir\<close> does not look for a file with the path: it makes a directory with the name of an
  existing file, which \<open>sfs_open\<close> then never finds.\<close>

theorem mkdir_over_a_file:
  assumes ok: "dir_ok fs" and len: "length e = 64" and walk: "walkable fs path"
    and chars: "is_correct_dirpath path = 0" and parent: "dirs_exist fs path 0 (strlen path + 1)"
    and isfile: "lookup_file fs path = Some p" and none: "lookup_dir fs path = None"
    and room: "free_run fs i (name_entries 54 (length (cstr path)))"
  shows "\<exists>fs' d. sfs_mkdir fs e path = (0, fs') \<and> lookup_file fs' path = Some p \<and> lookup_dir fs' path = Some d
    \<and> (\<exists>fs''. sfs_open fs' e path = (p, fs''))"
proof (rule sfs_mkdir_ok [OF ok len walk])
  fix fs' assume "make_error fs (name_entries 54 (length (cstr path))) path (lookup_dir fs path \<noteq> None) (sfs_errno fs')"
  moreover have "length (cstr path) < 16000" using walk by (simp add: walkable_def)
  ultimately show ?thesis using chars parent none room correct_path_chars(2) by (auto simp: make_error_def)
next
  fix j fs' assume h: "sfs_mkdir fs e path = (0, fs')" "created fs DIR_ENTRY 10 path j (name_entries 54 (length (cstr path))) fs'"
  have l: "lookup_file fs' path = Some p" "lookup_dir fs' path = Some (index_off fs j)"
    using h(2) isfile by (auto simp: created_def)
  have d: "dir_ok fs'" by (rule created_dir_ok [OF h(2)])
  have "padded path" using walk by (simp add: walkable_def)
  then obtain fs'' where "sfs_open fs' e path = (p, fs'')"
    using sfs_open_ok [of fs' e path] d len l(1) by (auto simp: dir_ok_def)
  then show ?thesis using h(1) l by blast
qed

theorem mkdir_over_a_file_witness:
  "\<exists>fs' d. sfs_mkdir hello_volume sample_buffer [0x61, 0x62] = (0, fs') \<and> lookup_file fs' [0x61, 0x62] = Some 704
     \<and> lookup_dir fs' [0x61, 0x62] = Some d"
proof -
  note p = plain_path [where path = "[0x61, 0x62]", simplified]
  have c: "is_correct_dirpath [0x61, 0x62] = 0" by (simp add: is_correct_dirpath_def is_correct_char_def)
  have n: "name_entries 54 (length (cstr [0x61, 0x62 :: byte])) = 1" by (simp add: name_entries_def cstr_def)
  show ?thesis
    using mkdir_over_a_file [of hello_volume sample_buffer "[0x61, 0x62]" 704 5, OF _ _ p(1) c p(2)] n sample_free_runs(1)
    by (auto simp: sample_lookup cstr_id)
qed

end
