(* ===== verification/VolumeProps.thy ===== *)
theory VolumeProps
  imports Rename Shrink NameProps
begin

text \<open>
  The properties of a whole volume: every block has one owner along every sequence of calls, and
  the bytes of the files are what was written to them (src/lib/sfs/sfs_read.c, sfs_write.c,
  sfs_delete.c with what they call).
\<close>

section \<open>The sample volumes\<close>

lemma sample_owns:
  "owns fresh_volume [576] p \<longleftrightarrow> False" "owns hello_volume [576] p \<longleftrightarrow> p = 704" "owns split_volume [576, 768] p \<longleftrightarrow> p = 704"
  by (auto simp: owns_def)

lemma sample_starts [simp]: "entry_start fresh_volume = 512" "entry_start hello_volume = 512" "entry_start split_volume = 512"
  by (simp_all add: fresh_volume_def hello_volume_def split_volume_def del: sample_sel(1))

lemma sample_file_ok:
  "file_ok hello_volume (sample_file [0x61, 0x62] 1 1 5)" "file_ok split_volume (sample_file [0x78] 3 4 100)"
  "file_ext (sample_file nm s e z) = (if s = 0 then {} else {unat s .. unat e})"
  by (auto simp: file_ok_def file_ext_def ext_ok_def)

lemma sample_volume_ok' [simp]: "volume_ok fresh_volume [576]" "volume_ok hello_volume [576]" "volume_ok split_volume [576, 768]"
  by (auto simp: volume_ok_def bare_def below_def sample_owns sample_file_ok simp del: One_nat_def)

lemma hello_contents: "contents hello_volume 704 = [0x68, 0x65, 0x6C, 0x6C, 0x6F]"
proof -
  have "contents hello_volume 704 = seg 64 5 (host_file hello_volume)" by (simp add: contents_def)
  also have "\<dots> = [0x68, 0x65, 0x6C, 0x6C, 0x6F]"
    by (simp add: hello_volume_def seg_def mem_put_def patch_def)
  finally show ?thesis .
qed

section \<open>Ownership\<close>

text \<open>The calls on a volume that keep it in order: those on names; the writing of a file from an offset up
  to its end, in its blocks, into its first extent or, where the index has an unused slot for the blocks a
  move gives back, to any length; its truncation to nothing (with an unused slot) or to a size that needs
  no fewer blocks (more than a file with blocks has: with an unused slot); the renaming of an empty file;
  the deletion of an unlinked one. The calls left out do break the volume: a truncation to fewer blocks,
  but some, gives back blocks the file keeps (\<open>sfs_truncate_shrink\<close>), the renaming of a file with blocks
  frees them (\<open>sfs_rename_blocks\<close>), and a move while the index is full may overwrite the index slot of the
  file: the old blocks cannot be given back, \<open>copy_block\<close> puts file data in the block buffer under the label
  of an index block, and \<open>read_entry\<close> takes it for the entry.\<close>

inductive volume_step :: "fs \<Rightarrow> fs \<Rightarrow> bool" where
  vs_creat: "length e = 64 \<Longrightarrow> walkable fs path \<Longrightarrow> sfs_creat fs e path = (r, fs') \<Longrightarrow> volume_step fs fs'"
| vs_mkdir: "length e = 64 \<Longrightarrow> walkable fs path \<Longrightarrow> sfs_mkdir fs e path = (r, fs') \<Longrightarrow> volume_step fs fs'"
| vs_unlink: "length e = 64 \<Longrightarrow> padded path \<Longrightarrow> sfs_unlink fs e path = (off, fs') \<Longrightarrow> volume_step fs fs'"
| vs_rmdir: "length e = 64 \<Longrightarrow> padded path \<Longrightarrow> sfs_rmdir fs e path = (r, fs') \<Longrightarrow> volume_step fs fs'"
| vs_write: "length e = 64 \<Longrightarrow> volume_ok fs ps \<Longrightarrow> owns fs ps p \<Longrightarrow> length data = unat sz \<Longrightarrow>
    unat off \<le> unat (file_size (entry_at fs p)) \<Longrightarrow> unat off + unat sz < 2 ^ 63 \<Longrightarrow>
    needed fs (off + sz) \<le> card (file_ext (entry_at fs p)) \<or> start_block (entry_at fs p) = 0 \<or> (\<exists>i. unused fs i) \<Longrightarrow>
    sfs_write fs e p data sz off = (n, fs') \<Longrightarrow> volume_step fs fs'"
| vs_truncate: "length e = 64 \<Longrightarrow> volume_ok fs ps \<Longrightarrow> owns fs ps p \<Longrightarrow> unat z < 2 ^ 63 \<Longrightarrow>
    z = 0 \<or> card (file_ext (entry_at fs p)) \<le> needed fs z \<Longrightarrow>
    z \<noteq> 0 \<and> (needed fs z = card (file_ext (entry_at fs p)) \<or> start_block (entry_at fs p) = 0) \<or> (\<exists>i. unused fs i) \<Longrightarrow>
    sfs_truncate fs e p z = (r, fs') \<Longrightarrow> volume_step fs fs'"
| vs_rename: "length e = 64 \<Longrightarrow> walkable fs path \<Longrightarrow> lookup_file fs old = Some p \<Longrightarrow> start_block (entry_at fs p) = 0 \<Longrightarrow>
    sfs_rename fs e p path = (q, fs') \<Longrightarrow> volume_step fs fs'"
| vs_delete: "length e = 64 \<Longrightarrow> volume_ok fs ps \<Longrightarrow> owns fs ps p \<Longrightarrow>
    entry_type (entry_at fs p) = entry_code DEL_FILE_ENTRY \<Longrightarrow> sfs_delete fs e p = (r, fs') \<Longrightarrow> volume_step fs fs'"

lemma unchanged_step: "volume_ok fs ps \<Longrightarrow> unchanged fs fs' \<Longrightarrow> \<exists>ps'. volume_ok fs' ps' \<and> space fs' ps' = space fs ps"
  using volume_unchanged(1,2) by blast

lemma volume_step_ok:
  assumes "volume_step fs fs'" and "volume_ok fs ps"
  shows "\<exists>ps'. volume_ok fs' ps' \<and> space fs' ps' = space fs ps"
  using assms
proof (induction rule: volume_step.induct)
  case (vs_creat e fs path r fs')
  then show ?case using sfs_creat_volume by blast
next
  case (vs_mkdir e fs path r fs')
  then show ?case using sfs_mkdir_volume by blast
next
  case (vs_unlink e path fs off fs')
  then show ?case using sfs_unlink_volume(1,2) by blast
next
  case (vs_rmdir e path fs r fs')
  then show ?case using sfs_rmdir_volume by blast
next
  case (vs_write e fs qs p data sz off n fs')
  have [simp]: "qs = ps" by (rule volume_unique [OF vs_write(2,9)])
  show ?case
    by (rule sfs_write_ok [OF vs_write(2,3,1,4-7)]) (use vs_write(8) unchanged_step [OF vs_write(2)] in auto)
next
  case (vs_truncate e fs qs p z r fs')
  have [simp]: "qs = ps" by (rule volume_unique [OF vs_truncate(2,8)])
  show ?case
    by (rule sfs_truncate_ok [OF vs_truncate(2,3,1,4,5,6)]) (use vs_truncate(7) unchanged_step [OF vs_truncate(2)] in auto)
next
  case (vs_rename e fs path old p q fs')
  show ?case
    by (rule sfs_rename_empty [OF vs_rename(6,1-4)]) (use vs_rename(5) unchanged_step [OF vs_rename(6)] in auto)
next
  case (vs_delete e fs qs p r fs')
  have [simp]: "qs = ps" by (rule volume_unique [OF vs_delete(2,6)])
  show ?case
    by (rule sfs_delete_ok [OF vs_delete(2,1,3,4)]) (use vs_delete(5) in auto)
qed

lemma volume_steps_ok:
  assumes "volume_step\<^sup>*\<^sup>* fs fs'" and "volume_ok fs ps"
  shows "\<exists>ps'. volume_ok fs' ps' \<and> space fs' ps' = space fs ps"
  using assms
proof (induction rule: rtranclp_induct)
  case base
  then show ?case by blast
next
  case (step fs1 fs2)
  then show ?case using volume_step_ok by metis
qed

text \<open>C1: Along every sequence of the calls of \<open>volume_step\<close> on a volume in order (creations and removals of
  names; writes from an offset up to the end of the file and truncations to nothing or to no fewer blocks,
  both with an unused slot in the index where blocks move or are given back; renamings of empty files;
  deletions of unlinked ones), every block keeps exactly one owner: no block is free and in a file, or in two files, the
  unlinked ones that are not deleted yet included, no block of the data area that was accounted for
  is lost, and none is taken from the index.\<close>

theorem blocks_have_one_owner:
  assumes "volume_step\<^sup>*\<^sup>* fs fs'" and "volume_ok fs ps"
  shows "\<exists>ps'. volume_ok fs' ps' \<and> space fs' ps' = space fs ps \<and>
    (\<forall>p q. owns fs' ps' p \<and> owns fs' ps' q \<and> p \<noteq> q \<longrightarrow> file_ext (entry_at fs' p) \<inter> file_ext (entry_at fs' q) = {}) \<and>
    (\<forall>p b. owns fs' ps' p \<and> b \<in> file_ext (entry_at fs' p) \<longrightarrow>
       b \<notin> blocks (entry_at fs') ps' \<and> Suc b * unat (block_size fs') \<le> unat (entry_start fs'))"
proof -
  obtain ps' where "volume_ok fs' ps'" "space fs' ps' = space fs ps" using volume_steps_ok [OF assms] by blast
  then show ?thesis by (intro exI [of _ ps']) (auto simp: volume_ok_def below_def)
qed

lemma sample_space: "space hello_volume [576] = {1 .. 7}"
  by (auto simp: space_def sample_owns sample_file_ok)

theorem blocks_have_one_owner_witness:
  "\<exists>r fs' ps'. sfs_unlink hello_volume sample_buffer [0x61, 0x62] = (r, fs') \<and> volume_ok fs' ps' \<and> space fs' ps' = {1 .. 7}"
proof -
  obtain r fs' where u: "sfs_unlink hello_volume sample_buffer [0x61, 0x62] = (r, fs')" by (metis surj_pair)
  have st: "volume_step hello_volume fs'" by (rule volume_step.vs_unlink [OF _ _ u]) (simp_all add: padded_pure)
  then have "volume_step\<^sup>*\<^sup>* hello_volume fs'" by (rule r_into_rtranclp)
  from blocks_have_one_owner [OF this, of "[576]"] u show ?thesis by (auto simp: sample_space)
qed

text \<open>C34: The slots of the index keep their kinds: after every sequence of the calls of \<open>volume_step\<close>
  (those of C1, under the same conditions) on a volume in order, the continuation slots of a
  file, a directory or an unlinked file are in the index and never have the type of an entry, the name
  of every file and directory ends within its slots, and the entries of the free list are unlinked files
  without continuation slots.\<close>

theorem slots_stay_typed:
  assumes "volume_step\<^sup>*\<^sup>* fs fs'" and "volume_ok fs ps"
  shows "(\<forall>p \<in> set (index_offs fs'). entry_type (entry_at fs' p) \<in> {entry_code FILE_ENTRY, entry_code DIR_ENTRY, entry_code DEL_FILE_ENTRY} \<longrightarrow>
        (\<forall>k. 0 < k \<and> k \<le> unat (cont_entries (entry_at fs' p)) \<longrightarrow> p + 64 * word_of_nat k \<in> set (index_offs fs')
           \<and> (\<forall>kind. entry_type (entry_at fs' (p + 64 * word_of_nat k)) \<noteq> entry_code kind)))
    \<and> (\<forall>p \<in> set (index_offs fs'). (entry_type (entry_at fs' p) = entry_code FILE_ENTRY \<longrightarrow> 0 \<in> set (name_bytes 34 (entry_at fs') p))
        \<and> (entry_type (entry_at fs' p) = entry_code DIR_ENTRY \<longrightarrow> 0 \<in> set (name_bytes 10 (entry_at fs') p)))
    \<and> (\<exists>ps'. volume_ok fs' ps' \<and> (\<forall>p \<in> set ps'. entry_type (entry_at fs' p) = entry_code DEL_FILE_ENTRY \<and> cont_entries (entry_at fs' p) = 0))"
proof -
  obtain ps' where v: "volume_ok fs' ps'" using volume_steps_ok [OF assms] by blast
  note h = volume_okD(1-4) [OF v]
  have d: "laid_out fs'" "names_ok FILE_ENTRY 34 fs'" "names_ok DIR_ENTRY 10 fs'"
    using h(2) by (simp_all add: dir_ok_def dir_names_ok_def)
  have "\<forall>p \<in> set ps'. entry_type (entry_at fs' p) = entry_code DEL_FILE_ENTRY \<and> cont_entries (entry_at fs' p) = 0"
    using free_entries_coded(1) [OF h(3)] h(4) by (auto simp: bare_def)
  moreover have "\<forall>p \<in> set (index_offs fs'). headed (entry_at fs' p) \<longrightarrow>
        (\<forall>k. 0 < k \<and> k \<le> unat (cont_entries (entry_at fs' p)) \<longrightarrow> p + 64 * word_of_nat k \<in> set (index_offs fs')
           \<and> (\<forall>kind. entry_type (entry_at fs' (p + 64 * word_of_nat k)) \<noteq> entry_code kind))"
    using d(1) unfolding laid_out_def is_code_def by blast
  ultimately show ?thesis
    using d(2,3) v unfolding headed_def names_ok_def name_ok_def by blast
qed

theorem slots_stay_typed_witness:
  "\<exists>r fs' ps'. sfs_unlink hello_volume sample_buffer [0x61, 0x62] = (r, fs') \<and> volume_ok fs' ps'
     \<and> (\<forall>p \<in> set ps'. cont_entries (entry_at fs' p) = 0)"
proof -
  obtain r fs' where u: "sfs_unlink hello_volume sample_buffer [0x61, 0x62] = (r, fs')" by (metis surj_pair)
  have st: "volume_step hello_volume fs'" by (rule volume_step.vs_unlink [OF _ _ u]) (simp_all add: padded_pure)
  then have "volume_step\<^sup>*\<^sup>* hello_volume fs'" by (rule r_into_rtranclp)
  from slots_stay_typed [OF this, of "[576]"] u show ?thesis by auto
qed

section \<open>Reading and writing\<close>

text \<open>C2: \<open>sfs_write\<close> to a file, at an offset up to its end, that fits the blocks of the file, or gives an
  empty file its first blocks, or grows a file beyond its blocks (in place or by moving it) while the index
  has an unused slot, either stores all of the bytes, and then the files of the volume are what they were but for
  the range written, or, when no free extent is long enough, returns -1 with \<open>ENOSPC\<close> and changes no
  file. The names stay as they are.\<close>

theorem write_changes_one_file:
  assumes "volume_ok fs ps" and "owns fs ps p" and "length e = 64" and "length data = unat sz"
    and "unat off \<le> unat (file_size (entry_at fs p))" and "unat off + unat sz < 2 ^ 63"
    and "needed fs (off + sz) \<le> card (file_ext (entry_at fs p)) \<or> start_block (entry_at fs p) = 0 \<or> (\<exists>i. unused fs i)"
  shows "\<exists>n fs'. sfs_write fs e p data sz off = (n, fs') \<and> in_order fs' \<and> lookup_file fs' = lookup_file fs
    \<and> lookup_dir fs' = lookup_dir fs
    \<and> (n = sz \<and> sfs_errno fs' = 0 \<and> files_of fs' = (files_of fs)(p \<mapsto> patch (unat off) data (contents fs p))
       \<or> n = -1 \<and> sfs_errno fs' = ENOSPC \<and> files_of fs' = files_of fs
         \<and> (\<forall>q \<in> set ps. card (ext (entry_at fs q)) < needed fs (off + sz)))"
proof (rule sfs_write_files [OF assms])
  fix fs' assume h: "sfs_write fs e p data sz off = (-1, fs')" "sfs_errno fs' = ENOSPC" "unchanged fs fs'"
    "\<forall>q \<in> set ps. card (ext (entry_at fs q)) < needed fs (off + sz)"
  have "in_order fs'" "files_of fs' = files_of fs" "lookup_file fs' = lookup_file fs" "lookup_dir fs' = lookup_dir fs"
    using volume_unchanged(1) [OF assms(1) h(3)] files_unchanged [OF assms(1) h(3)] lookup_after [OF h(3)]
    by (auto simp: in_order_def)
  then show ?thesis using h by auto
qed auto

theorem write_changes_one_file_witness:
  "\<exists>fs'. sfs_write hello_volume sample_buffer 704 (replicate 100 7) 100 5 = (100, fs') \<and> in_order fs'
     \<and> files_of fs' 704 = Some ([0x68, 0x65, 0x6C, 0x6C, 0x6F] @ replicate 100 7)"
proof -
  have "Ex (unused hello_volume)" by (rule exI [of _ 5]) (simp add: unused_def)
  then show ?thesis
    using write_changes_one_file [of hello_volume "[576]" 704 sample_buffer "replicate 100 7" 100 5]
    by (auto simp: sample_owns sample_file_ok hello_contents patch_def ext_def)
qed

text \<open>C17: For a range that lies inside one block or starts at a block boundary, \<open>sfs_read\<close> returns the bytes
  of the file from the offset on, as many as are asked for and there are, and refuses an offset beyond the
  end with \<open>EINVAL\<close>. For the other ranges \<open>read_data\<close> leaves a gap in the result (C28).\<close>

theorem read_returns_the_bytes:
  assumes "volume_ok fs ps" and "owns fs ps p" and "length e = 64" and "unat sz \<le> length data"
    and "unat off + unat sz < 2 ^ 64"
    and "unat off mod unat (block_size fs) + unat sz \<le> unat (block_size fs) \<or> unat (block_size fs) dvd unat off"
  shows "\<exists>r out fs'. sfs_read fs e p data sz off = (r, out, fs') \<and> host_file fs' = host_file fs
    \<and> (unat (file_size (entry_at fs p)) < unat off \<and> r = -1 \<and> sfs_errno fs' = EINVAL \<and> out = data
       \<or> unat off \<le> unat (file_size (entry_at fs p))
         \<and> unat r = min (unat sz) (unat (file_size (entry_at fs p)) - unat off)
         \<and> take (unat r) out = take (unat sz) (drop (unat off) (contents fs p)) \<and> drop (unat r) out = drop (unat r) data)"
proof (rule sfs_read_ok [OF assms])
  fix fs' assume "unat (file_size (entry_at fs p)) < unat off" "sfs_read fs e p data sz off = (-1, data, fs')"
    "sfs_errno fs' = EINVAL" "host_file fs' = host_file fs"
  then show ?thesis by blast
next
  fix fs'
  let ?n = "min (unat sz) (unat (file_size (entry_at fs p)) - unat off)" and ?b = "take (unat sz) (drop (unat off) (contents fs p))"
  assume h: "unat off \<le> unat (file_size (entry_at fs p))"
    "sfs_read fs e p data sz off = (word_of_nat ?n, patch 0 ?b data, fs')" "host_file fs' = host_file fs"
  note v = volume_okD [OF assms(1)]
  note x = file_ext_area [OF v(1) v(6,7) [OF assms(2)]]
  have "unat (start_block (entry_at fs p)) * unat (block_size fs) + unat (file_size (entry_at fs p)) \<le> length (host_file fs)"
    using x(1,2) v(1) by (auto simp: fs_ok_def)
  then have len: "length ?b = ?n" by (simp add: contents_def min.commute)
  have n: "unat (word_of_nat ?n :: u64) = ?n"
    using x(4) unfolding unat_of_nat by (intro mod_less) auto
  have "patch 0 ?b data = ?b @ drop ?n data" unfolding patch_def len by simp
  then have t: "take ?n (patch 0 ?b data) = ?b" "drop ?n (patch 0 ?b data) = drop ?n data"
    using len by (metis append_eq_conv_conj)+
  show ?thesis
    by (rule exI [of _ "word_of_nat ?n"], rule exI [of _ "patch 0 ?b data"], rule exI [of _ fs'])
      (use h n t in \<open>simp only: if_True disjI2 simp_thms\<close>)
qed

theorem read_returns_the_bytes_witness:
  "\<exists>out fs'. sfs_read hello_volume sample_buffer 704 sample_buffer 3 1 = (3, out, fs') \<and> take 3 out = [0x65, 0x6C, 0x6C]"
proof -
  obtain r out fs' where h: "sfs_read hello_volume sample_buffer 704 sample_buffer 3 1 = (r, out, fs')"
    "unat r = 3" "take (unat r) out = take 3 (drop 1 (contents hello_volume 704))"
    using read_returns_the_bytes [of hello_volume "[576]" 704 sample_buffer 3 sample_buffer 1] by (auto simp: sample_owns)
  then have "r = 3" by (simp add: word_unat_eq_iff)
  then show ?thesis using h by (simp add: hello_contents)
qed

text \<open>C35: What \<open>sfs_write\<close> stored in a file, at an offset up to its end and in its blocks, in its first blocks
  or with an unused slot in the index, is what \<open>sfs_read\<close> returns for the same range, when this lies inside
  one block or starts at a block boundary.\<close>

theorem write_then_read:
  assumes "in_order fs" and "files_of fs p = Some c" and "off \<le> length c" and "may_write fs p (off + length d)"
    and "may_read fs off (length d)" and "length e = 64" and "length e' = 64"
    and "sfs_write fs e p d (word_of_nat (length d)) (word_of_nat off) = (n, fs1)" and "n \<noteq> -1"
    and "sfs_read fs1 e' p (replicate (length d) 0) (word_of_nat (length d)) (word_of_nat off) = (r, out, fs2)"
  shows "r \<noteq> -1 \<and> take (unat r) out = d"
proof -
  have w: "put_bytes e p off d fs = (True, fs1)" using assms(8,9) by (simp add: put_bytes_def)
  have g: "get_bytes e' p off (length d) fs1 = (if r = -1 then None else Some (take (unat r) out), fs2)"
    using assms(10) by (simp add: get_bytes_def)
  from volume.put_get [OF assms(1-4,6) w assms(5,7) g] show ?thesis by (simp split: if_splits)
qed

lemma hello_files: "in_order hello_volume" "files_of hello_volume 704 = Some [0x68, 0x65, 0x6C, 0x6C, 0x6F]"
  by (auto simp: in_order_def files_of_eq [OF sample_volume_ok'(2)] sample_owns hello_contents intro: exI [of _ "[576]"])

theorem write_then_read_witness:
  "\<exists>n fs1 r out fs2. sfs_write hello_volume sample_buffer 704 [0x58, 0x59] 2 1 = (n, fs1)
     \<and> sfs_read fs1 sample_buffer 704 [0, 0] 2 1 = (r, out, fs2) \<and> take (unat r) out = [0x58, 0x59]"
proof -
  obtain fs1 where w: "sfs_write hello_volume sample_buffer 704 [0x58, 0x59] 2 1 = (2, fs1)"
    by (rule sfs_write_files [of hello_volume "[576]" 704 sample_buffer "[0x58, 0x59]" 2 1])
      (auto simp: sample_owns sample_file_ok)
  obtain r out fs2 where r: "sfs_read fs1 sample_buffer 704 [0, 0] 2 1 = (r, out, fs2)" by (metis prod_cases3)
  have "r \<noteq> -1 \<and> take (unat r) out = [0x58, 0x59]"
    by (rule write_then_read [OF hello_files, where off = 1 and e = sample_buffer and e' = sample_buffer and n = 2])
      (use w r in \<open>auto simp: may_write_def may_read_def sample_file_ok\<close>)
  then show ?thesis using w r by blast
qed

section \<open>Renaming\<close>

text \<open>C7: \<open>sfs_rename\<close> of an empty file either reports why the new path cannot be used and changes nothing, or
  moves the file: the new path is its name, the old path is none, and every other file and name is as it was.\<close>

theorem rename_moves_an_empty_file:
  assumes "in_order fs" and "length e = 64" and "walkable fs path" and "lookup_file fs old = Some p" and "files_of fs p = Some []"
  shows "\<exists>q fs'. sfs_rename fs e p path = (q, fs') \<and> in_order fs' \<and> lookup_dir fs' = lookup_dir fs
    \<and> (q = 0 \<and> lookup_file fs' = lookup_file fs \<and> files_of fs' = files_of fs
         \<and> make_error fs (name_entries 30 (length (cstr path))) path
             (lookup_dir fs path \<noteq> None \<or> lookup_file fs path \<noteq> None) (sfs_errno fs')
       \<or> q \<noteq> 0 \<and> files_of fs' = (files_of fs)(p := None, q \<mapsto> [])
         \<and> (\<forall>path'. lookup_file fs' path' = (if cstr path' = cstr path then Some q
              else if cstr path' = cstr old then None else lookup_file fs path')))"
proof -
  obtain ps where vol: "volume_ok fs ps" using assms(1) by (auto simp: in_order_def)
  have own: "owns fs ps p" "contents fs p = []" using assms(5) files_of_Some [OF vol, of p "[]"] by simp_all
  have "file_size (entry_at fs p) = 0" using length_contents [OF vol own(1)] own(2) by (simp add: word_unat_eq_iff)
  moreover have "needed fs 0 = 0" using block_size_bounds(1) [OF volume_okD(1) [OF vol]] by (simp add: needed_def)
  ultimately have "start_block (entry_at fs p) = 0"
    using volume_okD(6) [OF vol own(1)] ext_ok_bounds(6) [OF volume_okD(1) [OF vol]] by (fastforce simp: file_ok_def)
  note em = sfs_rename_empty [OF vol assms(2-4) this]
  show ?thesis
  proof (rule em)
    fix fs' assume h: "sfs_rename fs e p path = (0, fs')" "unchanged fs fs'"
      "make_error fs (name_entries 30 (length (cstr path))) path
         (lookup_dir fs path \<noteq> None \<or> lookup_file fs path \<noteq> None) (sfs_errno fs')"
    then show ?thesis
      using volume_unchanged(1) [OF vol h(2)] files_unchanged [OF vol h(2)] lookup_after [OF h(2)]
      by (intro exI [of _ 0] exI [of _ fs']) (auto simp: in_order_def)
  next
    fix q fs' assume "sfs_rename fs e p path = (q, fs')" "q \<noteq> 0" "volume_ok fs' ps" "lookup_dir fs' = lookup_dir fs"
      "\<forall>path'. lookup_file fs' path' = (if cstr path' = cstr path then Some q
         else if cstr path' = cstr old then None else lookup_file fs path')" "files_of fs' = (files_of fs)(p := None, q \<mapsto> [])"
    then show ?thesis by (intro exI [of _ q] exI [of _ fs']) (auto simp: in_order_def)
  qed
qed

lemma no_rename_error:
  assumes "free_run fs i 1" and "lookup_dir fs [0x7A] = None" and "lookup_file fs [0x7A] = None"
  shows "\<not> make_error fs (name_entries 30 (length (cstr [0x7A :: byte]))) [0x7A]
    (lookup_dir fs [0x7A] \<noteq> None \<or> lookup_file fs [0x7A] \<noteq> None) err"
proof -
  have "cstr [0x7A :: byte] = [0x7A]" by (simp add: cstr_def)
  moreover from this have "name_entries 30 (length (cstr [0x7A :: byte])) = 1" by (simp add: name_entries_def)
  ultimately show ?thesis
    using assms plain_path(2) [where path = "[0x7A]", simplified] by (auto simp: make_error_def is_correct_char_def)
qed

theorem rename_moves_an_empty_file_witness:
  "\<exists>fs1 p q fs'. sfs_creat hello_volume sample_buffer [0x63] = (0, fs1) \<and> lookup_file fs1 [0x63] = Some p
     \<and> sfs_rename fs1 sample_buffer p [0x7A] = (q, fs') \<and> in_order fs' \<and> q \<noteq> 0 \<and> lookup_file fs' [0x7A] = Some q
     \<and> lookup_file fs' [0x63] = None \<and> files_of fs' q = Some []"
proof -
  obtain fs1 where c: "sfs_creat hello_volume sample_buffer [0x63] = (0, fs1)"
    "created hello_volume FILE_ENTRY 34 [0x63] 5 1 fs1" by (rule creat_on_hello)
  note w = plain_path(1) [where path = "[0x63]", simplified] and w' = plain_path(1,3) [where path = "[0x7A]", simplified]
  obtain p where f: "volume_ok fs1 [576]" "lookup_file fs1 [0x63] = Some p" "files_of fs1 p = Some []" "lookup_file fs1 [0x7A] = None"
    by (rule sfs_creat_files [OF sample_volume_ok'(2) length_sample_buffer w c(1)]) (auto simp: sample_lookup cstr_def)
  have "{5 ..< 6 :: nat} = {5}" by auto
  then have "896 \<notin> run_slots hello_volume 5 1" by (simp add: run_slots_def)
  then have "entry_at fs1 896 = sample_unused" using c(2) by (simp add: created_def)
  moreover obtain at where "after hello_volume at (del_begin hello_volume) fs1" using c(2) by (auto simp: created_def)
  note s = after_sel [OF this]
  ultimately have free: "free_run fs1 6 1" using s(5,6) by (simp add: free_run_def unused_def)
  have "lookup_dir fs1 [0x7A] = None" using c(2) by (simp add: created_def sample_lookup cstr_def)
  note err = no_rename_error [OF free this f(4)]
  have "in_order fs1" using f(1) by (auto simp: in_order_def)
  from rename_moves_an_empty_file [OF this length_sample_buffer w'(1) f(2,3)]
  obtain q fs' where r: "sfs_rename fs1 sample_buffer p [0x7A] = (q, fs')" "in_order fs'" "q \<noteq> 0"
    "files_of fs' = (files_of fs1)(p := None, q \<mapsto> [])" "lookup_file fs' [0x7A] = Some q" "lookup_file fs' [0x63] = None"
    using err w'(2) by (auto simp: cstr_def)
  then show ?thesis using c(1) f(2) by (intro exI [of _ fs1] exI [of _ p] exI [of _ q] exI [of _ fs']) simp
qed

text \<open>C11: A file with blocks does not survive a rename. \<open>sfs_rename\<close> deletes the file, which adds its
  blocks to the free ones, and then writes an entry with these blocks under the new name, changing only
  the slots of that name. Unless one of these slots is by then an entry of the free list (which is
  overwritten), the list is in order and has the blocks of the file; in either case no list of free
  extents makes the volume one in order again.\<close>

theorem rename_frees_the_blocks:
  assumes "volume_ok fs ps" and "length e = 64" and "walkable fs path" and "lookup_file fs old = Some p"
    and "start_block (entry_at fs p) \<noteq> 0" and "sfs_rename fs e p path = (q, fs')" and "q \<noteq> 0"
  shows "(\<exists>fs0 fs1 ps1. unchanged fs fs0 \<and> sfs_delete fs0 e p = (0, fs1) \<and> volume_ok fs1 ps1
      \<and> blocks (entry_at fs1) ps1 = blocks (entry_at fs) ps \<union> file_ext (entry_at fs p)
      \<and> del_begin fs' = del_begin fs1 \<and> (\<forall>x. x \<notin> name_slots fs' q \<longrightarrow> entry_at fs' x = entry_at fs1 x)
      \<and> (set ps1 \<inter> name_slots fs' q = {} \<longrightarrow> free_ok fs' ps1
           \<and> blocks (entry_at fs') ps1 = blocks (entry_at fs) ps \<union> file_ext (entry_at fs p)))
    \<and> entry_type (entry_at fs' q) = entry_code FILE_ENTRY \<and> file_ext (entry_at fs' q) = file_ext (entry_at fs p)
    \<and> file_ext (entry_at fs p) \<noteq> {} \<and> \<not> in_order fs'"
proof -
  note own = lookup_owns [OF assms(1,4)]
  have "file_ext (entry_at fs p) \<noteq> {}"
    using file_ext_add(2) [OF volume_okD(6) [OF assms(1) own(1)] assms(5)] by (simp add: ext_ok_def)
  then show ?thesis
    using sfs_rename_blocks [OF assms(1) own(1) assms(2,3) own(2) assms(5-7)] by blast
qed

theorem rename_frees_the_blocks_witness:
  "\<exists>q fs'. sfs_rename hello_volume sample_buffer 704 [0x7A] = (q, fs') \<and> \<not> in_order fs' \<and> file_ext (entry_at fs' q) = {1}"
proof -
  note w = plain_path(1) [where path = "[0x7A]", simplified]
  have l: "lookup_file hello_volume [0x61, 0x62] = Some 704" "start_block (entry_at hello_volume 704) \<noteq> 0"
    by (simp_all add: sample_lookup cstr_def)
  note own = lookup_owns [OF sample_volume_ok'(2) l(1)]
  have err: "\<not> make_error hello_volume (name_entries 30 (length (cstr [0x7A :: byte]))) [0x7A]
      (lookup_dir hello_volume [0x7A] \<noteq> None \<or> lookup_file hello_volume [0x7A] \<noteq> None) x" for x
    by (rule no_rename_error [OF sample_free_runs(1)]) (simp_all add: sample_lookup cstr_def)
  obtain q fs' where r: "sfs_rename hello_volume sample_buffer 704 [0x7A] = (q, fs')" "q \<noteq> 0"
    by (rule sfs_rename_ok [OF sample_volume_ok'(2) own(1) length_sample_buffer w own(2)]) (use err in blast)+
  have "file_ext (entry_at hello_volume 704) = {1}" by (simp add: sample_file_ok(3))
  then show ?thesis
    using rename_frees_the_blocks [OF sample_volume_ok'(2) length_sample_buffer w l r] r(1) by auto
qed

section \<open>Truncating and deleting\<close>



text \<open>C12: \<open>sfs_truncate\<close> to a size that needs fewer blocks than the file has, but some, takes the number of bytes
  left over for a number of blocks. Where that number does not exceed the number of the last block, the
  blocks it leads to are not free already and the list of free extents can take them (an index slot is
  unused, or the block behind the file is free), it reports success, sets the size and keeps the first
  blocks of the file, and gives back that many blocks up to the old end, among them some that the file
  keeps: they are free and in the file, and the volume is not in order.\<close>

theorem shrinking_frees_kept_blocks:
  assumes "volume_ok fs ps" and "owns fs ps p" and "length e = 64" and "z \<noteq> 0" and "unat z < 2 ^ 63"
    and "needed fs z < card (file_ext (entry_at fs p))"
    and "(card (file_ext (entry_at fs p)) - needed fs z) * unat (block_size fs) \<le> unat (end_block (entry_at fs p))"
    and "{shrink_from fs (entry_at fs p) z .. unat (end_block (entry_at fs p))} \<inter> blocks (entry_at fs) ps = {}"
    and "(\<exists>i. unused fs i) \<or> Suc (unat (end_block (entry_at fs p))) \<in> blocks (entry_at fs) ps"
  shows "\<exists>fs' ps'. sfs_truncate fs e p z = (0, fs') \<and> file_size (entry_at fs' p) = z
    \<and> file_ext (entry_at fs' p) = {unat (start_block (entry_at fs p)) ..< unat (start_block (entry_at fs p)) + needed fs z}
    \<and> free_ok fs' ps' \<and> blocks (entry_at fs') ps' = blocks (entry_at fs) ps
         \<union> {shrink_from fs (entry_at fs p) z .. unat (end_block (entry_at fs p))}
    \<and> file_ext (entry_at fs' p) \<inter> blocks (entry_at fs') ps' \<noteq> {} \<and> \<not> in_order fs'"
  by (rule sfs_truncate_shrink [OF assms]) blast

text \<open>One of 70 blocks is left over: 64 bytes are taken for 64 blocks, and 7 to 70 are freed.\<close>

theorem shrinking_frees_kept_blocks_witness:
  "\<exists>fs' ps'. sfs_truncate big_volume sample_buffer 4800 4416 = (0, fs') \<and> file_ext (entry_at fs' 4800) = {1 ..< 70}
     \<and> blocks (entry_at fs') ps' = {71} \<union> {7 .. 70} \<and> \<not> in_order fs'"
proof -
  have c: "card (file_ext (entry_at big_volume 4800)) = 70" by (simp add: file_ext_def)
  have s: "shrink_from big_volume (entry_at big_volume 4800) 4416 = 7" using c by (simp add: shrink_from_def big_sel(5))
  have u: "\<exists>i. unused big_volume i" by (rule exI [of _ 4]) (simp add: unused_def)
  show ?thesis
    using shrinking_frees_kept_blocks [OF big_ok, of 4800 sample_buffer 4416] c s u by (auto simp: big_owns big_sel(5))
qed

text \<open>C18: \<open>sfs_delete\<close> of an unlinked file succeeds; afterwards the free blocks are those of before with
  the blocks of the file, the file is gone, and all other files and all names are as they were.\<close>

theorem delete_frees_the_file:
  assumes "volume_ok fs ps" and "owns fs ps p" and "length e = 64" and "entry_type (entry_at fs p) = entry_code DEL_FILE_ENTRY"
  shows "\<exists>fs' ps'. sfs_delete fs e p = (0, fs') \<and> volume_ok fs' ps'
    \<and> blocks (entry_at fs') ps' = blocks (entry_at fs) ps \<union> file_ext (entry_at fs p)
    \<and> files_of fs' = (files_of fs)(p := None) \<and> lookup_file fs' = lookup_file fs \<and> lookup_dir fs' = lookup_dir fs"
proof -
  have "unlinked fs p" using assms(1,2,4) by (auto simp: unlinked_def)
  moreover have "in_order fs" using assms(1) by (auto simp: in_order_def)
  ultimately have f: "files_of (snd (sfs_delete fs e p)) = (files_of fs)(p := None)"
    using volume.remove_law [of fs p e] assms(3) by (simp add: delete_file_def)
  show ?thesis
    by (rule sfs_delete_ok [OF assms(1,3,2,4)]) (use f in auto)
qed

lemma unlinked_hello:
  obtains fs1 where "sfs_unlink hello_volume sample_buffer [0x61, 0x62] = (704, fs1)" "volume_ok fs1 [576]" "owns fs1 [576] 704"
    "entry_type (entry_at fs1 704) = entry_code DEL_FILE_ENTRY" "file_ext (entry_at fs1 704) = {1}" "blocks (entry_at fs1) [576] = {2 .. 7}"
proof -
  obtain r fs1 where u: "sfs_unlink hello_volume sample_buffer [0x61, 0x62] = (r, fs1)" by (metis surj_pair)
  have path: "padded [0x61, 0x62]" by (simp add: padded_pure)
  have r: "r = 704 \<and> entry_at fs1 576 = entry_at hello_volume 576"
  proof (rule sfs_unlink_ok [of hello_volume sample_buffer "[0x61, 0x62]"])
    fix q fs' assume h: "sfs_unlink hello_volume sample_buffer [0x61, 0x62] = (q, fs')" "lookup_file hello_volume [0x61, 0x62] = Some q"
      "after hello_volume ((entry_at hello_volume)(q := set_entry_type (entry_code DEL_FILE_ENTRY) (entry_at hello_volume q)))
        (del_begin hello_volume) fs'"
    then show ?thesis using u after_sel(1) [OF h(3)] by (auto simp: sample_lookup cstr_id)
  qed (use path u in \<open>auto simp: sample_lookup cstr_id is_correct_filepath_def is_correct_char_def\<close>)
  note v = sfs_unlink_volume [OF sample_volume_ok'(2) length_sample_buffer path u]
  show ?thesis
    by (rule that [of fs1]) (use u v r in \<open>auto simp: sample_file_ok ext_def\<close>)
qed

theorem delete_frees_the_file_witness:
  "\<exists>fs1 fs' ps'. sfs_unlink hello_volume sample_buffer [0x61, 0x62] = (704, fs1) \<and> sfs_delete fs1 sample_buffer 704 = (0, fs')
     \<and> blocks (entry_at fs') ps' = {1 .. 7} \<and> files_of fs' 704 = None"
proof -
  obtain fs1 where u: "sfs_unlink hello_volume sample_buffer [0x61, 0x62] = (704, fs1)" "volume_ok fs1 [576]" "owns fs1 [576] 704"
    "entry_type (entry_at fs1 704) = entry_code DEL_FILE_ENTRY" "file_ext (entry_at fs1 704) = {1}" "blocks (entry_at fs1) [576] = {2 .. 7}"
    by (rule unlinked_hello)
  have "{2 .. 7} \<union> {1 :: nat} = {1 .. 7}" by auto
  then show ?thesis
    using delete_frees_the_file [OF u(2,3) length_sample_buffer u(4)] u by auto
qed

text \<open>The free blocks are the blocks of the volume that no file has.\<close>

lemma free_blocks_eq:
  assumes "volume_ok fs ps"
  shows "blocks (entry_at fs) ps = space fs ps - (\<Union>q \<in> {q. owns fs ps q}. file_ext (entry_at fs q))"
  using volume_okD(8) [OF assms] unfolding space_def by blast

lemma free_blocks_same:
  assumes "volume_ok fs ps" and "volume_ok fs' ps'" and "space fs' ps' = space fs ps"
    and own: "\<And>q. owns fs' ps' q = owns fs ps q"
    and ext: "\<And>q. owns fs ps q \<Longrightarrow> file_ext (entry_at fs' q) = file_ext (entry_at fs q)"
  shows "blocks (entry_at fs') ps' = blocks (entry_at fs) ps"
  unfolding free_blocks_eq [OF assms(1)] free_blocks_eq [OF assms(2)] assms(3) own using ext by auto

lemma write_keeps_space:
  assumes vol: "volume_ok fs ps" and "owns fs ps p" and "length e = 64" and "length data = unat sz"
    and "unat off \<le> unat (file_size (entry_at fs p))" and "unat off + unat sz < 2 ^ 63"
    and "needed fs (off + sz) \<le> card (file_ext (entry_at fs p)) \<or> start_block (entry_at fs p) = 0 \<or> (\<exists>i. unused fs i)"
    and "sfs_write fs e p data sz off = (r, fs')" and "volume_ok fs' ps'"
  shows "space fs' ps' = space fs ps" and "owns fs ps q \<Longrightarrow> q \<noteq> p \<Longrightarrow> entry_at fs' q = entry_at fs q"
proof -
  have "space fs' ps' = space fs ps \<and> (\<forall>q. owns fs ps q \<and> q \<noteq> p \<longrightarrow> entry_at fs' q = entry_at fs q)"
  proof (rule sfs_write_ok [OF assms(1-7)])
    fix gs assume h: "sfs_write fs e p data sz off = (-1, gs)" "unchanged fs gs"
    then have [simp]: "gs = fs'" using assms(8) by simp
    show ?thesis
      using volume_unchanged(1,2) [OF vol h(2)] volume_unique [OF _ assms(9)] after_sel(1) [OF h(2)] by auto
  next
    fix gs qs assume h: "sfs_write fs e p data sz off = (sz, gs)" "volume_ok gs qs" "space gs qs = space fs ps"
      "\<And>q. owns fs ps q \<Longrightarrow> q \<noteq> p \<Longrightarrow> owns gs qs q \<and> entry_at gs q = entry_at fs q \<and> contents gs q = contents fs q"
    then have "gs = fs'" "qs = ps'" using assms(8) volume_unique [OF _ assms(9)] by auto
    then show ?thesis using h by simp
  qed
  then show "space fs' ps' = space fs ps" "owns fs ps q \<Longrightarrow> q \<noteq> p \<Longrightarrow> entry_at fs' q = entry_at fs q" by simp_all
qed

lemma unlink_keeps_entries:
  assumes "dir_ok fs" and "length e = 64" and "padded path" and "sfs_unlink fs e path = (p, fs')" and "q \<noteq> p"
  shows "entry_at fs' q = entry_at fs q"
  by (rule sfs_unlink_ok [OF assms(1-3)]) (use assms(4,5) after_sel(1) in fastforce)+

text \<open>C10: The life of a file: created, it is empty; written from its start, it holds the bytes, unless
  the volume is full; unlinked, it is the same file without a name; deleted, it leaves the files, the
  names and the free blocks of the volume as they were before the creation.\<close>

theorem file_lifecycle:
  assumes vol: "volume_ok fs ps" and path: "0 \<notin> set path" "walkable fs path"
    and len: "length e1 = 64" "length e2 = 64" "length e3 = 64" "length e4 = 64" "length d < 2 ^ 63"
    and creat: "sfs_creat fs e1 path = (0, fs1)" "lookup_file fs1 path = Some p"
    and wrote: "sfs_write fs1 e2 p d (word_of_nat (length d)) 0 = (n, fs2)"
    and unlink: "sfs_unlink fs2 e3 path = (q, fs3)" "q \<noteq> 0" and delete: "sfs_delete fs3 e4 q = (r, fs4)"
  shows "q = p \<and> files_of fs1 p = Some [] \<and> files_of fs2 p = Some (if n = -1 then [] else d) \<and> files_of fs3 = files_of fs2
    \<and> files_of fs4 = files_of fs \<and> (\<forall>path'. 0 \<notin> set path' \<longrightarrow> lookup_file fs4 path' = lookup_file fs path')
    \<and> (\<exists>ps4. volume_ok fs4 ps4 \<and> blocks (entry_at fs4) ps4 = blocks (entry_at fs) ps)"
proof (rule sfs_creat_files [OF vol len(1) path(2) creat(1)])
  fix x assume v1: "volume_ok fs1 ps" and none: "lookup_file fs path = None" and "files_of fs x = None"
    and l: "\<forall>path'. lookup_file fs1 path' = (if cstr path' = cstr path then Some x else lookup_file fs path')"
    and f: "files_of fs1 = (files_of fs)(x \<mapsto> [])" and "start_block (entry_at fs1 x) = 0"
    and kept: "\<And>q. files_of fs q \<noteq> None \<Longrightarrow> entry_at fs1 q = entry_at fs q"
  moreover from this have [simp]: "x = p" using creat(2) by simp
  ultimately have z: "start_block (entry_at fs1 p) = 0" and new: "files_of fs p = None" by simp_all
  have own: "owns fs1 ps p" and c: "contents fs1 p = []" using f files_of_Some [OF v1, of p "[]"] by simp_all
  have pad: "padded path" using path(2) by (simp add: walkable_def)
  have nd: "unat (word_of_nat (length d) :: u64) = length d" by (rule unat_small [OF len(5)])
  have w: "in_order fs2 \<and> lookup_file fs2 = lookup_file fs1 \<and> files_of fs2 = (files_of fs)(p \<mapsto> (if n = -1 then [] else d))"
  proof (rule sfs_write_files [OF v1 own len(2) nd [symmetric], of 0])
    fix gs assume h: "sfs_write fs1 e2 p d (word_of_nat (length d)) 0 = (-1, gs)" "unchanged fs1 gs"
    show ?thesis
      using h wrote f volume_unchanged(1) [OF v1 h(2)] files_unchanged [OF v1 h(2)] lookup_after [OF h(2)]
      by (auto simp: in_order_def)
  next
    fix gs assume h: "sfs_write fs1 e2 p d (word_of_nat (length d)) 0 = (word_of_nat (length d), gs)" "in_order gs"
      "files_of gs = (files_of fs1)(p \<mapsto> patch (unat (0 :: u64)) d (contents fs1 p))" "lookup_file gs = lookup_file fs1"
    moreover have "(word_of_nat (length d) :: u64) \<noteq> -1" using nd len(5) by (intro small_not_error) simp
    ultimately show ?thesis using wrote f c by (simp add: patch_def)
  qed (use z nd len(5) in simp_all)
  obtain ps2 where v2: "volume_ok fs2 ps2" using w by (auto simp: in_order_def)
  note u = sfs_unlink_files [OF v2 len(3) pad unlink]
  have [simp]: "q = p" using u(2) w l by simp
  have d: "fs4 = delete_file e4 p fs3" using delete by (simp add: delete_file_def)
  have "in_order fs3" using u(1) by (auto simp: in_order_def)
  then have f4: "files_of fs4 = (files_of fs3)(p := None)"
    using volume.remove_law u(3) len(4) unfolding d by simp
  obtain ps3 where v3: "volume_ok fs3 ps3" "owns fs3 ps3 p" "entry_type (entry_at fs3 p) = entry_code DEL_FILE_ENTRY"
    using u(3) by (auto simp: unlinked_def)
  have "lookup_file fs4 = lookup_file fs3"
    by (rule sfs_delete_ok [OF v3(1) len(4) v3(2,3)]) (use delete in simp)
  then have "lookup_file fs4 path' = lookup_file fs path'" if "0 \<notin> set path'" for path'
    using u(5) w l none that path(1) by (simp add: cstr_id)
  moreover have "files_of fs4 = files_of fs" using f4 u(4) w new by (auto simp: fun_eq_iff)
  moreover have "\<exists>ps4. volume_ok fs4 ps4 \<and> blocks (entry_at fs4) ps4 = blocks (entry_at fs) ps"
  proof (rule sfs_delete_ok [OF v3(1) len(4) v3(2,3)])
    fix gs ps4 assume h: "sfs_delete fs3 e4 p = (0, gs)" "volume_ok gs ps4" "space gs ps4 = space fs3 ps3"
      "\<And>q. owns fs3 ps3 q \<Longrightarrow> q \<noteq> p \<Longrightarrow> owns gs ps4 q \<and> entry_at gs q = entry_at fs3 q"
    have [simp]: "gs = fs4" using delete h(1) by simp
    have v4: "volume_ok fs4 ps4" using h(2) by simp
    have [simp]: "ps3 = ps2" using volume_unique [OF v3(1) u(1)] .
    have own4: "owns fs4 ps4 x = owns fs ps x" for x
      using fun_cong [OF \<open>files_of fs4 = files_of fs\<close>, of x] by (simp add: files_of_eq [OF vol] files_of_eq [OF v4] split: if_splits)
    have s2: "needed fs1 (0 + word_of_nat (length d)) \<le> card (file_ext (entry_at fs1 p)) \<or> start_block (entry_at fs1 p) = 0 \<or> (\<exists>i. unused fs1 i)"
      "unat (0 :: u64) \<le> unat (file_size (entry_at fs1 p))" "unat (0 :: u64) + unat (word_of_nat (length d) :: u64) < 2 ^ 63"
      using z nd len(5) by simp_all
    note ws = write_keeps_space [OF v1 own len(2) nd [symmetric] s2(2,3,1) wrote v2]
    have "space fs1 ps = space fs ps" using sfs_creat_volume [OF vol len(1) path(2) creat(1)] by simp
    then have sp: "space fs4 ps4 = space fs ps"
      using ws(1) h(3) sfs_unlink_volume(2) [OF v2 len(3) pad unlink(1)] by simp
    have "file_ext (entry_at fs4 x) = file_ext (entry_at fs x)" if x: "owns fs ps x" for x
    proof -
      have "files_of fs x \<noteq> None" "x \<noteq> p" using x new by (auto simp: files_of_eq [OF vol])
      then have e: "entry_at fs1 x = entry_at fs x" and o: "owns fs1 ps x"
        using kept f by (auto simp: files_of_eq [OF v1] files_of_eq [OF vol] fun_upd_def fun_eq_iff split: if_splits)
      have "entry_at fs2 x = entry_at fs1 x" by (rule ws(2) [OF o \<open>x \<noteq> p\<close>])
      moreover have "entry_at fs3 x = entry_at fs2 x"
        using unlink_keeps_entries [OF volume_okD(2) [OF v2] len(3) pad unlink(1), of x] \<open>x \<noteq> p\<close> by simp
      moreover have "owns fs3 ps3 x"
        using fun_cong [OF f4, of x] fun_cong [OF \<open>files_of fs4 = files_of fs\<close>, of x] x \<open>x \<noteq> p\<close>
        by (simp add: files_of_eq [OF vol] files_of_eq [OF v3(1)] split: if_splits)
      then have "entry_at fs4 x = entry_at fs3 x" using h(4) [OF _ \<open>x \<noteq> p\<close>] by simp
      ultimately show ?thesis using e by simp
    qed
    then show ?thesis using free_blocks_same [OF vol v4 sp own4] v4 by blast
  qed
  ultimately show ?thesis using f u(4) w by simp
qed

theorem file_lifecycle_witness:
  "\<exists>fs1 p n fs2 q fs3 r fs4. sfs_creat hello_volume sample_buffer [0x63] = (0, fs1)
     \<and> sfs_write fs1 sample_buffer p [0x58] 1 0 = (n, fs2) \<and> sfs_unlink fs2 sample_buffer [0x63] = (q, fs3)
     \<and> sfs_delete fs3 sample_buffer q = (r, fs4) \<and> files_of fs1 p = Some [] \<and> files_of fs4 = files_of hello_volume"
proof -
  obtain fs1 where c: "sfs_creat hello_volume sample_buffer [0x63] = (0, fs1)" by (rule creat_on_hello)
  note p = plain_path [where path = "[0x63]", simplified]
  obtain x where x: "volume_ok fs1 [576]" "lookup_file fs1 [0x63] = Some x" "owns fs1 [576] x" "start_block (entry_at fs1 x) = 0"
  proof (rule sfs_creat_files [OF sample_volume_ok'(2) length_sample_buffer p(1) c])
    fix y assume h: "volume_ok fs1 [576]" "start_block (entry_at fs1 y) = 0" "files_of fs1 = (files_of hello_volume)(y \<mapsto> [])"
      "\<forall>path'. lookup_file fs1 path' = (if cstr path' = cstr [0x63] then Some y else lookup_file hello_volume path')"
    then show thesis using that [of y] files_of_Some [OF h(1), of y "[]"] by simp
  qed
  obtain n fs2 where w: "sfs_write fs1 sample_buffer x [0x58] 1 0 = (n, fs2)" by (metis surj_pair)
  have w2: "in_order fs2 \<and> lookup_file fs2 = lookup_file fs1"
    by (rule sfs_write_files [OF x(1,3) length_sample_buffer, of "[0x58]" 1 0])
      (use w x(4) volume_unchanged(1) [OF x(1)] lookup_after in \<open>auto simp: in_order_def\<close>)
  then obtain ps2 where v2: "volume_ok fs2 ps2" by (auto simp: in_order_def)
  obtain q fs3 where u: "sfs_unlink fs2 sample_buffer [0x63] = (q, fs3)" by (metis surj_pair)
  have "is_correct_filepath [0x63] = 0" by (simp add: is_correct_filepath_def is_correct_char_def)
  then have "q \<noteq> 0" using u w2 x(2) lookup_Some(2) [OF volume_okD(1) [OF x(1)] x(2)]
    by - (rule sfs_unlink_ok [OF volume_okD(2) [OF v2], of sample_buffer "[0x63]"], simp_all add: padded_pure)
  moreover obtain r fs4 where d: "sfs_delete fs3 sample_buffer q = (r, fs4)" by (metis surj_pair)
  ultimately have "q = x \<and> files_of fs1 x = Some [] \<and> files_of fs4 = files_of hello_volume"
    using file_lifecycle [OF sample_volume_ok'(2) _ p(1) _ _ _ _ _ c x(2) _ u _ d, of sample_buffer "[0x58]" n] w by simp
  then show ?thesis using w c u d by blast
qed

end
