(* ===== verification/Mount.thy ===== *)
theory Mount
  imports DirOps
begin

text \<open>
  Mounting: src/lib/sfs/sfs_init.c, which reads the boot block and finds the index and the list of
  free extents, and src/lib/sfs/fixfs.c, which turns the files that were unlinked but not deleted
  back into files.
\<close>

section \<open>Reading the boot block\<close>

definition search_begin :: "unit callback" where
  "search_begin fs entr entry_off data =
     (if entry_type entr \<noteq> entry_code DEL_FILE_ENTRY then (0, entr, fs, data)
      else if PREV_DEL entr = 0 then (1, entr, fs, data)
      else (0, entr, fs, data))"

text \<open>\<open>read_data\<close> of \<open>n\<close> bytes into a zero-initialised local: \<open>None\<close> if it fails.\<close>

definition read_local :: "fs \<Rightarrow> u64 \<Rightarrow> nat \<Rightarrow> bytes option \<times> fs" where
  "read_local fs off n =
     (case read_data fs off (replicate n 0) (word_of_nat n) of
        (r, data, fs) \<Rightarrow> (if r = -1 then None else Some data, fs))"

text \<open>The eight reads of the boot block, in the order of the code.\<close>

primrec read_fields :: "(u64 \<times> nat) list \<Rightarrow> fs \<Rightarrow> bytes list option \<times> fs" where
  "read_fields [] fs = (Some [], fs)"
| "read_fields (f # fs_list) fs =
     (case read_local fs (fst f) (snd f) of
        (None, fs) \<Rightarrow> (None, fs)
      | (Some data, fs) \<Rightarrow>
          (case read_fields fs_list fs of (r, fs) \<Rightarrow> (map_option ((#) data) r, fs)))"

definition mbr_field_list :: "(u64 \<times> nat) list" where
  "mbr_field_list = [(412, 8), (420, 8), (440, 4), (428, 3), (431, 1), (445, 1), (432, 8), (444, 1)]"

text \<open>\<open>fs\<close> is the device with the \<open>sfs_unit\<close> fields as the caller allocated them.\<close>

definition sfs_init :: "fs \<Rightarrow> entry \<Rightarrow> int \<times> fs" where
  "sfs_init fs entr =
     (let fs = SET_ERRNO EIO fs in
      (case read_fields mbr_field_list fs of
        (None, fs) \<Rightarrow> (-1, fs)
      | (Some vals, fs) \<Rightarrow>
          let data_area_size = u64_of_bytes (vals ! 0);
              index_area_size = u64_of_bytes (vals ! 1);
              reserved_size = u32_of_bytes (vals ! 2);
              magic_number = vals ! 3;
              sfs_v = cs_at (vals ! 4) 0;
              checksum = cs_at (vals ! 5) 0;
              total_size = u64_of_bytes (vals ! 6);
              b_size_p2 = cs_at (vals ! 7) 0;
              fs = SET_ERRNO 0 fs
          in
          if checksum \<noteq> calc_checksum magic_number sfs_v total_size reserved_size b_size_p2 then
            (-1, SET_ERRNO EINVAL fs)
          else
            let bs = push_bit (unat b_size_p2) 128 :: u64;
                reserved_size = ucast (ucast reserved_size * bs) :: u32;
                data_area_size = data_area_size * bs;
                fs = fs\<lparr>entry_start := ucast reserved_size + data_area_size\<rparr>;
                fs = fs\<lparr>vol_ident := entry_start fs + index_area_size - INDEX_ENTRY_SIZE\<rparr>
            in
            (case read_local fs (entry_start fs + 2 * INDEX_ENTRY_SIZE) 1 of
              (None, fs) \<Rightarrow> (-1, SET_ERRNO EINVAL fs)
            | (Some z, fs) \<Rightarrow>
                if cs_at z 0 \<noteq> entry_code DIR_ENTRY then (-1, SET_ERRNO EINVAL fs)
                else
                (case entry_parse fs entr search_begin () of (b, entr, fs, _) \<Rightarrow>
                  let fs = fs\<lparr>del_begin := b\<rparr> in
                  (case read_local fs (entry_start fs + 2 * INDEX_ENTRY_SIZE + 10) 1 of
                    (None, fs) \<Rightarrow> (-1, SET_ERRNO EINVAL fs)
                  | (Some z, fs) \<Rightarrow>
                      if cs_at z 0 \<noteq> 0 then (-1, SET_ERRNO EINVAL fs)
                      else
                      (case read_data fs (4 + vol_ident fs) (u64_to_bytes (fs_time fs)) 8 of
                        (r, t, fs) \<Rightarrow>
                          let fs = fs\<lparr>fs_time := u64_of_bytes t\<rparr> in
                          if r = -1 then (-1, SET_ERRNO EIO fs)
                          else
                          (case write_data fs (4 + vol_ident fs) (u64_to_bytes 0) 8 of
                            (r, fs) \<Rightarrow>
                              if r = -1 then (-1, SET_ERRNO EIO fs)
                              else (case fs_sync fs of (_, fs) \<Rightarrow> (0, SET_ERRNO 0 fs)))))))))"

section \<open>Files unlinked and not deleted\<close>

definition str_free :: bytes where "str_free = [0x66, 0x72, 0x65, 0x65]"

definition fix_del_file :: "unit callback" where
  "fix_del_file fs entr entry_off data =
     (if entry_type entr = entry_code DEL_FILE_ENTRY then
        (if strcmp (drop 34 entr) str_free \<noteq> 0 \<and> strcmp (drop 34 entr) free_label \<noteq> 0 then
           let entr = set_entry_type (entry_code FILE_ENTRY) entr in
           (case write_entry fs entry_off entr of (_, fs) \<Rightarrow> (0, entr, fs, data))
         else (0, entr, fs, data))
      else (0, entr, fs, data))"

definition fix_non_del_file :: "fs \<Rightarrow> entry \<Rightarrow> int \<times> entry \<times> fs" where
  "fix_non_del_file fs entr =
     (case entry_parse fs entr fix_del_file () of (_, entr, fs, _) \<Rightarrow> (0, entr, fs))"

end
