(* ===== verification/Mksfs.thy ===== *)
theory Mksfs
  imports Mount
begin

text \<open>
  Making a volume: src/mksfs/main.c, from the image size and the options to the layout, and
  src/lib/mksfs.c, which writes the boot block and the first index entries.
\<close>

section \<open>Options\<close>

text \<open>\<open>sscanf(parameter, "%lu%c%c", &number, &last_sym, &err_c)\<close>: white space, a sign, digits, and
  the two characters after them. The result is the return code, \<open>-1\<close> for \<open>EOF\<close>; a number out
  of range reads as \<open>ULONG_MAX\<close> and sets \<open>errno\<close> to \<open>ERANGE\<close>, which the program does not test.\<close>

definition is_digit :: "byte \<Rightarrow> bool" where
  "is_digit b \<longleftrightarrow> 0x30 \<le> b \<and> b \<le> 0x39"

definition is_space :: "byte \<Rightarrow> bool" where
  "is_space b \<longleftrightarrow> b = 0x20 \<or> (0x09 \<le> b \<and> b \<le> 0x0D)"

definition digits_value :: "bytes \<Rightarrow> nat" where
  "digits_value ds = foldl (\<lambda>n b. 10 * n + unat (b - 0x30)) 0 ds"

definition sscanf_size :: "bytes \<Rightarrow> int \<times> u64 \<times> byte \<times> byte" where
  "sscanf_size parameter =
     (let s = dropWhile is_space (cstr parameter);
          minus = (hd0 s = 0x2D);
          t = (if minus \<or> hd0 s = 0x2B then tl s else s);
          ds = takeWhile is_digit t;
          r = dropWhile is_digit t;
          v = digits_value ds;
          number = (if v < 2 ^ 64 then (if minus then - word_of_nat v else word_of_nat v) else -1)
      in
      if s = [] then (-1, 0, 0, 0)
      else if ds = [] then (0, 0, 0, 0)
      else (case r of
              [] \<Rightarrow> (1, number, 0, 0)
            | [a] \<Rightarrow> (2, number, a, 0)
            | a # b # _ \<Rightarrow> (3, number, a, b)))"

text \<open>The result is the size and whether \<open>errno\<close> is \<open>EINVAL\<close>.\<close>

definition convert_size :: "bytes \<Rightarrow> u64 \<Rightarrow> u64 \<times> bool" where
  "convert_size parameter file_s =
     (case sscanf_size parameter of
        (ret_code, number, last_sym, err_c) \<Rightarrow>
          if err_c \<noteq> 0 \<or> ret_code = 0 \<or> sint number < 0 then (-1, True)
          else if last_sym = 0x25 then
            (if file_s \<noteq> 0 then (word_of_int (sint (file_s * number) sdiv 100), False) else (-1, True))
          else if last_sym = 0x42 \<or> last_sym = 0x62 \<or> last_sym = 0 then (number, False)
          else if last_sym = 0x4B \<or> last_sym = 0x6B then (1024 * number, False)
          else if last_sym = 0x4D \<or> last_sym = 0x6D then (1024 * 1024 * number, False)
          else if last_sym = 0x47 \<or> last_sym = 0x67 then (1024 * 1024 * 1024 * number, False)
          else (-1, True))"

text \<open>\<open>while (divisor > 0 && divisor != block_size) divisor <<= 1\<close> from 256: the 56th shift makes
  \<open>divisor\<close> negative, so 64 steps of \<open>k\<close> are enough.\<close>

primrec divisor_loop :: "nat \<Rightarrow> u64 \<Rightarrow> u64 \<Rightarrow> u64" where
  "divisor_loop 0 divisor bs = divisor"
| "divisor_loop (Suc k) divisor bs =
     (if sint divisor > 0 \<and> divisor \<noteq> bs then divisor_loop k (push_bit 1 divisor) bs else divisor)"

fun log2_nat :: "nat \<Rightarrow> nat" where
  "log2_nat n = (if n < 2 then 0 else Suc (log2_nat (n div 2)))"

declare log2_nat.simps [simp del]

record sfs_options =
  opt_time_stamp :: u64
  opt_data_size :: u64
  opt_index_size :: u64
  opt_total_block :: u64
  opt_reserved_size :: u64
  opt_block_size :: u64
  opt_label :: bytes
  opt_file_name :: bytes

datatype mksfs_error =
  ImageTooSmall | InvalidBlockSize | NotPowerOfTwo | BlockLargerThanImage | BlockNotDivisor
| InvalidMetadata | MetadataTooLarge | MetadataTooSmall | LabelTooLong | UnsupportedSymbol

text \<open>\<open>char\<close> is signed: a byte from 0x80 on is negative, hence less than 0x20.\<close>

definition label_char_bad :: "byte \<Rightarrow> bool" where
  "label_char_bad c \<longleftrightarrow> sint c < 0x20 \<or> (sint c \<ge> 0x80 \<and> sint c \<le> 0x9F)
     \<or> c = 0x22 \<or> c = 0x2A \<or> c = 0x3A \<or> c = 0x3C \<or> c = 0x3E \<or> c = 0x3F \<or> c = 0x5C \<or> c = 0x7F
     \<or> sint c = 0xA0"

definition choose_block_size :: "bytes option \<Rightarrow> mksfs_error + u64" where
  "choose_block_size block_size_s =
     (case block_size_s of
        None \<Rightarrow> Inr 512
      | Some s \<Rightarrow>
          (case convert_size s 0 of
             (bs, einval) \<Rightarrow>
               if bs \<le> 256 div 2 \<or> einval then Inl InvalidBlockSize
               else if sint (divisor_loop 64 256 bs) < 0 then Inl NotPowerOfTwo
               else Inr bs))"

text \<open>\<open>round(DEFAULT_INDEX_PERCENT * file_size / 100L)\<close> is the rounding of an integer.\<close>

definition raw_index_size :: "bytes option \<Rightarrow> u64 \<Rightarrow> mksfs_error + u64" where
  "raw_index_size index_size_s fsize =
     (case index_size_s of
        None \<Rightarrow> let i = 5 * fsize div 100 in
                 Inr (if i > 10 * 1024 * 1024 then 10 * 1024 * 1024 else i)
      | Some s \<Rightarrow>
          (case convert_size s fsize of
             (i, einval) \<Rightarrow> if i = 0 \<or> einval then Inl InvalidMetadata else Inr i))"

definition choose_index_size :: "bytes option \<Rightarrow> u64 \<Rightarrow> u64 \<Rightarrow> u64 \<Rightarrow> mksfs_error + u64" where
  "choose_index_size index_size_s fsize bs rsrvd_size =
     (case raw_index_size index_size_s fsize of
        Inl err \<Rightarrow> Inl err
      | Inr i \<Rightarrow>
          let i = (if i mod bs \<noteq> 0 then i + (bs - i mod bs) else i) in
          if i > fsize - rsrvd_size then Inl MetadataTooLarge
          else if i < 2 * 64 then Inl MetadataTooSmall
          else Inr i)"

definition mksfs_options :: "u64 \<Rightarrow> u64 \<Rightarrow> bytes option \<Rightarrow> bytes option \<Rightarrow> bytes option \<Rightarrow> bytes
    \<Rightarrow> mksfs_error + sfs_options" where
  "mksfs_options now fsize index_size_s block_size_s label file_name =
     (if fsize < 512 + 2 * 64 then Inl ImageTooSmall
      else
      (case choose_block_size block_size_s of
         Inl err \<Rightarrow> Inl err
       | Inr bs \<Rightarrow>
           if bs > fsize then Inl BlockLargerThanImage
           else if fsize mod bs \<noteq> 0 then Inl BlockNotDivisor
           else
             let rsrvd_size = (if bs \<le> 512 then 512 else bs) in
             (case choose_index_size index_size_s fsize bs rsrvd_size of
                Inl err \<Rightarrow> Inl err
              | Inr idx_size \<Rightarrow>
                  let lbl = (case label of None \<Rightarrow> [] | Some l \<Rightarrow> cstr l) in
                  if length lbl \<ge> 52 then Inl LabelTooLong
                  else if \<exists>c \<in> set lbl. label_char_bad c then Inl UnsupportedSymbol
                  else
                    let total_blocks = fsize div bs;
                        rsrvd_size = rsrvd_size div bs;
                        index_sz_perblk = (if idx_size mod bs = 0 then idx_size div bs
                                           else idx_size div bs + 1)
                    in Inr \<lparr>opt_time_stamp = now,
                            opt_data_size = total_blocks - rsrvd_size - index_sz_perblk,
                            opt_index_size = idx_size, opt_total_block = total_blocks,
                            opt_reserved_size = rsrvd_size,
                            opt_block_size = word_of_nat (log2_nat (unat bs)) - 7,
                            opt_label = lbl @ [0], opt_file_name = file_name\<rparr>)))"

section \<open>Writing the image\<close>

definition mbr_block :: "sfs_options \<Rightarrow> mbr_t" where
  "mbr_block opts =
     (let m = \<lparr>mb_reserved_boot_code = replicate 404 0, mb_time_stamp = opt_time_stamp opts,
               mb_data_area_size = opt_data_size opts, mb_index_area_size = opt_index_size opts,
               mb_magic_number = [0x53, 0x46, 0x53], mb_sfs_version = 0,
               mb_total_size = opt_total_block opts, mb_reserved_size = ucast (opt_reserved_size opts),
               mb_block_size = ucast (opt_block_size opts), mb_checksum = 0,
               mb_reserved_part_table = replicate 66 0\<rparr>
      in m\<lparr>mb_checksum := sum_list (seg 428 17 (mbr_bytes m))\<rparr>)"

definition vol_entry :: "sfs_options \<Rightarrow> vol_ident_entry" where
  "vol_entry opts =
     \<lparr>ve_entry_type = entry_code VOL_IDENT, ve_reserved = replicate 3 0,
      ve_time_stamp = opt_time_stamp opts,
      ve_vol_label = mem_put 0 (cstr (opt_label opts)) (replicate 52 0)\<rparr>"

definition st_entry :: start_entry where
  "st_entry = \<lparr>se_entry_type = entry_code START_ENTRY, se_del_start = 0, se_reserved = replicate 55 0\<rparr>"

text \<open>\<open>mbr_block.reserved_size\<close> and \<open>mbr_block.data_area_size\<close> are what the struct holds: the first
  has 32 bits.\<close>

definition del_entry :: "sfs_options \<Rightarrow> file_entry" where
  "del_entry opts =
     (let rs = ucast (mb_reserved_size (mbr_block opts)) in
      \<lparr>fe_entry_type = entry_code DEL_FILE_ENTRY, fe_cont_entries = 0, fe_time_stamp = 0,
       fe_start_block = rs, fe_end_block = rs + mb_data_area_size (mbr_block opts) - 1, fe_size = 0,
       fe_name = strncpy (replicate 30 0) free_label 29\<rparr>)"

definition zero_dir :: dir_entry where
  "zero_dir = \<lparr>de_entry_type = entry_code DIR_ENTRY, de_cont_entries = 0, de_time_stamp = 0,
               de_dir_name = replicate 54 0\<rparr>"

definition remain_area :: unused_entry where
  "remain_area = \<lparr>ue_entry_type = entry_code UNUSED_ENTRY, ue_reserved = replicate 63 0\<rparr>"

text \<open>\<open>for (i = ...; i < g_offset_vol; i += INDEX_ENTRY_SIZE)\<close>; where the addition wraps the loop
  ends.\<close>

function fill_unused :: "blockdev \<Rightarrow> u64 \<Rightarrow> u64 \<Rightarrow> bool \<times> blockdev" where
  "fill_unused d i g_offset_vol =
     (if i < g_offset_vol then
        (case write_data d i (unused_entry_bytes remain_area) INDEX_ENTRY_SIZE of
           (r, d) \<Rightarrow>
             if r = -1 then (False, d)
             else if i + INDEX_ENTRY_SIZE < i then (True, d)
             else fill_unused d (i + INDEX_ENTRY_SIZE) g_offset_vol)
      else (True, d))"
  by pat_completeness auto
termination fill_unused
  by (relation "measure (\<lambda>(d, i, g). 2 ^ 64 - unat i)") (auto dest: unat_step_measure)

declare fill_unused.simps [simp del]

primrec write_all :: "(u64 \<times> bytes) list \<Rightarrow> blockdev \<Rightarrow> bool \<times> blockdev" where
  "write_all [] d = (True, d)"
| "write_all (w # ws) d =
     (case write_data d (fst w) (snd w) (word_of_nat (length (snd w))) of
        (r, d) \<Rightarrow> if r = -1 then (False, d) else write_all ws d)"

text \<open>\<open>d\<close> has the world the program runs in; the fields of the device are overwritten. \<open>open_fd\<close> and
  \<open>mem\<close> are what \<open>open\<close> and \<open>malloc\<close> return. What the routine prints first is \<open>volume_info\<close> of \<open>MksfsMain\<close>.\<close>

definition image_create :: "sfs_options \<Rightarrow> int \<Rightarrow> bytes option \<Rightarrow> blockdev \<Rightarrow> int \<times> blockdev" where
  "image_create opts open_fd mem d =
     (let bs = word_of_nat (2 ^ unat (opt_block_size opts + 7)) :: u64;
          g_offset_start = opt_total_block opts * bs - opt_index_size opts;
          g_offset_vol = opt_total_block opts * bs - INDEX_ENTRY_SIZE;
          d = d\<lparr>fd := -1\<rparr>
      in
      (case filedev_create (Some d) bs (opt_total_block opts * bs) of
         (_, None) \<Rightarrow> (-1, d)
       | (_, Some d) \<Rightarrow>
           let d = d\<lparr>fd_filename := Some (opt_file_name opts)\<rparr> in
           (case filedev_init open_fd mem d of
              (r, d) \<Rightarrow>
                if r \<noteq> 0 then (-1, d)
                else
                  (case write_all
                     [(0, mbr_bytes (mbr_block opts)),
                      (g_offset_vol, vol_ident_bytes (vol_entry opts)),
                      (g_offset_start, start_entry_bytes st_entry),
                      (g_offset_start + 64, file_entry_bytes (del_entry opts)),
                      (g_offset_start + 128, dir_entry_bytes zero_dir)] d of
                     (ok, d) \<Rightarrow>
                       if \<not> ok then (-1, d)
                       else
                         (case fill_unused d (g_offset_start + 192) g_offset_vol of
                            (ok, d) \<Rightarrow>
                              if \<not> ok then (-1, d)
                              else (case filedev_release d of (_, d) \<Rightarrow> (0, d)))))))"

end
