(* ===== verification/InodeMap.thy ===== *)
theory InodeMap
  imports Prelude
begin

text \<open>
  src/fuse/inode.c and src/include/fuse/inode.h: the table that gives the offset of an entry (the
  physical inode, which a rename changes) a stable number (the virtual inode), with a lock for the
  table and one for each number.
\<close>

section \<open>Locks\<close>

text \<open>A \<open>pthread_rwlock_t\<close>: memory that is no lock, a free lock, one held by so many readers or by a writer.
  The result \<open>None\<close> stands for a call that does not return while the lock is held, or that is not defined
  for what the memory holds. \<open>pthread_rwlock_init\<close> returns 0 or the number of an error.\<close>

datatype rwlock = NO_LOCK | UNLOCKED | RD_LOCKED nat | WR_LOCKED

definition rwlock_init :: "int \<Rightarrow> rwlock \<Rightarrow> int \<times> rwlock" where
  "rwlock_init ret l = (ret, if ret = 0 then UNLOCKED else l)"

fun rwlock_rdlock :: "rwlock \<Rightarrow> rwlock option" where
  "rwlock_rdlock UNLOCKED = Some (RD_LOCKED 1)"
| "rwlock_rdlock (RD_LOCKED n) = Some (RD_LOCKED (Suc n))"
| "rwlock_rdlock _ = None"

fun rwlock_wrlock :: "rwlock \<Rightarrow> rwlock option" where
  "rwlock_wrlock UNLOCKED = Some WR_LOCKED"
| "rwlock_wrlock _ = None"

fun rwlock_unlock :: "rwlock \<Rightarrow> rwlock option" where
  "rwlock_unlock WR_LOCKED = Some UNLOCKED"
| "rwlock_unlock (RD_LOCKED n) = Some (if n \<le> 1 then UNLOCKED else RD_LOCKED (n - 1))"
| "rwlock_unlock _ = None"

fun rwlock_destroy :: "rwlock \<Rightarrow> rwlock option" where
  "rwlock_destroy UNLOCKED = Some NO_LOCK"
| "rwlock_destroy _ = None"

section \<open>The table\<close>

record file_t =
  f_pino :: u64
  f_dirty :: int
  f_openbit :: int
  f_lock :: rwlock

record inode_map =
  max_vino :: u64
  c_size :: u64
  map_lock :: rwlock
  inode_table :: "file_t list"

text \<open>An update of a cell. A number beyond the table changes nothing here, where C would write outside the
  table; the handlers pass on the numbers they got from the table or from FUSE, and the properties are
  about these.\<close>

definition upd_cell :: "u64 \<Rightarrow> (file_t \<Rightarrow> file_t) \<Rightarrow> inode_map \<Rightarrow> inode_map" where
  "upd_cell vino f m =
     m\<lparr>inode_table := (inode_table m)[unat vino := f (inode_table m ! unat vino)]\<rparr>"

definition inode_lock_init :: "int \<Rightarrow> u64 \<Rightarrow> inode_map \<Rightarrow> int \<times> inode_map" where
  "inode_lock_init ret vino m =
     (case rwlock_init ret (f_lock (inode_table m ! unat vino)) of (r, l) \<Rightarrow> (r, upd_cell vino (f_lock_update (\<lambda>_. l)) m))"

definition inode_lock_destroy :: "u64 \<Rightarrow> inode_map \<Rightarrow> inode_map option" where
  "inode_lock_destroy vino m =
     map_option (\<lambda>l. upd_cell vino (f_lock_update (\<lambda>_. l)) m) (rwlock_destroy (f_lock (inode_table m ! unat vino)))"

definition inode_map_lock_init :: "int \<Rightarrow> inode_map \<Rightarrow> int \<times> inode_map" where
  "inode_map_lock_init ret m = (case rwlock_init ret (map_lock m) of (r, l) \<Rightarrow> (r, m\<lparr>map_lock := l\<rparr>))"

definition inode_map_lock_destroy :: "inode_map \<Rightarrow> inode_map option" where
  "inode_map_lock_destroy m = map_option (\<lambda>l. m\<lparr>map_lock := l\<rparr>) (rwlock_destroy (map_lock m))"

definition inode_map_rdlock :: "inode_map \<Rightarrow> inode_map option" where
  "inode_map_rdlock m = map_option (\<lambda>l. m\<lparr>map_lock := l\<rparr>) (rwlock_rdlock (map_lock m))"

definition inode_map_wrlock :: "inode_map \<Rightarrow> inode_map option" where
  "inode_map_wrlock m = map_option (\<lambda>l. m\<lparr>map_lock := l\<rparr>) (rwlock_wrlock (map_lock m))"

definition inode_map_unlock :: "inode_map \<Rightarrow> inode_map option" where
  "inode_map_unlock m = map_option (\<lambda>l. m\<lparr>map_lock := l\<rparr>) (rwlock_unlock (map_lock m))"

definition inode_rdlock :: "u64 \<Rightarrow> inode_map \<Rightarrow> inode_map option" where
  "inode_rdlock vino m =
     map_option (\<lambda>l. upd_cell vino (f_lock_update (\<lambda>_. l)) m) (rwlock_rdlock (f_lock (inode_table m ! unat vino)))"

definition inode_wrlock :: "u64 \<Rightarrow> inode_map \<Rightarrow> inode_map option" where
  "inode_wrlock vino m =
     map_option (\<lambda>l. upd_cell vino (f_lock_update (\<lambda>_. l)) m) (rwlock_wrlock (f_lock (inode_table m ! unat vino)))"

definition inode_unlock :: "u64 \<Rightarrow> inode_map \<Rightarrow> inode_map option" where
  "inode_unlock vino m =
     map_option (\<lambda>l. upd_cell vino (f_lock_update (\<lambda>_. l)) m) (rwlock_unlock (f_lock (inode_table m ! unat vino)))"

section \<open>Operations\<close>

text \<open>\<open>mem n\<close> is what the allocator gives for \<open>n\<close> more uninitialised cells, \<open>None\<close> for \<open>NULL\<close>;
  \<open>lock\<close> is what \<open>pthread_rwlock_init\<close> returns.\<close>

type_synonym allocator = "nat \<Rightarrow> file_t list option"

definition inode_map_create :: "bool \<Rightarrow> allocator \<Rightarrow> int \<Rightarrow> int \<times> inode_map option" where
  "inode_map_create map_mem mem lock =
     (if \<not> map_mem then (-1, None)
      else (case mem 1024 of
              None \<Rightarrow> (-1, None)
            | Some cells \<Rightarrow>
                let m = \<lparr>max_vino = 1, c_size = 1024, map_lock = NO_LOCK, inode_table = cells\<rparr> in
                (case inode_map_lock_init lock m of
                   (r, m) \<Rightarrow> if r = -1 then (-1, Some m) else (0, Some m))))"

definition inode_map_resize :: "allocator \<Rightarrow> inode_map \<Rightarrow> int \<times> inode_map" where
  "inode_map_resize mem m =
     (case mem (unat (c_size m)) of
        None \<Rightarrow> (-1, m)
      | Some cells \<Rightarrow> (0, m\<lparr>inode_table := inode_table m @ cells, c_size := c_size m * 2\<rparr>))"

definition pino_add :: "allocator \<Rightarrow> int \<Rightarrow> u64 \<Rightarrow> inode_map \<Rightarrow> u64 \<times> inode_map" where
  "pino_add mem lock pino m =
     (let (r, m) = (if max_vino m = c_size m then inode_map_resize mem m else (0, m)) in
      if r \<noteq> 0 then (0, m)
      else
        let m = upd_cell (max_vino m) (\<lambda>c. c\<lparr>f_pino := pino, f_dirty := 0, f_openbit := 0\<rparr>) m in
        let (r, m) = inode_lock_init lock (max_vino m) m in
        if r = -1 then (-1, m)
        else let m = m\<lparr>max_vino := max_vino m + 1\<rparr> in (max_vino m - 1, m))"

text \<open>The loop of \<open>get_vino\<close> from \<open>i\<close>, over the \<open>k\<close> numbers that are left.\<close>

primrec vino_loop :: "nat \<Rightarrow> nat \<Rightarrow> u64 \<Rightarrow> inode_map \<Rightarrow> u64" where
  "vino_loop 0 i pino m = 0"
| "vino_loop (Suc k) i pino m =
     (if f_pino (inode_table m ! i) = pino then word_of_nat i else vino_loop k (Suc i) pino m)"

definition get_vino :: "u64 \<Rightarrow> inode_map \<Rightarrow> u64" where
  "get_vino pino m = vino_loop (unat (max_vino m) - 1) 1 pino m"

definition set_dirty :: "u64 \<Rightarrow> inode_map \<Rightarrow> int \<times> inode_map" where
  "set_dirty vino m =
     (if vino \<ge> max_vino m then (-1, m) else (0, upd_cell vino (\<lambda>c. c\<lparr>f_dirty := 1\<rparr>) m))"

definition get_dirty :: "u64 \<Rightarrow> inode_map \<Rightarrow> int" where
  "get_dirty vino m = (if vino \<ge> max_vino m then -1 else f_dirty (inode_table m ! unat vino))"

definition get_pino :: "u64 \<Rightarrow> inode_map \<Rightarrow> u64" where
  "get_pino vino m = (if vino \<ge> max_vino m then 0 else f_pino (inode_table m ! unat vino))"

definition set_pino :: "u64 \<Rightarrow> u64 \<Rightarrow> inode_map \<Rightarrow> int \<times> inode_map" where
  "set_pino vino new_pino m =
     (if vino \<ge> max_vino m then (-1, m) else (0, upd_cell vino (\<lambda>c. c\<lparr>f_pino := new_pino\<rparr>) m))"

definition set_openbit :: "u64 \<Rightarrow> inode_map \<Rightarrow> inode_map" where
  "set_openbit vino m = upd_cell vino (\<lambda>c. c\<lparr>f_openbit := 1\<rparr>) m"

definition clr_openbit :: "u64 \<Rightarrow> inode_map \<Rightarrow> inode_map" where
  "clr_openbit vino m = upd_cell vino (\<lambda>c. c\<lparr>f_openbit := 0\<rparr>) m"

definition get_openbit :: "u64 \<Rightarrow> inode_map \<Rightarrow> int" where
  "get_openbit vino m = f_openbit (inode_table m ! unat vino)"

definition vino_dump :: "u64 \<Rightarrow> inode_map \<Rightarrow> int" where
  "vino_dump vino m = (if vino \<ge> max_vino m then -1 else 0)"

text \<open>Without \<open>INODE_DEBUG\<close> the dump prints nothing.\<close>

definition inode_map_dump :: "inode_map \<Rightarrow> int" where
  "inode_map_dump m = 0"

text \<open>The loop of \<open>inode_map_delete\<close> from \<open>i\<close>, over the \<open>k\<close> numbers that are left. The deletion gives the
  table as it is when its memory is freed.\<close>

primrec destroy_loop :: "nat \<Rightarrow> nat \<Rightarrow> inode_map \<Rightarrow> inode_map option" where
  "destroy_loop 0 i m = Some m"
| "destroy_loop (Suc k) i m = Option.bind (inode_lock_destroy (word_of_nat i) m) (destroy_loop k (Suc i))"

definition inode_map_delete :: "inode_map \<Rightarrow> (int \<times> inode_map) option" where
  "inode_map_delete m =
     Option.bind (destroy_loop (unat (max_vino m) - 1) 1 m) (\<lambda>m.
       map_option (\<lambda>m. (0, m)) (inode_map_lock_destroy m))"

section \<open>Tables in order\<close>

definition map_ok :: "inode_map \<Rightarrow> bool" where
  "map_ok m \<longleftrightarrow> length (inode_table m) = unat (c_size m) \<and> 0 < unat (max_vino m)
     \<and> unat (max_vino m) \<le> unat (c_size m) \<and> unat (c_size m) < 2 ^ 62"

definition mem_ok :: "allocator \<Rightarrow> bool" where
  "mem_ok mem \<longleftrightarrow> (\<forall>n cells. mem n = Some cells \<longrightarrow> length cells = n \<and> n \<le> 2 ^ 60)"

lemma map_ok_create:
  "mem_ok mem \<Longrightarrow> inode_map_create b mem lock = (0, Some m) \<Longrightarrow> map_ok m \<and> max_vino m = 1"
  by (auto simp: inode_map_create_def map_ok_def mem_ok_def inode_map_lock_init_def rwlock_init_def Let_def split: if_splits option.splits)

lemma upd_cell_sel [simp]:
  "max_vino (upd_cell v f m) = max_vino m" "c_size (upd_cell v f m) = c_size m"
  "length (inode_table (upd_cell v f m)) = length (inode_table m)"
  by (simp_all add: upd_cell_def)

lemma map_ok_upd [simp]: "map_ok (upd_cell v f m) = map_ok m"
  by (simp add: map_ok_def)

lemma nth_upd_cell:
  "unat w < length (inode_table m) \<Longrightarrow>
     inode_table (upd_cell v f m) ! unat w
       = (if w = v then f (inode_table m ! unat w) else inode_table m ! unat w)"
  by (simp add: upd_cell_def word_unat_eq_iff nth_list_update)

lemma upd_cell_twice [simp]: "upd_cell v f (upd_cell v g m) = upd_cell v (f \<circ> g) m"
proof (cases "unat v < length (inode_table m)")
  case True
  then show ?thesis by (simp add: upd_cell_def)
next
  case False
  then show ?thesis by (simp add: upd_cell_def list_update_beyond not_less)
qed

lemma vino_loop_None:
  "\<forall>j. i \<le> j \<and> j < i + k \<longrightarrow> f_pino (inode_table m ! j) \<noteq> p \<Longrightarrow> vino_loop k i p m = 0"
  by (induction k arbitrary: i) auto

lemma vino_loop_Some:
  assumes "i \<le> j" and "j < i + k" and "f_pino (inode_table m ! j) = p"
    and "\<forall>l. i \<le> l \<and> l < j \<longrightarrow> f_pino (inode_table m ! l) \<noteq> p"
  shows "vino_loop k i p m = word_of_nat j"
  using assms
proof (induction k arbitrary: i)
  case (Suc k)
  then show ?case by (cases "i = j") auto
qed simp

end
