(* ===== verification/FuseOps.thy ===== *)
theory FuseOps
  imports Mksfs InodeMap
begin

text \<open>
  src/fuse/main.c: the handlers FUSE calls. The state is the mounted unit with the inode table;
  \<open>stack\<close> is what the uninitialised local entries of the library routines hold. The mount is
  single-threaded (\<open>-s\<close>), so a handler is one step.
\<close>

section \<open>The state\<close>

record fuse_state =
  sfs_description :: fs
  imap :: inode_map
  mem :: allocator
  lock_ret :: int
  stack :: entry

record stat_buf =
  st_ino :: u64
  st_size :: u64
  st_mtime :: u64
  st_mode :: u32

definition S_IFREG :: u32 where "S_IFREG = 0x8000"
definition S_IFDIR :: u32 where "S_IFDIR = 0x4000"
definition mode_bits :: u32 where "mode_bits = 0x1B4"
definition ENOTSUP :: int where "ENOTSUP = 95"
definition PATH_MAX :: nat where "PATH_MAX = 4096"

definition new_path :: "bytes \<Rightarrow> bytes" where
  "new_path path = (strncpy (replicate PATH_MAX 0) path (PATH_MAX - 1))[PATH_MAX - 1 := 0]"

definition errno_of :: "fuse_state \<Rightarrow> int" where
  "errno_of s = sfs_errno (sfs_description s)"

abbreviation "upd_fs fs s \<equiv> s\<lparr>sfs_description := fs\<rparr>"
abbreviation "upd_imap m s \<equiv> s\<lparr>imap := m\<rparr>"

text \<open>\<open>if ((vino = get_vino(pino)) == 0) if ((vino = pino_add(pino)) == 0) return -ENOMEM;\<close>\<close>

definition vino_for :: "u64 \<Rightarrow> fuse_state \<Rightarrow> u64 option \<times> fuse_state" where
  "vino_for pino s =
     (let vino = get_vino pino (imap s) in
      if vino = 0 then
        (case pino_add (mem s) (lock_ret s) pino (imap s) of
           (vino, m) \<Rightarrow> if vino = 0 then (None, upd_imap m s) else (Some vino, upd_imap m s))
      else (Some vino, s))"

definition attr_init :: sfs_attr where
  "attr_init = \<lparr>attr_time = 0, attr_size = 0, attr_off = 0, attr_type = None\<rparr>"

section \<open>Looking up, opening and releasing\<close>

definition fuse_sfs_getattr :: "bytes \<Rightarrow> stat_buf \<Rightarrow> fuse_state \<Rightarrow> int \<times> stat_buf \<times> fuse_state" where
  "fuse_sfs_getattr path stbuf s =
     (case sfs_open (sfs_description s) (stack s) (tl path) of (pino, fs) \<Rightarrow>
       let s = upd_fs fs s in
       if pino = 0 then (- errno_of s, stbuf, s)
       else
       (case vino_for pino s of
          (None, s) \<Rightarrow> (- ENOMEM, stbuf, s)
        | (Some vino, s) \<Rightarrow>
            (case sfs_getattr (sfs_description s) (stack s) pino attr_init of (r, attr, fs) \<Rightarrow>
              let s = upd_fs fs s in
              if r \<noteq> 0 then (- errno_of s, stbuf, s)
              else
                let m = (case attr_type attr of
                           Some FILE_ITER_TYPE \<Rightarrow> S_IFREG
                         | Some DIR_ITER_TYPE \<Rightarrow> S_IFDIR
                         | None \<Rightarrow> st_mode stbuf)
                in (0, stbuf\<lparr>st_ino := vino, st_size := attr_size attr, st_mtime := attr_time attr,
                             st_mode := m OR mode_bits\<rparr>, s))))"

definition fuse_sfs_open :: "bytes \<Rightarrow> u64 \<Rightarrow> fuse_state \<Rightarrow> int \<times> u64 \<times> fuse_state" where
  "fuse_sfs_open path fh s =
     (case sfs_open (sfs_description s) (stack s) (tl path) of (pino, fs) \<Rightarrow>
       let s = upd_fs fs s in
       if pino = 0 then (- errno_of s, fh, s)
       else
       (case vino_for pino s of
          (None, s) \<Rightarrow> (- ENOMEM, fh, s)
        | (Some vino, s) \<Rightarrow> (0, vino, upd_imap (set_openbit vino (imap s)) s)))"

definition fuse_sfs_release :: "u64 \<Rightarrow> fuse_state \<Rightarrow> int \<times> fuse_state" where
  "fuse_sfs_release fh s =
     (if get_dirty fh (imap s) = 1 then
        (case sfs_delete (sfs_description s) (stack s) (get_pino fh (imap s)) of (r, fs) \<Rightarrow>
          let s = upd_fs fs s in
          if r = -1 then (- errno_of s, s)
          else
            (case set_pino fh 0 (imap s) of (_, m) \<Rightarrow> (0, upd_imap (clr_openbit fh m) s)))
      else (0, upd_imap (clr_openbit fh (imap s)) s))"

definition fuse_sfs_opendir :: "bytes \<Rightarrow> u64 \<Rightarrow> fuse_state \<Rightarrow> int \<times> u64 \<times> fuse_state" where
  "fuse_sfs_opendir path fh s =
     (case sfs_open (sfs_description s) (stack s) (tl path) of (pino, fs) \<Rightarrow>
       let s = upd_fs fs s in
       if pino = 0 then (- errno_of s, fh, s)
       else
       (case sfs_getattr (sfs_description s) (stack s) pino attr_init of (r, attr, fs) \<Rightarrow>
         let s = upd_fs fs s in
         if r \<noteq> 0 then (- errno_of s, fh, s)
         else if attr_type attr = Some FILE_ITER_TYPE then (- ENOTDIR, fh, s)
         else
         (case vino_for pino s of
            (None, s) \<Rightarrow> (- ENOMEM, fh, s)
          | (Some vino, s) \<Rightarrow> (0, vino, s))))"

definition fuse_sfs_releasedir :: "bytes \<Rightarrow> u64 \<Rightarrow> fuse_state \<Rightarrow> int \<times> fuse_state" where
  "fuse_sfs_releasedir path fh s =
     (let cpath = new_path (tl path) in
      if get_dirty fh (imap s) = 1 then
        (case sfs_rmdir (sfs_description s) (stack s) cpath of (r, fs) \<Rightarrow>
          let s = upd_fs fs s in
          if r = -1 then (- errno_of s, s)
          else (case set_pino fh 0 (imap s) of (_, m) \<Rightarrow> (0, upd_imap m s)))
      else (0, s))"

section \<open>Changing names\<close>

definition fuse_sfs_mkdir :: "bytes \<Rightarrow> fuse_state \<Rightarrow> int \<times> fuse_state" where
  "fuse_sfs_mkdir path s =
     (case sfs_mkdir (sfs_description s) (stack s) (new_path (tl path)) of (r, fs) \<Rightarrow>
       let s = upd_fs fs s in if r = -1 then (- errno_of s, s) else (0, s))"

definition fuse_sfs_mknod :: "bytes \<Rightarrow> u32 \<Rightarrow> fuse_state \<Rightarrow> int \<times> fuse_state" where
  "fuse_sfs_mknod path mode s =
     (if mode AND S_IFREG = 0 then (- ENOTSUP, s)
      else
        (case sfs_creat (sfs_description s) (stack s) (new_path (tl path)) of (r, fs) \<Rightarrow>
          let s = upd_fs fs s in
          if r = -1 then (- errno_of s, s)
          else if mode AND S_IFDIR \<noteq> 0 then
            (case sfs_creat (sfs_description s) (stack s) (new_path (tl path)) of (r, fs) \<Rightarrow>
              let s = upd_fs fs s in
              if r = -1 then (- errno_of s, s)
              else let s = upd_fs (SET_ERRNO 0 fs) s in (- errno_of s, s))
          else let s = upd_fs (SET_ERRNO 0 fs) s in (- errno_of s, s)))"

definition fuse_sfs_unlink :: "bytes \<Rightarrow> fuse_state \<Rightarrow> int \<times> fuse_state" where
  "fuse_sfs_unlink path s =
     (case sfs_unlink (sfs_description s) (stack s) (tl path) of (pino, fs) \<Rightarrow>
       let s = upd_fs fs s in
       if pino = 0 then (- errno_of s, s)
       else
         let vino = get_vino pino (imap s) in
         if vino = 0 then
           (case sfs_delete (sfs_description s) (stack s) pino of (r, fs) \<Rightarrow>
             let s = upd_fs fs s in if r = -1 then (- errno_of s, s) else (0, s))
         else if get_openbit vino (imap s) = 1 then
           (case set_dirty vino (imap s) of (_, m) \<Rightarrow> (0, upd_imap m s))
         else
           (case sfs_delete (sfs_description s) (stack s) pino of (r, fs) \<Rightarrow>
             let s = upd_fs fs s in
             if r = -1 then (- errno_of s, s)
             else (case set_pino vino 0 (imap s) of (_, m) \<Rightarrow> (0, upd_imap m s))))"

definition fuse_sfs_rmdir :: "bytes \<Rightarrow> fuse_state \<Rightarrow> int \<times> fuse_state" where
  "fuse_sfs_rmdir path s =
     (case sfs_rmdir (sfs_description s) (stack s) (tl path) of (r, fs) \<Rightarrow>
       if r = -1 then (-1, upd_fs fs s) else (0, upd_fs fs s))"

text \<open>The moving of the object itself, up to the comparison \<open>old_pino == pino\<close>; 0 is one of the
  jumps to \<open>RENAME_EXIT\<close>.\<close>

definition rename_object :: "u64 \<Rightarrow> iter_type option \<Rightarrow> bytes \<Rightarrow> bytes \<Rightarrow> fuse_state \<Rightarrow> u64 \<times> fuse_state" where
  "rename_object old_pino type from_path to_path s =
     (if type = Some DIR_ITER_TYPE then
        (case sfs_rmdir (sfs_description s) (stack s) from_path of (r, fs) \<Rightarrow>
          let s = upd_fs fs s in
          if r = -1 then (0, s)
          else
          (case sfs_mkdir (sfs_description s) (stack s) to_path of (r, fs) \<Rightarrow>
            let s = upd_fs fs s in
            if r = -1 then (0, s)
            else (case sfs_open (sfs_description s) (stack s) to_path of (pino, fs) \<Rightarrow>
                    (pino, upd_fs fs s))))
      else (case sfs_rename (sfs_description s) (stack s) old_pino to_path of (pino, fs) \<Rightarrow>
              (pino, upd_fs fs s)))"

definition fuse_sfs_rename :: "bytes \<Rightarrow> bytes \<Rightarrow> fuse_state \<Rightarrow> int \<times> fuse_state" where
  "fuse_sfs_rename from_path to_path s =
     (let cpath_from = new_path (tl from_path);
          cpath_to = new_path (tl to_path)
      in
      (case sfs_open (sfs_description s) (stack s) cpath_from of (old_pino, fs) \<Rightarrow>
        let s = upd_fs fs s in
        if old_pino = 0 then (- errno_of s, s)
        else
        (case sfs_getattr (sfs_description s) (stack s) old_pino attr_init of (r, attr, fs) \<Rightarrow>
          let s = upd_fs fs s in
          if r = -1 then (- errno_of s, s)
          else
          (case rename_object old_pino (attr_type attr) cpath_from cpath_to s of (pino, s) \<Rightarrow>
            if pino = 0 then (- errno_of s, s)
            else
              let ok = (\<lambda>s. let s = upd_fs (SET_ERRNO 0 (sfs_description s)) s in (- errno_of s, s)) in
              if old_pino = pino then ok s
              else
                let vino = get_vino old_pino (imap s) in
                if vino = 0 then
                  (case pino_add (mem s) (lock_ret s) pino (imap s) of (vino, m) \<Rightarrow>
                    let s = upd_imap m s in
                    if vino = 0 then
                      (let s = upd_fs (SET_ERRNO ENOMEM (sfs_description s)) s in (- errno_of s, s))
                    else ok s)
                else (case set_pino vino pino (imap s) of (_, m) \<Rightarrow> ok (upd_imap m s))))))"

section \<open>Reading, writing and truncating\<close>

text \<open>\<open>num_byte\<close> is an \<open>int\<close>: it keeps the low 32 bits of what the library returns.\<close>

definition to_int :: "u64 \<Rightarrow> int" where
  "to_int r = sint (ucast r :: u32)"

definition fuse_sfs_read :: "u64 \<Rightarrow> bytes \<Rightarrow> u64 \<Rightarrow> u64 \<Rightarrow> fuse_state \<Rightarrow> int \<times> bytes \<times> fuse_state" where
  "fuse_sfs_read fh bf sz offset s =
     (case sfs_read (sfs_description s) (stack s) (get_pino fh (imap s)) bf sz offset of (r, bf, fs) \<Rightarrow>
       let s = upd_fs fs s in
       if to_int r = -1 then (- errno_of s, bf, s) else (to_int r, bf, s))"

definition fuse_sfs_write :: "u64 \<Rightarrow> bytes \<Rightarrow> u64 \<Rightarrow> u64 \<Rightarrow> fuse_state \<Rightarrow> int \<times> fuse_state" where
  "fuse_sfs_write fh bf sz offset s =
     (case sfs_write (sfs_description s) (stack s) (get_pino fh (imap s)) bf sz offset of (r, fs) \<Rightarrow>
       let s = upd_fs fs s in
       if to_int r = -1 then (- errno_of s, s) else (to_int r, s))"

definition fuse_sfs_truncate :: "bytes \<Rightarrow> u64 \<Rightarrow> fuse_state \<Rightarrow> int \<times> fuse_state" where
  "fuse_sfs_truncate path len s =
     (case sfs_open (sfs_description s) (stack s) (tl path) of (pino, fs) \<Rightarrow>
       let s = upd_fs fs s in
       if pino = 0 then (- errno_of s, s)
       else
         (case sfs_truncate (sfs_description s) (stack s) pino len of (r, fs) \<Rightarrow>
           let s = upd_fs fs s in if r \<noteq> 0 then (- errno_of s, s) else (0, s)))"

definition fuse_sfs_ftruncate :: "u64 \<Rightarrow> u64 \<Rightarrow> fuse_state \<Rightarrow> int \<times> fuse_state" where
  "fuse_sfs_ftruncate fh len s =
     (case sfs_truncate (sfs_description s) (stack s) (get_pino fh (imap s)) len of (r, fs) \<Rightarrow>
       let s = upd_fs fs s in if r \<noteq> 0 then (- errno_of s, s) else (0, s))"

section \<open>Handlers that do nothing\<close>

definition fuse_sfs_flush :: "fuse_state \<Rightarrow> int \<times> fuse_state" where "fuse_sfs_flush s = (0, s)"
definition fuse_sfs_chmod :: "fuse_state \<Rightarrow> int \<times> fuse_state" where "fuse_sfs_chmod s = (0, s)"
definition fuse_sfs_chown :: "fuse_state \<Rightarrow> int \<times> fuse_state" where "fuse_sfs_chown s = (0, s)"
definition fuse_sfs_utime :: "fuse_state \<Rightarrow> int \<times> fuse_state" where "fuse_sfs_utime s = (0, s)"

section \<open>Statistics\<close>

record statvfs =
  sv_bsize :: u64
  sv_frsize :: u64
  sv_blocks :: u64
  sv_bfree :: u64
  sv_bavail :: u64
  sv_files :: u64
  sv_ffree :: u64
  sv_favail :: u64
  sv_fsid :: u64
  sv_flag :: u64
  sv_namemax :: nat

definition fuse_sfs_statfs :: "fuse_state \<Rightarrow> int \<times> statvfs \<times> fuse_state" where
  "fuse_sfs_statfs s =
     (case read_data (sfs_description s) 0 (replicate 512 0) 512 of (_, mbr, fs) \<Rightarrow>
     (case scan_del_file_list fs (stack s) of (free_size, entr, fs) \<Rightarrow>
     (case scan_free_inode fs entr of (inodes, entr, fs) \<Rightarrow>
        let bsize = block_size fs; bfree = free_size div bsize in
        (0, \<lparr>sv_bsize = bsize, sv_frsize = bsize, sv_blocks = get_u64 412 mbr, sv_bfree = bfree,
             sv_bavail = bfree, sv_files = get_u64 420 mbr div INDEX_ENTRY_SIZE, sv_ffree = inodes,
             sv_favail = inodes, sv_fsid = ucast (get_u8 428 mbr), sv_flag = 0,
             sv_namemax = PATH_MAX\<rparr>, upd_fs fs s))))"

end
