(* ===== verification/FuseMount.thy ===== *)
theory FuseMount
  imports FuseOps
begin

text \<open>
  src/fuse/main.c: mounting and unmounting (\<open>fuse_sfs_init\<close>, \<open>fuse_sfs_destroy\<close>), and the handler
  that lists a directory.
\<close>

section \<open>Mounting\<close>

text \<open>The loops that ask the user until one of two answers comes; \<open>answers\<close> is what \<open>getchar\<close> will
  return. \<open>None\<close>: the input ends first, and the loop goes on for ever.\<close>

fun ask :: "byte \<Rightarrow> byte \<Rightarrow> byte \<Rightarrow> bytes \<Rightarrow> (byte \<times> bytes) option" where
  "ask yes no answer answers =
     (if answer = yes \<or> answer = no then Some (answer, answers)
      else (case answers of [] \<Rightarrow> None | a # as \<Rightarrow> ask yes no a as))"

declare ask.simps [simp del]

record mount_env =
  env_image_ok :: bool
  env_mtime :: u64
  env_answers :: bytes
  env_image :: bytes
  env_open_fd :: int
  env_buf :: "bytes option"
  env_map_mem :: bool
  env_mem :: allocator
  env_lock :: int
  env_index_lock :: int
  env_stack :: entry

datatype mount_result = Exit fs | Asking fs | Mounted fuse_state

text \<open>From the creation of the inode table on. When the lock of the index cannot be set up, the table is
  deleted before the process ends.\<close>

definition init_inodes :: "mount_env \<Rightarrow> fs \<Rightarrow> mount_result" where
  "init_inodes env fs =
     (let give_up = (case sfs_release fs of (_, fs) \<Rightarrow> case filedev_release fs of (_, fs) \<Rightarrow> Exit fs) in
      (case inode_map_create (env_map_mem env) (env_mem env) (env_lock env) of
         (r, m) \<Rightarrow>
           if r = -1 then give_up
           else if env_index_lock env = -1 then give_up
           else (case m of
                   None \<Rightarrow> give_up
                 | Some m \<Rightarrow>
                     Mounted \<lparr>sfs_description = fs, imap = m, mem = env_mem env,
                              lock_ret = env_lock env, stack = env_stack env\<rparr>)))"

text \<open>From the reading of the boot block, after \<open>sfs_init\<close> and the question on the time stamp: the
  free and the used space are compared with the size of the data area.\<close>

definition check_space :: "mount_env \<Rightarrow> byte \<Rightarrow> bytes \<Rightarrow> fs \<Rightarrow> mount_result" where
  "check_space env answer answers fs =
     (let quit = (\<lambda>fs. case filedev_release fs of (_, fs) \<Rightarrow> Exit fs) in
      (case read_data fs 0 (replicate 512 0) 512 of (_, mbr, fs) \<Rightarrow>
        let data_size = get_u64 412 mbr * block_size fs in
        (case scan_del_file_list fs (env_stack env) of (free_size, entr, fs) \<Rightarrow>
          if free_size = -1 then quit fs
          else
          (case scan_used_space fs entr of (used_size, entr, fs) \<Rightarrow>
            (case (if data_size \<noteq> free_size + used_size then ask 0x79 0x4E answer answers
                   else Some (0, answers)) of
               None \<Rightarrow> Asking fs
             | Some (answer, _) \<Rightarrow>
                 if data_size \<noteq> free_size + used_size \<and> answer = 0x4E then quit fs
                 else (case fix_non_del_file fs entr of (_, entr, fs) \<Rightarrow> init_inodes env fs))))))"

definition fuse_sfs_init :: "mount_env \<Rightarrow> fs \<Rightarrow> mount_result" where
  "fuse_sfs_init env fs =
     (let quit = (\<lambda>fs. case filedev_release fs of (_, fs) \<Rightarrow> Exit fs) in
      if \<not> env_image_ok env then Exit fs
      else
      (case host_read fs 444 1 of (r, fs) \<Rightarrow>
        if r = Some [] then Exit fs
        else
        let bs_p2 = (case r of None \<Rightarrow> 0 | Some b \<Rightarrow> cs_at b 0);
            bs = scast (push_bit (unat bs_p2) 128 :: u32) :: u64
        in
        if bs \<le> 128 then Exit fs
        else
        (case host_read fs 432 8 of (r, fs) \<Rightarrow>
          if r = Some [] then Exit fs
          else
          let file_size = (case r of None \<Rightarrow> 0 | Some b \<Rightarrow> u64_of_bytes (mem_put 0 b (replicate 8 0))) in
          (case filedev_create (Some (fs\<lparr>fd := -1\<rparr>)) bs (file_size * bs) of
             (_, None) \<Rightarrow> Exit fs
           | (_, Some fs) \<Rightarrow>
               (case filedev_init (env_open_fd env) (env_buf env) (fs\<lparr>fd_filename := Some (env_image env)\<rparr>) of
                  (r, fs) \<Rightarrow>
                    if r \<noteq> 0 then Exit fs
                    else
                    (case sfs_init fs (env_stack env) of (r, fs) \<Rightarrow>
                      if r < 0 then quit fs
                      else
                      (case (if sint (env_mtime env - fs_time fs) > 1 then ask 0x59 0x6E 0 (env_answers env)
                             else Some (0, env_answers env)) of
                         None \<Rightarrow> Asking fs
                       | Some (answer, answers) \<Rightarrow>
                           if answer = 0x6E then quit fs
                           else check_space env answer answers fs))))))) "

text \<open>The result has the volume and the table as it was freed.\<close>

definition fuse_sfs_destroy :: "fuse_state \<Rightarrow> (fs \<times> inode_map) option" where
  "fuse_sfs_destroy s =
     map_option (\<lambda>(_, m). case sfs_release (sfs_description s) of (_, fs) \<Rightarrow> case filedev_release fs of (_, fs) \<Rightarrow> (fs, m))
       (inode_map_delete (imap s))"

section \<open>Listing a directory\<close>

text \<open>\<open>filler buf name stat\<close> is FUSE's callback; a nonzero result ends the listing.\<close>

type_synonym 'b filler = "'b \<Rightarrow> bytes \<Rightarrow> stat_buf \<Rightarrow> int \<times> 'b"

function dir_loop :: "'b filler \<Rightarrow> nat \<Rightarrow> fuse_state \<Rightarrow> diriter \<Rightarrow> 'b \<Rightarrow> int \<times> 'b \<times> fuse_state" where
  "dir_loop filler len s iter bf =
     (case sfs_readdir (sfs_description s) (stack s) iter of (r, iter', fs) \<Rightarrow>
       let s = upd_fs fs s in
       if r \<noteq> 0 then (-1, bf, s)
       else
       (case it_filename iter' of
          None \<Rightarrow> (0, bf, s)
        | Some name \<Rightarrow>
            (case vino_for (it_cur_off iter') s of
               (None, s) \<Rightarrow> (- ENOMEM, bf, s)
             | (Some vino, s) \<Rightarrow>
                 let a = (if len = 0 then 0 else 1);
                     m = (case it_type iter' of
                            Some FILE_ITER_TYPE \<Rightarrow> S_IFREG
                          | Some DIR_ITER_TYPE \<Rightarrow> S_IFDIR
                          | None \<Rightarrow> 0)
                 in
                 (case filler bf (drop (len + a) name)
                         \<lparr>st_ino = vino, st_size = it_size iter', st_mtime = it_time iter', st_mode = m\<rparr> of
                    (r, bf) \<Rightarrow>
                      if r \<noteq> 0 then (0, bf, s)
                      else dir_loop filler len s (iter'\<lparr>it_filename := Some (name[len := 0])\<rparr>) bf))))"
  by pat_completeness auto

lemma iter_measure:
  assumes "(0, iter', fs') = sfs_readdir fs e iter" and "it_filename iter' = Some name"
  shows "2 ^ 64 - unat (it_cur_off iter') < 2 ^ 64 - unat (it_cur_off iter)"
proof -
  have "it_cur_off iter < it_cur_off iter'"
    using sfs_readdir_forward [OF assms(1) [symmetric]] assms(2) by simp
  then show ?thesis
    using unsigned_less [of "it_cur_off iter'", where ?'a = nat] by (simp add: word_less_nat_alt)
qed

termination dir_loop
  by (relation "measure (\<lambda>(filler, len, s, iter, bf). 2 ^ 64 - unat (it_cur_off iter))")
    (auto dest: iter_measure)

declare dir_loop.simps [simp del]

definition fuse_sfs_readdir :: "bytes \<Rightarrow> 'b filler \<Rightarrow> 'b \<Rightarrow> fuse_state \<Rightarrow> int \<times> 'b \<times> fuse_state" where
  "fuse_sfs_readdir path filler bf s =
     (let cpath = new_path (tl path) in
      dir_loop filler (strlen cpath) s
        \<lparr>it_filename = Some cpath, it_len = word_of_nat PATH_MAX, it_cur_off = 0, it_size = 0,
         it_time = 0, it_type = None\<rparr> bf)"

end
