(* ===== verification/InodeNumbers.thy ===== *)
theory InodeNumbers
  imports FuseOps
begin

text \<open>
  The numbers src/fuse/main.c gives to the entries of a volume, on the table of src/fuse/inode.c:
  the interface of a numbering that is extended and renumbered, its client lemmas, and the table as
  its provider.
\<close>

section \<open>The interface\<close>

text \<open>\<open>give\<close> returns the number of an object, a new one if it has none; \<open>move\<close> makes a number stand for
  another object. \<open>gone\<close> is the object of numbers that are out of use.\<close>

locale numbering =
  fixes ok :: "'s \<Rightarrow> bool" and num :: "'s \<Rightarrow> 'v \<Rightarrow> 'p option" and gone :: 'p
    and give :: "'p \<Rightarrow> 's \<Rightarrow> 'v option \<times> 's" and move :: "'v \<Rightarrow> 'p \<Rightarrow> 's \<Rightarrow> 's"
  assumes give_ok: "ok s \<Longrightarrow> give p s = (r, s') \<Longrightarrow> ok s'"
    and give_old: "ok s \<Longrightarrow> num s v = Some p \<Longrightarrow> \<exists>w. num s w = Some p \<and> give p s = (Some w, s)"
    and give_new: "ok s \<Longrightarrow> \<forall>v. num s v \<noteq> Some p \<Longrightarrow> give p s = (Some w, s') \<Longrightarrow> num s w = None \<and> num s' = (num s)(w \<mapsto> p)"
    and give_none: "ok s \<Longrightarrow> give p s = (None, s') \<Longrightarrow> num s' = num s"
    and move_law: "ok s \<Longrightarrow> num s v \<noteq> None \<Longrightarrow> ok (move v p s) \<and> num (move v p s) = (num s)(v \<mapsto> p)"
begin

text \<open>Every object in use has one number.\<close>

definition unique :: "'s \<Rightarrow> bool" where
  "unique s \<longleftrightarrow> (\<forall>v w p. num s v = Some p \<and> num s w = Some p \<and> p \<noteq> gone \<longrightarrow> v = w)"

lemma give_num:
  assumes "ok s" and "give p s = (Some v, s')"
  shows "num s' v = Some p" and "num s w \<noteq> None \<Longrightarrow> num s' w = num s w"
proof -
  have "num s' v = Some p \<and> (num s w \<noteq> None \<longrightarrow> num s' w = num s w)"
  proof (cases "\<exists>u. num s u = Some p")
    case True
    then show ?thesis using give_old [OF assms(1), of _ p] assms(2) by auto
  next
    case False
    then show ?thesis using give_new [OF assms(1) _ assms(2)] by auto
  qed
  then show "num s' v = Some p" "num s w \<noteq> None \<Longrightarrow> num s' w = num s w" by blast+
qed

text \<open>The number of an object does not change when it is asked for again.\<close>

lemma give_again:
  assumes "ok s" and "unique s" and "p \<noteq> gone" and "give p s = (Some v, s')"
  shows "give p s' = (Some v, s') \<and> unique s'"
proof -
  have u: "unique s'"
  proof (cases "\<exists>u. num s u = Some p")
    case True
    then show ?thesis using give_old [OF assms(1), of _ p] assms(2,4) by auto
  next
    case False
    then show ?thesis using give_new [OF assms(1) _ assms(4)] assms(2) by (auto simp: unique_def split: if_splits)
  qed
  obtain w where w: "num s' w = Some p" "give p s' = (Some w, s')"
    using give_old [OF give_ok [OF assms(1,4)] give_num(1) [OF assms(1,4)]] by blast
  then have "w = v" using u give_num(1) [OF assms(1,4)] assms(3) by (auto simp: unique_def)
  then show ?thesis using w u by simp
qed

text \<open>A number follows its object when the object moves.\<close>

lemma move_follows:
  assumes "ok s" and "unique s" and "p \<noteq> gone" and "give p s = (Some v, s')" and "q \<noteq> gone" and "\<forall>w. num s' w \<noteq> Some q"
  shows "give q (move v q s') = (Some v, move v q s') \<and> unique (move v q s')"
proof -
  have s': "ok s'" "unique s'" "num s' v \<noteq> None"
    using give_ok [OF assms(1,4)] give_again [OF assms(1-4)] give_num(1) [OF assms(1,4)] by auto
  note m = move_law [OF s'(1,3), of q]
  have u: "unique (move v q s')"
    using m s'(2) assms(6) by (auto simp: unique_def split: if_splits)
  obtain w where w: "num (move v q s') w = Some q" "give q (move v q s') = (Some w, move v q s')"
    using give_old [OF conjunct1 [OF m], of v q] m by auto
  then have "w = v" using m assms(6) by (auto split: if_splits)
  then show ?thesis using w u by simp
qed

end

section \<open>The table\<close>

definition numbers :: "inode_map \<Rightarrow> u64 \<Rightarrow> u64 option" where
  "numbers m v = (if v \<noteq> 0 \<and> v < max_vino m then Some (f_pino (inode_table m ! unat v)) else None)"

definition map_invar :: "fuse_state \<Rightarrow> bool" where
  "map_invar s \<longleftrightarrow> map_ok (imap s) \<and> mem_ok (mem s) \<and> lock_ret s \<noteq> -1"

lemma unat_below: "j < unat (w :: u64) \<Longrightarrow> unat (word_of_nat j :: u64) = j"
  using unsigned_less [of w, where ?'a = nat] by (simp add: unat_of_nat)

lemma get_vino_cases:
  assumes "map_ok m"
  obtains (none) "get_vino p m = 0" "\<forall>v. numbers m v \<noteq> Some p"
  | (found) v where "get_vino p m = v" "v \<noteq> 0" "numbers m v = Some p"
proof (cases "\<exists>v. numbers m v = Some p")
  case False
  have "get_vino p m = 0"
    unfolding get_vino_def
  proof (rule vino_loop_None, intro allI impI notI)
    fix j assume j: "1 \<le> j \<and> j < 1 + (unat (max_vino m) - 1)" "f_pino (inode_table m ! j) = p"
    then have "unat (word_of_nat j :: u64) = j"
      by (intro unat_below [of _ "max_vino m"]) linarith
    then have "numbers m (word_of_nat j) = Some p"
      using j by (auto simp: numbers_def word_less_nat_alt simp flip: unat_eq_0)
    then show False using False by blast
  qed
  then show ?thesis using none False by blast
next
  case True
  define P where "P = (\<lambda>j. 0 < j \<and> j < unat (max_vino m) \<and> f_pino (inode_table m ! j) = p)"
  from True obtain v where "numbers m v = Some p" by blast
  then have "P (unat v)" by (auto simp: P_def numbers_def word_less_nat_alt unat_gt_0 split: if_splits)
  define j where "j = (LEAST j. P j)"
  have "P j" unfolding j_def by (rule LeastI) fact
  moreover have "\<not> P l" if "l < j" for l using that unfolding j_def by (rule not_less_Least)
  ultimately have j: "0 < j \<and> j < unat (max_vino m) \<and> f_pino (inode_table m ! j) = p"
    "\<And>l. 0 < l \<Longrightarrow> l < j \<Longrightarrow> f_pino (inode_table m ! l) \<noteq> p"
    by (auto simp: P_def)
  have "get_vino p m = word_of_nat j"
    unfolding get_vino_def by (rule vino_loop_Some) (use j in auto)
  moreover have u: "unat (word_of_nat j :: u64) = j"
    using j(1) by (intro unat_below [of _ "max_vino m"]) blast
  moreover have "(word_of_nat j :: u64) \<noteq> 0" using u j(1) by (auto simp flip: unat_eq_0)
  moreover have "numbers m (word_of_nat j) = Some p"
    using j(1) u calculation(3) by (simp add: numbers_def word_less_nat_alt)
  ultimately show ?thesis using found by blast
qed

lemma pino_add_cases:
  assumes m: "map_ok m" and mem: "mem_ok a" and lock: "lock \<noteq> -1"
  obtains (full) "pino_add a lock p m = (0, m)"
  | (added) m' where "pino_add a lock p m = (max_vino m, m')" "map_ok m'" "numbers m (max_vino m) = None"
      "numbers m' = (numbers m)(max_vino m \<mapsto> p)" "max_vino m \<noteq> 0" "f_dirty (inode_table m' ! unat (max_vino m)) = 0"
      "f_openbit (inode_table m' ! unat (max_vino m)) = 0"
      "\<forall>v < max_vino m. inode_table m' ! unat v = inode_table m ! unat v"
proof -
  have ok: "length (inode_table m) = unat (c_size m)" "0 < unat (max_vino m)" "unat (max_vino m) \<le> unat (c_size m)"
    "unat (c_size m) < 2 ^ 62"
    using m by (simp_all add: map_ok_def)
  obtain r m1 where r: "(if max_vino m = c_size m then inode_map_resize a m else (0, m)) = (r, m1)" by (metis surj_pair)
  consider "r = -1" "m1 = m" | (grown) "r = 0" "max_vino m1 = max_vino m" "unat (max_vino m) < length (inode_table m1)"
      "length (inode_table m1) = unat (c_size m1)" "unat (c_size m1) < 2 ^ 62"
      "\<forall>v < max_vino m. inode_table m1 ! unat v = inode_table m ! unat v"
  proof (cases "max_vino m = c_size m")
    case True
    show ?thesis
    proof (cases "a (unat (c_size m))")
      case None
      then show ?thesis using that(1) r True by (simp add: inode_map_resize_def)
    next
      case (Some cells)
      then have c: "length cells = unat (c_size m)" "unat (c_size m) \<le> 2 ^ 60" using mem by (auto simp: mem_ok_def)
      have "unat (c_size m * 2) = unat (c_size m) * 2" using c(2) by (intro unat_mult_small [of _ 2, simplified]) simp
      then show ?thesis
        using that(2) r True Some c ok by (auto simp: inode_map_resize_def nth_append word_less_nat_alt)
    qed
  next
    case False
    then have "unat (max_vino m) < unat (c_size m)" using ok(3) by (simp add: word_unat_eq_iff)
    then show ?thesis using that(2) r False ok by auto
  qed
  then show ?thesis
  proof cases
    case grown
    let ?l = "snd (rwlock_init lock (f_lock (inode_table m1 ! unat (max_vino m))))"
    let ?f = "f_lock_update (\<lambda>_. ?l) \<circ> (\<lambda>c. c\<lparr>f_pino := p, f_dirty := 0, f_openbit := 0\<rparr>)"
    let ?m2 = "upd_cell (max_vino m) ?f m1" and ?m3 = "(upd_cell (max_vino m) ?f m1)\<lparr>max_vino := max_vino m + 1\<rparr>"
    have run: "pino_add a lock p m = (max_vino m, ?m3)"
      using r grown(1-3) lock nth_upd_cell [of "max_vino m" m1 "max_vino m"]
      by (simp add: pino_add_def inode_lock_init_def rwlock_init_def)
    have s: "unat (max_vino m + 1) = unat (max_vino m) + 1"
      using ok(3,4) by (subst unat_add_small) auto
    have cell: "inode_table ?m3 ! unat v = (if v = max_vino m then ?f (inode_table m1 ! unat v) else inode_table m1 ! unat v)"
      if "v \<le> max_vino m" for v
      using nth_upd_cell [of v m1 "max_vino m" ?f] that grown(3) by (simp add: word_le_nat_alt)
    have less: "v < max_vino m + 1 \<longleftrightarrow> v = max_vino m \<or> v < max_vino m" for v
      using s by (auto simp: word_less_nat_alt word_unat_eq_iff)
    have "numbers ?m3 v = ((numbers m)(max_vino m \<mapsto> p)) v" for v
      using cell [of v] grown(6) less [of v] ok(2) by (auto simp: numbers_def)
    then have n: "numbers ?m3 = (numbers m)(max_vino m \<mapsto> p)" by (rule ext)
    show ?thesis
    proof (rule added [OF run _ _ n])
      show "map_ok ?m3" using grown s ok by (auto simp: map_ok_def)
      show "\<forall>v < max_vino m. inode_table ?m3 ! unat v = inode_table m ! unat v"
        using cell grown(6) by auto
    qed (use cell [of "max_vino m"] ok(2) in \<open>auto simp: numbers_def\<close>)
  qed (use full r in \<open>simp add: pino_add_def\<close>)
qed

section \<open>The numbers of a mounted volume\<close>

text \<open>\<open>set_pino\<close> on the state of the handlers.\<close>

definition renumber :: "u64 \<Rightarrow> u64 \<Rightarrow> fuse_state \<Rightarrow> fuse_state" where
  "renumber v p s = upd_imap (snd (set_pino v p (imap s))) s"

definition number_of :: "fuse_state \<Rightarrow> u64 \<Rightarrow> u64 option" where
  "number_of s = numbers (imap s)"

lemma numbers_upd:
  assumes "map_ok m" and "numbers m v \<noteq> None"
  shows "numbers (upd_cell v f m) = (numbers m)(v \<mapsto> f_pino (f (inode_table m ! unat v)))"
proof
  fix w
  have b: "unat u < length (inode_table m)" if "u < max_vino m" for u
    using that assms(1) by (simp add: map_ok_def word_less_nat_alt)
  show "numbers (upd_cell v f m) w = ((numbers m)(v \<mapsto> f_pino (f (inode_table m ! unat v)))) w"
    using assms(2) nth_upd_cell [OF b, of w v f] by (auto simp: numbers_def split: if_splits)
qed

lemma vino_for_cases:
  assumes "map_invar s"
  obtains (old) v where "vino_for p s = (Some v, s)" "get_vino p (imap s) = v" "number_of s v = Some p"
  | (new) m where "vino_for p s = (Some (max_vino (imap s)), upd_imap m s)" "map_ok m" "\<forall>v. number_of s v \<noteq> Some p"
      "number_of s (max_vino (imap s)) = None" "numbers m = (number_of s)(max_vino (imap s) \<mapsto> p)"
      "max_vino (imap s) \<noteq> 0" "f_dirty (inode_table m ! unat (max_vino (imap s))) = 0"
      "\<forall>v < max_vino (imap s). inode_table m ! unat v = inode_table (imap s) ! unat v"
  | (full) "vino_for p s = (None, s)" "\<forall>v. number_of s v \<noteq> Some p"
proof -
  have m: "map_ok (imap s)" "mem_ok (mem s)" "lock_ret s \<noteq> -1" using assms by (simp_all add: map_invar_def)
  show ?thesis
  proof (rule get_vino_cases [OF m(1), of p])
    fix v assume "get_vino p (imap s) = v" "v \<noteq> 0" "numbers (imap s) v = Some p"
    then show ?thesis using old [of v] by (simp add: vino_for_def number_of_def)
  next
    assume g: "get_vino p (imap s) = 0" "\<forall>v. numbers (imap s) v \<noteq> Some p"
    show ?thesis
    proof (rule pino_add_cases [OF m, of p])
      assume "pino_add (mem s) (lock_ret s) p (imap s) = (0, imap s)"
      then show ?thesis using full g by (simp add: vino_for_def number_of_def)
    next
      fix m' assume "pino_add (mem s) (lock_ret s) p (imap s) = (max_vino (imap s), m')" "map_ok m'"
        "numbers (imap s) (max_vino (imap s)) = None" "numbers m' = (numbers (imap s))(max_vino (imap s) \<mapsto> p)"
        "max_vino (imap s) \<noteq> 0" "f_dirty (inode_table m' ! unat (max_vino (imap s))) = 0"
        "\<forall>v < max_vino (imap s). inode_table m' ! unat v = inode_table (imap s) ! unat v"
      then show ?thesis using new [of m'] g by (simp add: vino_for_def number_of_def)
    qed
  qed
qed

interpretation inodes: numbering map_invar number_of 0 vino_for renumber
proof
  fix s p r s'
  assume h: "map_invar s" "vino_for p s = (r, s')"
  show "map_invar s'" by (rule vino_for_cases [OF h(1), of p]) (use h in \<open>auto simp: map_invar_def\<close>)
next
  fix s v p
  assume h: "map_invar s" "number_of s v = Some p"
  show "\<exists>w. number_of s w = Some p \<and> vino_for p s = (Some w, s)"
    by (rule vino_for_cases [OF h(1), of p]) (use h(2) in blast)+
next
  fix s p w s'
  assume h: "map_invar s" "\<forall>v. number_of s v \<noteq> Some p" "vino_for p s = (Some w, s')"
  show "number_of s w = None \<and> number_of s' = (number_of s)(w \<mapsto> p)"
    by (rule vino_for_cases [OF h(1), of p]) (use h(2,3) in \<open>auto simp: number_of_def\<close>)
next
  fix s p s'
  assume h: "map_invar s" "vino_for p s = (None, s')"
  show "number_of s' = number_of s"
    by (rule vino_for_cases [OF h(1), of p]) (use h(2) in auto)
next
  fix s v p
  assume h: "map_invar s" "number_of s v \<noteq> None"
  then have v: "v < max_vino (imap s)" "numbers (imap s) v \<noteq> None" "map_ok (imap s)"
    by (auto simp: number_of_def numbers_def map_invar_def split: if_splits)
  then have "snd (set_pino v p (imap s)) = upd_cell v (\<lambda>c. c\<lparr>f_pino := p\<rparr>) (imap s)" by (simp add: set_pino_def)
  then show "map_invar (renumber v p s) \<and> number_of (renumber v p s) = (number_of s)(v \<mapsto> p)"
    using h(1) numbers_upd [OF v(3,2)] by (simp add: renumber_def number_of_def map_invar_def)
qed

end
