(* ===== verification/Handlers.thy ===== *)
theory Handlers
  imports FuseMount InodeNumbers
begin

text \<open>
  The table of inode numbers along all handlers of src/fuse/main.c: it stays in order, the numbers it
  has given stay within it, its locks are set up and free, as no handler takes one, and unmounting
  destroys each of them.
\<close>

section \<open>The table and its locks\<close>

definition table_inv :: "allocator \<Rightarrow> int \<Rightarrow> inode_map \<Rightarrow> bool" where
  "table_inv a l m \<longleftrightarrow> map_ok m \<and> mem_ok a \<and> l = 0 \<and> map_lock m = UNLOCKED
     \<and> (\<forall>v. 0 < v \<and> v < max_vino m \<longrightarrow> f_lock (inode_table m ! unat v) = UNLOCKED)"

definition table_step :: "allocator \<Rightarrow> int \<Rightarrow> inode_map \<Rightarrow> inode_map \<Rightarrow> bool" where
  "table_step a l m m' \<longleftrightarrow> (table_inv a l m \<longrightarrow> table_inv a l m' \<and> max_vino m \<le> max_vino m')"

lemma table_step_refl [simp, intro]: "table_step a l m m"
  by (simp add: table_step_def)

lemma table_step_trans: "table_step a l m1 m2 \<Longrightarrow> table_step a l m2 m3 \<Longrightarrow> table_step a l m1 m3"
  by (auto simp: table_step_def)

lemma cell_step:
  assumes "\<And>c. f_lock (f c) = f_lock c"
  shows "table_step a l m (upd_cell v f m)"
proof -
  have "f_lock (inode_table (upd_cell v f m) ! unat w) = f_lock (inode_table m ! unat w)" for w :: u64
    using assms by (cases "unat v < length (inode_table m)"; cases "unat w = unat v") (auto simp: upd_cell_def list_update_beyond)
  moreover have "map_lock (upd_cell v f m) = map_lock m" by (simp add: upd_cell_def)
  ultimately show ?thesis by (simp add: table_step_def table_inv_def)
qed

lemma set_steps:
  "set_dirty v m = (r, m') \<Longrightarrow> table_step a l m m'" "set_pino v p m = (r, m') \<Longrightarrow> table_step a l m m'"
  "table_step a l m (set_openbit v m)" "table_step a l m (clr_openbit v m)"
  by (auto simp: set_dirty_def set_pino_def set_openbit_def clr_openbit_def intro!: cell_step split: if_splits)

lemma pino_add_locks:
  assumes "pino_add a 0 p m = (v, m')" and "map_ok m" and "mem_ok a"
  shows "map_lock m' = map_lock m"
    and "v = max_vino m \<Longrightarrow> max_vino m' = max_vino m + 1 \<and> f_lock (inode_table m' ! unat v) = UNLOCKED"
    and "v = 0 \<Longrightarrow> m' = m"
proof -
  obtain r m1 where r: "(if max_vino m = c_size m then inode_map_resize a m else (0, m)) = (r, m1)" by (metis surj_pair)
  have m1: "map_lock m1 = map_lock m" "r = 0 \<Longrightarrow> max_vino m1 = max_vino m \<and> unat (max_vino m) < length (inode_table m1)"
    "r \<noteq> 0 \<Longrightarrow> m1 = m"
    using r assms(2,3)
    by (auto simp: inode_map_resize_def map_ok_def mem_ok_def word_unat_eq_iff split: if_splits option.splits)
  have up: "map_lock (upd_cell w f n) = map_lock n" for w f n by (simp add: upd_cell_def)
  have z: "0 < unat (max_vino m)" using assms(2) by (simp add: map_ok_def)
  have "r \<noteq> 0 \<and> v = 0 \<and> m' = m \<or> r = 0 \<and> v = max_vino m \<and> map_lock m' = map_lock m \<and> max_vino m' = max_vino m + 1
      \<and> f_lock (inode_table m' ! unat v) = UNLOCKED"
    using r m1 assms(1) up nth_upd_cell [of "max_vino m" m1 "max_vino m"]
    by (cases "r = 0") (auto simp: pino_add_def inode_lock_init_def rwlock_init_def)
  then show "map_lock m' = map_lock m" "v = 0 \<Longrightarrow> m' = m"
    "v = max_vino m \<Longrightarrow> max_vino m' = max_vino m + 1 \<and> f_lock (inode_table m' ! unat v) = UNLOCKED"
    using z by auto
qed

lemma pino_add_step:
  assumes "pino_add a l p m = (v, m')"
  shows "table_step a l m m'"
  unfolding table_step_def
proof
  assume inv: "table_inv a l m"
  then have h: "map_ok m" "mem_ok a" "l = 0" "map_lock m = UNLOCKED"
    "\<And>w. 0 < w \<and> w < max_vino m \<Longrightarrow> f_lock (inode_table m ! unat w) = UNLOCKED"
    by (simp_all add: table_inv_def)
  have run: "pino_add a 0 p m = (v, m')" using assms h(3) by simp
  note lk = pino_add_locks [OF run h(1,2)]
  show "table_inv a l m' \<and> max_vino m \<le> max_vino m'"
  proof (rule pino_add_cases [OF h(1,2), of 0 p])
    show "(0 :: int) \<noteq> -1" by simp
    assume "pino_add a 0 p m = (0, m)"
    then show ?thesis using run inv by simp
  next
    fix m2 assume m2: "pino_add a 0 p m = (max_vino m, m2)" "map_ok m2"
      "\<forall>v < max_vino m. inode_table m2 ! unat v = inode_table m ! unat v"
    have [simp]: "m2 = m'" "v = max_vino m" using m2(1) run by simp_all
    have n: "unat (max_vino m + 1) = unat (max_vino m) + 1"
      using h(1) by (subst unat_add_small) (auto simp: map_ok_def)
    have less: "w < max_vino m + 1 \<longleftrightarrow> w = max_vino m \<or> w < max_vino m" for w
      using n by (auto simp: word_less_nat_alt word_unat_eq_iff)
    have "f_lock (inode_table m' ! unat w) = UNLOCKED" if "0 < w" "w < max_vino m + 1" for w
      using lk(2) h(5) [of w] m2(3) that less [of w] by auto
    then have "table_inv a l m'" using lk m2(2) h(2,3,4) by (simp add: table_inv_def)
    moreover have "max_vino m \<le> max_vino m'" using lk(2) n by (simp add: word_le_nat_alt)
    ultimately show ?thesis by blast
  qed
qed

definition same_env :: "fuse_state \<Rightarrow> fuse_state \<Rightarrow> bool" where
  "same_env s s' \<longleftrightarrow> mem s' = mem s \<and> lock_ret s' = lock_ret s \<and> table_step (mem s) (lock_ret s) (imap s) (imap s')"

lemma same_env_refl: "same_env s s"
  by (simp add: same_env_def)

lemma same_env_trans: "same_env s s1 \<Longrightarrow> same_env s1 s' \<Longrightarrow> same_env s s'"
  using table_step_trans by (auto simp: same_env_def)

lemma same_env_fs [simp]: "same_env s (upd_fs fs s') = same_env s s'" "same_env (upd_fs fs s) s' = same_env s s'"
  by (simp_all add: same_env_def)

lemma same_env_imap: "table_step (mem s) (lock_ret s) (imap s) m \<Longrightarrow> same_env s (upd_imap m s)"
  by (simp add: same_env_def)

lemma vino_for_env: "vino_for p s = (r, s') \<Longrightarrow> same_env s s'"
  by (auto simp: vino_for_def same_env_def Let_def split: prod.splits if_splits dest: pino_add_step)

section \<open>The handlers\<close>

lemma cell_env:
  "same_env s (upd_imap (set_openbit v (imap s)) s)" "same_env s (upd_imap (clr_openbit v (imap s)) s)"
  "set_dirty v (imap s) = (r, m) \<Longrightarrow> same_env s (upd_imap m s)" "set_pino v p (imap s) = (r, m) \<Longrightarrow> same_env s (upd_imap m s)"
  "pino_add (mem s) (lock_ret s) p (imap s) = (w, m) \<Longrightarrow> same_env s (upd_imap m s)"
  by (rule same_env_imap, erule set_steps pino_add_step | rule same_env_imap set_steps)+

lemma getattr_env: "fuse_sfs_getattr path st s = (r, st', s') \<Longrightarrow> same_env s s'"
  by (auto simp: fuse_sfs_getattr_def Let_def same_env_refl dest!: vino_for_env split: prod.splits if_splits option.splits)

lemma open_env: "fuse_sfs_open path fh s = (r, fh', s') \<Longrightarrow> same_env s s'"
  by (auto simp: fuse_sfs_open_def Let_def same_env_refl dest!: vino_for_env intro: same_env_trans [OF _ cell_env(1)]
      split: prod.splits if_splits option.splits)

lemma opendir_env: "fuse_sfs_opendir path fh s = (r, fh', s') \<Longrightarrow> same_env s s'"
  by (auto simp: fuse_sfs_opendir_def Let_def same_env_refl dest!: vino_for_env split: prod.splits if_splits option.splits)

lemma release_env: "fuse_sfs_release fh s = (r, s') \<Longrightarrow> same_env s s'"
  by (auto simp: fuse_sfs_release_def Let_def same_env_def split: prod.splits if_splits
      intro: set_steps(3,4) table_step_trans [OF set_steps(2) set_steps(4)])

lemma releasedir_env: "fuse_sfs_releasedir path fh s = (r, s') \<Longrightarrow> same_env s s'"
  by (auto simp: fuse_sfs_releasedir_def Let_def same_env_def split: prod.splits if_splits intro: set_steps)

lemma unlink_env: "fuse_sfs_unlink path s = (r, s') \<Longrightarrow> same_env s s'"
  by (auto simp: fuse_sfs_unlink_def Let_def same_env_def split: prod.splits if_splits intro: set_steps)

lemma rename_object_env: "rename_object p t a b s = (q, s') \<Longrightarrow> same_env s s'"
  by (auto simp: rename_object_def Let_def same_env_def split: prod.splits if_splits)

lemma rename_env: "fuse_sfs_rename a b s = (r, s') \<Longrightarrow> same_env s s'"
  by (auto simp: fuse_sfs_rename_def Let_def same_env_refl dest!: rename_object_env
      intro: same_env_trans [OF _ cell_env(4)] same_env_trans [OF _ cell_env(5)] split: prod.splits if_splits)

lemma plain_env:
  "fuse_sfs_mkdir path s = (r, s') \<Longrightarrow> same_env s s'" "fuse_sfs_mknod path mode s = (r, s') \<Longrightarrow> same_env s s'"
  "fuse_sfs_rmdir path s = (r, s') \<Longrightarrow> same_env s s'" "fuse_sfs_read fh bf sz off s = (r, out, s') \<Longrightarrow> same_env s s'"
  "fuse_sfs_write fh bf sz off s = (r, s') \<Longrightarrow> same_env s s'" "fuse_sfs_truncate path len s = (r, s') \<Longrightarrow> same_env s s'"
  "fuse_sfs_ftruncate fh len s = (r, s') \<Longrightarrow> same_env s s'" "fuse_sfs_statfs s = (r, st, s') \<Longrightarrow> same_env s s'"
  unfolding fuse_sfs_mkdir_def fuse_sfs_mknod_def fuse_sfs_rmdir_def fuse_sfs_read_def fuse_sfs_write_def
    fuse_sfs_truncate_def fuse_sfs_ftruncate_def fuse_sfs_statfs_def Let_def
  by (auto simp: same_env_refl split: prod.splits if_splits)

lemma dir_loop_env: "dir_loop filler len s iter bf = (r, out, s') \<Longrightarrow> same_env s s'"
proof (induction "2 ^ 64 - unat (it_cur_off iter)" arbitrary: s iter bf rule: less_induct)
  case less
  obtain r0 it0 fs0 where rd: "sfs_readdir (sfs_description s) (stack s) iter = (r0, it0, fs0)" by (metis prod_cases3)
  note run = less.prems [unfolded dir_loop.simps [of filler len s] rd prod.case Let_def]
  show ?case
  proof (cases "r0 = 0 \<and> it_filename it0 \<noteq> None")
    case False
    then show ?thesis using run by (auto simp: same_env_refl split: if_splits option.splits)
  next
    case True
    then obtain name where name: "it_filename it0 = Some name" by blast
    have later: "2 ^ 64 - unat (it_cur_off it0) < 2 ^ 64 - unat (it_cur_off iter)"
      using iter_measure [of it0 fs0 "sfs_description s" "stack s" iter name] rd True name by simp
    obtain v s2 where vf: "vino_for (it_cur_off it0) (upd_fs fs0 s) = (v, s2)" by (metis surj_pair)
    have e2: "same_env s s2" using vino_for_env [OF vf] by simp
    have rest: "same_env s s'" if "dir_loop filler len s2 (it0\<lparr>it_filename := Some (name[len := 0])\<rparr>) nb = (r, out, s')" for nb
      using less.hyps [OF _ that] later same_env_trans [OF e2] by simp
    show ?thesis using run True name vf e2 rest
      by (auto split: prod.splits if_splits option.splits)
  qed
qed

lemma readdir_env: "fuse_sfs_readdir path filler bf s = (r, out, s') \<Longrightarrow> same_env s s'"
  by (auto simp: fuse_sfs_readdir_def Let_def dest: dir_loop_env)

section \<open>A session\<close>

text \<open>The calls of FUSE. It passes on only handles that \<open>fuse_sfs_open\<close> and \<open>fuse_sfs_opendir\<close> have given,
  which are numbers of the table.\<close>

inductive fuse_call :: "fuse_state \<Rightarrow> fuse_state \<Rightarrow> bool" where
  "fuse_sfs_getattr path st s = (r, st', s') \<Longrightarrow> fuse_call s s'"
| "fuse_sfs_open path fh s = (r, fh', s') \<Longrightarrow> fuse_call s s'"
| "fuse_sfs_opendir path fh s = (r, fh', s') \<Longrightarrow> fuse_call s s'"
| "fh < max_vino (imap s) \<Longrightarrow> fuse_sfs_release fh s = (r, s') \<Longrightarrow> fuse_call s s'"
| "fh < max_vino (imap s) \<Longrightarrow> fuse_sfs_releasedir path fh s = (r, s') \<Longrightarrow> fuse_call s s'"
| "fuse_sfs_flush s = (r, s') \<Longrightarrow> fuse_call s s'"
| "fuse_sfs_readdir path (filler :: (bytes \<times> stat_buf) list filler) bf s = (r, bf', s') \<Longrightarrow> fuse_call s s'"
| "fuse_sfs_mkdir path s = (r, s') \<Longrightarrow> fuse_call s s'"
| "fuse_sfs_mknod path mode s = (r, s') \<Longrightarrow> fuse_call s s'"
| "fuse_sfs_unlink path s = (r, s') \<Longrightarrow> fuse_call s s'"
| "fuse_sfs_rmdir path s = (r, s') \<Longrightarrow> fuse_call s s'"
| "fuse_sfs_rename path path' s = (r, s') \<Longrightarrow> fuse_call s s'"
| "fh < max_vino (imap s) \<Longrightarrow> fuse_sfs_read fh data sz off s = (r, out, s') \<Longrightarrow> fuse_call s s'"
| "fh < max_vino (imap s) \<Longrightarrow> fuse_sfs_write fh data sz off s = (r, s') \<Longrightarrow> fuse_call s s'"
| "fuse_sfs_truncate path len s = (r, s') \<Longrightarrow> fuse_call s s'"
| "fh < max_vino (imap s) \<Longrightarrow> fuse_sfs_ftruncate fh len s = (r, s') \<Longrightarrow> fuse_call s s'"
| "fuse_sfs_statfs s = (r, sv, s') \<Longrightarrow> fuse_call s s'"
| "fuse_sfs_chmod s = (r, s') \<Longrightarrow> fuse_call s s'"
| "fuse_sfs_chown s = (r, s') \<Longrightarrow> fuse_call s s'"
| "fuse_sfs_utime s = (r, s') \<Longrightarrow> fuse_call s s'"

lemma idle_env:
  "fuse_sfs_flush s = (r, s') \<Longrightarrow> same_env s s'" "fuse_sfs_chmod s = (r, s') \<Longrightarrow> same_env s s'"
  "fuse_sfs_chown s = (r, s') \<Longrightarrow> same_env s s'" "fuse_sfs_utime s = (r, s') \<Longrightarrow> same_env s s'"
  by (simp_all add: fuse_sfs_flush_def fuse_sfs_chmod_def fuse_sfs_chown_def fuse_sfs_utime_def same_env_refl)

lemmas handler_env = getattr_env open_env opendir_env release_env releasedir_env unlink_env rename_env plain_env readdir_env idle_env

lemma fuse_call_env: "fuse_call s s' \<Longrightarrow> same_env s s'"
  by (induction rule: fuse_call.induct) (erule handler_env)+

lemma session_env: "fuse_call\<^sup>*\<^sup>* s s' \<Longrightarrow> same_env s s'"
  by (induction rule: rtranclp_induct) (auto intro: same_env_refl same_env_trans dest: fuse_call_env)

section \<open>Unmounting\<close>

lemma destroy_loop_ok:
  assumes "i + k \<le> length (inode_table m)" and "i + k < 2 ^ 64"
    and "\<forall>j. i \<le> j \<and> j < i + k \<longrightarrow> f_lock (inode_table m ! j) = UNLOCKED"
  shows "\<exists>m'. destroy_loop k i m = Some m' \<and> map_lock m' = map_lock m \<and> max_vino m' = max_vino m
    \<and> (\<forall>j. f_lock (inode_table m' ! j) = (if i \<le> j \<and> j < i + k then NO_LOCK else f_lock (inode_table m ! j)))"
  using assms
proof (induction k arbitrary: i m)
  case 0
  then show ?case by auto
next
  case (Suc k)
  have u: "unat (word_of_nat i :: u64) = i" using Suc.prems(2) by (simp add: unat_of_nat)
  let ?m = "upd_cell (word_of_nat i) (f_lock_update (\<lambda>_. NO_LOCK)) m"
  have d: "inode_lock_destroy (word_of_nat i) m = Some ?m"
    using Suc.prems(1,3) by (simp add: inode_lock_destroy_def u)
  have l: "f_lock (inode_table ?m ! j) = (if j = i then NO_LOCK else f_lock (inode_table m ! j))" for j
    using Suc.prems(1) by (auto simp: upd_cell_def u nth_list_update)
  have "\<exists>m'. destroy_loop k (Suc i) ?m = Some m' \<and> map_lock m' = map_lock ?m \<and> max_vino m' = max_vino ?m
      \<and> (\<forall>j. f_lock (inode_table m' ! j) = (if Suc i \<le> j \<and> j < Suc i + k then NO_LOCK else f_lock (inode_table ?m ! j)))"
    by (rule Suc.IH) (use Suc.prems l in auto)
  moreover have "map_lock ?m = map_lock m" by (simp add: upd_cell_def)
  moreover have "(if Suc i \<le> j \<and> j < Suc i + k then NO_LOCK else f_lock (inode_table ?m ! j))
      = (if i \<le> j \<and> j < i + Suc k then NO_LOCK else f_lock (inode_table m ! j))" for j
    using l [of j] by auto
  ultimately show ?case using d by auto
qed

lemma delete_table:
  assumes "table_inv a l m"
  shows "\<exists>m'. inode_map_delete m = Some (0, m') \<and> map_lock m' = NO_LOCK
    \<and> (\<forall>v. 0 < v \<and> v < max_vino m \<longrightarrow> f_lock (inode_table m' ! unat v) = NO_LOCK)"
proof -
  let ?n = "unat (max_vino m)"
  have h: "?n \<le> length (inode_table m)" "0 < ?n" "map_lock m = UNLOCKED"
    and lk: "\<And>v. 0 < v \<and> v < max_vino m \<Longrightarrow> f_lock (inode_table m ! unat v) = UNLOCKED"
    using assms by (simp_all add: table_inv_def map_ok_def)
  have big: "?n < 2 ^ 64" using unsigned_less [of "max_vino m", where ?'a = nat] by simp
  have "f_lock (inode_table m ! j) = UNLOCKED" if j: "1 \<le> j" "j < ?n" for j
  proof -
    have u: "unat (word_of_nat j :: u64) = j" using j(2) by (rule unat_below)
    then show ?thesis using lk [of "word_of_nat j"] j by (simp add: word_less_nat_alt)
  qed
  then obtain m1 where m1: "destroy_loop (?n - 1) 1 m = Some m1" "map_lock m1 = UNLOCKED"
    "\<forall>j. f_lock (inode_table m1 ! j) = (if 1 \<le> j \<and> j < ?n then NO_LOCK else f_lock (inode_table m ! j))"
    using destroy_loop_ok [of 1 "?n - 1" m] h big by auto
  have "f_lock (inode_table m1 ! unat v) = NO_LOCK" if "0 < v" "v < max_vino m" for v
    using m1(3) that by (simp add: word_less_nat_alt Suc_le_eq)
  then show ?thesis
    using m1(1,2) by (auto simp: inode_map_delete_def inode_map_lock_destroy_def simp del: One_nat_def)
qed

end
