(* ===== verification/Readdir.thy ===== *)
theory Readdir
  imports NameSpace
begin

text \<open>
  What src/lib/sfs/sfs_readdir.c finds: the next entry of the index whose name is the path of the
  directory, a slash, and a name without one.
\<close>

section \<open>Reading a name into a buffer\<close>

lemma mem_put_Cons: "mem_put (Suc p) bs (mem_put p [b] xs) = mem_put p (b # bs) xs"
  using mem_put_append [of p "[b]" bs xs] by simp

lemma name_loop_ok:
  assumes "fs_ok fs" and "\<forall>j \<le> n. slot_valid fs (off + 64 * word_of_nat j)" and "0 < c" and "length cur = c"
    and "length e = 64" and "0 \<in> set (cur @ conts (entry_at fs) (off + 64) n)"
    and "length (cstr (cur @ conts (entry_at fs) (off + 64) n)) < k"
  shows "\<exists>k' e' fs'. name_loop k cur c off out str e fs = (k', out + length (cstr (cur @ conts (entry_at fs) (off + 64) n)),
        mem_put out (cstr (cur @ conts (entry_at fs) (off + 64) n)) str, e', fs')
      \<and> k' \<noteq> 0 \<and> length e' = 64 \<and> fs_ok fs' \<and> same_vol fs fs' \<and> (e' = e \<or> (\<exists>j. 0 < j \<and> j \<le> n \<and> e' = entry_at fs (off + 64 * word_of_nat j)))"
  using assms
proof (induction k arbitrary: cur c off out str e fs n)
  case (Suc k)
  then obtain y ys where cur: "cur = y # ys" by (cases cur) auto
  show ?case
  proof (cases "y = 0")
    case True
    then show ?thesis using Suc.prems cur by (auto simp: cstr_cons)
  next
    case y: False
    show ?thesis
    proof (cases "c = 1")
      case False
      then have "0 < c - 1" "length ys = c - 1" "0 \<in> set (ys @ conts (entry_at fs) (off + 64) n)"
        "length (cstr (ys @ conts (entry_at fs) (off + 64) n)) < k"
        using Suc.prems cur y by (auto simp: cstr_cons)
      from Suc.IH [OF Suc.prems(1,2) this(1,2) Suc.prems(5) this(3,4), of "Suc out" "mem_put out [y] str"]
      show ?thesis using cur y False Suc.prems(4) by (auto simp: cstr_cons Let_def mem_put_Cons)
    next
      case True
      then have ys: "ys = []" using Suc.prems(4) cur by simp
      then obtain m where m: "n = Suc m" using Suc.prems(6) cur y by (cases n) auto
      have valid: "slot_valid fs (off + 64)" using Suc.prems(2) m by (auto dest: spec [of _ 1])
      obtain fs1 where rd: "read_entry fs (off + 64) e = (64, entry_at fs (off + 64), fs1)"
        and ok1: "fs_ok fs1" and sv: "same_vol fs fs1"
        by (rule read_entry_fs [OF Suc.prems(1) valid Suc.prems(5)])
      note c1 = same_vol_cong [OF sv]
      have len: "length (entry_at fs (off + 64)) = 64" by (rule length_entry_at [OF valid])
      have valid1: "\<forall>j \<le> m. slot_valid fs1 (off + 64 + 64 * word_of_nat j)"
      proof (intro allI impI)
        fix j assume "j \<le> m"
        then show "slot_valid fs1 (off + 64 + 64 * word_of_nat j)"
          using Suc.prems(2) [rule_format, of "Suc j"] m c1 by (simp add: algebra_simps)
      qed
      let ?t = "entry_at fs (off + 64) @ conts (entry_at fs1) (off + 64 + 64) m"
      have t: "conts (entry_at fs) (off + 64) n = ?t" using m c1 by (simp add: conts_Suc)
      have "0 \<in> set ?t" "length (cstr ?t) < k" using Suc.prems(6,7) cur y ys by (auto simp: t cstr_cons)
      from Suc.IH [OF ok1 valid1 _ len len this, of "Suc out" "mem_put out [y] str"]
      obtain k' e' fs' where h: "name_loop k (entry_at fs (off + 64)) 64 (off + 64) (Suc out) (mem_put out [y] str) (entry_at fs (off + 64)) fs1
          = (k', Suc out + length (cstr ?t), mem_put (Suc out) (cstr ?t) (mem_put out [y] str), e', fs')"
        "k' \<noteq> 0" "length e' = 64" "fs_ok fs'" "same_vol fs1 fs'"
        "e' = entry_at fs (off + 64) \<or> (\<exists>j. 0 < j \<and> j \<le> m \<and> e' = entry_at fs1 (off + 64 + 64 * word_of_nat j))"
        by auto
      have "\<exists>j. 0 < j \<and> j \<le> n \<and> e' = entry_at fs (off + 64 * word_of_nat j)"
        using h(6)
      proof (elim disjE exE conjE)
        assume "e' = entry_at fs (off + 64)"
        then show ?thesis using m by (intro exI [of _ 1]) simp
      next
        fix j assume "0 < j" "j \<le> m" "e' = entry_at fs1 (off + 64 + 64 * word_of_nat j)"
        then show ?thesis using m c1 by (intro exI [of _ "Suc j"]) (simp add: algebra_simps)
      qed
      then show ?thesis
        using cur y True ys rd h(1-4) same_vol_trans [OF sv h(5)] by (simp add: t cstr_cons Let_def mem_put_Cons)
    qed
  qed
qed simp

lemma mem_put_string:
  assumes "0 \<notin> set n" and "length n < length str"
  shows "cstr (mem_put (length n) [0] (mem_put 0 n str)) = n" and "length (mem_put (length n) [0] (mem_put 0 n str)) = length str"
proof -
  have "mem_put (length n) [0] (mem_put 0 n str) = mem_put 0 (n @ [0]) str" using mem_put_append [of 0 n "[0]" str] by simp
  moreover have "mem_put 0 (n @ [0]) str = n @ 0 # drop (Suc (length n)) str"
    using assms(2) by (simp add: mem_put_within patch_def)
  ultimately show "cstr (mem_put (length n) [0] (mem_put 0 n str)) = n"
    "length (mem_put (length n) [0] (mem_put 0 n str)) = length str"
    using assms cstr_append_nul [OF assms(1)] by simp_all
qed

lemma read_name_ok:
  assumes ok: "fs_ok fs" and p: "slot_valid fs p" and nm: "name_ok b fs p" and size: "b + first_size = 64" "0 < first_size"
  defines "n \<equiv> entry_name b (entry_at fs) p"
  assumes room: "length n + 1 < unat len" "unat len \<le> length str"
  obtains str' e' fs' where "read_name b first_size fs (entry_at fs p) p str len = (0, str', e', fs')" "cstr str' = n"
    "length str' = length str" "length e' = 64" "fs_ok fs'" "same_vol fs fs'"
    "e' = entry_at fs p \<or> (\<exists>j. 0 < j \<and> j \<le> unat (cont_entries (entry_at fs p)) \<and> e' = entry_at fs (p + 64 * word_of_nat j))"
proof -
  have len: "length (entry_at fs p) = 64" by (rule length_entry_at [OF p])
  have slots: "\<forall>k \<le> unat (cont_entries (entry_at fs p)). slot_valid fs (p + 64 * word_of_nat k)"
    and nul: "0 \<in> set (drop b (entry_at fs p) @ conts (entry_at fs) (p + 64) (unat (cont_entries (entry_at fs p))))"
    using nm by (auto simp: name_ok_def name_bytes_def)
  have nb: "cstr (drop b (entry_at fs p) @ conts (entry_at fs) (p + 64) (unat (cont_entries (entry_at fs p)))) = n"
    by (simp add: n_def entry_name_def name_bytes_def)
  have cl: "length (drop b (entry_at fs p)) = first_size" using len size by simp
  have k: "length n < unat len - 1" using room by linarith
  obtain k' e' fs' where h: "name_loop (unat len - 1) (drop b (entry_at fs p)) first_size p 0 str (entry_at fs p) fs
      = (k', length n, mem_put 0 n str, e', fs')" "k' \<noteq> 0" "length e' = 64" "fs_ok fs'" "same_vol fs fs'"
    "e' = entry_at fs p \<or> (\<exists>j. 0 < j \<and> j \<le> unat (cont_entries (entry_at fs p)) \<and> e' = entry_at fs (p + 64 * word_of_nat j))"
    using name_loop_ok [OF ok slots size(2) cl len nul, of "unat len - 1" 0 str] k unfolding nb by auto
  have "0 \<notin> set n" unfolding n_def entry_name_def by (rule cstr_no_nul)
  note ms = mem_put_string [OF this, of str]
  have "len \<noteq> 0" using room by auto
  then show ?thesis using that [of "mem_put (length n) [0] (mem_put 0 n str)" e' fs'] h ms room by (simp add: read_name_def)
qed

section \<open>The entries of a directory\<close>

definition below_dir :: "bytes \<Rightarrow> bytes" where
  "below_dir d = (if d = [] then [] else d @ [0x2F])"

text \<open>The names of the files and directories in the directory \<open>d\<close>, as the listing takes them: of
  characters that may stand in a path.\<close>

definition leaf_of :: "bytes \<Rightarrow> bytes \<Rightarrow> bool" where
  "leaf_of d n \<longleftrightarrow> prefix (below_dir d) n \<and> n \<noteq> d \<and> 0x2F \<notin> set (drop (length (below_dir d)) n)
     \<and> (\<forall>c \<in> set n. is_correct_char c = 0)"

definition child :: "(u64 \<Rightarrow> entry) \<Rightarrow> bytes \<Rightarrow> u64 \<Rightarrow> bool" where
  "child at d q \<longleftrightarrow> entry_type (at q) = entry_code FILE_ENTRY \<and> leaf_of d (entry_name 34 at q)
     \<or> entry_type (at q) = entry_code DIR_ENTRY \<and> leaf_of d (entry_name 10 at q)"

definition next_child :: "fs \<Rightarrow> bytes \<Rightarrow> nat \<Rightarrow> u64 option" where
  "next_child fs d i = List.find (child (entry_at fs) d) (map (index_off fs) [i..<index_size fs])"

definition child_name :: "(u64 \<Rightarrow> entry) \<Rightarrow> u64 \<Rightarrow> bytes" where
  "child_name at q = entry_name (if entry_type (at q) = entry_code FILE_ENTRY then 34 else 10) at q"

text \<open>What the iterator says of an entry.\<close>

definition iter_at :: "(u64 \<Rightarrow> entry) \<Rightarrow> u64 \<Rightarrow> diriter \<Rightarrow> bool" where
  "iter_at at q iter \<longleftrightarrow> it_cur_off iter = q + 64
     \<and> it_size iter = (if entry_type (at q) = entry_code FILE_ENTRY then file_size (at q) else 0)
     \<and> it_time iter = time_stamp (at q)
     \<and> it_type iter = Some (if entry_type (at q) = entry_code FILE_ENTRY then FILE_ITER_TYPE else DIR_ITER_TYPE)"

lemma is_leaf_iff: "is_leaf s = (if 0x2F \<in> set (cstr s) then 0 else 1)"
  by (induction s) (auto simp: cstr_cons cstr_def)

lemma child_masked: "child at d q \<Longrightarrow> cstr m = below_dir d \<Longrightarrow> masked at m q"
  by (auto simp: child_def leaf_of_def masked_def starts_def)

lemma cstr_drop_le: "k \<le> length (cstr s) \<Longrightarrow> cstr (drop k s) = drop k (cstr s)"
proof (induction s arbitrary: k)
  case (Cons x s)
  then show ?case by (cases k) (auto simp: cstr_cons split: if_splits)
qed (simp add: cstr_def)

lemma cstr_take: "0 \<notin> set (take k s) \<Longrightarrow> k < length s \<Longrightarrow> s ! k = 0 \<Longrightarrow> cstr s = take k s"
proof -
  assume h: "0 \<notin> set (take k s)" "k < length s" "s ! k = 0"
  then have "s = take k s @ 0 # drop (Suc k) s" by (metis id_take_nth_drop)
  then show ?thesis using cstr_append_nul [OF h(1)] by metis
qed

text \<open>The buffer at the label \<open>RESTART\<close>.\<close>

lemma put_slash_ok:
  assumes d: "take (length d) name = d" "0 \<notin> set d" and room: "length d + 1 < length name"
  defines "add \<equiv> (if length d = 0 then 0 else 1)"
  shows "cstr (put_slash name (length d) add) = below_dir d" and "length (put_slash name (length d) add) = length name"
    and "take (length d) (put_slash name (length d) add) = d"
proof -
  have n: "name = d @ drop (length d) name" using d(1) by (metis append_take_drop_id)
  obtain x y rest where r: "drop (length d) name = x # y # rest"
    using room by (metis Cons_nth_drop_Suc Suc_eq_plus1 Suc_lessD)
  have name: "name = d @ x # y # rest" using n r by simp
  have "put_slash name (length d) add = (if d = [] then (if x = 0 then name else 0 # y # rest) else d @ 0x2F # 0 # rest)"
    using d(2) unfolding put_slash_def add_def name
    by (cases d) (auto simp: mem_put_within patch_def)
  then have p: "put_slash name (length d) add = (if d = [] then 0 # y # rest else d @ 0x2F # 0 # rest)" using name by simp
  have "cstr (d @ 0x2F # 0 # rest) = d @ [0x2F]" using cstr_append_nul [of "d @ [0x2F]" rest] d(2) by simp
  then show "cstr (put_slash name (length d) add) = below_dir d" unfolding p by (simp add: below_dir_def cstr_cons)
  show "length (put_slash name (length d) add) = length name" "take (length d) (put_slash name (length d) add) = d"
    unfolding p using name by simp_all
qed

section \<open>One entry\<close>

definition names_fit :: "fs \<Rightarrow> u64 \<Rightarrow> bool" where
  "names_fit fs len \<longleftrightarrow> (\<forall>q \<in> set (index_offs fs).
     (entry_type (entry_at fs q) = entry_code FILE_ENTRY \<longrightarrow> length (entry_name 34 (entry_at fs) q) + 1 < unat len)
     \<and> (entry_type (entry_at fs q) = entry_code DIR_ENTRY \<longrightarrow> length (entry_name 10 (entry_at fs) q) + 1 < unat len))"

lemma names_fit_after: "unchanged fs fs' \<Longrightarrow> names_fit fs' = names_fit fs"
  by (rule ext) (simp add: names_fit_def after_sel)

lemma take_cstr: "k \<le> length (cstr s) \<Longrightarrow> take k s = take k (cstr s)"
proof (induction s arbitrary: k)
  case (Cons x s)
  then show ?case by (cases k) (auto simp: cstr_cons split: if_splits)
qed (simp add: cstr_def)

lemma strlen_length: "strlen s = length (cstr s)"
  by (simp add: strlen_cstr)

text \<open>Either block on an entry of its kind; the buffer then holds the name.\<close>

lemma iter_entry_ok:
  assumes ok: "dir_ok fs" and q: "q \<in> set (index_offs fs)" "entry_type (entry_at fs q) = entry_code kind"
    and kind: "kind = FILE_ENTRY \<and> b = 34 \<or> kind = DIR_ENTRY \<and> b = 10"
    and fit: "names_fit fs (it_len iter)" "length name = unat (it_len iter)"
    and pre: "prefix (below_dir d) (entry_name b (entry_at fs) q)"
  defines "n \<equiv> entry_name b (entry_at fs) q"
  defines "add \<equiv> (if length d = 0 then 0 else 1)"
  obtains step e' iter' name' fs' where "iter_entry kind fs (entry_at fs q) iter name q (length d) add = (step, e', iter', name', fs')"
    "step = (if n \<noteq> d \<and> 0x2F \<notin> set (drop (length (below_dir d)) n) then ITER_GO else ITER_RESTART)"
    "cstr name' = n" "length name' = length name" "length e' = 64" "unchanged fs fs'" "it_len iter' = it_len iter"
    "entry_type e' = entry_code kind \<or> \<not> is_code (entry_type e')"
    "step = ITER_GO \<Longrightarrow> it_size iter' = (if kind = FILE_ENTRY then file_size (entry_at fs q) else 0)
      \<and> it_time iter' = time_stamp (entry_at fs q) \<and> it_type iter' = Some (if kind = FILE_ENTRY then FILE_ITER_TYPE else DIR_ITER_TYPE)"
proof -
  have d: "fs_ok fs" "names_ok FILE_ENTRY 34 fs" "names_ok DIR_ENTRY 10 fs" "laid_out fs"
    using ok by (simp_all add: dir_ok_def dir_names_ok_def)
  have v: "slot_valid fs q" using in_index_offs [OF d(1) q(1)] by blast
  have nm: "name_ok b fs q" using d(2,3) q kind by (auto simp: names_ok_def simp del: entry_code.simps)
  have room: "length n + 1 < unat (it_len iter)" using fit(1) q kind by (auto simp: names_fit_def n_def simp del: entry_code.simps)
  have size: "b + (64 - b) = 64" "0 < 64 - b" using kind by auto
  have le: "unat (it_len iter) \<le> length name" using fit(2) by simp
  let ?it = "iter\<lparr>it_size := (if kind = FILE_ENTRY then file_size (entry_at fs q) else 0), it_time := time_stamp (entry_at fs q)\<rparr>"
  obtain name' e' fs' where r: "read_name b (64 - b) fs (entry_at fs q) q name (it_len iter) = (0, name', e', fs')"
    "cstr name' = n" "length name' = length name" "length e' = 64" "fs_ok fs'" "same_vol fs fs'"
    "e' = entry_at fs q \<or> (\<exists>j. 0 < j \<and> j \<le> unat (cont_entries (entry_at fs q)) \<and> e' = entry_at fs (q + 64 * word_of_nat j))"
    unfolding n_def by (rule read_name_ok [OF d(1) v nm size room [unfolded n_def] le])
  have rk: "(if kind = FILE_ENTRY then read_file_name fs (entry_at fs q) q name (it_len ?it)
      else read_dir_name fs (entry_at fs q) q name (it_len ?it)) = (0, name', e', fs')"
    using r(1) kind by (auto simp: read_file_name_def read_dir_name_def)
  have hd: "headed (entry_at fs q)" using q(2) kind by (auto intro: headed_kind)
  have ty: "entry_type e' = entry_code kind \<or> \<not> is_code (entry_type e')"
    using r(7) q hd d(4) by (auto simp: laid_out_def simp del: entry_code.simps)
  have ld: "length d + add = length (below_dir d)" by (simp add: add_def below_dir_def)
  then have lm: "length d + add \<le> length n" using prefix_length_le [OF pre] by (simp add: n_def)
  have dn: "length n = length d \<longleftrightarrow> n = d" using pre by (cases "d = []") (auto simp: below_dir_def prefix_def n_def)
  have leaf: "is_leaf (drop (length d + add) name') = 0 \<longleftrightarrow> 0x2F \<in> set (drop (length (below_dir d)) n)"
    using cstr_drop_le [of "length d + add" name'] lm r(2) ld by (simp add: is_leaf_iff)
  have sl: "strlen name' = length n" using r(2) by (simp add: strlen_length)
  have u: "unchanged fs fs'" by (rule after_same [OF r(5,6)])
  let ?go = "n \<noteq> d \<and> 0x2F \<notin> set (drop (length (below_dir d)) n)"
  let ?it2 = "if ?go then ?it\<lparr>it_type := Some (if kind = FILE_ENTRY then FILE_ITER_TYPE else DIR_ITER_TYPE)\<rparr> else ?it"
  have "iter_entry kind fs (entry_at fs q) iter name q (length d) add = (if ?go then ITER_GO else ITER_RESTART, e', ?it2, name', fs')"
    using q(2) dn leaf sl unfolding iter_entry_def Let_def rk by auto
  then show ?thesis by (rule that) (use r(2-4) u ty in auto)
qed

text \<open>Both blocks.\<close>

definition iter_both :: "fs \<Rightarrow> entry \<Rightarrow> diriter \<Rightarrow> bytes \<Rightarrow> u64 \<Rightarrow> nat \<Rightarrow> nat \<Rightarrow> iter_step \<times> entry \<times> diriter \<times> bytes \<times> fs" where
  "iter_both fs entr iter name off start_len add =
     (case iter_entry FILE_ENTRY fs entr iter name off start_len add of
        (step, entr, iter, name, fs) \<Rightarrow>
          if step = ITER_GO then iter_entry DIR_ENTRY fs entr iter name off start_len add
          else (step, entr, iter, name, fs))"

lemma iter_both_ok:
  assumes ok: "dir_ok fs" and q: "q \<in> set (index_offs fs)" "masked (entry_at fs) m q" and m: "cstr m = below_dir d"
    and fit: "names_fit fs (it_len iter)" "length name = unat (it_len iter)"
  defines "n \<equiv> child_name (entry_at fs) q"
  defines "add \<equiv> (if length d = 0 then 0 else 1)"
  obtains step e' iter' name' fs' where "iter_both fs (entry_at fs q) iter name q (length d) add = (step, e', iter', name', fs')"
    "step = (if n \<noteq> d \<and> 0x2F \<notin> set (drop (length (below_dir d)) n) then ITER_GO else ITER_RESTART)"
    "cstr name' = n" "length name' = length name" "length e' = 64" "unchanged fs fs'" "it_len iter' = it_len iter"
    "prefix (below_dir d) n" "step = ITER_GO \<Longrightarrow> iter_at (entry_at fs) q (iter'\<lparr>it_cur_off := q + 64\<rparr>)"
proof -
  consider (isfile) "entry_type (entry_at fs q) = entry_code FILE_ENTRY" "prefix (below_dir d) (entry_name 34 (entry_at fs) q)"
    | (isdir) "entry_type (entry_at fs q) = entry_code DIR_ENTRY" "prefix (below_dir d) (entry_name 10 (entry_at fs) q)"
    using q(2) m by (auto simp: masked_def starts_def simp del: entry_code.simps)
  then show ?thesis
  proof cases
    case isfile
    have n: "n = entry_name 34 (entry_at fs) q" using isfile(1) by (simp add: n_def child_name_def)
    have k: "FILE_ENTRY = FILE_ENTRY \<and> (34 :: nat) = 34 \<or> FILE_ENTRY = DIR_ENTRY \<and> (34 :: nat) = 10" by simp
    obtain step e' iter' name' fs' where r: "iter_entry FILE_ENTRY fs (entry_at fs q) iter name q (length d) add = (step, e', iter', name', fs')"
      "step = (if n \<noteq> d \<and> 0x2F \<notin> set (drop (length (below_dir d)) n) then ITER_GO else ITER_RESTART)"
      "cstr name' = n" "length name' = length name" "length e' = 64" "unchanged fs fs'" "it_len iter' = it_len iter"
      "entry_type e' = entry_code FILE_ENTRY \<or> \<not> is_code (entry_type e')"
      "step = ITER_GO \<Longrightarrow> it_size iter' = file_size (entry_at fs q)
        \<and> it_time iter' = time_stamp (entry_at fs q) \<and> it_type iter' = Some FILE_ITER_TYPE"
      unfolding n add_def by (rule iter_entry_ok [OF ok q(1) isfile(1) k fit isfile(2)]) auto
    have "entry_type e' \<noteq> entry_code DIR_ENTRY" using r(8) is_code_code [of DIR_ENTRY] by auto
    then have "iter_entry DIR_ENTRY fs' e' iter' name' q (length d) add = (ITER_GO, e', iter', name', fs')" by (simp add: iter_entry_def)
    then have "iter_both fs (entry_at fs q) iter name q (length d) add = (step, e', iter', name', fs')"
      using r(1) by (simp add: iter_both_def)
    then show ?thesis
      by (rule that [OF _ r(2-7)]) (use isfile n r(9) in \<open>auto simp: iter_at_def\<close>)
  next
    case isdir
    have ne: "entry_type (entry_at fs q) \<noteq> entry_code FILE_ENTRY" using isdir(1) by simp
    have n: "n = entry_name 10 (entry_at fs) q" using ne by (simp add: n_def child_name_def)
    have k: "DIR_ENTRY = FILE_ENTRY \<and> (10 :: nat) = 34 \<or> DIR_ENTRY = DIR_ENTRY \<and> (10 :: nat) = 10" by simp
    obtain step e' iter' name' fs' where r: "iter_entry DIR_ENTRY fs (entry_at fs q) iter name q (length d) add = (step, e', iter', name', fs')"
      "step = (if n \<noteq> d \<and> 0x2F \<notin> set (drop (length (below_dir d)) n) then ITER_GO else ITER_RESTART)"
      "cstr name' = n" "length name' = length name" "length e' = 64" "unchanged fs fs'" "it_len iter' = it_len iter"
      "step = ITER_GO \<Longrightarrow> it_size iter' = 0
        \<and> it_time iter' = time_stamp (entry_at fs q) \<and> it_type iter' = Some DIR_ITER_TYPE"
      unfolding n add_def by (rule iter_entry_ok [OF ok q(1) isdir(1) k fit isdir(2)]) auto
    have "iter_entry FILE_ENTRY fs (entry_at fs q) iter name q (length d) add = (ITER_GO, entry_at fs q, iter, name, fs)"
      using ne by (simp add: iter_entry_def)
    then have "iter_both fs (entry_at fs q) iter name q (length d) add = (step, e', iter', name', fs')"
      using r(1) by (simp add: iter_both_def)
    then show ?thesis
      by (rule that [OF _ r(2-7)]) (use isdir n ne r(8) in \<open>auto simp: iter_at_def\<close>)
  qed
qed

section \<open>sfs_readdir\<close>

lemma next_child_Suc:
  "i < index_size fs \<Longrightarrow> next_child fs d i = (if child (entry_at fs) d (index_off fs i) then Some (index_off fs i) else next_child fs d (Suc i))"
  by (simp add: next_child_def upt_conv_Cons)

lemma next_child_after: "unchanged fs fs' \<Longrightarrow> next_child fs' = next_child fs"
  by (rule ext)+ (simp add: next_child_def after_sel)

lemma next_child_end: "index_size fs \<le> i \<Longrightarrow> next_child fs d i = None"
  by (simp add: next_child_def)

lemma next_child_skip:
  assumes "i \<le> j" and "\<And>k. i \<le> k \<Longrightarrow> k < j \<Longrightarrow> k < index_size fs \<Longrightarrow> \<not> child (entry_at fs) d (index_off fs k)"
  shows "next_child fs d i = next_child fs d j"
  using assms
proof (induction "j - i" arbitrary: i)
  case (Suc k)
  then have i: "i < j" by simp
  show ?case
  proof (cases "i < index_size fs")
    case True
    then have "next_child fs d i = next_child fs d (Suc i)" using Suc.prems(2) [of i] i by (simp add: next_child_Suc)
    also have "\<dots> = next_child fs d j" by (rule Suc.hyps(1)) (use Suc i in auto)
    finally show ?thesis .
  qed (use i in \<open>simp add: next_child_end\<close>)
qed simp

text \<open>The result of a call: the next entry of the directory, or the end.\<close>

definition listed :: "fs \<Rightarrow> bytes \<Rightarrow> nat \<Rightarrow> u64 \<Rightarrow> u64 option \<Rightarrow> diriter \<Rightarrow> bool" where
  "listed fs d k len r iter \<longleftrightarrow> it_len iter = len \<and>
     (case r of
        None \<Rightarrow> it_filename iter = None
      | Some q \<Rightarrow> iter_at (entry_at fs) q iter
          \<and> (\<exists>name. it_filename iter = Some name \<and> cstr name = child_name (entry_at fs) q \<and> length name = k \<and> take (length d) name = d))"

lemma listed_after:
  assumes "unchanged fs fs'"
  shows "listed fs' = listed fs"
  by (rule ext)+ (simp only: listed_def after_sel(1) [OF assms])

lemma readdir_loop_eq:
  "readdir_loop fs entr iter name off start_len add =
     (case search_file_mask fs (put_slash name start_len add) entr off of
        (found_off, entr, fs) \<Rightarrow>
          if found_off = 0 then (0, iter\<lparr>it_filename := None\<rparr>, fs)
          else
            (case iter_both fs entr iter (put_slash name start_len add) found_off start_len add of
               (step, entr, iter, name, fs) \<Rightarrow>
                 if step = ITER_FAIL \<or> found_off + INDEX_ENTRY_SIZE < found_off then (-1, iter\<lparr>it_filename := Some name\<rparr>, fs)
                 else if step = ITER_RESTART then
                   readdir_loop fs entr iter name (found_off + INDEX_ENTRY_SIZE) start_len add
                 else if is_correct_filepath name \<noteq> 0 then
                   readdir_loop fs entr (iter\<lparr>it_cur_off := found_off + INDEX_ENTRY_SIZE\<rparr>) name (found_off + INDEX_ENTRY_SIZE) start_len add
                 else (0, iter\<lparr>it_cur_off := found_off + INDEX_ENTRY_SIZE, it_filename := Some name\<rparr>, SET_ERRNO 0 fs)))"
  by (subst readdir_loop.simps) (auto simp: iter_both_def Let_def split: prod.splits)

lemma readdir_loop_ok:
  assumes "dir_ok fs" and "length e = 64" and "i \<le> index_size fs"
    and "names_fit fs (it_len iter)" and "length name = unat (it_len iter)" and "unat (it_len iter) \<le> 16000"
    and "take (length d) name = d" and "0 \<notin> set d" and "length d + 1 < unat (it_len iter)"
  shows "\<exists>iter' fs'. readdir_loop fs e iter name (index_off fs i) (length d) (if length d = 0 then 0 else 1) = (0, iter', fs')
    \<and> listed fs d (length name) (it_len iter) (next_child fs d i) iter' \<and> unchanged fs fs'"
  using assms
proof (induction "index_size fs - i" arbitrary: fs e i iter name rule: less_induct)
  case less
  let ?add = "if length d = 0 then 0 else 1 :: nat" and ?m = "put_slash name (length d) (if length d = 0 then 0 else 1)"
  have dd: "fs_ok fs" "dir_names_ok fs" using less.prems(1) by (simp_all add: dir_ok_def)
  have room: "length d + 1 < length name" using less.prems(5,9) by simp
  note ps = put_slash_ok [OF less.prems(7,8) room]
  obtain e1 fs1 where m: "search_file_mask fs ?m e (index_off fs i) = (found (next_masked fs ?m i), e1, fs1)" "length e1 = 64"
    "fs_ok fs1" "same_vol (SET_ERRNO 0 fs) fs1" "next_masked fs ?m i \<noteq> None \<longrightarrow> e1 = entry_at fs (found (next_masked fs ?m i))"
    by (rule search_file_mask_ok [OF dd less.prems(2,3), of ?m])
  have u1: "unchanged fs fs1" by (rule after_same_errno [OF m(3,4)])
  note s1 = after_sel [OF u1]
  show ?case
  proof (cases "next_masked fs ?m i")
    case None
    have "next_child fs d i = next_child fs d (index_size fs)"
    proof (rule next_child_skip [OF less.prems(3)])
      fix k assume "i \<le> k" "k < index_size fs"
      then show "\<not> child (entry_at fs) d (index_off fs k)"
        using None child_masked [OF _ ps(1)] unfolding next_masked_None by blast
    qed
    then have "next_child fs d i = None" by (simp add: next_child_end)
    then show ?thesis using None m(1) u1 by (subst readdir_loop_eq) (simp add: listed_def)
  next
    case (Some q)
    obtain j where j: "q = index_off fs j" "i \<le> j" "j < index_size fs" "masked (entry_at fs) ?m q"
      "\<And>k. i \<le> k \<Longrightarrow> k < j \<Longrightarrow> \<not> masked (entry_at fs) ?m (index_off fs k)"
      by (rule next_masked_Some [OF Some]) blast
    have q: "q \<in> set (index_offs fs)" "q \<noteq> 0"
      using j index_off_nonzero [OF dd(1), of j] by (simp_all add: index_offs_def)
    have e1: "e1 = entry_at fs1 q" using m(5) Some s1(1) by simp
    have skip: "next_child fs d i = next_child fs d j"
    proof (rule next_child_skip [OF j(2)])
      fix k assume "i \<le> k" "k < j"
      then show "\<not> child (entry_at fs) d (index_off fs k)" using j(5) child_masked [OF _ ps(1)] by blast
    qed
    have ok1: "dir_ok fs1" by (rule dir_ok_after [OF u1 less.prems(1)])
    have in1: "q \<in> set (index_offs fs1)" "masked (entry_at fs1) ?m q" "names_fit fs1 (it_len iter)" "length ?m = unat (it_len iter)"
      using q(1) j(4) s1(1,7) names_fit_after [OF u1] less.prems(4,5) ps(2) by simp_all
    let ?n = "child_name (entry_at fs) q"
    obtain step e2 iter2 name2 fs2 where b: "iter_both fs1 e1 iter ?m q (length d) ?add = (step, e2, iter2, name2, fs2)"
      and st: "step = (if ?n \<noteq> d \<and> 0x2F \<notin> set (drop (length (below_dir d)) ?n) then ITER_GO else ITER_RESTART)"
      and n2: "cstr name2 = ?n" "length name2 = length ?m" "length e2 = 64" and u12: "unchanged fs1 fs2"
      and l2: "it_len iter2 = it_len iter" and pre: "prefix (below_dir d) ?n"
      and at2: "step = ITER_GO \<Longrightarrow> iter_at (entry_at fs) q (iter2\<lparr>it_cur_off := q + 64\<rparr>)"
      unfolding e1 s1(1) [symmetric] by (rule iter_both_ok [OF ok1 in1(1,2) ps(1) in1(3,4)]) blast
    have u2: "unchanged fs fs2" using after_trans [OF u1] u12 s1 by simp
    note s2 = after_sel [OF u2]
    have step_q: "q + 64 = index_off fs2 (Suc j)" using j(1) s2(6) by (simp add: index_off_Suc)
    have up: "\<not> q + 64 < q"
      using unat_index_off [OF dd(1), of j] unat_index_off [OF dd(1), of "Suc j"] j(1,3)
      by (simp add: word_less_nat_alt index_off_Suc)
    have ty: "entry_type (entry_at fs q) \<in> {entry_code FILE_ENTRY, entry_code DIR_ENTRY}" by (rule masked_type [OF j(4)])
    have fit: "length ?n + 1 < unat (it_len iter)"
      using less.prems(4) q(1) ty by (auto simp: names_fit_def child_name_def)
    have dn: "length d \<le> length ?n" using prefix_length_le [OF pre] by (simp add: below_dir_def split: if_splits)
    have "prefix d ?n" using pre by (cases "d = []") (auto simp: below_dir_def prefix_def)
    then have td: "take (length d) name2 = d"
      using take_cstr [of "length d" name2] n2(1) dn by (auto simp: prefix_def)
    have ch: "child (entry_at fs) d q \<longleftrightarrow> leaf_of d ?n" using ty by (auto simp: child_def child_name_def)
    have correct: "is_correct_filepath name2 = 0 \<longleftrightarrow> (\<forall>c \<in> set ?n. is_correct_char c = 0)"
      using correct_path_chars(1) [of name2] n2(1) fit less.prems(6) by simp
    have go_on: "\<exists>iter' fs'. readdir_loop fs2 e2 it name2 (q + 64) (length d) ?add = (0, iter', fs')
        \<and> listed fs d (length name) (it_len iter) (next_child fs d (Suc j)) iter' \<and> unchanged fs fs'" if it: "it_len it = it_len iter" for it
    proof -
      have "\<exists>iter' fs'. readdir_loop fs2 e2 it name2 (index_off fs2 (Suc j)) (length d) ?add = (0, iter', fs')
          \<and> listed fs2 d (length name2) (it_len it) (next_child fs2 d (Suc j)) iter' \<and> unchanged fs2 fs'"
      proof (rule less.hyps)
        show "index_size fs2 - Suc j < index_size fs - i" using j(2,3) s2(5) by simp
      qed (use dir_ok_after [OF u2 less.prems(1)] n2 j(3) s2(5) names_fit_after [OF u2] less.prems it td ps(2) in simp_all)
      then show ?thesis
        unfolding step_q using next_child_after [OF u2] listed_after [OF u2] it n2(2) ps(2) after_trans [OF u2] s2(1,3) by auto
    qed
    have here: "next_child fs d j = (if leaf_of d ?n then Some q else next_child fs d (Suc j))"
      using next_child_Suc [OF j(3), of d] ch j(1) by simp
    have eq: "readdir_loop fs e iter name (index_off fs i) (length d) ?add =
        (if step = ITER_RESTART then readdir_loop fs2 e2 iter2 name2 (q + 64) (length d) ?add
         else if is_correct_filepath name2 \<noteq> 0 then readdir_loop fs2 e2 (iter2\<lparr>it_cur_off := q + 64\<rparr>) name2 (q + 64) (length d) ?add
         else (0, iter2\<lparr>it_cur_off := q + 64, it_filename := Some name2\<rparr>, SET_ERRNO 0 fs2))"
      using m(1) Some q(2) b up st by (subst readdir_loop_eq) auto
    consider (restart) "step = ITER_RESTART" "\<not> leaf_of d ?n" | (bad) "step = ITER_GO" "is_correct_filepath name2 \<noteq> 0" "\<not> leaf_of d ?n"
      | (take) "step = ITER_GO" "is_correct_filepath name2 = 0" "leaf_of d ?n"
      using st correct pre unfolding leaf_of_def by (cases "is_correct_filepath name2 = 0") (auto split: if_splits)
    then show ?thesis
    proof cases
      case restart
      then show ?thesis using eq go_on [OF l2] skip here by simp
    next
      case bad
      then show ?thesis using eq go_on [of "iter2\<lparr>it_cur_off := q + 64\<rparr>"] l2 skip here by simp
    next
      case take
      have "iter_at (entry_at fs) q (iter2\<lparr>it_cur_off := q + 64, it_filename := Some name2\<rparr>)"
        using at2 [OF take(1)] by (simp add: iter_at_def)
      then show ?thesis using eq take skip here u2 l2 n2 td ps(2) by (simp add: listed_def)
    qed
  qed
qed

lemma sfs_readdir_ok:
  assumes ok: "dir_ok fs" and len: "length e = 64" and name: "it_filename iter = Some name" "length name = unat (it_len iter)"
    and fit: "names_fit fs (it_len iter)" "unat (it_len iter) \<le> 16000"
    and d: "cstr name = d" "length d + 1 < unat (it_len iter)" "is_correct_filepath name = 0"
      "lookup_dir fs d = Some p" "cont_entries (entry_at fs p) = 0"
    and off: "it_cur_off iter = 0 \<and> i = 0 \<or> it_cur_off iter = index_off fs i \<and> i \<le> index_size fs"
  obtains iter' fs' where "sfs_readdir fs e iter = (0, iter', fs')" "listed fs d (length name) (it_len iter) (next_child fs d i) iter'"
    "unchanged fs fs'"
proof -
  have dd: "fs_ok fs" "dir_names_ok fs" using ok by (simp_all add: dir_ok_def)
  have "cstr d = cstr name" using d(1) cstr_no_nul [of name] cstr_id by metis
  then have ld: "lookup_dir fs name = lookup_dir fs d" unfolding lookup_def by (intro find_cong) (simp add: has_name_def)
  obtain e1 fs1 where s: "search_dir fs name e = (found (lookup_dir fs name), e1, fs1)" "length e1 = 64" "unchanged fs fs1"
    by (rule search_dir_plain [OF dd len, of name]) (use ld d(4,5) after_same_errno in auto)
  note s1 = after_sel [OF s(3)]
  have nz: "found (lookup_dir fs name) \<noteq> 0" using lookup_Some(2) [OF dd(1) d(4)] d(4) ld by simp
  have i: "i \<le> index_size fs" using off by auto
  have o: "(if it_cur_off iter = 0 then entry_start fs1 else it_cur_off iter) = index_off fs1 i"
    using off index_off_nonzero [OF dd(1) i] s1 by (auto simp: index_off_0)
  have nl: "strnlen name (unat (it_len iter)) = length d" using d(1,2) by (simp add: strnlen_cstr)
  have td: "take (length d) name = d" "0 \<notin> set d" using take_cstr [of "length d" name] d(1) cstr_no_nul [of name] by auto
  have "\<exists>iter' fs'. readdir_loop fs1 e1 iter name (index_off fs1 i) (length d) (if length d = 0 then 0 else 1) = (0, iter', fs')
      \<and> listed fs1 d (length name) (it_len iter) (next_child fs1 d i) iter' \<and> unchanged fs1 fs'"
    by (rule readdir_loop_ok) (use dir_ok_after [OF s(3) ok] s(2) i s1 names_fit_after [OF s(3)] fit name td d(2) in simp_all)
  then obtain iter' fs' where r: "readdir_loop fs1 e1 iter name (index_off fs1 i) (length d) (if length d = 0 then 0 else 1) = (0, iter', fs')"
    "listed fs d (length name) (it_len iter) (next_child fs d i) iter'" "unchanged fs1 fs'"
    using next_child_after [OF s(3)] listed_after [OF s(3)] by auto
  have "sfs_readdir fs e iter = (0, iter', fs')"
    using name(1) d(3) s(1) nz o nl r(1) by (simp add: sfs_readdir_def Let_def)
  moreover have "unchanged fs fs'" using after_trans [OF s(3)] r(3) s1 by simp
  ultimately show ?thesis using that r(2) by blast
qed

end
