(* ===== verification/Listing.thy ===== *)
theory Listing
  imports Readdir FuseMount InodeNumbers
begin

text \<open>
  The listing of a directory by \<open>fuse_sfs_readdir\<close> (src/fuse/main.c), the loop over the calls of
  \<open>sfs_readdir\<close>: the entries of the directory in the order of the index, each once.
\<close>

section \<open>The entries from a slot on\<close>

definition children :: "fs \<Rightarrow> bytes \<Rightarrow> nat \<Rightarrow> u64 list" where
  "children fs d i = filter (child (entry_at fs) d) (map (index_off fs) [i..<index_size fs])"

lemma children_after: "unchanged fs fs' \<Longrightarrow> children fs' = children fs"
  by (rule ext)+ (simp add: children_def after_sel)

lemma next_child_cases:
  obtains (none) "next_child fs d i = None" "children fs d i = []"
  | (some) j where "next_child fs d i = Some (index_off fs j)" "i \<le> j" "j < index_size fs"
      "children fs d i = index_off fs j # children fs d (Suc j)"
proof (induction "index_size fs - i" arbitrary: i thesis)
  case 0
  then show ?case by (simp add: next_child_def children_def)
next
  case (Suc k)
  then have i: "i < index_size fs" by simp
  have c: "children fs d i = (if child (entry_at fs) d (index_off fs i) then [index_off fs i] else []) @ children fs d (Suc i)"
    using i by (simp add: children_def upt_conv_Cons)
  show ?case
  proof (cases "child (entry_at fs) d (index_off fs i)")
    case True
    then show ?thesis using Suc.prems(2) [of i] i next_child_Suc [OF i] c by simp
  next
    case False
    then have n: "next_child fs d i = next_child fs d (Suc i)" "children fs d i = children fs d (Suc i)"
      using next_child_Suc [OF i] c by simp_all
    have k: "k = index_size fs - Suc i" using Suc.hyps(2) by simp
    show ?thesis
      by (rule Suc.hyps(1) [OF k]) (use Suc.prems n in auto)
  qed
qed

section \<open>What the listing says of an entry\<close>

definition dirent_of :: "(u64 \<Rightarrow> entry) \<Rightarrow> bytes \<Rightarrow> u64 \<Rightarrow> bytes \<times> u64 \<times> u64 \<times> u32" where
  "dirent_of at d q = (drop (length (below_dir d)) (child_name at q),
     if entry_type (at q) = entry_code FILE_ENTRY then file_size (at q) else 0, time_stamp (at q),
     if entry_type (at q) = entry_code FILE_ENTRY then S_IFREG else S_IFDIR)"

text \<open>A caller that keeps what it gets, but for the inode number.\<close>

definition collect :: "(bytes \<times> u64 \<times> u64 \<times> u32) list filler" where
  "collect xs name st = (0, xs @ [(cstr name, st_size st, st_mtime st, st_mode st)])"

section \<open>The loop\<close>

lemma vino_for_frame:
  assumes "map_invar s" and "vino_for p s = (r, s')"
  shows "sfs_description s' = sfs_description s" and "stack s' = stack s" and "map_invar s'"
proof -
  have "sfs_description s' = sfs_description s \<and> stack s' = stack s"
    by (rule vino_for_cases [OF assms(1), of p]) (use assms(2) in simp_all)
  then show "sfs_description s' = sfs_description s" "stack s' = stack s" by simp_all
  show "map_invar s'" by (rule inodes.give_ok [OF assms])
qed

lemma map_invar_upd_fs [simp]: "map_invar (upd_fs fs s) = map_invar s"
  by (simp add: map_invar_def)

lemma child_name_drop:
  assumes "child at d q"
  shows "length (below_dir d) \<le> length (child_name at q)"
  using assms by (auto simp: child_def child_name_def leaf_of_def dest: prefix_length_le)

lemma dir_loop_ok:
  assumes "map_invar s" and "dir_ok (sfs_description s)" and "length (stack s) = 64"
    and "names_fit (sfs_description s) (it_len iter)" and "unat (it_len iter) \<le> 16000"
    and "it_filename iter = Some name" and "length name = unat (it_len iter)" and "cstr name = d"
    and "length d + 1 < unat (it_len iter)" and "is_correct_filepath name = 0"
    and "lookup_dir (sfs_description s) d = Some p" and "cont_entries (entry_at (sfs_description s) p) = 0"
    and "it_cur_off iter = 0 \<and> i = 0 \<or> it_cur_off iter = index_off (sfs_description s) i \<and> i \<le> index_size (sfs_description s)"
  shows "\<exists>r bf' s'. dir_loop collect (length d) s iter bf = (r, bf', s') \<and> unchanged (sfs_description s) (sfs_description s') \<and> map_invar s'
    \<and> (r = 0 \<and> bf' = bf @ map (dirent_of (entry_at (sfs_description s)) d) (children (sfs_description s) d i)
       \<or> r = - ENOMEM \<and> (\<exists>k. bf' = bf @ take k (map (dirent_of (entry_at (sfs_description s)) d) (children (sfs_description s) d i))))"
  using assms
proof (induction "index_size (sfs_description s) - i" arbitrary: s iter name i bf rule: less_induct)
  case less
  let ?fs = "sfs_description s"
  have dd: "fs_ok ?fs" using less.prems(2) by (simp add: dir_ok_def)
  obtain iter1 fs1 where r: "sfs_readdir ?fs (stack s) iter = (0, iter1, fs1)"
    "listed ?fs d (length name) (it_len iter) (next_child ?fs d i) iter1" "unchanged ?fs fs1"
    by (rule sfs_readdir_ok [OF less.prems(2,3,6,7,4,5,8-13)])
  note s1 = after_sel [OF r(3)]
  show ?case
  proof (rule next_child_cases [of ?fs d i])
    assume n: "next_child ?fs d i = None" "children ?fs d i = []"
    then have "it_filename iter1 = None" using r(2) by (simp add: listed_def)
    then have "dir_loop collect (length d) s iter bf = (0, bf, upd_fs fs1 s)" using r(1) by (subst dir_loop.simps) simp
    then show ?thesis using r(3) less.prems(1) n(2) by simp
  next
    fix j assume n: "next_child ?fs d i = Some (index_off ?fs j)" "i \<le> j" "j < index_size ?fs"
      "children ?fs d i = index_off ?fs j # children ?fs d (Suc j)"
    let ?q = "index_off ?fs j" and ?at = "entry_at ?fs"
    obtain name1 where l: "it_len iter1 = it_len iter" "iter_at ?at ?q iter1" "it_filename iter1 = Some name1"
      "cstr name1 = child_name ?at ?q" "length name1 = length name" "take (length d) name1 = d"
      using r(2) n(1) by (auto simp: listed_def)
    have off1: "it_cur_off iter1 = index_off ?fs (Suc j)" using l(2) by (simp add: iter_at_def index_off_Suc)
    obtain v s2 where vf: "vino_for (it_cur_off iter1) (upd_fs fs1 s) = (v, s2)" by (cases "vino_for (it_cur_off iter1) (upd_fs fs1 s)")
    have m1: "map_invar (upd_fs fs1 s)" using less.prems(1) by simp
    note f2 = vino_for_frame [OF m1 vf]
    show ?thesis
    proof (cases v)
      case None
      have "dir_loop collect (length d) s iter bf = (- ENOMEM, bf, s2)"
        using r(1) l(3) vf None by (subst dir_loop.simps) simp
      then show ?thesis using r(3) f2 by (intro exI [of _ "- ENOMEM"] exI [of _ bf] exI [of _ s2]) (auto intro: exI [of _ 0])
    next
      case (Some w)
      have ch: "child ?at d ?q" using n(4) by (metis children_def filter_eq_ConsD)
      have ld: "length d + (if length d = 0 then 0 else 1) = length (below_dir d)" by (simp add: below_dir_def)
      have nm: "cstr (drop (length d + (if length d = 0 then 0 else 1)) name1) = drop (length (below_dir d)) (child_name ?at ?q)"
        using cstr_drop_le [of "length (below_dir d)" name1] child_name_drop [OF ch] l(4) unfolding ld by simp
      let ?it = "iter1\<lparr>it_filename := Some (name1[length d := 0])\<rparr>"
      have step: "dir_loop collect (length d) s iter bf = dir_loop collect (length d) s2 ?it (bf @ [dirent_of ?at d ?q])"
        using r(1) l(2,3) vf Some nm
        by (subst dir_loop.simps) (simp add: collect_def dirent_of_def iter_at_def)
      have room: "length d < length name1" using l(5) less.prems(7,9) by simp
      have nd: "0 \<notin> set d" using less.prems(8) cstr_no_nul by blast
      have cd: "cstr (name1[length d := 0]) = d"
        using cstr_take [of "length d" "name1[length d := 0]"] l(6) nd room by simp
      have correct: "is_correct_filepath (name1[length d := 0]) = 0"
        using less.prems(8,10) cd by (simp add: is_correct_filepath_iff)
      have u2: "unchanged ?fs (sfs_description s2)" using f2(1) r(3) by simp
      note s2 = after_sel [OF u2]
      have "\<exists>r bf' s'. dir_loop collect (length d) s2 ?it (bf @ [dirent_of ?at d ?q]) = (r, bf', s')
        \<and> unchanged (sfs_description s2) (sfs_description s') \<and> map_invar s'
        \<and> (r = 0 \<and> bf' = (bf @ [dirent_of ?at d ?q]) @ map (dirent_of (entry_at (sfs_description s2)) d) (children (sfs_description s2) d (Suc j))
           \<or> r = - ENOMEM \<and> (\<exists>k. bf' = (bf @ [dirent_of ?at d ?q]) @ take k (map (dirent_of (entry_at (sfs_description s2)) d) (children (sfs_description s2) d (Suc j)))))"
      proof (rule less.hyps [where name = "name1[length d := 0]"])
        show "index_size (sfs_description s2) - Suc j < index_size ?fs - i" using n(2,3) s2(5) by simp
        show "dir_ok (sfs_description s2)" by (rule dir_ok_after [OF u2 less.prems(2)])
        show "it_cur_off ?it = 0 \<and> Suc j = 0 \<or> it_cur_off ?it = index_off (sfs_description s2) (Suc j) \<and> Suc j \<le> index_size (sfs_description s2)"
          using off1 n(3) s2(5,6) by simp
        show "lookup_dir (sfs_description s2) d = Some p" using lookup_after [OF u2] less.prems(11) by simp
      qed (use f2 less.prems names_fit_after [OF u2] l(1,5) cd correct s2(1) in simp_all)
      then obtain r' bf' s' where h: "dir_loop collect (length d) s2 ?it (bf @ [dirent_of ?at d ?q]) = (r', bf', s')"
        "unchanged (sfs_description s2) (sfs_description s')" "map_invar s'"
        "r' = 0 \<and> bf' = (bf @ [dirent_of ?at d ?q]) @ map (dirent_of ?at d) (children ?fs d (Suc j))
           \<or> r' = - ENOMEM \<and> (\<exists>k. bf' = (bf @ [dirent_of ?at d ?q]) @ take k (map (dirent_of ?at d) (children ?fs d (Suc j))))"
        using children_after [OF u2] s2(1) by auto
      have u: "unchanged ?fs (sfs_description s')" using after_trans [OF u2] h(2) s2(1,3) by simp
      have "r' = 0 \<and> bf' = bf @ map (dirent_of ?at d) (children ?fs d i)
           \<or> r' = - ENOMEM \<and> (\<exists>k. bf' = bf @ take k (map (dirent_of ?at d) (children ?fs d i)))"
        using h(4)
      proof (elim disjE conjE exE)
        fix k assume k: "r' = - ENOMEM" "bf' = (bf @ [dirent_of ?at d ?q]) @ take k (map (dirent_of ?at d) (children ?fs d (Suc j)))"
        then show ?thesis using n(4) by (intro disjI2 conjI exI [of _ "Suc k"]) simp_all
      qed (use n(4) in simp)
      then show ?thesis using step h(1,3) u by auto
    qed
  qed
qed

section \<open>The handler\<close>

lemma new_path_ok:
  assumes "0 \<notin> set d" and "length d < PATH_MAX - 1"
  shows "cstr (new_path d) = d" and "length (new_path d) = PATH_MAX"
proof -
  let ?xs = "d @ replicate (PATH_MAX - length d) (0 :: byte)"
  have "replicate (PATH_MAX - length d) (0 :: byte) = replicate (PATH_MAX - 1 - length d) 0 @ [0]"
    using assms(2) replicate_append_same [of "PATH_MAX - 1 - length d" "0 :: byte"] by (simp add: PATH_MAX_def flip: replicate_Suc)
  then have "strncpy (replicate PATH_MAX 0) d (PATH_MAX - 1) = ?xs"
    using assms by (simp add: strncpy_eq mem_put_def patch_def cstr_id PATH_MAX_def)
  moreover have "?xs[PATH_MAX - 1 := 0] = ?xs" using assms(2) by (intro list_update_same_conv [THEN iffD2]) (simp_all add: nth_append)
  ultimately have "new_path d = ?xs" by (simp add: new_path_def)
  then show "cstr (new_path d) = d" "length (new_path d) = PATH_MAX" using assms cstr_padded by simp_all
qed

end
