(* ===== verification/FuseProps.thy ===== *)
theory FuseProps
  imports Handlers VolumeProps Listing
begin

text \<open>
  The properties of the handlers of src/fuse/main.c: the numbers of the entries, files that are
  unlinked while they are open, and the listing of a directory.
\<close>

section \<open>A mounted sample volume\<close>

definition sample_mount :: fuse_state where
  "sample_mount = \<lparr>sfs_description = hello_volume,
     imap = \<lparr>max_vino = 1, c_size = 1024, map_lock = UNLOCKED,
       inode_table = replicate 1024 \<lparr>f_pino = 0, f_dirty = 0, f_openbit = 0, f_lock = NO_LOCK\<rparr>\<rparr>,
     mem = (\<lambda>_. None), lock_ret = 0, stack = sample_buffer\<rparr>"

text \<open>No two numbers stand for one entry; 0 is the entry of the numbers of deleted files.\<close>

definition unique_numbers :: "fuse_state \<Rightarrow> bool" where
  "unique_numbers s \<longleftrightarrow> (\<forall>v w p. number_of s v = Some p \<and> number_of s w = Some p \<and> p \<noteq> 0 \<longrightarrow> v = w)"

lemma unique_numbers_iff: "unique_numbers s = inodes.unique s"
  by (simp add: unique_numbers_def inodes.unique_def)

lemma sample_mount_ok [simp]:
  "map_invar sample_mount" "unique_numbers sample_mount" "number_of sample_mount v = None"
  by (auto simp: sample_mount_def map_invar_def map_ok_def mem_ok_def unique_numbers_def number_of_def numbers_def)

section \<open>Numbers of entries\<close>

text \<open>C37: The number that \<open>get_vino\<close> and \<open>pino_add\<close> give an entry is given again to the same entry,
  stays with it when \<open>set_pino\<close> records a rename, and no other number changes.\<close>

theorem numbers_follow_their_entries:
  assumes "map_invar s" and "unique_numbers s" and "p \<noteq> 0" and "vino_for p s = (Some v, s1)"
    and "q \<noteq> 0" and "\<forall>w. number_of s1 w \<noteq> Some q"
  shows "number_of s1 v = Some p \<and> (\<forall>w. number_of s w \<noteq> None \<longrightarrow> number_of s1 w = number_of s w)
    \<and> vino_for p s1 = (Some v, s1) \<and> vino_for q (renumber v q s1) = (Some v, renumber v q s1)
    \<and> (\<forall>w. w \<noteq> v \<longrightarrow> number_of (renumber v q s1) w = number_of s1 w)"
proof -
  note u = assms(2) [unfolded unique_numbers_iff]
  have "map_invar s1" by (rule inodes.give_ok [OF assms(1,4)])
  then have "number_of (renumber v q s1) = (number_of s1)(v \<mapsto> q)"
    using inodes.move_law [of s1 v q] inodes.give_num(1) [OF assms(1,4)] by simp
  then show ?thesis
    using inodes.give_num [OF assms(1,4)] inodes.give_again [OF assms(1) u assms(3,4)]
      inodes.move_follows [OF assms(1) u assms(3-6)] by simp
qed

theorem numbers_follow_their_entries_witness:
  "\<exists>s1. vino_for 704 sample_mount = (Some 1, s1) \<and> vino_for 704 s1 = (Some 1, s1)
     \<and> vino_for 832 (renumber 1 832 s1) = (Some 1, renumber 1 832 s1)"
proof (rule vino_for_cases [of sample_mount 704])
  fix m assume h: "vino_for 704 sample_mount = (Some (max_vino (imap sample_mount)), upd_imap m sample_mount)"
    "numbers m = (number_of sample_mount)(max_vino (imap sample_mount) \<mapsto> 704)"
  have "max_vino (imap sample_mount) = 1" by (simp add: sample_mount_def)
  moreover have "number_of (upd_imap m sample_mount) w \<noteq> Some 832" for w using h(2) sample_mount_ok(3) [of w, unfolded number_of_def] by (simp add: number_of_def)
  ultimately show ?thesis
    using numbers_follow_their_entries [of sample_mount 704 1 "upd_imap m sample_mount" 832] h(1) by simp
next
  assume "vino_for 704 sample_mount = (None, sample_mount)"
  then show ?thesis
    by (simp add: vino_for_def sample_mount_def get_vino_def pino_add_def inode_map_resize_def inode_lock_init_def rwlock_init_def Let_def)
qed simp_all

section \<open>Open files that are unlinked\<close>

lemma cell_bound: "map_invar s \<Longrightarrow> number_of s v \<noteq> None \<Longrightarrow> v < max_vino (imap s) \<and> unat v < length (inode_table (imap s))"
  by (auto simp: number_of_def numbers_def map_invar_def map_ok_def word_less_nat_alt split: if_splits)

lemma upd_cell_at:
  "unat v < length (inode_table m) \<Longrightarrow> inode_table (upd_cell v f m) ! unat v = f (inode_table m ! unat v)"
  by (simp add: nth_upd_cell)

lemma fuse_open_file:
  assumes vol: "volume_ok (sfs_description s) ps" and inv: "map_invar s" "unique_numbers s" and len: "length (stack s) = 64"
    and path: "padded (tl path)" and found: "lookup_file (sfs_description s) (tl path) = Some p"
    and opened: "fuse_sfs_open path fh0 s = (0, fh, s1)"
  shows "unchanged (sfs_description s) (sfs_description s1)" and "number_of s1 fh = Some p"
    and "get_vino p (imap s1) = fh" and "get_openbit fh (imap s1) = 1"
    and "map_invar s1" and "unique_numbers s1" and "stack s1 = stack s" and "p \<noteq> 0" and "fh \<noteq> 0"
proof -
  note d = volume_okD(1,2) [OF vol]
  have dn: "dir_names_ok (sfs_description s)" using d(2) by (simp add: dir_ok_def)
  show p: "p \<noteq> 0" by (rule lookup_Some(2) [OF d(1) found])
  obtain fs1 where o: "sfs_open (sfs_description s) (stack s) (tl path) = (p, fs1)" "unchanged (sfs_description s) fs1"
    by (rule sfs_open_ok [OF d(1) dn len path]) (use found in simp)
  let ?s = "upd_fs fs1 s"
  have inv': "map_invar ?s" "unique_numbers ?s"
    using inv by (simp_all add: map_invar_def unique_numbers_def number_of_def)
  obtain s2 where v: "vino_for p ?s = (Some fh, s2)" "s1 = upd_imap (set_openbit fh (imap s2)) s2"
    using opened o(1) p by (auto simp: fuse_sfs_open_def ENOMEM_def split: prod.splits option.splits)
  have s2: "sfs_description s2 = fs1" "stack s2 = stack s" "mem s2 = mem s" "lock_ret s2 = lock_ret s"
    using v(1) by (auto simp: vino_for_def Let_def split: prod.splits if_splits)
  have i2: "map_invar s2" "number_of s2 fh = Some p" "unique_numbers s2"
    using inodes.give_ok [OF inv'(1) v(1)] inodes.give_num(1) [OF inv'(1) v(1)]
      inodes.give_again [OF inv'(1) inv'(2) [unfolded unique_numbers_iff] p v(1)] by (simp_all add: unique_numbers_iff)
  note b = cell_bound [OF i2(1), of fh]
  have m2: "map_ok (imap s2)" "numbers (imap s2) fh = Some p" using i2 by (simp_all add: map_invar_def number_of_def)
  have n: "numbers (imap s1) = numbers (imap s2)"
    using numbers_upd [OF m2(1), of fh] m2(2) v(2) by (auto simp: set_openbit_def numbers_def fun_eq_iff split: if_splits)
  show "unchanged (sfs_description s) (sfs_description s1)" using o(2) v(2) s2(1) by simp
  show nf: "number_of s1 fh = Some p" using n m2(2) by (simp add: number_of_def)
  then show "fh \<noteq> 0" by (auto simp: number_of_def numbers_def)
  show "map_invar s1" using i2(1) v(2) by (simp add: map_invar_def set_openbit_def)
  show u1: "unique_numbers s1" using i2(3) n by (simp add: unique_numbers_def number_of_def)
  show "stack s1 = stack s" using v(2) s2 by simp
  show "get_openbit fh (imap s1) = 1"
    using b i2(2) v(2) by (simp add: get_openbit_def set_openbit_def upd_cell_at)
  have "map_ok (imap s1)" using m2(1) v(2) by (simp add: set_openbit_def)
  then show "get_vino p (imap s1) = fh"
  proof (rule get_vino_cases [of _ p])
    fix w assume "get_vino p (imap s1) = w" "numbers (imap s1) w = Some p"
    then show ?thesis using u1 nf p by (auto simp: unique_numbers_def number_of_def)
  qed (use nf in \<open>simp add: number_of_def\<close>)
qed

lemma unlink_open_file:
  assumes vol: "volume_ok (sfs_description s) ps" and inv: "map_invar s" "unique_numbers s" and len: "length (stack s) = 64"
    and path: "padded (tl path)" "is_correct_filepath (tl path) = 0"
    and found: "lookup_file (sfs_description s) (tl path) = Some p"
    and opened: "fuse_sfs_open path fh0 s = (0, fh, s1)"
  obtains s2 where "fuse_sfs_unlink path s1 = (0, s2)" "lookup_file (sfs_description s2) (tl path) = None"
    "files_of (sfs_description s2) = files_of (sfs_description s)" "volume_ok (sfs_description s2) ps"
    "unlinked (sfs_description s2) p" "number_of s2 fh = Some p" "get_dirty fh (imap s2) = 1" "map_invar s2" "length (stack s2) = 64"
proof -
  note o = fuse_open_file [OF vol inv len path(1) found opened]
  let ?fs = "sfs_description s1"
  have vol1: "volume_ok ?fs ps" and lk: "lookup_file ?fs (tl path) = Some p" and files: "files_of ?fs = files_of (sfs_description s)"
    using volume_unchanged(1) [OF vol o(1)] lookup_after [OF o(1)] found files_unchanged [OF vol o(1)] by simp_all
  have len1: "length (stack s1) = 64" using o(7) len by simp
  obtain fs2 where u: "sfs_unlink ?fs (stack s1) (tl path) = (p, fs2)"
    by (rule sfs_unlink_ok [OF volume_okD(2) [OF vol1] len1 path(1)]) (use path(2) lk in auto)
  note f = sfs_unlink_files [OF vol1 len1 path(1) u o(8)]
  have cell: "\<not> max_vino (imap s1) \<le> fh" "unat fh < length (inode_table (imap s1))"
    using cell_bound [OF o(5), of fh] o(2) by (simp_all add: not_le)
  define m where "m = upd_cell fh (\<lambda>c. c\<lparr>f_dirty := 1\<rparr>) (imap s1)"
  have "fuse_sfs_unlink path s1 = (0, upd_imap m (upd_fs fs2 s1))"
    using u o(3,4,8,9) cell(1) by (simp add: fuse_sfs_unlink_def set_dirty_def m_def Let_def)
  moreover have "number_of (upd_imap m (upd_fs fs2 s1)) fh = Some p" "get_dirty fh m = 1" "map_invar (upd_imap m (upd_fs fs2 s1))"
    using cell o(2,5) by (auto simp: m_def get_dirty_def upd_cell_at number_of_def numbers_def map_invar_def split: if_splits)
  ultimately show ?thesis
    using f(1,3,4) f(5) [of "tl path"] files len1 by (intro that [of "upd_imap m (upd_fs fs2 s1)"]) simp_all
qed

text \<open>C15: Unlinking a file that is open through the handle \<open>fh\<close> succeeds and takes its name, while
  the bytes of all files stay, the handle still stands for the file, and no block is freed.\<close>

theorem unlink_of_an_open_file:
  assumes "volume_ok (sfs_description s) ps" and "map_invar s" and "unique_numbers s" and "length (stack s) = 64"
    and "padded (tl path)" and "is_correct_filepath (tl path) = 0"
    and "lookup_file (sfs_description s) (tl path) = Some p"
    and "fuse_sfs_open path fh0 s = (0, fh, s1)"
  shows "\<exists>s2. fuse_sfs_unlink path s1 = (0, s2) \<and> lookup_file (sfs_description s2) (tl path) = None
    \<and> files_of (sfs_description s2) = files_of (sfs_description s) \<and> volume_ok (sfs_description s2) ps
    \<and> number_of s2 fh = Some p \<and> get_dirty fh (imap s2) = 1 \<and> unlinked (sfs_description s2) p"
  by (rule unlink_open_file [OF assms]) blast

lemma open_hello:
  obtains s1 where "fuse_sfs_open [0x2F, 0x61, 0x62] fh sample_mount = (0, 1, s1)" "max_vino (imap s1) = 2"
proof -
  have d: "dir_ok hello_volume" using volume_okD(2) [OF sample_volume_ok'(2)] .
  obtain fs1 where o: "sfs_open hello_volume sample_buffer [0x61, 0x62] = (704, fs1)"
    using sfs_open_ok [of hello_volume sample_buffer "[0x61, 0x62]"] d
    by (auto simp: dir_ok_def sample_lookup padded_pure cstr_id)
  show ?thesis
    using that o by (simp add: fuse_sfs_open_def sample_mount_def vino_for_def get_vino_def pino_add_def set_openbit_def inode_lock_init_def rwlock_init_def Let_def)
qed

theorem unlink_of_an_open_file_witness:
  "\<exists>fh s1 s2. fuse_sfs_open [0x2F, 0x61, 0x62] 0 sample_mount = (0, fh, s1) \<and> fuse_sfs_unlink [0x2F, 0x61, 0x62] s1 = (0, s2)
     \<and> lookup_file (sfs_description s2) [0x61, 0x62] = None \<and> number_of s2 fh = Some 704
     \<and> files_of (sfs_description s2) 704 = Some [0x68, 0x65, 0x6C, 0x6C, 0x6F]"
proof -
  obtain s1 where o: "fuse_sfs_open [0x2F, 0x61, 0x62] 0 sample_mount = (0, 1, s1)" by (rule open_hello)
  have d: "sfs_description sample_mount = hello_volume" "stack sample_mount = sample_buffer" by (simp_all add: sample_mount_def)
  have c: "padded [0x61, 0x62]" "is_correct_filepath [0x61, 0x62] = 0"
    by (simp_all add: padded_pure is_correct_filepath_def is_correct_char_def)
  from unlink_of_an_open_file [of sample_mount "[576]" "[0x2F, 0x61, 0x62]" 704 0 1 s1] o c show ?thesis
    by (auto simp: d sample_lookup cstr_id hello_files)
qed

section \<open>The last release\<close>

text \<open>C16: When the handle of an unlinked file is released, the file is deleted: its blocks are free
  again, no other file changes, and the number is out of use.\<close>

theorem release_deletes_the_file:
  assumes vol: "volume_ok (sfs_description s) ps" and inv: "map_invar s" and len: "length (stack s) = 64"
    and fh: "number_of s fh = Some p" "get_dirty fh (imap s) = 1" and un: "unlinked (sfs_description s) p"
  shows "\<exists>s' ps'. fuse_sfs_release fh s = (0, s') \<and> volume_ok (sfs_description s') ps'
    \<and> files_of (sfs_description s') = (files_of (sfs_description s))(p := None)
    \<and> blocks (entry_at (sfs_description s')) ps'
        = blocks (entry_at (sfs_description s)) ps \<union> file_ext (entry_at (sfs_description s) p)
    \<and> number_of s' fh = Some 0 \<and> get_openbit fh (imap s') = 0"
proof -
  let ?fs = "sfs_description s"
  have own: "owns ?fs ps p" "entry_type (entry_at ?fs p) = entry_code DEL_FILE_ENTRY"
    using un volume_unique [OF vol] by (auto simp: unlinked_def)
  have f: "files_of (snd (sfs_delete ?fs (stack s) p)) = (files_of ?fs)(p := None)"
    using volume.remove_law [of ?fs p "stack s"] vol un len by (auto simp: delete_file_def in_order_def)
  obtain fs' ps' where d: "sfs_delete ?fs (stack s) p = (0, fs')" "volume_ok fs' ps'"
    "blocks (entry_at fs') ps' = blocks (entry_at ?fs) ps \<union> file_ext (entry_at ?fs p)"
    by (rule sfs_delete_ok [OF vol len own])
  have cell: "\<not> max_vino (imap s) \<le> fh" "unat fh < length (inode_table (imap s))"
    using cell_bound [OF inv, of fh] fh(1) by (simp_all add: not_le)
  have gp: "get_pino fh (imap s) = p"
    using fh(1) cell by (simp add: get_pino_def number_of_def numbers_def split: if_splits)
  let ?m = "clr_openbit fh (upd_cell fh (\<lambda>c. c\<lparr>f_pino := 0\<rparr>) (imap s))"
  have "fuse_sfs_release fh s = (0, upd_imap ?m (upd_fs fs' s))"
    using fh(2) gp d(1) cell(1) by (simp add: fuse_sfs_release_def set_pino_def Let_def)
  moreover have "number_of (upd_imap ?m (upd_fs fs' s)) fh = Some 0" "get_openbit fh ?m = 0"
    using fh(1) cell
    by (auto simp: number_of_def numbers_def clr_openbit_def get_openbit_def upd_cell_at split: if_splits)
  ultimately show ?thesis using d f by (intro exI [of _ "upd_imap ?m (upd_fs fs' s)"] exI [of _ ps']) simp
qed

theorem release_deletes_the_file_witness:
  "\<exists>s1 s2 s3. fuse_sfs_open [0x2F, 0x61, 0x62] 0 sample_mount = (0, 1, s1) \<and> fuse_sfs_unlink [0x2F, 0x61, 0x62] s1 = (0, s2)
     \<and> fuse_sfs_release 1 s2 = (0, s3) \<and> files_of (sfs_description s3) 704 = None"
proof -
  obtain s1 where o: "fuse_sfs_open [0x2F, 0x61, 0x62] 0 sample_mount = (0, 1, s1)" by (rule open_hello)
  have d: "sfs_description sample_mount = hello_volume" "stack sample_mount = sample_buffer" by (simp_all add: sample_mount_def)
  have c: "padded [0x61, 0x62]" "is_correct_filepath [0x61, 0x62] = 0"
    by (simp_all add: padded_pure is_correct_filepath_def is_correct_char_def)
  obtain s2 where u: "fuse_sfs_unlink [0x2F, 0x61, 0x62] s1 = (0, s2)" "volume_ok (sfs_description s2) [576]"
    "unlinked (sfs_description s2) 704" "number_of s2 1 = Some 704" "get_dirty 1 (imap s2) = 1" "map_invar s2" "length (stack s2) = 64"
    by (rule unlink_open_file [of sample_mount "[576]" "[0x2F, 0x61, 0x62]" 704 0 1 s1])
      (use o c in \<open>auto simp: d sample_lookup cstr_id\<close>)
  from release_deletes_the_file [OF u(2,6,7,4,5,3)] o u(1) show ?thesis by auto
qed

section \<open>The table of numbers in a session\<close>

text \<open>C13: Along every sequence of calls of the handlers the table of inode numbers stays in order, also where
  it is enlarged or memory runs out; every number it has given stays within it; its locks stay set up and
  free, since no handler takes one; and unmounting at any time destroys every lock that was set up.\<close>

theorem table_holds_until_unmount:
  assumes "fuse_call\<^sup>*\<^sup>* s s'" and "table_inv (mem s) (lock_ret s) (imap s)"
  shows "table_inv (mem s') (lock_ret s') (imap s') \<and> max_vino (imap s) \<le> max_vino (imap s')
    \<and> (\<exists>fs m. fuse_sfs_destroy s' = Some (fs, m) \<and> map_lock m = NO_LOCK
         \<and> (\<forall>v. 0 < v \<and> v < max_vino (imap s') \<longrightarrow> f_lock (inode_table m ! unat v) = NO_LOCK))"
proof -
  have inv: "table_inv (mem s') (lock_ret s') (imap s') \<and> max_vino (imap s) \<le> max_vino (imap s')"
    using session_env [OF assms(1)] assms(2) by (simp add: same_env_def table_step_def)
  then obtain m where "inode_map_delete (imap s') = Some (0, m)" "map_lock m = NO_LOCK"
    "\<forall>v. 0 < v \<and> v < max_vino (imap s') \<longrightarrow> f_lock (inode_table m ! unat v) = NO_LOCK"
    using delete_table by blast
  then show ?thesis using inv by (auto simp: fuse_sfs_destroy_def split: prod.splits)
qed

theorem table_holds_until_unmount_witness:
  "\<exists>s1 fs m. fuse_sfs_open [0x2F, 0x61, 0x62] 0 sample_mount = (0, 1, s1) \<and> fuse_sfs_destroy s1 = Some (fs, m)
     \<and> f_lock (inode_table (imap s1) ! 1) = UNLOCKED \<and> f_lock (inode_table m ! 1) = NO_LOCK"
proof -
  obtain s1 where o: "fuse_sfs_open [0x2F, 0x61, 0x62] 0 sample_mount = (0, 1, s1)" "max_vino (imap s1) = 2"
    by (rule open_hello)
  have "table_inv (mem sample_mount) (lock_ret sample_mount) (imap sample_mount)"
    by (auto simp: sample_mount_def table_inv_def map_ok_def mem_ok_def word_less_nat_alt)
  moreover have "fuse_call\<^sup>*\<^sup>* sample_mount s1" using o(1) by (intro r_into_rtranclp fuse_call.intros(2))
  ultimately obtain fs m where h: "fuse_sfs_destroy s1 = Some (fs, m)" "table_inv (mem s1) (lock_ret s1) (imap s1)"
    "\<forall>v. 0 < v \<and> v < max_vino (imap s1) \<longrightarrow> f_lock (inode_table m ! unat v) = NO_LOCK"
    using table_holds_until_unmount by blast
  have "(0 :: u64) < 1 \<and> (1 :: u64) < max_vino (imap s1)" using o(2) by simp
  then have "f_lock (inode_table (imap s1) ! unat (1 :: u64)) = UNLOCKED" "f_lock (inode_table m ! unat (1 :: u64)) = NO_LOCK"
    using h(2,3) unfolding table_inv_def by blast+
  then show ?thesis using o(1) h(1) by auto
qed

section \<open>Listing a directory\<close>

text \<open>Every call of \<open>sfs_readdir\<close> that finds an entry leaves the iterator at a later offset than it
  found it, so that a listing visits no entry twice and comes to an end; the loop of the handler is a
  total function on that account.\<close>

lemma readdir_moves_forward:
  "case sfs_readdir fs e iter of (r, iter', fs') \<Rightarrow>
     r = -1 \<or> it_filename iter' = None \<or> it_cur_off iter < it_cur_off iter'"
proof -
  obtain r iter' fs' where "sfs_readdir fs e iter = (r, iter', fs')" by (metis prod_cases3)
  then show ?thesis using sfs_readdir_forward [of fs e iter r iter' fs'] by (cases "it_filename iter'") auto
qed

text \<open>C8: \<open>fuse_sfs_readdir\<close> lists a directory: the files and directories whose names are its path, a slash
  and a name without one, in the order of the index, each once, with its size, time and type, and nothing
  else; it changes no entry. Only when no inode number can be had it stops, with \<open>ENOMEM\<close>, after
  the first of them. The names of the volume must fit the buffer, and the path of the directory its entry.\<close>

theorem readdir_lists_the_directory:
  assumes ok: "dir_ok (sfs_description s)" and inv: "map_invar s" and len: "length (stack s) = 64"
    and fit: "names_fit (sfs_description s) 4096" and path: "0 \<notin> set d" "is_correct_filepath d = 0"
    and dir: "lookup_dir (sfs_description s) d = Some p" "cont_entries (entry_at (sfs_description s) p) = 0"
  shows "\<exists>r xs s'. fuse_sfs_readdir (0x2F # d) collect [] s = (r, xs, s') \<and> map_invar s'
    \<and> entry_at (sfs_description s') = entry_at (sfs_description s)
    \<and> (r = 0 \<and> xs = map (dirent_of (entry_at (sfs_description s)) d)
           (filter (child (entry_at (sfs_description s)) d) (index_offs (sfs_description s)))
       \<or> r = - ENOMEM \<and> (\<exists>k. xs = take k (map (dirent_of (entry_at (sfs_description s)) d)
           (filter (child (entry_at (sfs_description s)) d) (index_offs (sfs_description s))))))"
proof -
  let ?fs = "sfs_description s"
  let ?it = "\<lparr>it_filename = Some (new_path d), it_len = word_of_nat PATH_MAX, it_cur_off = 0, it_size = 0, it_time = 0, it_type = None\<rparr>"
  have "fs_ok ?fs" using ok by (simp add: dir_ok_def)
  note l = lookup_Some(3,4) [OF this dir(1)]
  have "length d + 1 < 4096"
    using fit l path(1) by (auto simp: names_fit_def has_name_def cstr_id)
  then have ld: "length d < PATH_MAX - 1" "length d + 1 < unat (it_len ?it)" by (simp_all add: PATH_MAX_def)
  note np = new_path_ok [OF path(1) ld(1)]
  have il: "unat (it_len ?it) = 4096" "it_len ?it = 4096" by (simp_all add: PATH_MAX_def)
  have "is_correct_filepath (new_path d) = 0" using path np(1) by (simp add: is_correct_filepath_iff cstr_id)
  then have "\<exists>r bf' s'. dir_loop collect (length d) s ?it [] = (r, bf', s') \<and> unchanged ?fs (sfs_description s') \<and> map_invar s'
    \<and> (r = 0 \<and> bf' = [] @ map (dirent_of (entry_at ?fs) d) (children ?fs d 0)
       \<or> r = - ENOMEM \<and> (\<exists>k. bf' = [] @ take k (map (dirent_of (entry_at ?fs) d) (children ?fs d 0))))"
    by (intro dir_loop_ok [OF inv ok len _ _ _ _ np(1) ld(2) _ dir, where i = 0]) (use fit np(2) il in \<open>simp_all add: PATH_MAX_def\<close>)
  moreover have "children ?fs d 0 = filter (child (entry_at ?fs) d) (index_offs ?fs)" by (simp add: children_def index_offs_def)
  moreover have "strlen (new_path d) = length d" using np(1) by (simp add: strlen_cstr)
  ultimately show ?thesis using after_sel(1) by (auto simp: fuse_sfs_readdir_def Let_def)
qed

theorem readdir_lists_the_directory_witness:
  "\<exists>r xs s'. fuse_sfs_readdir [0x2F] collect [] sample_mount = (r, xs, s')
     \<and> (r = - ENOMEM \<or> map fst xs = [[0x61, 0x62], [0x64]])"
proof -
  have d: "sfs_description sample_mount = hello_volume" "length (stack sample_mount) = 64" by (simp_all add: sample_mount_def)
  have i: "index_offs hello_volume = [512, 576, 640, 704, 768, 832, 896]" by simp
  have n: "names_fit hello_volume 4096" by (simp add: names_fit_def)
  show ?thesis
    using readdir_lists_the_directory [of sample_mount "[]" 640] n
    by (auto simp: d sample_lookup cstr_def is_correct_filepath_def dirent_of_def child_def leaf_of_def below_dir_def child_name_def is_correct_char_def)
qed

end
