(* ===== verification/UtilProps.thy ===== *)
theory UtilProps
  imports Mksfs "HOL-Library.Sublist"
begin

text \<open>
  The properties of src/lib/sfs/utils.c against the C library it replaces, and of the boot block:
  the checksum that src/lib/mksfs.c stores and the one that sfs_init.c asks for.
\<close>

section \<open>Strings and memory\<close>

text \<open>C32: \<open>memcpy\<close> of a range onto one that does not overlap it, in units of 4, 2 or 1 bytes as the
  alignment allows, copies the bytes of the range and nothing else.\<close>

theorem memcpy_copies:
  assumes "0 < src" and "0 < dst" and "src + n \<le> length mem" and "dst + n \<le> length mem"
    and "src + n \<le> dst \<or> dst + n \<le> src"
  shows "memcpy mem dst src n = (dst, take dst mem @ take n (drop src mem) @ drop (dst + n) mem)"
proof -
  have "copy_units u mem dst src n = take dst mem @ take n (drop src mem) @ drop (dst + n) mem"
    if "u = 1 \<or> u = 2 \<and> W_ALIGNED n \<or> u = 4 \<and> D_ALIGNED n" for u
  proof -
    have "0 < u" "u dvd n" using that by (auto simp: D_ALIGNED_def W_ALIGNED_def dvd_eq_mod_eq_0)
    from copy_units_disjoint [OF this assms(3-5)] show ?thesis using assms(3) by (simp add: patch_def seg_def)
  qed
  then show ?thesis using assms(1,2) by (simp add: memcpy_def)
qed

theorem memcpy_copies_witness:
  "memcpy [0, 1, 2, 3, 4, 5, 6, 7, 8, 9, 10, 11] 8 4 4 = (8, [0, 1, 2, 3, 4, 5, 6, 7, 4, 5, 6, 7])"
  using memcpy_copies [of 4 8 4 "[0, 1, 2, 3, 4, 5, 6, 7, 8, 9, 10, 11]"] by simp

text \<open>C33: \<open>memset\<close> on aligned memory fills it with copies of the 32-bit number \<open>15 * c\<close>, since the
  shifts of the pattern are by \<open>sizeof(uint8_t)\<close> bits and not by bytes: \<open>memset(p, 1, 4)\<close> stores
  15, 0, 0, 0.\<close>

theorem memset_pattern:
  assumes "0 < dst" and "4 dvd dst" and "dst + 4 * k \<le> length mem"
  shows "memset mem dst c (4 * k)
    = (dst, take dst mem @ concat (replicate k (nat_to_le 4 (15 * unat (word_of_int c :: byte)))) @ drop (dst + 4 * k) mem)"
proof -
  let ?z = "word_of_int c :: byte"
  let ?w = "push_bit 3 (ucast ?z) + push_bit 2 (ucast ?z) + push_bit 1 (ucast ?z) + ucast ?z :: u32"
  have b: "unat ?z < 256" using unsigned_less [of ?z, where ?'a = nat] by simp
  have "?w = 15 * ucast ?z" by (simp add: push_bit_eq_mult)
  also have "unat \<dots> = 15 * unat ?z" using b by (simp add: unat_word_ariths unsigned_ucast_eq take_bit_eq_mod)
  finally have w: "unat ?w = 15 * unat ?z" .
  have len: "length (concat (replicate k (nat_to_le 4 n))) = 4 * k" for n by (induction k) auto
  have "fill_units (nat_to_le 4 (unat ?w)) mem dst (4 * k)
      = patch dst (concat (replicate k (nat_to_le 4 (15 * unat ?z)))) mem"
    using fill_units_replicate [of dst "nat_to_le 4 (unat ?w)" k mem] assms(3)
    unfolding w by (simp add: length_0_conv [symmetric] del: length_0_conv nat_to_le.simps)
  then show ?thesis
    using assms(1,2) len
    by (simp add: memset_def Let_def D_ALIGNED_def patch_def dvd_eq_mod_eq_0 del: nat_to_le.simps)
qed

theorem memset_pattern_witness:
  "memset [0, 0, 0, 0, 9, 9, 9, 9] 4 1 4 = (4, [0, 0, 0, 0, 15, 0, 0, 0])"
proof -
  have "nat_to_le 4 15 = [15, 0, 0, 0]" by (simp add: nat_to_le_map upt_rec)
  then show ?thesis
    using memset_pattern [of 4 1 "[0, 0, 0, 0, 9, 9, 9, 9]" 1] by (simp del: nat_to_le.simps)
qed

text \<open>\<open>strcmp\<close> of two strings is 0 exactly if one of them is a prefix of the other, and not only
  if they are equal.\<close>

lemma strcmp_zero_iff:
  "strcmp s1 s2 = 0 \<longleftrightarrow> prefix (cstr s1) (cstr s2) \<or> prefix (cstr s2) (cstr s1)"
proof -
  have le: "prefix xs ys \<or> prefix ys xs \<longleftrightarrow> take (length xs) ys = xs" if "length xs \<le> length ys" for xs ys :: bytes
    using that take_is_prefix [of "length xs" ys] by (auto simp: prefix_def)
  show ?thesis
  proof (cases "length (cstr s1) \<le> length (cstr s2)")
    case True
    show ?thesis
      unfolding strcmp_zero_iff_prefix Let_def min_absorb1 [OF True] le [OF True] take_all [OF order_refl]
      by (rule eq_commute)
  next
    case False
    then have l: "length (cstr s2) \<le> length (cstr s1)" by simp
    show ?thesis
      unfolding strcmp_zero_iff_prefix Let_def min_absorb2 [OF l] disj_commute [of "prefix (cstr s1) (cstr s2)"] le [OF l]
        take_all [OF order_refl] by (rule refl)
  qed
qed

section \<open>The checksum of the boot block\<close>

lemma mksfs_options_bounds:
  assumes "mksfs_options now fsize index_size_s block_size_s label file_name = Inr opts"
  shows "unat (opt_reserved_size opts) < 256"
proof -
  have small: "unat ((if bs \<le> 512 then 512 else bs) div bs) < 256" if "128 < (bs :: u64)" for bs
  proof (cases "bs \<le> 512")
    case True
    have "128 < unat bs" using that by (simp add: word_less_nat_alt)
    then have "512 div unat bs \<le> 512 div 128" by (intro div_le_mono2) auto
    then show ?thesis using True by (simp add: unat_div)
  next
    case False
    then have "unat (bs div bs) = 1" using that by (simp add: unat_div word_less_nat_alt word_le_nat_alt)
    then show ?thesis using False by simp
  qed
  obtain bs where bs: "choose_block_size block_size_s = Inr bs" "opt_reserved_size opts = (if bs \<le> 512 then 512 else bs) div bs"
    using assms by (auto simp: mksfs_options_def Let_def split: if_splits sum.splits)
  have "128 < bs"
    using bs(1) by (auto simp: choose_block_size_def not_le split: option.splits prod.splits if_splits)
  from small [OF this] show ?thesis unfolding bs(2) .
qed

lemma sum_u32_bytes:
  assumes "unat w < 256"
  shows "sum_list (u32_to_bytes w) = ucast w"
proof -
  have "(ucast w :: byte) = word_of_nat (unat w)" by (rule word_unat_eq_iff [THEN iffD2]) (simp add: unsigned_ucast_eq unat_of_nat take_bit_eq_mod)
  then show ?thesis using assms by (simp add: u32_to_bytes_def nat_to_le_map upt_rec)
qed

lemma mbr_checksum:
  assumes "mksfs_options now fsize index_size_s block_size_s label file_name = Inr opts"
  shows "get_u8 445 (mbr_bytes (mbr_block opts))
    = calc_checksum (seg 428 3 (mbr_bytes (mbr_block opts))) (get_u8 431 (mbr_bytes (mbr_block opts)))
        (get_u64 432 (mbr_bytes (mbr_block opts))) (u32_of_bytes (seg 440 4 (mbr_bytes (mbr_block opts))))
        (get_u8 444 (mbr_bytes (mbr_block opts)))"
proof -
  let ?m = "mbr_block opts"
  have l: "length (mb_reserved_boot_code ?m) = 404" "length (mb_magic_number ?m) = 3"
    by (simp_all add: mbr_block_def Let_def)
  have r: "unat (ucast (opt_reserved_size opts) :: u32) < 256"
    using mksfs_options_bounds [OF assms] by (simp add: unsigned_ucast_eq take_bit_eq_mod)
  have "mb_checksum ?m = sum_list (mb_magic_number ?m) + mb_sfs_version ?m + sum_list (u64_to_bytes (mb_total_size ?m))
      + sum_list (u32_to_bytes (mb_reserved_size ?m)) + mb_block_size ?m"
    by (simp add: mbr_block_def Let_def mbr_bytes_def seg_def ac_simps)
  also have "sum_list (u32_to_bytes (mb_reserved_size ?m)) = ucast (mb_reserved_size ?m)"
    using sum_u32_bytes [OF r] by (simp add: mbr_block_def Let_def)
  also have "sum_list (mb_magic_number ?m) = sum_list [cs_at (mb_magic_number ?m) 0, cs_at (mb_magic_number ?m) 1, cs_at (mb_magic_number ?m) 2]"
    by (simp add: mbr_block_def Let_def cs_at_def)
  finally show ?thesis unfolding mbr_fields [OF l] calc_checksum_eq .
qed

lemma log2_nat_pow2: "log2_nat (2 ^ k) = k"
  by (induction k) (subst log2_nat.simps, simp)+

lemma sample_options:
  obtains opts where "mksfs_options 0 65536 None None None [] = Inr opts" "opt_data_size opts = 120" "opt_block_size opts = 2"
    "opt_reserved_size opts = 1" "opt_time_stamp opts = 0"
proof -
  have "choose_index_size None 65536 512 512 = Inr 3584" by (simp add: choose_index_size_def raw_index_size_def Let_def)
  moreover have "log2_nat 512 = 9" using log2_nat_pow2 [of 9] by simp
  ultimately show ?thesis
    by (intro that, simp add: mksfs_options_def Let_def choose_block_size_def) simp_all
qed

end
