(* ===== verification/MksfsLayout.thy ===== *)
theory MksfsLayout
  imports UtilProps
begin

text \<open>
  What src/mksfs/main.c accepts, and the layout it computes: the block sizes are the powers of two
  from 256 on, and the reserved area, the data area and the index fill the image.
\<close>

section \<open>Block sizes\<close>

lemma unat_pow2: "j < 64 \<Longrightarrow> unat (2 ^ j :: u64) = 2 ^ j"
proof -
  assume "j < 64"
  then have "(2 :: nat) ^ j < 2 ^ 64" by (rule power_strict_increasing) simp
  then have "unat (word_of_nat (2 ^ j) :: u64) = 2 ^ j" by (simp only: unat_of_nat) simp
  then show ?thesis by simp
qed

lemma sint_pow2: "j \<le> 62 \<Longrightarrow> 0 < sint (2 ^ j :: u64)" "sint (2 ^ 63 :: u64) < 0"
proof -
  show "0 < sint (2 ^ j :: u64)" if "j \<le> 62"
  proof -
    have "(2 :: nat) ^ j < 2 ^ 63" using that by (intro power_strict_increasing) simp_all
    then have "unat (2 ^ j :: u64) < 2 ^ 63" using that unat_pow2 [of j] by simp
    then show ?thesis using sint_nonneg_small [of "2 ^ j :: u64"] that by (simp add: unat_pow2)
  qed
qed simp

lemma divisor_loop_pow2:
  assumes "j \<le> 63" and "63 \<le> j + n"
  shows "divisor_loop n (2 ^ j) bs = (if \<exists>m. j \<le> m \<and> m \<le> 62 \<and> bs = 2 ^ m then bs else 2 ^ 63)"
  using assms
proof (induction n arbitrary: j)
  case 0
  then have "j = 63" by simp
  then show ?case by auto
next
  case (Suc n)
  show ?case
  proof (cases "j = 63")
    case True
    then show ?thesis using sint_pow2(2) by auto
  next
    case False
    then have j: "j \<le> 62" using Suc.prems(1) by simp
    show ?thesis
    proof (cases "bs = 2 ^ j")
      case True
      then show ?thesis using j by auto
    next
      case other: False
      have "divisor_loop (Suc n) (2 ^ j) bs = divisor_loop n (2 ^ Suc j) bs"
        using sint_pow2(1) [OF j] other by (simp add: push_bit_eq_mult mult.commute)
      also have "\<dots> = (if \<exists>m. Suc j \<le> m \<and> m \<le> 62 \<and> bs = 2 ^ m then bs else 2 ^ 63)"
        using Suc.prems j by (intro Suc.IH) simp_all
      also have "(\<exists>m. Suc j \<le> m \<and> m \<le> 62 \<and> bs = 2 ^ m) \<longleftrightarrow> (\<exists>m. j \<le> m \<and> m \<le> 62 \<and> bs = 2 ^ m)"
        using other by (metis Suc_leD le_antisym not_less_eq_eq)
      finally show ?thesis .
    qed
  qed
qed

lemma divisor_loop_256: "divisor_loop 64 256 bs = (if \<exists>m. 8 \<le> m \<and> m \<le> 62 \<and> bs = 2 ^ m then bs else 2 ^ 63)"
  using divisor_loop_pow2 [of 8 64 bs] by simp

text \<open>C38: The loop that checks the block size, which shifts a number until it is the block size or has
  become negative, has ended after the 64 steps of the model, and the block sizes that pass are exactly
  the powers of two from 256 to \<open>2 ^ 62\<close>.\<close>

theorem block_size_loop_ends:
  "divisor_loop (64 + k) 256 bs = divisor_loop 64 256 bs
    \<and> (sint (divisor_loop 64 256 bs) \<le> 0 \<or> divisor_loop 64 256 bs = bs)
    \<and> (0 < sint (divisor_loop 64 256 bs) \<longleftrightarrow> (\<exists>m. 8 \<le> m \<and> m \<le> 62 \<and> bs = 2 ^ m))"
proof -
  have "divisor_loop (64 + k) 256 bs = divisor_loop 64 256 bs"
    using divisor_loop_pow2 [of 8 "64 + k" bs] divisor_loop_pow2 [of 8 64 bs] by simp
  moreover have "sint (2 ^ 63 :: u64) \<le> 0" using sint_pow2(2) by simp
  ultimately show ?thesis using sint_pow2 by (auto simp: divisor_loop_256)
qed

lemma choose_block_size_pow2:
  assumes "choose_block_size s = Inr bs"
  obtains m where "8 \<le> m" "m \<le> 62" "bs = 2 ^ m"
proof (cases s)
  case None
  then have "bs = 2 ^ 9" using assms by (simp add: choose_block_size_def)
  then show ?thesis using that [of 9] by simp
next
  case (Some t)
  then have "\<not> sint (divisor_loop 64 256 bs) < 0"
    using assms by (auto simp: choose_block_size_def split: prod.splits if_splits)
  then have "\<exists>m. 8 \<le> m \<and> m \<le> 62 \<and> bs = 2 ^ m" using sint_pow2(2) by (auto simp: divisor_loop_256 split: if_splits)
  then show ?thesis using that by blast
qed

section \<open>The layout\<close>

lemma round_up_mod:
  assumes "(b :: u64) = 2 ^ m" and "m < 64"
  shows "(i + (b - i mod b)) mod b = 0"
proof -
  have p: "unat b = 2 ^ m" using assms unat_pow2 by simp
  have "unat (i mod b) \<le> unat b" using p by (simp add: unat_mod less_imp_le)
  then have s: "unat (b - i mod b) = unat b - unat i mod unat b" by (simp add: unat_sub_small unat_mod)
  have d: "(2 :: nat) ^ m dvd 2 ^ 64" using assms(2) by (intro le_imp_power_dvd) simp
  have "unat ((i + (b - i mod b)) mod b) = (unat i + unat (b - i mod b)) mod 2 ^ 64 mod 2 ^ m"
    by (simp add: unat_mod unat_word_ariths p)
  also have "\<dots> = (unat i + (2 ^ m - unat i mod 2 ^ m)) mod 2 ^ m"
    using d s p by (simp add: mod_mod_cancel)
  also have "unat i + (2 ^ m - unat i mod 2 ^ m) = 2 ^ m * (unat i div 2 ^ m) + 2 ^ m"
  proof -
    have "unat i = 2 ^ m * (unat i div 2 ^ m) + unat i mod 2 ^ m" by simp
    moreover have "unat i mod 2 ^ m < 2 ^ m" by simp
    ultimately show ?thesis by linarith
  qed
  finally have "unat ((i + (b - i mod b)) mod b) = 0" by simp
  then show ?thesis by (simp add: unat_eq_0)
qed

lemma choose_index_size_ok:
  assumes "choose_index_size index_size_s fsize bs rsrvd = Inr i" and "bs = 2 ^ m" and "m < 64"
  shows "i mod bs = 0" and "i \<le> fsize - rsrvd" and "128 \<le> i"
  using assms(1) round_up_mod [OF assms(2,3)]
  by (auto simp: choose_index_size_def raw_index_size_def Let_def not_le not_less split: option.splits sum.splits prod.splits if_splits)

lemma mksfs_options_layout:
  assumes "mksfs_options now fsize index_size_s block_size_s label file_name = Inr opts" and f63: "unat fsize < 2 ^ 63"
  obtains m where "8 \<le> m" "m \<le> 62" "unat (opt_block_size opts + 7) = m"
    "unat (opt_total_block opts) * 2 ^ m = unat fsize"
    "unat (opt_reserved_size opts) + unat (opt_data_size opts) + unat (opt_index_size opts) div 2 ^ m = unat (opt_total_block opts)"
    "2 ^ m dvd unat (opt_index_size opts)" "0 < unat (opt_index_size opts)" "unat (opt_reserved_size opts) * 2 ^ m = max 512 (2 ^ m)"
proof -
  obtain bs where c1: "choose_block_size block_size_s = Inr bs"
    using assms by (cases "choose_block_size block_size_s") (auto simp: mksfs_options_def split: if_splits)
  have g: "\<not> bs > fsize" "fsize mod bs = 0" "\<not> fsize < 512 + 2 * 64"
    using assms(1) c1 by (auto simp: mksfs_options_def split: if_splits)
  define r where "r = (if bs \<le> 512 then 512 else bs)"
  obtain i where c2: "choose_index_size index_size_s fsize bs r = Inr i"
    using assms c1 unfolding r_def
    by (cases "choose_index_size index_size_s fsize bs (if bs \<le> 512 then 512 else bs)")
      (auto simp: mksfs_options_def Let_def split: if_splits)
  have h: "opt_total_block opts = fsize div bs" "opt_reserved_size opts = r div bs" "opt_index_size opts = i"
    "opt_data_size opts = fsize div bs - r div bs - (if i mod bs = 0 then i div bs else i div bs + 1)"
    "opt_block_size opts = word_of_nat (log2_nat (unat bs)) - 7"
    using assms c1 c2 unfolding r_def [symmetric]
    by (auto simp: mksfs_options_def Let_def r_def [symmetric] split: if_splits)
  obtain m where m: "8 \<le> m" "m \<le> 62" "bs = 2 ^ m" by (rule choose_block_size_pow2 [OF c1])
  have ub: "unat bs = 2 ^ m" using m unat_pow2 [of m] by simp
  have m64: "m < 64" using m(2) by simp
  note c = choose_index_size_ok [OF c2 m(3) m64]
  have r: "unat r = max 512 (2 ^ m)" using ub by (auto simp: r_def word_le_nat_alt max_def)
  have rd: "(2 :: nat) ^ m dvd max 512 (2 ^ m)"
  proof (cases "m \<le> 9")
    case True
    then have "(2 :: nat) ^ m dvd 2 ^ 9" by (rule le_imp_power_dvd)
    then show ?thesis by (simp add: max_def)
  next
    case False
    then have "(2 :: nat) ^ 9 \<le> 2 ^ m" by (intro power_increasing) simp_all
    then show ?thesis by (simp add: max_def)
  qed
  have fd: "2 ^ m dvd unat fsize" and id: "2 ^ m dvd unat i"
    using g(2) c(1) ub by (simp_all add: word_unat_eq_iff unat_mod mod_eq_0_iff_dvd)
  have rf: "max 512 (2 ^ m) \<le> unat fsize" using g(1,3) ub by (simp add: word_less_nat_alt not_less)
  then have il: "unat i + max 512 (2 ^ m) \<le> unat fsize"
    using c(2) r unat_sub_small [of r fsize] by (simp add: word_le_nat_alt le_diff_conv2 del: max.bounded_iff)
  let ?T = "unat fsize div 2 ^ m" and ?R = "max 512 (2 ^ m) div 2 ^ m" and ?K = "unat i div 2 ^ m"
  have sum: "?K + ?R \<le> ?T" using div_le_mono [OF il, of "2 ^ m"] id rd by (simp add: div_add)
  have u: "unat (fsize div bs) = ?T" "unat (r div bs) = ?R" "unat (i div bs) = ?K" by (simp_all add: unat_div ub r)
  have d: "unat (opt_data_size opts) = ?T - ?R - ?K"
    using sum c(1) u unfolding h(4) by (simp add: unat_sub_small)
  show ?thesis
  proof (rule that [OF m(1,2)])
    have "opt_block_size opts + 7 = word_of_nat m" by (simp add: h(5) ub log2_nat_pow2)
    then show "unat (opt_block_size opts + 7) = m" using m64 by (simp add: unat_of_nat)
    show "unat (opt_total_block opts) * 2 ^ m = unat fsize" unfolding h(1) u using fd by simp
    show "unat (opt_reserved_size opts) + unat (opt_data_size opts) + unat (opt_index_size opts) div 2 ^ m = unat (opt_total_block opts)"
      unfolding d h(1-3) u using sum by simp
    show "unat (opt_reserved_size opts) * 2 ^ m = max 512 (2 ^ m)" unfolding h(2) u using rd by simp
    show "0 < unat (opt_index_size opts)" using c(3) by (simp add: h(3) word_le_nat_alt)
  qed (use f63 id h(3) in simp_all)
qed

lemma mksfs_areas:
  assumes "mksfs_options now fsize index_size_s block_size_s label file_name = Inr opts" and "unat fsize < 2 ^ 63"
  shows "\<exists>m. 8 \<le> m \<and> unat (opt_block_size opts + 7) = m \<and> unat (opt_total_block opts) * 2 ^ m = unat fsize
    \<and> (unat (opt_reserved_size opts) + unat (opt_data_size opts)) * 2 ^ m + unat (opt_index_size opts) = unat fsize
    \<and> unat (opt_reserved_size opts) * 2 ^ m = max 512 (2 ^ m) \<and> 2 ^ m dvd unat (opt_index_size opts) \<and> 2 ^ m \<le> unat (opt_index_size opts)"
proof (rule mksfs_options_layout [OF assms])
  fix m
  assume h: "8 \<le> m" "unat (opt_block_size opts + 7) = m" "unat (opt_total_block opts) * 2 ^ m = unat fsize"
    "unat (opt_reserved_size opts) + unat (opt_data_size opts) + unat (opt_index_size opts) div 2 ^ m = unat (opt_total_block opts)"
    "2 ^ m dvd unat (opt_index_size opts)" "0 < unat (opt_index_size opts)" "unat (opt_reserved_size opts) * 2 ^ m = max 512 (2 ^ m)"
  have "unat (opt_index_size opts) div 2 ^ m * 2 ^ m = unat (opt_index_size opts)" using h(5) by simp
  then have "(unat (opt_reserved_size opts) + unat (opt_data_size opts)) * 2 ^ m + unat (opt_index_size opts) = unat fsize"
    using h(3,4) by (metis add_mult_distrib)
  moreover have "2 ^ m \<le> unat (opt_index_size opts)" using h(5,6) by (rule dvd_imp_le)
  ultimately show ?thesis using h by blast
qed

end
