(* ===== verification/Mounting.thy ===== *)
theory Mounting
  imports Mount
begin

text \<open>
  What \<open>sfs_init\<close> does on a device in order: it reads the fields of the boot block from the image,
  refuses an image whose checksum or whose first directory is not what \<open>mksfs\<close> writes, and otherwise
  finds the index and the first free extent, and clears the time stamp of the volume identifier.
\<close>

section \<open>Device states\<close>

lemma dev_ok_fields [simp]:
  "dev_ok (SET_ERRNO k fs) = dev_ok fs" "dev_ok (fs\<lparr>entry_start := a\<rparr>) = dev_ok fs"
  "dev_ok (fs\<lparr>vol_ident := a\<rparr>) = dev_ok fs" "dev_ok (fs\<lparr>del_begin := a\<rparr>) = dev_ok fs"
  "dev_ok (fs\<lparr>fs_time := a\<rparr>) = dev_ok fs" for fs :: fs
  by (simp_all add: dev_ok_def geom_ok_def cache_ok_def disk_block_def SET_ERRNO_def)

lemma core_fields:
  "core (SET_ERRNO k fs) = SET_ERRNO k (core fs)" "core (fs\<lparr>entry_start := a\<rparr>) = (core fs)\<lparr>entry_start := a\<rparr>"
  "core (fs\<lparr>vol_ident := a\<rparr>) = (core fs)\<lparr>vol_ident := a\<rparr>" "core (fs\<lparr>del_begin := a\<rparr>) = (core fs)\<lparr>del_begin := a\<rparr>"
  "core (fs\<lparr>fs_time := a\<rparr>) = (core fs)\<lparr>fs_time := a\<rparr>" for fs :: fs
  by (simp_all add: core_def SET_ERRNO_def)

lemma SET_ERRNO_sel [simp]:
  "host_file (SET_ERRNO k fs) = host_file fs" "block_size (SET_ERRNO k fs) = block_size fs"
  "entry_start (SET_ERRNO k fs) = entry_start fs" "vol_ident (SET_ERRNO k fs) = vol_ident fs"
  "del_begin (SET_ERRNO k fs) = del_begin fs" "fs_time (SET_ERRNO k fs) = fs_time fs"
  "sfs_errno (SET_ERRNO k fs) = k" for fs :: fs
  by (simp_all add: SET_ERRNO_def)

section \<open>The reads of the boot block\<close>

definition in_block :: "fs \<Rightarrow> u64 \<Rightarrow> nat \<Rightarrow> bool" where
  "in_block fs off n \<longleftrightarrow> unat off < length (host_file fs) \<and> unat off mod unat (block_size fs) + n \<le> unat (block_size fs) \<and> n \<le> 512"

lemma in_block_same_vol: "same_vol fs fs' \<Longrightarrow> in_block fs' = in_block fs"
  by (simp add: in_block_def fun_eq_iff same_vol_sel)

lemma in_block_room:
  assumes "dev_ok fs" and "in_block fs off n"
  shows "unat off + n \<le> length (host_file fs)"
proof -
  let ?b = "unat (block_size fs)"
  have g: "?b dvd length (host_file fs)" using assms(1) by (simp add: dev_ok_def geom_ok_def)
  have "unat off mod ?b + n \<le> ?b" using assms(2) by (simp add: in_block_def)
  then have "unat off + n \<le> Suc (unat off div ?b) * ?b"
    using div_mult_mod_eq [of "unat off" ?b] unfolding mult_Suc by linarith
  also have "\<dots> \<le> length (host_file fs)"
    by (rule block_in_range [OF g]) (use assms(2) in \<open>simp add: in_block_def\<close>)
  finally show ?thesis .
qed

lemma read_in_block:
  assumes ok: "dev_ok fs" and b: "in_block fs off n" and l: "length data = n"
  obtains fs' where "read_data fs off data (word_of_nat n) = (word_of_nat n, seg (unat off) n (host_file fs), fs')"
    "dev_ok fs'" "same_vol fs fs'" "(word_of_nat n :: u64) \<noteq> -1"
proof -
  let ?k = "unat off div unat (block_size fs)"
  have n: "unat (word_of_nat n :: u64) = n" using b by (simp add: in_block_def unat_of_nat)
  have g: "unat (block_size fs) dvd length (host_file fs)" using ok by (simp add: dev_ok_def geom_ok_def)
  have off: "unat off < length (host_file fs)" "unat off mod unat (block_size fs) + n \<le> unat (block_size fs)" "n \<le> 512"
    using b by (simp_all add: in_block_def)
  have ub: "unat (off div block_size fs) = ?k" by (simp add: unat_div)
  note rng = block_in_range [OF g off(1), folded ub]
  have ls: "length (seg (unat off) n (host_file fs)) = n" using in_block_room [OF ok b] by simp
  have "(word_of_nat n :: u64) \<noteq> -1"
  proof
    assume "(word_of_nat n :: u64) = -1"
    then have "n = unat (-1 :: u64)" using n by simp
    then show False using off(3) by (simp add: unsigned_minus_1_eq_mask mask_eq_exp_minus_1)
  qed
  moreover have "same_vol fs (load fs (off div block_size fs))" by (simp add: same_vol_def)
  moreover note dev_ok_load(1) [OF ok rng]
  moreover have "read_data fs off data (word_of_nat n)
      = (word_of_nat n, seg (unat off) n (host_file fs), load fs (off div block_size fs))"
    using read_data_within_block [OF ok off(1), of "word_of_nat n" data] off(2) l n ls by (simp add: patch_all)
  ultimately show ?thesis using that by blast
qed

lemma read_local_ok:
  assumes "dev_ok fs" and "in_block fs off n"
  obtains fs' where "read_local fs off n = (Some (seg (unat off) n (host_file fs)), fs')" "dev_ok fs'" "same_vol fs fs'"
  by (rule read_in_block [OF assms, of "replicate n 0"]) (use that in \<open>auto simp: read_local_def\<close>)

lemma read_fields_ok:
  assumes "dev_ok fs" and "\<forall>f \<in> set fl. in_block fs (fst f) (snd f)"
  obtains fs' where "read_fields fl fs = (Some (map (\<lambda>f. seg (unat (fst f)) (snd f) (host_file fs)) fl), fs')" "dev_ok fs'" "same_vol fs fs'"
proof -
  have "\<exists>fs'. read_fields fl fs = (Some (map (\<lambda>f. seg (unat (fst f)) (snd f) (host_file fs)) fl), fs') \<and> dev_ok fs' \<and> same_vol fs fs'"
    using assms
  proof (induction fl arbitrary: fs)
    case Nil
    then show ?case by simp
  next
    case (Cons f fl)
    then have b: "in_block fs (fst f) (snd f)" by simp
    obtain fs1 where r: "read_local fs (fst f) (snd f) = (Some (seg (unat (fst f)) (snd f) (host_file fs)), fs1)"
      "dev_ok fs1" "same_vol fs fs1" by (rule read_local_ok [OF Cons.prems(1) b])
    have "\<forall>g \<in> set fl. in_block fs1 (fst g) (snd g)" using Cons.prems(2) in_block_same_vol [OF r(3)] by simp
    from Cons.IH [OF r(2) this] obtain fs2 where
      "read_fields fl fs1 = (Some (map (\<lambda>f. seg (unat (fst f)) (snd f) (host_file fs1)) fl), fs2)" "dev_ok fs2" "same_vol fs1 fs2"
      by blast
    then show ?case using r same_vol_sel(6) [OF r(3)] same_vol_trans [OF r(3)] by simp
  qed
  then show ?thesis using that by blast
qed

section \<open>The boot block and the index\<close>

text \<open>What \<open>sfs_init\<close> takes from the bytes of the image.\<close>

definition header_ok :: "bytes \<Rightarrow> bool" where
  "header_ok h \<longleftrightarrow> get_u8 445 h = calc_checksum (seg 428 3 h) (get_u8 431 h) (get_u64 432 h) (u32_of_bytes (seg 440 4 h)) (get_u8 444 h)"

definition index_begin :: "bytes \<Rightarrow> u64" where
  "index_begin h = (let bs = push_bit (unat (get_u8 444 h)) 128 in
     ucast (ucast (ucast (u32_of_bytes (seg 440 4 h)) * bs :: u64) :: u32) + get_u64 412 h * bs)"

definition index_end :: "bytes \<Rightarrow> u64" where
  "index_end h = index_begin h + get_u64 420 h - INDEX_ENTRY_SIZE"

interpretation begin_scan: pure_callback search_begin
  "\<lambda>p e d. (entry_type e = entry_code DEL_FILE_ENTRY \<and> PREV_DEL e = 0, d)"
  by unfold_locales (auto simp: search_begin_def)

text \<open>The reads of single bytes.\<close>

lemma cs_at_seg [simp]: "cs_at (seg p (Suc 0) h) 0 = get_u8 p h"
  by (cases "p < length h") (auto simp: cs_at_def get_u8_def seg_def hd_drop_conv_nth take_Suc)

lemma fields_in_block:
  assumes "256 dvd unat (block_size fs)" and "unat (block_size fs) = 256 \<or> 512 \<le> unat (block_size fs)"
    and "512 \<le> length (host_file fs)"
  shows "\<forall>f \<in> set mbr_field_list. in_block fs (fst f) (snd f)"
  using assms by (auto simp: mbr_field_list_def in_block_def)

lemma mbr_values:
  "map (\<lambda>f. seg (unat (fst f)) (snd f) h) mbr_field_list
     = [seg 412 8 h, seg 420 8 h, seg 440 4 h, seg 428 3 h, seg 431 1 h, seg 445 1 h, seg 432 8 h, seg 444 1 h]"
  by (simp add: mbr_field_list_def)

definition indexed :: "fs \<Rightarrow> fs" where
  "indexed fs = fs\<lparr>entry_start := index_begin (host_file fs), vol_ident := index_end (host_file fs)\<rparr>"

lemma sfs_init_start:
  assumes dev: "dev_ok fs" and fields: "\<forall>f \<in> set mbr_field_list. in_block fs (fst f) (snd f)"
    and head: "header_ok (host_file fs)"
  obtains fs1 where "dev_ok fs1" "same_vol (SET_ERRNO 0 (indexed fs)) fs1"
    "sfs_init fs entr =
      (case read_local fs1 (entry_start fs1 + 2 * INDEX_ENTRY_SIZE) 1 of
        (None, fs) \<Rightarrow> (-1, SET_ERRNO EINVAL fs)
      | (Some z, fs) \<Rightarrow>
          if cs_at z 0 \<noteq> entry_code DIR_ENTRY then (-1, SET_ERRNO EINVAL fs)
          else
          (case entry_parse fs entr search_begin () of (b, entr, fs, _) \<Rightarrow>
            let fs = fs\<lparr>del_begin := b\<rparr> in
            (case read_local fs (entry_start fs + 2 * INDEX_ENTRY_SIZE + 10) 1 of
              (None, fs) \<Rightarrow> (-1, SET_ERRNO EINVAL fs)
            | (Some z, fs) \<Rightarrow>
                if cs_at z 0 \<noteq> 0 then (-1, SET_ERRNO EINVAL fs)
                else
                (case read_data fs (4 + vol_ident fs) (u64_to_bytes (fs_time fs)) 8 of
                  (r, t, fs) \<Rightarrow>
                    let fs = fs\<lparr>fs_time := u64_of_bytes t\<rparr> in
                    if r = -1 then (-1, SET_ERRNO EIO fs)
                    else
                    (case write_data fs (4 + vol_ident fs) (u64_to_bytes 0) 8 of
                      (r, fs) \<Rightarrow>
                        if r = -1 then (-1, SET_ERRNO EIO fs)
                        else (case fs_sync fs of (_, fs) \<Rightarrow> (0, SET_ERRNO 0 fs)))))))"
proof -
  let ?h = "host_file fs"
  have d: "dev_ok (SET_ERRNO EIO fs)" using dev by simp
  have f: "\<forall>f \<in> set mbr_field_list. in_block (SET_ERRNO EIO fs) (fst f) (snd f)"
    using fields by (simp add: in_block_def)
  obtain fs0 where r: "read_fields mbr_field_list (SET_ERRNO EIO fs)
      = (Some (map (\<lambda>f. seg (unat (fst f)) (snd f) (host_file (SET_ERRNO EIO fs))) mbr_field_list), fs0)"
    "dev_ok fs0" "same_vol (SET_ERRNO EIO fs) fs0" by (rule read_fields_ok [OF d f])
  let ?fs1 = "(SET_ERRNO 0 fs0)\<lparr>entry_start := index_begin ?h, vol_ident := index_end ?h\<rparr>"
  show ?thesis
  proof (rule that [of ?fs1])
    show "dev_ok ?fs1" using r(2) by simp
    have "core fs0 = SET_ERRNO EIO (core fs)" using r(3) by (simp add: same_vol_def core_fields)
    then show "same_vol (SET_ERRNO 0 (indexed fs)) ?fs1"
      by (simp add: same_vol_def core_fields indexed_def) (simp add: SET_ERRNO_def)
  qed (use r(1) head in \<open>simp add: sfs_init_def mbr_values Let_def header_ok_def index_begin_def index_end_def get_u64_def\<close>)
qed

text \<open>An image is accepted if its index is in order and begins with a zero directory as its third entry;
  the list of free extents begins at the first one without a predecessor.\<close>

definition first_free :: "fs \<Rightarrow> u64" where
  "first_free fs = found (List.find (\<lambda>p. entry_type (entry_at fs p) = entry_code DEL_FILE_ENTRY \<and> PREV_DEL (entry_at fs p) = 0) (index_offs fs))"

lemma index_positions:
  assumes ok: "fs_ok fs" and three: "3 \<le> index_size fs"
  shows "unat (entry_start fs + 128) = unat (entry_start fs) + 128" "unat (entry_start fs + 138) = unat (entry_start fs) + 138"
    "unat (4 + vol_ident fs) = unat (vol_ident fs) + 4"
    "in_block fs (entry_start fs + 128) 1" "in_block fs (entry_start fs + 138) 1" "in_block fs (4 + vol_ident fs) 8"
proof -
  note ib = index_bounds [OF ok]
  have d: "64 dvd unat (entry_start fs)" "64 dvd unat (vol_ident fs)" "unat (vol_ident fs) + 64 \<le> length (host_file fs)"
    "64 dvd unat (block_size fs)" "0 < unat (block_size fs)"
    using ok by (auto simp: fs_ok_def entry_dev_ok_def dev_ok_def geom_ok_def)
  have len: "unat (entry_start fs) + 192 \<le> unat (vol_ident fs)" using ib(1) three by linarith
  show u: "unat (entry_start fs + 128) = unat (entry_start fs) + 128" "unat (entry_start fs + 138) = unat (entry_start fs) + 138"
    using len ib(2) by (subst unat_add_small; simp)+
  show w: "unat (4 + vol_ident fs) = unat (vol_ident fs) + 4"
    using ib(2) by (subst unat_add_small; simp)
  have room: "(p + k) mod unat (block_size fs) + n \<le> unat (block_size fs)" if "64 dvd p" "k + n \<le> 64" for p k n :: nat
  proof -
    have "p mod unat (block_size fs) + 64 \<le> unat (block_size fs)" by (rule aligned_fits [OF d(4) that(1) d(5)])
    moreover have "(p + k) mod unat (block_size fs) \<le> p mod unat (block_size fs) + k"
      by (metis mod_add_left_eq mod_less_eq_dividend)
    ultimately show ?thesis using that(2) by linarith
  qed
  have e: "64 dvd unat (entry_start fs) + 128" using d(1) by simp
  show "in_block fs (entry_start fs + 128) 1" "in_block fs (entry_start fs + 138) 1" "in_block fs (4 + vol_ident fs) 8"
    using u w len d(3) room [OF e, of 0 1] room [OF e, of 10 1] room [OF d(2), of 4 8]
    by (simp_all add: in_block_def add.commute)
qed

lemma sfs_init_ok:
  assumes dev: "dev_ok fs" and fields: "\<forall>f \<in> set mbr_field_list. in_block fs (fst f) (snd f)"
    and head: "header_ok (host_file fs)" and ok: "fs_ok (indexed fs)" and three: "3 \<le> index_size (indexed fs)"
    and root: "get_u8 (unat (index_begin (host_file fs)) + 128) (host_file fs) = entry_code DIR_ENTRY"
      "get_u8 (unat (index_begin (host_file fs)) + 138) (host_file fs) = 0"
    and len: "length e = 64"
  obtains fs' where "sfs_init fs e = (0, fs')" "fs_ok fs'" "sfs_errno fs' = 0"
    "host_file fs' = patch (unat (index_end (host_file fs)) + 4) (u64_to_bytes 0) (host_file fs)"
    "entry_start fs' = index_begin (host_file fs)" "vol_ident fs' = index_end (host_file fs)" "block_size fs' = block_size fs"
    "del_begin fs' = first_free (indexed fs)" "fs_time fs' = get_u64 (unat (index_end (host_file fs)) + 4) (host_file fs)"
proof -
  let ?h = "host_file fs" and ?i = "indexed fs"
  obtain fs1 where i: "dev_ok fs1" "same_vol (SET_ERRNO 0 ?i) fs1" and run: "sfs_init fs e =
      (case read_local fs1 (entry_start fs1 + 2 * INDEX_ENTRY_SIZE) 1 of
        (None, fs) \<Rightarrow> (-1, SET_ERRNO EINVAL fs)
      | (Some z, fs) \<Rightarrow>
          if cs_at z 0 \<noteq> entry_code DIR_ENTRY then (-1, SET_ERRNO EINVAL fs)
          else
          (case entry_parse fs e search_begin () of (b, entr, fs, _) \<Rightarrow>
            let fs = fs\<lparr>del_begin := b\<rparr> in
            (case read_local fs (entry_start fs + 2 * INDEX_ENTRY_SIZE + 10) 1 of
              (None, fs) \<Rightarrow> (-1, SET_ERRNO EINVAL fs)
            | (Some z, fs) \<Rightarrow>
                if cs_at z 0 \<noteq> 0 then (-1, SET_ERRNO EINVAL fs)
                else
                (case read_data fs (4 + vol_ident fs) (u64_to_bytes (fs_time fs)) 8 of
                  (r, t, fs) \<Rightarrow>
                    let fs = fs\<lparr>fs_time := u64_of_bytes t\<rparr> in
                    if r = -1 then (-1, SET_ERRNO EIO fs)
                    else
                    (case write_data fs (4 + vol_ident fs) (u64_to_bytes 0) 8 of
                      (r, fs) \<Rightarrow>
                        if r = -1 then (-1, SET_ERRNO EIO fs)
                        else (case fs_sync fs of (_, fs) \<Rightarrow> (0, SET_ERRNO 0 fs)))))))"
    by (rule sfs_init_start [OF dev fields head])
  note s1 = same_vol_sel [OF i(2)]
  have isel: "entry_start ?i = index_begin ?h" "vol_ident ?i = index_end ?h" "host_file ?i = ?h" "block_size ?i = block_size fs"
    by (simp_all add: indexed_def)
  have cong: "entry_at fs1 = entry_at ?i" "index_offs fs1 = index_offs ?i" "index_size fs1 = index_size ?i"
    using s1 by (simp_all add: entry_at_def slot_valid_def index_offs_def index_size_def index_off_def fun_eq_iff)
  have ok1: "fs_ok fs1" using ok i(1) s1 isel by (simp add: fs_ok_def entry_dev_ok_def)
  have three1: "3 \<le> index_size fs1" using three cong by simp
  note p1 = index_positions [OF ok1 three1]
  have h1: "host_file fs1 = ?h" "entry_start fs1 = index_begin ?h" using s1 isel by simp_all
  obtain fs2 where r2: "read_local fs1 (entry_start fs1 + 128) 1 = (Some (seg (unat (entry_start fs1 + 128)) 1 (host_file fs1)), fs2)"
    "dev_ok fs2" "same_vol fs1 fs2" by (rule read_local_ok [OF i(1) p1(4)])
  have ok2: "fs_ok fs2" using fs_ok_same_vol [OF ok1 r2(3)] r2(2) ok1 same_vol_sel(5) [OF r2(3)] by (simp add: fs_ok_def entry_dev_ok_def)
  obtain b e3 fs3 where r3: "entry_parse fs2 e search_begin () = (found b, e3, fs3, ())" "length e3 = 64" "fs_ok fs3" "same_vol fs2 fs3"
    and sc: "scan (\<lambda>p d. (entry_type (entry_at fs2 p) = entry_code DEL_FILE_ENTRY \<and> PREV_DEL (entry_at fs2 p) = 0, d)) (index_offs fs2) () = (b, ())"
    by (rule begin_scan.entry_parse_scan [OF ok2 TrueI len, of "()"]) auto
  have b: "found b = first_free ?i"
    using sc same_vol_cong(1,5) [OF r2(3)] cong by (simp add: scan_find first_free_def)
  note t3 = same_vol_trans [OF r2(3) r3(4)]
  note s3 = same_vol_sel [OF t3]
  let ?fs4 = "fs3\<lparr>del_begin := found b\<rparr>"
  have d4: "dev_ok ?fs4" using r3(3) by (simp add: fs_ok_def entry_dev_ok_def)
  have b4: "in_block ?fs4 (entry_start fs1 + 138) 1" using p1(5) s3 by (simp add: in_block_def)
  obtain fs5 where r5: "read_local ?fs4 (entry_start fs1 + 138) 1
      = (Some (seg (unat (entry_start fs1 + 138)) 1 (host_file ?fs4)), fs5)" "dev_ok fs5" "same_vol ?fs4 fs5"
    by (rule read_local_ok [OF d4 b4])
  note s5 = same_vol_sel [OF r5(3)]
  have b5: "in_block fs5 (4 + vol_ident fs1) 8" using p1(6) s3 s5 by (simp add: in_block_def)
  obtain fs6 where r6: "read_data fs5 (4 + vol_ident fs1) (u64_to_bytes (fs_time fs5)) (word_of_nat 8)
      = (word_of_nat 8, seg (unat (4 + vol_ident fs1)) 8 (host_file fs5), fs6)" "dev_ok fs6" "same_vol fs5 fs6" "(word_of_nat 8 :: u64) \<noteq> -1"
    by (rule read_in_block [OF r5(2) b5, of "u64_to_bytes (fs_time fs5)"]) simp
  note s6 = same_vol_sel [OF r6(3)]
  let ?t = "u64_of_bytes (seg (unat (4 + vol_ident fs1)) 8 (host_file fs5))"
  let ?fs6 = "fs6\<lparr>fs_time := ?t\<rparr>"
  have fit: "unat (4 + vol_ident fs1) < length (host_file ?fs6)" "unat (4 + vol_ident fs1) + unat (8 :: u64) \<le> length (host_file ?fs6)"
    using in_block_room [OF r5(2) b5] s6 by simp_all
  obtain fs7 where w: "write_data ?fs6 (4 + vol_ident fs1) (u64_to_bytes 0) 8 = (8, fs7)" "dev_ok fs7"
    "core fs7 = (core ?fs6)\<lparr>host_file := patch (unat (4 + vol_ident fs1)) (u64_to_bytes 0) (host_file ?fs6)\<rparr>"
    using write_data_ok [of ?fs6 "4 + vol_ident fs1" 8 "u64_to_bytes 0"] r6(2) fit by auto
  note c7 = arg_cong [OF w(3), of host_file] arg_cong [OF w(3), of entry_start] arg_cong [OF w(3), of vol_ident]
    arg_cong [OF w(3), of del_begin] arg_cong [OF w(3), of fs_time] arg_cong [OF w(3), of block_size]
  obtain fs8 x where y: "fs_sync fs7 = (x, fs8)" "core fs8 = core fs7" "dev_ok fs8"
    using w(2) by (auto simp: fs_sync_def filedev_sync_def dev_ok_def geom_ok_def cache_ok_def disk_block_def)
  have ty: "get_u8 (unat (entry_start fs1) + 128) (host_file fs1) = entry_code DIR_ENTRY"
    "get_u8 (unat (entry_start fs1) + 138) (host_file fs3) = 0"
    using root h1 s3(6) by simp_all
  have "sfs_init fs e = (0, SET_ERRNO 0 fs8)"
    unfolding run
    using r2(1) r3(1) r5(1) r6(1,4) w(1) y(1) ty p1(1,2) same_vol_sel(1,2) [OF r2(3)] s3(1,2) s5(1,2) s6(1,2)
    by (simp add: Let_def add.commute)
  moreover have c: "host_file fs8 = patch (unat (vol_ident fs1) + 4) (u64_to_bytes 0) ?h" "entry_start fs8 = entry_start fs1"
    "vol_ident fs8 = vol_ident fs1" "del_begin fs8 = found b" "fs_time fs8 = ?t" "block_size fs8 = block_size fs1"
    using c7 core_eqD(1,9) [OF y(2)] core_unit_sel [of fs8] core_unit_sel [of fs7] y(2) s6 s5 s3 h1 p1(3) by simp_all
  moreover have "fs_ok (SET_ERRNO 0 fs8)"
    using ok1 y(3) c fit(2) p1(3) h1 s3 s5 s6 by (simp add: fs_ok_def entry_dev_ok_def)
  moreover have "?t = get_u64 (unat (index_end ?h) + 4) ?h"
    using p1(3) s1(2) isel(2) s5(6) s3(6) h1 by (simp add: get_u64_def)
  ultimately show ?thesis
    by (intro that [of "SET_ERRNO 0 fs8"]) (use s1 isel b in simp_all)
qed

end
