(* ===== verification/FreshVolume.thy ===== *)
theory FreshVolume
  imports MksfsLayout FileStore Mounting
begin

text \<open>
  From an image that src/lib/mksfs.c has written to the mounted volume that src/lib/sfs/sfs_init.c
  makes of it: what the image holds, what the boot block is read as, and that the volume is in order.
\<close>

section \<open>Writing the image\<close>

abbreviation "patch_all \<equiv> foldl (\<lambda>h w. patch (unat (fst w :: u64)) (snd w) h)"

lemma length_patch_all:
  "\<forall>w \<in> set ws. unat (fst w) + length (snd w) \<le> length h \<Longrightarrow> length (patch_all h ws) = length h"
  by (induction ws arbitrary: h) auto

lemma write_all_ok:
  assumes "dev_ok d" and "\<forall>w \<in> set ws. snd w \<noteq> [] \<and> unat (fst w) + length (snd w) \<le> length (host_file d)"
  shows "\<exists>d'. write_all ws d = (True, d') \<and> dev_ok d' \<and> core d' = (core d)\<lparr>host_file := patch_all (host_file d) ws\<rparr>"
  using assms
proof (induction ws arbitrary: d)
  case Nil
  then show ?case by (auto simp: core_def)
next
  case (Cons w ws)
  let ?n = "word_of_nat (length (snd w)) :: u64"
  have w: "snd w \<noteq> []" "unat (fst w) + length (snd w) \<le> length (host_file d)" using Cons.prems(2) by simp_all
  have "length (host_file d) < 2 ^ 63" using Cons.prems(1) by (simp add: dev_ok_def geom_ok_def)
  then have n: "unat ?n = length (snd w)" using w(2) by (intro unat_small) linarith
  have off: "unat (fst w) < length (host_file d)" using w by (cases "snd w") auto
  obtain d1 where d1: "write_data d (fst w) (snd w) ?n = (?n, d1)" "dev_ok d1"
    "core d1 = (core d)\<lparr>host_file := patch (unat (fst w)) (take (unat ?n) (snd w)) (host_file d)\<rparr>"
    using write_data_ok [OF Cons.prems(1) off, of ?n "snd w"] w(2) n by auto
  have h1: "host_file d1 = patch (unat (fst w)) (snd w) (host_file d)"
    using arg_cong [OF d1(3), of host_file] n by simp
  have "\<forall>x \<in> set ws. snd x \<noteq> [] \<and> unat (fst x) + length (snd x) \<le> length (host_file d1)"
    using Cons.prems(2) w(2) by (simp add: h1)
  from Cons.IH [OF d1(2) this] obtain d' where d': "write_all ws d1 = (True, d')" "dev_ok d'"
    "core d' = (core d1)\<lparr>host_file := patch_all (host_file d1) ws\<rparr>" by blast
  have "?n \<noteq> -1" using n w(2) \<open>length (host_file d) < 2 ^ 63\<close> by (intro small_not_error) linarith
  then have "write_all (w # ws) d = (True, d')" using d1(1) d'(1) by simp
  then show ?case using d'(2,3) d1(3) h1 by auto
qed

text \<open>The loop over the unused entries.\<close>

primrec fill_image :: "nat \<Rightarrow> nat \<Rightarrow> bytes \<Rightarrow> bytes" where
  "fill_image p 0 h = h"
| "fill_image p (Suc n) h = fill_image (p + 64) n (patch p (unused_entry_bytes remain_area) h)"

lemma length_unused_bytes [simp]: "length (unused_entry_bytes remain_area) = 64"
  by (simp add: unused_entry_bytes_def remain_area_def)

lemma fill_image_frame:
  assumes "p + 64 * n \<le> length h"
  shows "length (fill_image p n h) = length h"
    and "q + k \<le> p \<or> p + 64 * n \<le> q \<Longrightarrow> seg q k (fill_image p n h) = seg q k h"
  using assms
proof (induction n arbitrary: p h)
  case (Suc n)
  {
    case 1
    then show ?case using Suc.IH(1) [of "p + 64" "patch p (unused_entry_bytes remain_area) h"] by simp
  next
    case 2
    then show ?case
      using Suc.IH(2) [of "p + 64" "patch p (unused_entry_bytes remain_area) h"]
        seg_patch_other [of p "unused_entry_bytes remain_area" h q k] by auto
  }
qed simp_all

lemma seg_fill_image:
  "p + 64 * n \<le> length h \<Longrightarrow> j < n \<Longrightarrow> seg (p + 64 * j) 64 (fill_image p n h) = unused_entry_bytes remain_area"
proof (induction n arbitrary: p h j)
  case (Suc n)
  let ?u = "unused_entry_bytes remain_area"
  show ?case
  proof (cases j)
    case 0
    have "seg p 64 (patch p ?u h) = ?u" using seg_patch_same [of p ?u h] Suc.prems(1) by simp
    then show ?thesis using 0 fill_image_frame(2) [of "p + 64" n "patch p ?u h" p 64] Suc.prems(1) by simp
  next
    case (Suc i)
    then show ?thesis using Suc.IH [of "p + 64" "patch p ?u h" i] Suc.prems by (simp add: algebra_simps)
  qed
qed simp

lemma fill_unused_ok:
  assumes "dev_ok d" and "unat g = unat i + 64 * n" and "unat g \<le> length (host_file d)"
  shows "\<exists>d'. fill_unused d i g = (True, d') \<and> dev_ok d' \<and> core d' = (core d)\<lparr>host_file := fill_image (unat i) n (host_file d)\<rparr>"
  using assms
proof (induction n arbitrary: d i)
  case 0
  then have "\<not> i < g" by (simp add: word_less_nat_alt)
  then show ?case using 0 by (auto simp: fill_unused.simps [of d i g] core_def)
next
  case (Suc n)
  have b: "length (host_file d) < 2 ^ 63" using Suc.prems(1) by (simp add: dev_ok_def geom_ok_def)
  have s: "unat (i + 64) = unat i + 64" using Suc.prems b by (subst unat_add_small) auto
  have fit: "unat i < length (host_file d)" "unat i + unat (64 :: u64) \<le> length (host_file d)" using Suc.prems by simp_all
  obtain d1 where d1: "write_data d i (unused_entry_bytes remain_area) 64 = (64, d1)" "dev_ok d1"
    "core d1 = (core d)\<lparr>host_file := patch (unat i) (unused_entry_bytes remain_area) (host_file d)\<rparr>"
    using write_data_ok [OF Suc.prems(1) fit, of "unused_entry_bytes remain_area"] by auto
  have h1: "host_file d1 = patch (unat i) (unused_entry_bytes remain_area) (host_file d)"
    using arg_cong [OF d1(3), of host_file] by simp
  have "unat g = unat (i + 64) + 64 * n" "unat g \<le> length (host_file d1)" using Suc.prems s h1 fit by simp_all
  from Suc.IH [OF d1(2) this] obtain d' where d': "fill_unused d1 (i + 64) g = (True, d')" "dev_ok d'"
    "core d' = (core d1)\<lparr>host_file := fill_image (unat (i + 64)) n (host_file d1)\<rparr>" by blast
  have "i < g" "\<not> i + 64 < i" using Suc.prems(2) s by (simp_all add: word_less_nat_alt)
  then have "fill_unused d i g = (True, d')" using d1(1) d'(1) by (simp add: fill_unused.simps [of d i g])
  then show ?case using d' d1(3) h1 s by auto
qed

section \<open>The volume that is read back\<close>

text \<open>The entries of the index: the start of the volume, the data area as one free extent, the zero
  directory, and unused ones.\<close>

definition fresh_entry :: "sfs_options \<Rightarrow> nat \<Rightarrow> entry" where
  "fresh_entry opts i =
     (if i = 0 then start_entry_bytes st_entry
      else if i = 1 then file_entry_bytes (del_entry opts)
      else if i = 2 then dir_entry_bytes zero_dir
      else unused_entry_bytes remain_area)"

lemma length_fresh [simp]:
  "length (start_entry_bytes st_entry) = 64" "length (file_entry_bytes (del_entry opts)) = 64"
  "length (dir_entry_bytes zero_dir) = 64" "length (mbr_bytes (mbr_block opts)) = 512"
proof -
  show "length (start_entry_bytes st_entry) = 64" by (simp add: start_entry_bytes_def st_entry_def)
  show "length (dir_entry_bytes zero_dir) = 64" by (simp add: dir_entry_bytes_def zero_dir_def)
  show "length (file_entry_bytes (del_entry opts)) = 64"
    by (simp add: file_entry_bytes_def del_entry_def Let_def strncpy_eq length_mem_put)
  show "length (mbr_bytes (mbr_block opts)) = 512" by (simp add: mbr_bytes_def mbr_block_def Let_def)
qed

lemma length_vol_entry:
  assumes "mksfs_options now fsize index_size_s block_size_s label file_name = Inr opts"
  shows "length (vol_ident_bytes (vol_entry opts)) = 64"
proof -
  have "length (cstr (opt_label opts)) < 52"
    using assms by (auto simp: mksfs_options_def Let_def cstr_def takeWhile_tail split: if_splits sum.splits option.splits)
  then show ?thesis by (simp add: vol_ident_bytes_def vol_entry_def length_mem_put)
qed

lemma fresh_types:
  "entry_type (fresh_entry opts i) = entry_code (if i = 0 then START_ENTRY else if i = 1 then DEL_FILE_ENTRY
     else if i = 2 then DIR_ENTRY else UNUSED_ENTRY)"
  "cont_entries (fresh_entry opts 1) = 0" "cont_entries (fresh_entry opts 2) = 0"
  "PREV_DEL (fresh_entry opts 1) = 0" "NEXT_DEL (fresh_entry opts 1) = 0"
  "start_block (fresh_entry opts 1) = ucast (ucast (opt_reserved_size opts) :: u32)"
  "end_block (fresh_entry opts 1) = ucast (ucast (opt_reserved_size opts) :: u32) + opt_data_size opts - 1"
  "drop 10 (fresh_entry opts 2) = replicate 54 0"
  by (simp_all add: fresh_entry_def file_entry_fields dir_entry_fields del_entry_def zero_dir_def mbr_block_def Let_def del: One_nat_def)
    (simp_all add: start_entry_bytes_def st_entry_def unused_entry_bytes_def remain_area_def get_u8_def cs_at_def)

text \<open>A volume with this index is in order; it has no file and one name, that of the zero directory.\<close>

lemma unat_u32: "unat w < 2 ^ 32 \<Longrightarrow> unat (ucast (ucast (w :: u64) :: u32) :: u64) = unat w"
  by (simp only: unsigned_ucast_eq unsigned_take_bit_eq) (simp add: take_bit_nat_eq_self)

lemma fresh_index:
  assumes ok: "fs_ok fs" and three: "3 \<le> index_size fs" and b: "del_begin fs = index_off fs 1"
    and at: "\<And>i. i < index_size fs \<Longrightarrow> entry_at fs (index_off fs i) = fresh_entry opts i"
    and r: "0 < unat (opt_reserved_size opts)" "unat (opt_reserved_size opts) < 2 ^ 32" and d: "0 < unat (opt_data_size opts)"
    and area: "(unat (opt_reserved_size opts) + unat (opt_data_size opts)) * unat (block_size fs) \<le> unat (entry_start fs)"
  shows "volume_ok fs [index_off fs 1]" and "\<not> owns fs [index_off fs 1] p"
    and "blocks (entry_at fs) [index_off fs 1]
      = {unat (opt_reserved_size opts) ..< unat (opt_reserved_size opts) + unat (opt_data_size opts)}"
    and "lookup_file fs path = None"
proof -
  let ?q = "index_off fs 1" and ?r = "unat (opt_reserved_size opts)" and ?d = "unat (opt_data_size opts)"
  note t = fresh_types [of opts] and ib = index_bounds [OF ok]
  have mem: "p \<in> set (index_offs fs) \<longleftrightarrow> (\<exists>i < index_size fs. p = index_off fs i)" for p
    by (auto simp: index_offs_def)
  have inj: "index_off fs i = index_off fs j \<longleftrightarrow> i = j" if "i < index_size fs" "j < index_size fs" for i j
    using index_off_inj [OF ok, of i j] that by auto
  have e1: "entry_at fs ?q = fresh_entry opts 1" using at [of 1] three by simp
  have st: "unat (entry_start fs) < length (host_file fs)" "unat (entry_start fs) < 2 ^ 63" "0 < unat (block_size fs)"
    using ok ib block_size_bounds(1) [OF ok] by (auto simp: fs_ok_def)
  have "?r + ?d \<le> (?r + ?d) * unat (block_size fs)" using st(3) by simp
  also note area
  also note st(2)
  finally have small: "?r + ?d < 2 ^ 63" .
  have s: "unat (start_block (fresh_entry opts 1)) = ?r"
    unfolding t(6) by (rule unat_u32 [OF r(2)])
  have su: "start_block (fresh_entry opts 1) = opt_reserved_size opts" using s by (simp add: word_unat_eq_iff)
  have "unat (opt_reserved_size opts + opt_data_size opts) = ?r + ?d" using small by (subst unat_add_small) auto
  then have e: "unat (end_block (fresh_entry opts 1)) = ?r + ?d - 1"
    unfolding t(7) su [unfolded t(6)] using d by (subst unat_sub_small) auto
  have x: "ext (fresh_entry opts 1) = {?r ..< ?r + ?d}" unfolding ext_def s e using d by auto
  then show bl: "blocks (entry_at fs) [?q] = {?r ..< ?r + ?d}" by (simp add: blocks_def e1 del: One_nat_def)
  have "Suc (?r + ?d - 1) = ?r + ?d" using d by simp
  then have xo: "ext_ok fs (fresh_entry opts 1)"
    unfolding ext_ok_def s e using r(1) d area st(1) by simp
  have qin: "?q \<in> set (index_offs fs)" unfolding mem using three by (intro exI [of _ 1]) simp
  have free: "free_ok fs [?q]"
    unfolding free_ok_def free_list_def
    using b e1 xo t(1) [of 1] t(4,5) index_off_nonzero [OF ok, of 1] three qin by (auto simp del: One_nat_def)
  have own: "\<not> owns fs [?q] p" for p
  proof
    assume "owns fs [?q] p"
    then obtain i where "i < index_size fs" "p = index_off fs i" "p \<noteq> ?q"
      "entry_type (entry_at fs p) \<in> {entry_code FILE_ENTRY, entry_code DEL_FILE_ENTRY}"
      by (auto simp: owns_def mem)
    then show False using at [of i] t(1) [of i] by (auto split: if_splits)
  qed
  then show "\<not> owns fs [?q] p" .
  have head: "i = 1 \<or> i = 2" if "i < index_size fs" "headed (entry_at fs (index_off fs i))" for i
    using that at [of i] t(1) [of i] by (auto simp: headed_def split: if_splits)
  have nofile: "i < index_size fs \<Longrightarrow> entry_type (entry_at fs (index_off fs i)) \<noteq> entry_code FILE_ENTRY" for i
    using at [of i] t(1) [of i] by auto
  have dir2: "q = index_off fs 2" if q: "q \<in> set (index_offs fs)" "entry_type (entry_at fs q) = entry_code DIR_ENTRY" for q
  proof -
    obtain i where i: "i < index_size fs" "q = index_off fs i" using q(1) by (auto simp: mem)
    then have "i = 2" using at [of i] t(1) [of i] q(2) by (auto split: if_splits)
    then show ?thesis using i(2) by simp
  qed
  have "cont_entries (entry_at fs p) = 0" if p: "p \<in> set (index_offs fs)" "headed (entry_at fs p)" for p
  proof -
    obtain i where i: "i < index_size fs" "p = index_off fs i" using p(1) by (auto simp: mem)
    then have "i = 1 \<or> i = 2" using head p(2) by blast
    then show ?thesis using at [OF i(1)] i(2) t(2,3) by (auto simp del: One_nat_def)
  qed
  then have "laid_out fs" by (auto simp: laid_out_def simp del: One_nat_def)
  moreover have "names_ok FILE_ENTRY 34 fs" "unique_names FILE_ENTRY 34 fs"
    using nofile by (auto simp: names_ok_def unique_names_def mem)
  moreover have "names_ok DIR_ENTRY 10 fs"
    unfolding names_ok_def
  proof (intro ballI impI)
    fix p assume p: "p \<in> set (index_offs fs)" "entry_type (entry_at fs p) = entry_code DIR_ENTRY"
    then have [simp]: "p = index_off fs 2" by (rule dir2)
    show "name_ok 10 fs p"
      using at [of 2] three t(3,8) index_off_valid [OF ok, of 2] by (simp add: name_ok_def name_bytes_def del: One_nat_def)
  qed
  moreover have "unique_names DIR_ENTRY 10 fs" unfolding unique_names_def by (metis dir2)
  ultimately have dir: "dir_ok fs" using ok by (simp add: dir_ok_def dir_names_ok_def)
  have "bare (entry_at fs) [?q]" using e1 t(2) by (simp add: bare_def del: One_nat_def)
  moreover have "below fs (blocks (entry_at fs) [?q])"
    unfolding below_def bl
  proof
    fix k assume "k \<in> {?r ..< ?r + ?d}"
    then have "Suc k \<le> ?r + ?d" by simp
    then have "Suc k * unat (block_size fs) \<le> (?r + ?d) * unat (block_size fs)" by (rule mult_le_mono1)
    then show "Suc k * unat (block_size fs) \<le> unat (entry_start fs)" using area by linarith
  qed
  ultimately show "volume_ok fs [?q]" using dir free own by (simp add: volume_ok_def)
  show "lookup_file fs path = None"
    using nofile by (auto simp: lookup_def find_None_iff mem has_name_def)
qed

section \<open>The image\<close>

text \<open>The index begins at \<open>G\<close> with \<open>n + 3\<close> entries and the volume identifier.\<close>

definition fresh_image :: "sfs_options \<Rightarrow> nat \<Rightarrow> nat \<Rightarrow> bytes \<Rightarrow> bytes" where
  "fresh_image opts G n h = fill_image (G + 192) n
     (patch (G + 128) (dir_entry_bytes zero_dir) (patch (G + 64) (file_entry_bytes (del_entry opts))
        (patch G (start_entry_bytes st_entry) (patch (G + 192 + 64 * n) (vol_ident_bytes (vol_entry opts))
           (patch 0 (mbr_bytes (mbr_block opts)) h)))))"

lemma fresh_image_segs:
  assumes G: "512 \<le> G" and len: "G + 192 + 64 * n + 64 \<le> length h" and vol: "length (vol_ident_bytes (vol_entry opts)) = 64"
  defines "H \<equiv> fresh_image opts G n h"
  shows "length H = length h" and "seg 0 512 H = mbr_bytes (mbr_block opts)"
    and "seg (G + 192 + 64 * n) 64 H = vol_ident_bytes (vol_entry opts)"
    and "i < n + 3 \<Longrightarrow> seg (G + 64 * i) 64 H = fresh_entry opts i"
proof -
  let ?m = "mbr_bytes (mbr_block opts)" and ?v = "vol_ident_bytes (vol_entry opts)" and ?s = "start_entry_bytes st_entry"
    and ?d = "file_entry_bytes (del_entry opts)" and ?z = "dir_entry_bytes zero_dir"
  define h1 where "h1 = patch 0 ?m h"
  define h2 where "h2 = patch (G + 192 + 64 * n) ?v h1"
  define h3 where "h3 = patch G ?s h2"
  define h4 where "h4 = patch (G + 64) ?d h3"
  define h5 where "h5 = patch (G + 128) ?z h4"
  have l1: "length h1 = length h" unfolding h1_def using G len by simp
  have l2: "length h2 = length h" unfolding h2_def using l1 len vol by simp
  have l3: "length h3 = length h" unfolding h3_def using l2 len by simp
  have l4: "length h4 = length h" unfolding h4_def using l3 len by simp
  have l5: "length h5 = length h" unfolding h5_def using l4 len by simp
  have H: "H = fill_image (G + 192) n h5"
    by (simp add: H_def fresh_image_def h1_def h2_def h3_def h4_def h5_def)
  have fit: "G + 192 + 64 * n \<le> length h5" using len l5 by simp
  note fr = fill_image_frame [OF fit]
  show "length H = length h" unfolding H using fr(1) l5 by simp
  have o1: "seg q k h2 = seg q k h1" if "q + k \<le> G + 192 + 64 * n" for q k
    unfolding h2_def by (rule seg_patch_other) (use that l1 vol len in auto)
  have o2: "seg q k h3 = seg q k h2" if "q + k \<le> G \<or> G + 64 \<le> q" for q k
    unfolding h3_def by (rule seg_patch_other) (use that l2 len in auto)
  have o3: "seg q k h4 = seg q k h3" if "q + k \<le> G + 64 \<or> G + 128 \<le> q" for q k
    unfolding h4_def by (rule seg_patch_other) (use that l3 len in auto)
  have o4: "seg q k h5 = seg q k h4" if "q + k \<le> G + 128 \<or> G + 192 \<le> q" for q k
    unfolding h5_def by (rule seg_patch_other) (use that l4 len in auto)
  have o5: "seg q k H = seg q k h5" if "q + k \<le> G + 192 \<or> G + 192 + 64 * n \<le> q" for q k
    unfolding H by (rule fr(2)) (rule that)
  have "seg 0 512 h1 = ?m" unfolding h1_def using seg_patch_same [of 0 ?m h] G len by simp
  then show "seg 0 512 H = ?m" using G by (simp add: o5 o4 o3 o2 o1)
  have "seg (G + 192 + 64 * n) 64 h2 = ?v" unfolding h2_def using seg_patch_same [of "G + 192 + 64 * n" ?v h1] l1 len vol by simp
  then show "seg (G + 192 + 64 * n) 64 H = ?v" by (simp add: o5 o4 o3 o2)
  have e0: "seg G 64 H = ?s"
    using seg_patch_same [of G ?s h2] l2 len by (simp add: o5 o4 o3 h3_def)
  have e1: "seg (G + 64) 64 H = ?d"
    using seg_patch_same [of "G + 64" ?d h3] l3 len by (simp add: o5 o4 h4_def)
  have e2: "seg (G + 128) 64 H = ?z"
    using seg_patch_same [of "G + 128" ?z h4] l4 len by (simp add: o5 h5_def)
  show "seg (G + 64 * i) 64 H = fresh_entry opts i" if "i < n + 3"
  proof (cases "i < 3")
    case True
    then consider "i = 0" | "i = 1" | "i = 2" by linarith
    then show ?thesis by cases (use e0 e1 e2 in \<open>simp_all add: fresh_entry_def\<close>)
  next
    case False
    have "seg (G + 192 + 64 * (i - 3)) 64 H = unused_entry_bytes remain_area"
      unfolding H by (rule seg_fill_image [OF fit]) (use that False in linarith)
    moreover have "G + 192 + 64 * (i - 3) = G + 64 * i" using False by simp
    ultimately show ?thesis using False by (simp add: fresh_entry_def)
  qed
qed

text \<open>The numbers of the layout: the logarithm of the block size, the start of the index and how many
  entries of it are unused.\<close>

definition layout :: "sfs_options \<Rightarrow> nat \<Rightarrow> nat \<Rightarrow> nat \<Rightarrow> nat \<Rightarrow> bool" where
  "layout opts m G n z \<longleftrightarrow> 8 \<le> m \<and> m \<le> 62 \<and> unat (opt_block_size opts + 7) = m
     \<and> G = (unat (opt_reserved_size opts) + unat (opt_data_size opts)) * 2 ^ m
     \<and> unat (opt_reserved_size opts) * 2 ^ m = max 512 (2 ^ m) \<and> unat (opt_index_size opts) = 64 * n + 256
     \<and> z = G + 64 * n + 256 \<and> z < 2 ^ 63 \<and> unat (opt_total_block opts) * 2 ^ m = z \<and> 2 ^ m dvd z"

lemma layout_exists:
  assumes "mksfs_options now fsize index_size_s block_size_s label file_name = Inr opts" and f63: "unat fsize < 2 ^ 63"
  obtains m G n where "layout opts m G n (unat fsize)"
proof (rule mksfs_options_layout [OF assms])
  fix m
  let ?I = "unat (opt_index_size opts)" and ?rd = "unat (opt_reserved_size opts) + unat (opt_data_size opts)"
  assume h: "8 \<le> m" "m \<le> 62" "unat (opt_block_size opts + 7) = m" "unat (opt_total_block opts) * 2 ^ m = unat fsize"
    "?rd + ?I div 2 ^ m = unat (opt_total_block opts)"
    "2 ^ m dvd ?I" "0 < ?I" "unat (opt_reserved_size opts) * 2 ^ m = max 512 (2 ^ m)"
  have "(2 :: nat) ^ 8 dvd 2 ^ m" using h(1) by (rule le_imp_power_dvd)
  then have "2 ^ 8 dvd ?I" using h(6) by (rule dvd_trans)
  then obtain k where k: "?I = 256 * k" by (auto elim: dvdE)
  then have "64 * (4 * k - 4) + 256 = ?I" using h(7) by simp
  moreover have "?I div 2 ^ m * 2 ^ m = ?I" using h(6) by simp
  then have "?rd * 2 ^ m + ?I = unat fsize" using h(4,5) by (metis add_mult_distrib)
  moreover have "2 ^ m dvd unat fsize" using h(4) by (metis dvd_triv_right)
  ultimately have "layout opts m (?rd * 2 ^ m) (4 * k - 4) (unat fsize)" using h f63 by (simp add: layout_def)
  then show ?thesis by (rule that)
qed

lemma image_create_ok:
  assumes opts: "mksfs_options now fsize index_size_s block_size_s label file_name = Inr opts"
    and lay: "layout opts m G n (unat fsize)"
    and h: "length (host_file d) = unat fsize" "\<forall>k. \<not> io_fail d k" and fd: "open_fd \<noteq> -1" and mem: "length b = 2 ^ m"
  obtains d' where "image_create opts open_fd (Some b) d = (0, d')" "host_file d' = fresh_image opts G n (host_file d)" "io_fail d' = io_fail d"
proof -
  let ?bs = "word_of_nat (2 ^ unat (opt_block_size opts + 7)) :: u64"
  let ?T = "opt_total_block opts * ?bs"
  have l: "8 \<le> m" "m \<le> 62" "unat (opt_block_size opts + 7) = m" "G = (unat (opt_reserved_size opts) + unat (opt_data_size opts)) * 2 ^ m"
    "unat (opt_reserved_size opts) * 2 ^ m = max 512 (2 ^ m)" "unat (opt_index_size opts) = 64 * n + 256"
    "unat fsize = G + 64 * n + 256" "unat fsize < 2 ^ 63" "unat (opt_total_block opts) * 2 ^ m = unat fsize" "2 ^ m dvd unat fsize"
    using lay unfolding layout_def by blast+
  have "(2 :: nat) ^ m < 2 ^ 64" using l(2) by (intro power_strict_increasing) simp_all
  then have bs: "unat ?bs = 2 ^ m" by (simp only: l(3) unat_of_nat) simp
  have G: "512 \<le> G" using l(4,5) by (simp add: add_mult_distrib)
  have T: "unat ?T = unat fsize" using l(8,9) bs by (subst unat_mult_small) auto
  define gs where "gs = ?T - opt_index_size opts"
  define gv where "gv = ?T - (64 :: u64)"
  have u: "unat gs = G" unfolding gs_def by (subst unat_sub_small) (use T l(6,7) in simp_all)
  have v: "unat gv = G + 192 + 64 * n" unfolding gv_def by (subst unat_sub_small) (use T l(7) in simp_all)
  have small: "G + 64 * n + 256 < 2 ^ 63" using l(7,8) by simp
  have u64: "unat (gs + 64) = G + 64" "unat (gs + 128) = G + 128" "unat (gs + 192) = G + 192"
    using u small by (subst unat_add_small; simp)+
  let ?d0 = "d\<lparr>fd := -1\<rparr>"
  let ?d1 = "?d0\<lparr>bdev_size := ?T, block_size := ?bs, c_errno := 0, fd_filename := Some (opt_file_name opts)\<rparr>"
  let ?d2 = "?d1\<lparr>c_errno := 0, fd := open_fd, buf := b, buf_num := -1\<rparr>"
  have md: "?T mod ?bs = 0" using T bs l(10) by (simp add: word_unat_eq_iff unat_mod)
  have c: "filedev_create (Some ?d0) ?bs ?T = (0, Some (?d0\<lparr>bdev_size := ?T, block_size := ?bs, c_errno := 0\<rparr>))"
    using md by (simp add: filedev_create_def)
  have i: "filedev_init open_fd (Some b) ?d1 = (0, ?d2)" using fd by (simp add: filedev_init_def)
  have dev: "dev_ok ?d2"
    using fd h bs T l(8,10) mem by (simp add: dev_ok_def geom_ok_def cache_ok_def)
  note lv = length_vol_entry [OF opts]
  let ?ws = "[(0, mbr_bytes (mbr_block opts)), (gv, vol_ident_bytes (vol_entry opts)), (gs, start_entry_bytes st_entry),
     (gs + 64, file_entry_bytes (del_entry opts)), (gs + 128, dir_entry_bytes zero_dir)]"
  have ne: "mbr_bytes (mbr_block opts) \<noteq> []" "vol_ident_bytes (vol_entry opts) \<noteq> []" "start_entry_bytes st_entry \<noteq> []"
    "file_entry_bytes (del_entry opts) \<noteq> []" "dir_entry_bytes zero_dir \<noteq> []"
    by (simp_all add: vol_ident_bytes_def start_entry_bytes_def file_entry_bytes_def dir_entry_bytes_def mbr_bytes_def)
  have ws: "\<forall>w \<in> set ?ws. snd w \<noteq> [] \<and> unat (fst w) + length (snd w) \<le> length (host_file ?d2)"
    using ne lv u v u64 h(1) l(7) G by simp
  from write_all_ok [OF dev ws] obtain d3 where d3: "write_all ?ws ?d2 = (True, d3)" "dev_ok d3"
    "core d3 = (core ?d2)\<lparr>host_file := patch_all (host_file ?d2) ?ws\<rparr>" by blast
  have h3: "host_file d3 = patch_all (host_file d) ?ws" using arg_cong [OF d3(3), of host_file] by simp
  have "length (patch_all (host_file d) ?ws) = length (host_file d)"
    using ws by (intro length_patch_all) simp
  then have l3: "length (host_file d3) = unat fsize" using h3 h(1) by simp
  have "unat gv = unat (gs + 192) + 64 * n" "unat gv \<le> length (host_file d3)" using v u64 l3 l(7) by simp_all
  from fill_unused_ok [OF d3(2) this] obtain d4 where d4: "fill_unused d3 (gs + 192) gv = (True, d4)" "dev_ok d4"
    "core d4 = (core d3)\<lparr>host_file := fill_image (unat (gs + 192)) n (host_file d3)\<rparr>" by blast
  have h4: "host_file d4 = fresh_image opts G n (host_file d)"
    using arg_cong [OF d4(3), of host_file] h3 u v u64 by (simp add: fresh_image_def)
  have f4: "io_fail d4 = io_fail d"
    using arg_cong [OF d4(3), of io_fail] arg_cong [OF d3(3), of io_fail] by simp
  obtain r d5 where d5: "filedev_release d4 = (r, d5)" by (metis surj_pair)
  have "host_file d5 = host_file d4" "io_fail d5 = io_fail d4"
    using d5 by (auto simp: filedev_release_def Let_def split: if_splits)
  moreover have "image_create opts open_fd (Some b) d = (0, d5)"
    using c i d3(1) d4(1) d5 by (simp add: image_create_def Let_def gs_def gv_def)
  ultimately show ?thesis using that h4 f4 by simp
qed

section \<open>Mounting it\<close>

lemma get_in_seg:
  assumes "length (seg a n h) = n"
  shows "p + k \<le> n \<Longrightarrow> seg (a + p) k h = seg p k (seg a n h)" and "p < n \<Longrightarrow> get_u8 (a + p) h = get_u8 p (seg a n h)"
    and "p + 8 \<le> n \<Longrightarrow> get_u64 (a + p) h = get_u64 p (seg a n h)"
proof -
  have s: "seg (a + p) k h = seg p k (seg a n h)" if "p + k \<le> n" for p k
  proof -
    have "drop p (take n (drop a h)) = take (n - p) (drop (a + p) h)" by (simp add: drop_take add.commute)
    then show ?thesis using that by (simp add: seg_def min_absorb1)
  qed
  then show "p + k \<le> n \<Longrightarrow> seg (a + p) k h = seg p k (seg a n h)" .
  show "p + 8 \<le> n \<Longrightarrow> get_u64 (a + p) h = get_u64 p (seg a n h)" using s [of p 8] by (simp add: get_u64_def)
  show "p < n \<Longrightarrow> get_u8 (a + p) h = get_u8 p (seg a n h)"
    using s [of p "Suc 0"] cs_at_seg [of "a + p" h] cs_at_seg [of p "seg a n h"] by simp
qed

lemma entry_at_index:
  "fs_ok fs \<Longrightarrow> i < index_size fs \<Longrightarrow> entry_at fs (index_off fs i) = seg (unat (entry_start fs) + 64 * i) 64 (host_file fs)"
  using index_off_valid [of fs i] unat_index_off [of fs i] by (simp add: entry_at_def)

lemma mbr_of_fresh:
  assumes opts: "mksfs_options now fsize index_size_s block_size_s label file_name = Inr opts"
    and lay: "layout opts m G n z" and m: "m < 32" and H: "seg 0 512 H = mbr_bytes (mbr_block opts)"
  shows "header_ok H" and "unat (index_begin H) = G" and "unat (index_end H) = G + 192 + 64 * n"
    and "push_bit (unat (get_u8 444 H)) (128 :: u64) = 2 ^ m" and "get_u64 412 H = opt_data_size opts"
    and "get_u8 444 H = word_of_nat (m - 7)" and "get_u64 432 H = opt_total_block opts"
proof -
  let ?m = "mbr_block opts"
  have l: "8 \<le> m" "m \<le> 62" "unat (opt_block_size opts + 7) = m" "G = (unat (opt_reserved_size opts) + unat (opt_data_size opts)) * 2 ^ m"
    "unat (opt_reserved_size opts) * 2 ^ m = max 512 (2 ^ m)" "unat (opt_index_size opts) = 64 * n + 256"
    "z = G + 64 * n + 256" "z < 2 ^ 63"
    using lay unfolding layout_def by blast+
  have len: "length (seg 0 512 H) = 512" using H by simp
  note g = get_in_seg [OF len, unfolded add_0 H]
  have ml: "length (mb_reserved_boot_code ?m) = 404" "length (mb_magic_number ?m) = 3" by (simp_all add: mbr_block_def Let_def)
  note mf = mbr_fields [OF ml]
  have mv: "mb_data_area_size ?m = opt_data_size opts" "mb_index_area_size ?m = opt_index_size opts"
    "mb_reserved_size ?m = ucast (opt_reserved_size opts)" "mb_block_size ?m = ucast (opt_block_size opts)" "mb_total_size ?m = opt_total_block opts"
    by (simp_all add: mbr_block_def Let_def)
  show "header_ok H" unfolding header_ok_def using mbr_checksum [OF opts] g by simp
  have ob: "opt_block_size opts = word_of_nat m - 7"
    using arg_cong [OF l(3), of "word_of_nat :: nat \<Rightarrow> u64"] by (simp add: algebra_simps)
  have "unat (opt_block_size opts) = m - 7"
    unfolding ob using l(1,2) by (subst unat_sub_small) (simp_all add: unat_of_nat)
  then have ob': "(ucast (opt_block_size opts) :: byte) = word_of_nat (m - 7)" 
    using l(2) by (intro word_unat_eq_iff [THEN iffD2]) (simp add: unsigned_ucast_eq unat_of_nat take_bit_eq_mod unat_mod)
  show b: "get_u8 444 H = word_of_nat (m - 7)"
    using g(2) [of 444] mf(8) mv(4) ob' by simp
  have "unat (get_u8 444 H) = m - 7" unfolding b using l(2) by (simp add: unat_of_nat)
  then have "push_bit (unat (get_u8 444 H)) (128 :: u64) = 2 ^ 7 * 2 ^ (m - 7)" by (simp add: push_bit_eq_mult)
  then show bs: "push_bit (unat (get_u8 444 H)) (128 :: u64) = 2 ^ m"
    unfolding power_add [symmetric] using l(1) by simp
  show dd: "get_u64 412 H = opt_data_size opts" "get_u64 432 H = opt_total_block opts"
    using g(3) [of 412] g(3) [of 432] mf(2,6) mv by simp_all
  have um: "unat (2 ^ m :: u64) = 2 ^ m" using l(2) by (intro unat_pow2) simp
  have "(2 :: nat) ^ m < 2 ^ 32" using m by (intro power_strict_increasing) simp_all
  then have r32: "unat (opt_reserved_size opts) * 2 ^ m < 2 ^ 32" unfolding l(5) by simp
  have "unat (opt_reserved_size opts) \<le> unat (opt_reserved_size opts) * 2 ^ m" by simp
  then have "unat (opt_reserved_size opts) < 2 ^ 32" using r32 by linarith
  then have rr: "ucast (ucast (opt_reserved_size opts) :: u32) = opt_reserved_size opts"
    using unat_u32 by (simp add: word_unat_eq_iff)
  have ur: "unat (opt_reserved_size opts * 2 ^ m) = unat (opt_reserved_size opts) * 2 ^ m"
    unfolding um [symmetric] by (rule unat_mult_small) (use r32 um in simp)
  have ud: "unat (opt_data_size opts * 2 ^ m) = unat (opt_data_size opts) * 2 ^ m"
    unfolding um [symmetric] by (rule unat_mult_small) (use l(4,7,8) um in \<open>simp add: add_mult_distrib\<close>)
  have "unat (ucast (ucast (opt_reserved_size opts * 2 ^ m) :: u32) :: u64) = unat (opt_reserved_size opts) * 2 ^ m"
    using unat_u32 [of "opt_reserved_size opts * 2 ^ m"] r32 ur by simp
  moreover have "index_begin H = ucast (ucast (opt_reserved_size opts * 2 ^ m) :: u32) + opt_data_size opts * 2 ^ m"
    using g(1) [of 440 4] mf(7) mv(3) rr by (simp add: index_begin_def Let_def bs dd)
  ultimately show ib: "unat (index_begin H) = G"
    using ud l(4,7,8) by (simp add: unat_add_small add_mult_distrib)
  have "get_u64 420 H = opt_index_size opts" using g(3) [of 420] mf(3) mv by simp
  then have "index_end H = index_begin H + opt_index_size opts - 64" by (simp add: index_end_def)
  moreover have "unat (index_begin H + opt_index_size opts) = G + 64 * n + 256"
    using ib l(6-8) by (subst unat_add_small) simp_all
  ultimately show "unat (index_end H) = G + 192 + 64 * n" by (subst \<open>index_end H = _\<close>, subst unat_sub_small) simp_all
qed

lemma fresh_mount:
  assumes opts: "mksfs_options now fsize index_size_s block_size_s label file_name = Inr opts"
    and lay: "layout opts m G n z" and m: "m < 32" and d: "0 < unat (opt_data_size opts)"
    and dev: "dev_ok fs" and bs: "block_size fs = 2 ^ m" and len: "length h = z" and host: "host_file fs = fresh_image opts G n h"
    and e: "length e = 64"
  obtains fs' where "sfs_init fs e = (0, fs')" "sfs_errno fs' = 0" "volume_ok fs' [index_off fs' 1]" "\<forall>p. \<not> owns fs' [index_off fs' 1] p"
    "blocks (entry_at fs') [index_off fs' 1]
      = {unat (opt_reserved_size opts) ..< unat (opt_reserved_size opts) + unat (opt_data_size opts)}"
    "\<forall>path. lookup_file fs' path = None" "fs_time fs' = opt_time_stamp opts" "block_size fs' = 2 ^ m"
    "seg 0 512 (host_file fs') = mbr_bytes (mbr_block opts)" "index_size fs' = n + 3"
    "\<forall>i < n + 3. entry_at fs' (index_off fs' i) = fresh_entry opts i"
proof -
  let ?H = "host_file fs"
  have l: "8 \<le> m" "m \<le> 62" "G = (unat (opt_reserved_size opts) + unat (opt_data_size opts)) * 2 ^ m"
    "unat (opt_reserved_size opts) * 2 ^ m = max 512 (2 ^ m)" "z = G + 64 * n + 256" "z < 2 ^ 63"
    using lay unfolding layout_def by blast+
  have ub: "unat (2 ^ m :: u64) = 2 ^ m" using l(2) by (intro unat_pow2) simp
  have "(2 :: nat) ^ m < 2 ^ 32" using m by (intro power_strict_increasing) simp_all
  then have r32: "unat (opt_reserved_size opts) * 2 ^ m < 2 ^ 32" unfolding l(4) by simp
  have "unat (opt_reserved_size opts) \<le> unat (opt_reserved_size opts) * 2 ^ m" by simp
  then have r: "0 < unat (opt_reserved_size opts)" "unat (opt_reserved_size opts) < 2 ^ 32"
    using r32 l(4) by (cases "unat (opt_reserved_size opts)"; simp)+
  have G: "512 \<le> G" using l(3,4) by (simp add: add_mult_distrib)
  have fit: "G + 192 + 64 * n + 64 \<le> length h" using len l(5) by simp
  note sg = fresh_image_segs [OF G fit length_vol_entry [OF opts], folded host]
  note b = mbr_of_fresh [OF opts lay m sg(2)]
  have p8: "(2 :: nat) ^ 8 dvd 2 ^ m" using l(1) by (rule le_imp_power_dvd)
  have big: "(2 :: nat) ^ m = 256 \<or> 512 \<le> (2 :: nat) ^ m"
  proof (cases "m = 8")
    case False
    then have "(2 :: nat) ^ 9 \<le> 2 ^ m" using l(1) by (intro power_increasing) simp_all
    then show ?thesis by simp
  qed simp
  have "(2 :: nat) ^ 6 dvd 2 ^ m" using l(1) by (intro le_imp_power_dvd) simp
  then have d64: "(64 :: nat) dvd 2 ^ m" by simp
  have fields: "\<forall>f \<in> set mbr_field_list. in_block fs (fst f) (snd f)"
    by (rule fields_in_block) (use p8 big bs ub sg(1) fit G in simp_all)
  let ?i = "indexed fs"
  have isel: "unat (entry_start ?i) = G" "unat (vol_ident ?i) = G + 192 + 64 * n" "host_file ?i = ?H" "block_size ?i = 2 ^ m"
    using b(2,3) bs by (simp_all add: indexed_def)
  have "2 ^ m dvd G" using l(3) by simp
  then have gd: "64 dvd G" using d64 by (rule dvd_trans [rotated])
  have iok: "fs_ok ?i"
    unfolding fs_ok_def entry_dev_ok_def using isel dev gd d64 ub G fit sg(1)
    by (simp add: indexed_def)
  have size: "index_size ?i = n + 3" using isel by (simp add: index_size_def)
  have uo: "unat (entry_start ?i) + 64 * j = G + 64 * j" for j using isel(1) by simp
  have at: "entry_at ?i (index_off ?i j) = fresh_entry opts j" if "j < n + 3" for j
    using entry_at_index [OF iok, of j] sg(4) [OF that] that size uo isel(3) by simp
  have "[0..<n + 3] = 0 # 1 # [2..<n + 3]" by (simp add: upt_conv_Cons numeral_2_eq_2)
  then have first: "first_free ?i = index_off ?i 1"
    using at [of 0] at [of 1] fresh_types(1) [of opts 0] fresh_types(1) [of opts 1] fresh_types(4) [of opts]
    by (simp add: first_free_def index_offs_def size del: One_nat_def upt.simps)
  have dl: "seg (G + 128) 64 ?H = dir_entry_bytes zero_dir" using sg(4) [of 2] by (simp add: fresh_entry_def)
  have ls: "length (seg (G + 128) 64 ?H) = 64" unfolding dl by simp
  have root: "get_u8 (unat (index_begin ?H) + 128) ?H = entry_code DIR_ENTRY" "get_u8 (unat (index_begin ?H) + 138) ?H = 0"
    using get_in_seg(2) [OF ls, of 0] get_in_seg(2) [OF ls, of 10] unfolding dl b(2)
    by (simp_all add: dir_entry_bytes_def zero_dir_def get_u8_def cs_at_def nth_append add.commute)
  have lv: "length (seg (G + 192 + 64 * n) 64 ?H) = 64" unfolding sg(3) by (rule length_vol_entry [OF opts])
  have tm: "get_u64 (unat (index_end ?H) + 4) ?H = opt_time_stamp opts"
    using get_in_seg(3) [OF lv, of 4] unfolding sg(3) b(3)
    by (simp add: vol_ident_bytes_def vol_entry_def get_u64_def seg_def)
  have three: "3 \<le> index_size ?i" using size by simp
  obtain fs' where i: "sfs_init fs e = (0, fs')" "fs_ok fs'" "sfs_errno fs' = 0"
    "host_file fs' = patch (unat (index_end ?H) + 4) (u64_to_bytes 0) ?H"
    "entry_start fs' = index_begin ?H" "vol_ident fs' = index_end ?H" "block_size fs' = block_size fs"
    "del_begin fs' = first_free ?i" "fs_time fs' = get_u64 (unat (index_end ?H) + 4) ?H"
    by (rule sfs_init_ok [OF dev fields b(1) iok three root e])
  have lH: "length ?H = length h" by (rule sg(1))
  have same: "seg q k (host_file fs') = seg q k ?H" if "q + k \<le> G + 192 + 64 * n" for q k
    unfolding i(4) b(3) by (rule seg_patch_other) (use that fit lH in auto)
  have size': "index_size fs' = n + 3" using i(5,6) b(2,3) by (simp add: index_size_def)
  have at': "entry_at fs' (index_off fs' j) = fresh_entry opts j" if "j < n + 3" for j
    using entry_at_index [OF i(2), of j] sg(4) [OF that] same [of "G + 64 * j" 64] that size' i(5) b(2) by simp
  have off: "index_off fs' = index_off ?i" using i(5) by (simp add: index_off_def indexed_def fun_eq_iff)
  have three': "3 \<le> index_size fs'" using size' by simp
  have beg: "del_begin fs' = index_off fs' 1" using i(8) first off by simp
  have area: "(unat (opt_reserved_size opts) + unat (opt_data_size opts)) * unat (block_size fs') \<le> unat (entry_start fs')"
    using i(5,7) bs ub b(2) l(3) by simp
  note fi = fresh_index [OF i(2) three' beg at' [folded size'] r d area]
  show ?thesis
    by (rule that [OF i(1,3) fi(1)]) (use fi(2-4) tm i(7,9) bs size' at' same [of 0 512] sg(2) G in simp_all)
qed

end
