(* ===== verification/MountProps.thy ===== *)
theory MountProps
  imports FreshVolume FuseMount InodeNumbers VolumeProps
begin

text \<open>
  Mounting as a whole, \<open>fuse_sfs_init\<close> of src/fuse/main.c: what the checks before it compute
  (src/lib/sfs/statfs.c and fixfs.c), and that a volume that src/mksfs has just made is mounted without
  a question, empty, with its whole data area free.
\<close>

section \<open>The used space\<close>

lemma count_space_contract:
  "scan_callback count_space
    (\<lambda>at p d. (False, if entry_type (at p) = entry_code FILE_ENTRY
       then d + bs * (end_block (at p) - start_block (at p) + 1) else d)) (\<lambda>fs d. block_size fs = bs)"
proof (unfold_locales, goal_cases)
  case (1 fs i d p)
  then show ?case
    using index_off_valid [of fs i] by (auto simp: count_space_def get_size_def length_entry_at)
next
  case (2 fs fs' d)
  then show ?case by (simp add: same_vol_sel)
qed

interpretation space_scan: scan_callback count_space
  "\<lambda>at p d. (False, if entry_type (at p) = entry_code FILE_ENTRY
     then d + bs * (end_block (at p) - start_block (at p) + 1) else d)" "\<lambda>fs d. block_size fs = bs" for bs
  by (rule count_space_contract)

lemma fold_filtered:
  fixes w :: "'a \<Rightarrow> u64"
  shows "fold (\<lambda>p d. if P p then d + b * w p else d) xs d = d + b * (\<Sum>p \<leftarrow> filter P xs. w p)"
  by (induction xs arbitrary: d) (simp_all add: algebra_simps)

lemma sum_and_count:
  assumes "finite F"
  shows "(\<Sum>p \<in> F. f p + (if z p then 1 else 0)) = (\<Sum>p \<in> F. f p) + card {p \<in> F. z p}"
  using sum.inter_filter [OF assms, of "\<lambda>_. 1 :: nat" z] by (simp add: sum.distrib)

definition file_slots :: "fs \<Rightarrow> u64 set" where
  "file_slots fs = {p \<in> set (index_offs fs). entry_type (entry_at fs p) = entry_code FILE_ENTRY}"

lemma scan_used_space_ok:
  assumes vol: "volume_ok fs ps" and len: "length e = 64"
  obtains e' fs' where "scan_used_space fs e = (block_size fs * word_of_nat
      (card (\<Union>p \<in> file_slots fs. file_ext (entry_at fs p)) + card {p \<in> file_slots fs. start_block (entry_at fs p) = 0}), e', fs')"
    "length e' = 64" "fs_ok fs'" "same_vol fs fs'"
proof -
  note v = volume_okD [OF vol]
  let ?P = "\<lambda>p. entry_type (entry_at fs p) = entry_code FILE_ENTRY" and ?F = "file_slots fs"
  let ?w = "\<lambda>p. end_block (entry_at fs p) - start_block (entry_at fs p) + 1"
  have own: "owns fs ps p" if "p \<in> ?F" for p
    using that free_entries_coded [OF v(3), of p] by (auto simp: file_slots_def owns_def)
  have w: "?w p = word_of_nat (card (file_ext (entry_at fs p)) + (if start_block (entry_at fs p) = 0 then 1 else 0))"
    if "p \<in> ?F" for p
  proof (cases "start_block (entry_at fs p) = 0")
    case True
    then have "end_block (entry_at fs p) = 0" using v(6) [OF own [OF that]] by (auto simp: file_ok_def ext_ok_def)
    then show ?thesis using True by (simp add: file_ext_def)
  next
    case False
    then have "ext_ok fs (entry_at fs p)" using v(6) [OF own [OF that]] by (auto simp: file_ok_def)
    note x = ext_ok_bounds(3) [OF v(1) this]
    have "?w p = word_of_nat (unat (?w p))" by simp
    then show ?thesis unfolding x using False by (simp add: file_ext_def)
  qed
  have fin: "finite (file_ext (entry_at fs p))" for p by (simp add: file_ext_def ext_def)
  have dis: "distinct (index_offs fs)"
    unfolding index_offs_def distinct_map using index_off_inj [OF v(1)] by (auto simp: inj_on_def)
  have F: "set (filter ?P (index_offs fs)) = ?F" by (auto simp: file_slots_def)
  have "finite ?F" using F by (metis finite_set)
  note finF = this
  have "(\<Sum>p \<leftarrow> filter ?P (index_offs fs). ?w p) = (\<Sum>p \<in> ?F. ?w p)"
    using sum_list_distinct_conv_sum_set [of "filter ?P (index_offs fs)" ?w] dis F by simp
  also have "\<dots> = (\<Sum>p \<in> ?F. word_of_nat (card (file_ext (entry_at fs p)) + (if start_block (entry_at fs p) = 0 then 1 else 0)))"
    by (rule sum.cong [OF refl w])
  also have "\<dots> = word_of_nat (\<Sum>p \<in> ?F. card (file_ext (entry_at fs p)) + (if start_block (entry_at fs p) = 0 then 1 else 0))"
    by simp
  also have "(\<Sum>p \<in> ?F. card (file_ext (entry_at fs p)) + (if start_block (entry_at fs p) = 0 then 1 else 0))
      = (\<Sum>p \<in> ?F. card (file_ext (entry_at fs p))) + card {p \<in> ?F. start_block (entry_at fs p) = 0}"
    by (rule sum_and_count [OF finF])
  also have "(\<Sum>p \<in> ?F. card (file_ext (entry_at fs p))) = card (\<Union>p \<in> ?F. file_ext (entry_at fs p))"
    using finF fin v(9) own by (intro card_UN_disjoint [symmetric]) auto
  finally have sum: "(\<Sum>p \<leftarrow> filter ?P (index_offs fs). ?w p) = word_of_nat
      (card (\<Union>p \<in> ?F. file_ext (entry_at fs p)) + card {p \<in> ?F. start_block (entry_at fs p) = 0})" .
  obtain r e' fs' d where run: "entry_parse fs e count_space 0 = (found r, e', fs', d)"
    "scan (\<lambda>p d. (False, if ?P p then d + block_size fs * ?w p else d)) (index_offs fs) 0 = (r, d)"
    "length e' = 64" "fs_ok fs'" "same_vol fs fs'"
    by (rule space_scan.entry_parse_scan [OF v(1) refl len, of 0])
  have "d = block_size fs * (\<Sum>p \<leftarrow> filter ?P (index_offs fs). ?w p)"
    using run(2) by (simp add: scan_fold fold_filtered)
  then show ?thesis
    using that [of e' fs'] run unfolding sum by (simp add: scan_used_space_def)
qed

text \<open>C39: On a volume in order, the used space that \<open>fuse_sfs_init\<close> compares with the size of the data area is
  the number of blocks of the named files, plus one for every empty file, in bytes: a volume with an empty
  file never passes the comparison.\<close>

theorem used_space_counts_empty_files:
  assumes "volume_ok fs ps" and "length e = 64"
  shows "\<exists>r e' fs'. scan_used_space fs e = (r, e', fs') \<and> volume_ok fs' ps
    \<and> r = block_size fs * word_of_nat (card (\<Union>p \<in> file_slots fs. file_ext (entry_at fs p))
          + card {p \<in> file_slots fs. start_block (entry_at fs p) = 0})"
proof (rule scan_used_space_ok [OF assms])
  fix e' fs' assume h: "scan_used_space fs e = (block_size fs * word_of_nat
      (card (\<Union>p \<in> file_slots fs. file_ext (entry_at fs p)) + card {p \<in> file_slots fs. start_block (entry_at fs p) = 0}), e', fs')"
    "fs_ok fs'" "same_vol fs fs'"
  have "unchanged fs fs'" by (rule after_same [OF h(2,3)])
  then show ?thesis using h(1) volume_unchanged(1) [OF assms(1)] by blast
qed

lemma hello_slots: "file_slots hello_volume = {704}"
  by (auto simp: file_slots_def)

theorem used_space_counts_empty_files_witness:
  "\<exists>e' fs'. scan_used_space hello_volume sample_buffer = (64, e', fs')"
proof -
  have none: "{p \<in> {704 :: u64}. start_block (entry_at hello_volume p) = 0} = {}" by auto
  have one: "card (\<Union>p \<in> {704}. file_ext (entry_at hello_volume p)) = 1" by (simp add: sample_file_ok)
  show ?thesis
    using used_space_counts_empty_files [OF sample_volume_ok'(2) length_sample_buffer] unfolding hello_slots none one by auto
qed

section \<open>Nothing to repair\<close>

definition all_free_named :: "fs \<Rightarrow> bool" where
  "all_free_named fs \<longleftrightarrow> (\<forall>p \<in> set (index_offs fs). entry_type (entry_at fs p) = entry_code DEL_FILE_ENTRY \<longrightarrow>
     strcmp (drop 34 (entry_at fs p)) str_free = 0 \<or> strcmp (drop 34 (entry_at fs p)) free_label = 0)"

interpretation fix_scan: scan_callback fix_del_file "\<lambda>at p d. (False, d)" "\<lambda>fs d. all_free_named fs"
proof (unfold_locales, goal_cases)
  case (1 fs i d p)
  then have "p \<in> set (index_offs fs)" by (auto simp: index_offs_def)
  then show ?case
    using 1 index_off_valid [of fs i] by (auto simp: fix_del_file_def all_free_named_def length_entry_at)
next
  case (2 fs fs' d)
  then show ?case by (simp add: all_free_named_def same_vol_cong)
qed

lemma fix_nothing:
  assumes "fs_ok fs" and "all_free_named fs" and "length e = 64"
  obtains e' fs' where "fix_non_del_file fs e = (0, e', fs')" "length e' = 64" "fs_ok fs'" "same_vol fs fs'"
  by (rule fix_scan.entry_parse_scan [OF assms, of "()"]) (use that in \<open>auto simp: fix_non_del_file_def\<close>)

section \<open>A new volume\<close>

text \<open>The daemon can open the image, has memory and locks, and its clock is not far from the time stamp.\<close>

definition env_ready :: "mount_env \<Rightarrow> nat \<Rightarrow> u64 \<Rightarrow> bool" where
  "env_ready env bs t \<longleftrightarrow> env_image_ok env \<and> env_open_fd env \<noteq> -1 \<and> (\<exists>b. env_buf env = Some b \<and> length b = bs)
     \<and> sint (env_mtime env - t) \<le> 1 \<and> env_map_mem env \<and> env_mem env 1024 \<noteq> None \<and> mem_ok (env_mem env)
     \<and> env_lock env \<noteq> -1 \<and> env_index_lock env \<noteq> -1 \<and> length (env_stack env) = 64"

lemma init_inodes_ready:
  assumes "env_ready env bs t"
  obtains m where "init_inodes env fs = Mounted \<lparr>sfs_description = fs, imap = m, mem = env_mem env, lock_ret = env_lock env,
    stack = env_stack env\<rparr>" "map_ok m" "max_vino m = 1"
proof -
  obtain m where c: "inode_map_create (env_map_mem env) (env_mem env) (env_lock env) = (0, Some m)"
    using assms by (auto simp: env_ready_def inode_map_create_def inode_map_lock_init_def rwlock_init_def)
  have "map_ok m \<and> max_vino m = 1" using map_ok_create [OF _ c] assms by (simp add: env_ready_def)
  moreover have "init_inodes env fs = Mounted \<lparr>sfs_description = fs, imap = m, mem = env_mem env, lock_ret = env_lock env,
    stack = env_stack env\<rparr>"
    using c assms by (simp add: init_inodes_def env_ready_def)
  ultimately show ?thesis using that by blast
qed

text \<open>When the free blocks and the blocks of the files are as many as the boot block says, and no file is
  empty or unlinked, the daemon asks nothing.\<close>

lemma check_space_passes:
  assumes vol: "volume_ok fs ps" and env: "env_ready env bs t" and big: "512 \<le> unat (block_size fs)"
    and len: "512 \<le> length (host_file fs)"
    and named: "all_free_named fs" and nonempty: "\<forall>p \<in> file_slots fs. start_block (entry_at fs p) \<noteq> 0"
    and total: "unat (get_u64 412 (host_file fs)) = card (blocks (entry_at fs) ps) + card (\<Union>p \<in> file_slots fs. file_ext (entry_at fs p))"
  obtains fs' m where "check_space env answer answers fs = Mounted \<lparr>sfs_description = fs', imap = m, mem = env_mem env,
      lock_ret = env_lock env, stack = env_stack env\<rparr>" "map_ok m" "max_vino m = 1" "unchanged fs fs'"
proof -
  note v = volume_okD [OF vol]
  have st: "length (env_stack env) = 64" using env by (simp add: env_ready_def)
  have dev: "dev_ok fs" using v(1) by (simp add: fs_ok_def entry_dev_ok_def)
  have b: "in_block fs 0 512" using big len by (auto simp: in_block_def)
  obtain fs1 where r1: "read_data fs 0 (replicate 512 0) (word_of_nat 512) = (word_of_nat 512, seg (unat (0 :: u64)) 512 (host_file fs), fs1)"
    "dev_ok fs1" "same_vol fs fs1" by (rule read_in_block [OF dev b, of "replicate 512 0"]) auto
  have ok1: "fs_ok fs1" using v(1) r1(2) same_vol_sel [OF r1(3)] by (simp add: fs_ok_def entry_dev_ok_def)
  have u1: "unchanged fs fs1" by (rule after_same [OF ok1 r1(3)])
  note vol1 = volume_unchanged(1) [OF vol u1] and s1 = after_sel [OF u1]
  note v1 = volume_okD [OF vol1]
  obtain free e2 fs2 where r2: "scan_del_file_list fs1 (env_stack env) = (free, e2, fs2)" "length e2 = 64" "fs_ok fs2"
    "same_vol (SET_ERRNO 0 fs1) fs2" "unat free = unat (block_size fs1) * card (blocks (entry_at fs1) ps)"
    by (rule scan_del_file_list_ok [OF ok1 v1(3) st])
  have u2: "unchanged fs1 fs2" by (rule after_same_errno [OF r2(3,4)])
  note vol2 = volume_unchanged(1) [OF vol1 u2] and s2 = after_sel [OF u2]
  have fsl: "file_slots fs2 = file_slots fs" "entry_at fs2 = entry_at fs" "block_size fs2 = block_size fs"
    using s1 s2 by (simp_all add: file_slots_def)
  have none: "{p \<in> file_slots fs. start_block (entry_at fs p) = 0} = {}" using nonempty by blast
  obtain e3 fs3 where r3: "scan_used_space fs2 e2 = (block_size fs * word_of_nat (card (\<Union>p \<in> file_slots fs. file_ext (entry_at fs p))), e3, fs3)"
    "length e3 = 64" "fs_ok fs3" "same_vol fs2 fs3"
    by (rule scan_used_space_ok [OF vol2 r2(2), unfolded fsl none card.empty add_0_right])
  have n3: "all_free_named fs3"
    using named same_vol_cong [OF r3(4)] s1 s2 by (simp add: all_free_named_def)
  obtain e4 fs4 where r4: "fix_non_del_file fs3 e3 = (0, e4, fs4)" "fs_ok fs4" "same_vol fs3 fs4"
    by (rule fix_nothing [OF r3(3) n3 r3(2)])
  have "get_u64 412 (seg 0 512 (host_file fs)) = get_u64 412 (host_file fs)"
    using get_in_seg(3) [of 0 512 "host_file fs" 412] len by simp
  moreover have "get_u64 412 (host_file fs) * block_size fs = free + block_size fs * word_of_nat (card (\<Union>p \<in> file_slots fs. file_ext (entry_at fs p)))"
  proof -
    have "free = word_of_nat (unat free)" by simp
    then have "free = block_size fs * word_of_nat (card (blocks (entry_at fs) ps))" unfolding r2(5) s1(1,4) by simp
    moreover have "get_u64 412 (host_file fs) = word_of_nat (unat (get_u64 412 (host_file fs)))" by simp
    ultimately show ?thesis unfolding total by (simp add: algebra_simps)
  qed
  ultimately have eq: "get_u64 412 (seg 0 512 (host_file fs)) * block_size fs1
      = free + block_size fs * word_of_nat (card (\<Union>p \<in> file_slots fs. file_ext (entry_at fs p)))"
    using s1(4) by simp
  have "card (blocks (entry_at fs1) ps) \<le> unat (entry_start fs1) div unat (block_size fs1)"
  proof -
    have "blocks (entry_at fs1) ps \<subseteq> {..< unat (entry_start fs1) div unat (block_size fs1)}"
      using v1(5) block_size_bounds(1) [OF v1(1)] by (auto simp: below_def less_eq_div_iff_mult_less_eq simp flip: Suc_le_eq)
    then show ?thesis using card_mono [of "{..< unat (entry_start fs1) div unat (block_size fs1)}"] by simp
  qed
  then have "unat free \<le> unat (block_size fs1) * (unat (entry_start fs1) div unat (block_size fs1))"
    unfolding r2(5) by (rule mult_le_mono2)
  also have "\<dots> \<le> unat (entry_start fs1)" by simp
  also have "\<dots> < 2 ^ 63" using index_bounds [OF v1(1)] by simp
  finally have "free \<noteq> -1" by (rule small_not_error)
  obtain m where i: "init_inodes env fs4 = Mounted \<lparr>sfs_description = fs4, imap = m, mem = env_mem env, lock_ret = env_lock env,
    stack = env_stack env\<rparr>" "map_ok m" "max_vino m = 1" by (rule init_inodes_ready [OF env])
  have "check_space env answer answers fs = init_inodes env fs4"
    using r1(1) r2(1) r3(1) r4(1) eq \<open>free \<noteq> -1\<close> by (simp add: check_space_def Let_def)
  moreover have "unchanged fs fs4"
    using after_trans [OF u1 after_trans [OF u2 after_trans [OF after_same [OF r3(3,4)] after_same [OF r4(2,3)]]]]
      same_vol_cong(1) [OF r3(4)] same_vol_sel(3) [OF r3(4)] s1 s2 by simp
  ultimately show ?thesis using that i by simp
qed

lemma scast_pow2: "m < 31 \<Longrightarrow> scast (2 ^ m :: u32) = (2 ^ m :: u64)"
  by (rule bit_word_eqI) (auto simp: bit_signed_iff bit_exp_iff min_def)

lemma push_bit_128: "7 \<le> m \<Longrightarrow> push_bit (m - 7) (128 :: u32) = 2 ^ m"
proof -
  assume "7 \<le> m"
  then have "(2 :: u32) ^ m = 2 ^ 7 * 2 ^ (m - 7)" unfolding power_add [symmetric] by simp
  then show ?thesis by (simp add: push_bit_eq_mult)
qed

text \<open>What \<open>fuse_sfs_init\<close> does up to \<open>sfs_init\<close>: the block size and the number of blocks come from the
  boot block.\<close>

lemma fuse_opens:
  assumes env: "env_ready env (2 ^ m) t" and m: "8 \<le> m" "m < 31" and io: "\<forall>k. \<not> io_fail fs k"
    and len: "512 \<le> length (host_file fs)" "length (host_file fs) < 2 ^ 63" "2 ^ m dvd length (host_file fs)"
    and bs: "get_u8 444 (host_file fs) = word_of_nat (m - 7)"
    and total: "unat (get_u64 432 (host_file fs)) * 2 ^ m = length (host_file fs)"
  obtains fs1 where "dev_ok fs1" "block_size fs1 = 2 ^ m" "host_file fs1 = host_file fs"
    "fuse_sfs_init env fs = (case sfs_init fs1 (env_stack env) of (r, fs) \<Rightarrow>
       if r < 0 then (case filedev_release fs of (_, fs) \<Rightarrow> Exit fs)
       else
       (case (if sint (env_mtime env - fs_time fs) > 1 then ask 0x59 0x6E 0 (env_answers env)
              else Some (0, env_answers env)) of
          None \<Rightarrow> Asking fs
        | Some (answer, answers) \<Rightarrow>
            if answer = 0x6E then (case filedev_release fs of (_, fs) \<Rightarrow> Exit fs) else check_space env answer answers fs))"
proof -
  let ?h = "host_file fs" and ?T = "get_u64 432 (host_file fs)"
  obtain b where b: "env_buf env = Some b" "length b = 2 ^ m" using env by (auto simp: env_ready_def)
  have um: "unat (2 ^ m :: u64) = 2 ^ m" using m(2) by (intro unat_pow2) simp
  have un: "unat (word_of_nat (m - 7) :: byte) = m - 7" using m(2) by (simp add: unat_of_nat)
  have size: "scast (push_bit (unat (cs_at (seg 444 1 ?h) 0)) 128 :: u32) = (2 ^ m :: u64)"
    using bs un push_bit_128 [of m] scast_pow2 m by simp
  have "(2 :: nat) ^ 8 \<le> 2 ^ m" using m(1) by (intro power_increasing) simp_all
  then have nb: "\<not> (2 ^ m :: u64) \<le> 128" using um by (simp add: word_le_nat_alt)
  have uT: "unat (?T * 2 ^ m) = length ?h" unfolding um [symmetric] total [symmetric] by (rule unat_mult_small) (use total len um in simp)
  have md: "?T * 2 ^ m mod (2 ^ m :: u64) = 0" using uT um len(3) by (simp add: word_unat_eq_iff unat_mod)
  have s1: "seg 444 1 ?h \<noteq> []" "seg 432 8 ?h \<noteq> []" and l8: "length (seg 432 8 ?h) = 8"
    using len(1) by (auto simp: seg_def)
  have t8: "u64_of_bytes (mem_put 0 (seg 432 8 ?h) (replicate 8 0)) = ?T"
    using l8 by (subst mem_put_within) (simp_all add: patch_def get_u64_def)
  let ?f1 = "fs\<lparr>io_count := Suc (Suc (io_count fs))\<rparr>"
  let ?f2 = "?f1\<lparr>fd := -1, bdev_size := ?T * 2 ^ m, block_size := 2 ^ m, c_errno := 0, fd_filename := Some (env_image env)\<rparr>"
  let ?f3 = "?f2\<lparr>c_errno := 0, fd := env_open_fd env, buf := b, buf_num := -1\<rparr>"
  have i: "filedev_init (env_open_fd env) (env_buf env) ?f2 = (0, ?f3)"
    using env b(1) by (simp add: filedev_init_def env_ready_def)
  have "dev_ok ?f3"
    using env io uT um len b(2) by (simp add: dev_ok_def geom_ok_def cache_ok_def env_ready_def)
  moreover have "fuse_sfs_init env fs = (case sfs_init ?f3 (env_stack env) of (r, fs) \<Rightarrow>
       if r < 0 then (case filedev_release fs of (_, fs) \<Rightarrow> Exit fs)
       else
       (case (if sint (env_mtime env - fs_time fs) > 1 then ask 0x59 0x6E 0 (env_answers env)
              else Some (0, env_answers env)) of
          None \<Rightarrow> Asking fs
        | Some (answer, answers) \<Rightarrow>
            if answer = 0x6E then (case filedev_release fs of (_, fs) \<Rightarrow> Exit fs) else check_space env answer answers fs))"
    using env io s1 size nb md t8 i
    by (simp add: fuse_sfs_init_def host_read_def filedev_create_def env_ready_def Let_def del: cs_at_seg)
  ultimately show ?thesis by (intro that [of ?f3]) simp_all
qed

lemma free_name_matches: "strcmp (strncpy (replicate 30 0) free_label 29) free_label = 0"
proof -
  have "cstr (strncpy (replicate 30 0) free_label 29) = free_label"
    unfolding strncpy_eq by (subst mem_put_within) (simp_all add: free_label_def patch_def cstr_def)
  then show ?thesis by (simp add: strcmp_zero_iff_prefix)
qed

text \<open>C3: What \<open>mksfs\<close> writes is what \<open>fusesfs\<close> mounts: for every image size below \<open>2\<^sup>6\<^sup>3\<close> and all options that
  \<open>mksfs\<close> accepts, that leave at least one data block, and whose blocks have 512 bytes (\<open>2\<^sup>9\<close>) to 1 GiB
  (\<open>2\<^sup>3\<^sup>0\<close>), when no host call fails, \<open>image_create\<close> succeeds, and
  \<open>fuse_sfs_init\<close> on the image asks nothing and yields a volume in order, without files, names or inode
  numbers, whose free blocks are exactly those of the data area.\<close>

theorem fresh_volume_mounts:
  assumes opts: "mksfs_options now fsize index_size_s block_size_s label file_name = Inr opts"
    and size: "unat fsize < 2 ^ 63" and data: "0 < unat (opt_data_size opts)" and bsize: "2 \<le> unat (opt_block_size opts)" "unat (opt_block_size opts) < 24"
    and d: "length (host_file d) = unat fsize" "\<forall>k. \<not> io_fail d k" "open_fd \<noteq> -1" "length b = 2 ^ unat (opt_block_size opts + 7)"
    and run: "image_create opts open_fd (Some b) d = (r, d')"
    and fs: "host_file fs = host_file d'" "\<forall>k. \<not> io_fail fs k"
    and env: "env_ready env (2 ^ unat (opt_block_size opts + 7)) (opt_time_stamp opts)"
  shows "r = 0 \<and> (\<exists>s q. fuse_sfs_init env fs = Mounted s \<and> volume_ok (sfs_description s) [q]
    \<and> blocks (entry_at (sfs_description s)) [q]
       = {unat (opt_reserved_size opts) ..< unat (opt_reserved_size opts) + unat (opt_data_size opts)}
    \<and> (\<forall>path. lookup_file (sfs_description s) path = None) \<and> (\<forall>p. files_of (sfs_description s) p = None)
    \<and> map_invar s \<and> (\<forall>v. number_of s v = None))"
proof -
  obtain m G n where lay: "layout opts m G n (unat fsize)" by (rule layout_exists [OF opts size])
  then have l: "8 \<le> m" "unat (opt_block_size opts + 7) = m" "unat fsize = G + 64 * n + 256" "unat fsize < 2 ^ 63"
    "unat (opt_total_block opts) * 2 ^ m = unat fsize" "2 ^ m dvd unat fsize"
    "G = (unat (opt_reserved_size opts) + unat (opt_data_size opts)) * 2 ^ m" "unat (opt_reserved_size opts) * 2 ^ m = max 512 (2 ^ m)"
    unfolding layout_def by blast+
  have "unat (opt_block_size opts + 7) = unat (opt_block_size opts) + 7" by (subst unat_add_small) (use bsize(2) in simp_all)
  then have m: "9 \<le> m" "m < 31" using l(2) bsize by linarith+
  have um: "unat (2 ^ m :: u64) = 2 ^ m" using m(2) by (intro unat_pow2) simp
  have "(2 :: nat) ^ 9 \<le> 2 ^ m" using m(1) by (intro power_increasing) simp_all
  then have big: "512 \<le> (2 :: nat) ^ m" by simp
  have b: "length b = 2 ^ m" using d(4) l(2) by simp
  obtain x where x: "image_create opts open_fd (Some b) d = (0, x)" "host_file x = fresh_image opts G n (host_file d)"
    by (rule image_create_ok [OF opts lay d(1-3) b])
  then have r: "r = 0" "host_file fs = fresh_image opts G n (host_file d)" using run fs(1) by simp_all
  have G: "512 \<le> G" using l(7,8) by (simp add: add_mult_distrib)
  have fit: "G + 192 + 64 * n + 64 \<le> length (host_file d)" using d(1) l(3) by simp
  note sg = fresh_image_segs [OF G fit length_vol_entry [OF opts], folded r(2)]
  have m32: "m < 32" using m(2) by simp
  note hb = mbr_of_fresh [OF opts lay m32 sg(2)]
  have hl: "length (host_file fs) = unat fsize" using sg(1) d(1) by simp
  have h512: "512 \<le> length (host_file fs)" using hl l(3) G by simp
  have env': "env_ready env (2 ^ m) (opt_time_stamp opts)" using env l(2) by simp
  obtain fs1 where o: "dev_ok fs1" "block_size fs1 = 2 ^ m" "host_file fs1 = host_file fs" and init: "fuse_sfs_init env fs =
      (case sfs_init fs1 (env_stack env) of (r, fs) \<Rightarrow>
       if r < 0 then (case filedev_release fs of (_, fs) \<Rightarrow> Exit fs)
       else
       (case (if sint (env_mtime env - fs_time fs) > 1 then ask 0x59 0x6E 0 (env_answers env)
              else Some (0, env_answers env)) of
          None \<Rightarrow> Asking fs
        | Some (answer, answers) \<Rightarrow>
            if answer = 0x6E then (case filedev_release fs of (_, fs) \<Rightarrow> Exit fs) else check_space env answer answers fs))"
    by (rule fuse_opens [OF env' l(1) m(2) fs(2) h512]) (use hl l(4-6) hb(6,7) in simp_all)
  have stk: "length (env_stack env) = 64" using env by (simp add: env_ready_def)
  obtain fs2 where f: "sfs_init fs1 (env_stack env) = (0, fs2)" "volume_ok fs2 [index_off fs2 1]" "\<forall>p. \<not> owns fs2 [index_off fs2 1] p"
    "blocks (entry_at fs2) [index_off fs2 1]
      = {unat (opt_reserved_size opts) ..< unat (opt_reserved_size opts) + unat (opt_data_size opts)}"
    "\<forall>path. lookup_file fs2 path = None" "fs_time fs2 = opt_time_stamp opts" "block_size fs2 = 2 ^ m"
    "seg 0 512 (host_file fs2) = mbr_bytes (mbr_block opts)" "index_size fs2 = n + 3"
    "\<forall>i < n + 3. entry_at fs2 (index_off fs2 i) = fresh_entry opts i"
    by (rule fresh_mount [OF opts lay m32 data o(1,2) d(1) trans [OF o(3) r(2)] stk])
  have named: "all_free_named fs2"
    unfolding all_free_named_def
  proof (intro ballI impI)
    fix p assume p: "p \<in> set (index_offs fs2)" "entry_type (entry_at fs2 p) = entry_code DEL_FILE_ENTRY"
    then obtain i where i: "i < n + 3" "p = index_off fs2 i" using f(9) by (auto simp: index_offs_def)
    then have "i = 1" using f(10) p(2) fresh_types(1) [of opts i] by (auto split: if_splits)
    then have "drop 34 (entry_at fs2 p) = strncpy (replicate 30 0) free_label 29"
      using f(10) i by (simp add: fresh_entry_def file_entry_fields del_entry_def Let_def)
    then show "strcmp (drop 34 (entry_at fs2 p)) str_free = 0 \<or> strcmp (drop 34 (entry_at fs2 p)) free_label = 0"
      by (simp add: free_name_matches)
  qed
  have none: "file_slots fs2 = {}"
  proof -
    have "entry_type (entry_at fs2 (index_off fs2 i)) \<noteq> entry_code FILE_ENTRY" if "i < n + 3" for i
      using f(10) that fresh_types(1) [of opts i] by simp
    then show ?thesis using f(9) by (auto simp: file_slots_def index_offs_def)
  qed
  have l2: "length (seg 0 512 (host_file fs2)) = 512" unfolding f(8) by simp
  have h2: "512 \<le> length (host_file fs2)" using l2 by (simp add: seg_def)
  have "get_u64 412 (host_file fs2) = opt_data_size opts" by (rule mbr_of_fresh(5) [OF opts lay m32 f(8)])
  then have total: "unat (get_u64 412 (host_file fs2)) = card (blocks (entry_at fs2) [index_off fs2 1])
      + card (\<Union>p \<in> file_slots fs2. file_ext (entry_at fs2 p))"
    unfolding f(4) none by simp
  have big2: "512 \<le> unat (block_size fs2)" using big f(7) um by simp
  have ne: "\<forall>p \<in> file_slots fs2. start_block (entry_at fs2 p) \<noteq> 0" using none by simp
  obtain fs3 im where c: "check_space env 0 (env_answers env) fs2 = Mounted \<lparr>sfs_description = fs3, imap = im, mem = env_mem env,
      lock_ret = env_lock env, stack = env_stack env\<rparr>" "map_ok im" "max_vino im = 1" "unchanged fs2 fs3"
    by (rule check_space_passes [OF f(2) env' big2 h2 named ne total])
  let ?s = "\<lparr>sfs_description = fs3, imap = im, mem = env_mem env, lock_ret = env_lock env, stack = env_stack env\<rparr>"
  have "\<not> sint (env_mtime env - fs_time fs2) > 1" using env f(6) by (simp add: env_ready_def not_less)
  then have "fuse_sfs_init env fs = Mounted ?s" unfolding init f(1) using c(1) by simp
  moreover note volume_unchanged(1) [OF f(2) c(4)] and s = after_sel [OF c(4)]
  moreover have "\<forall>p. files_of fs3 p = None"
    using files_unchanged [OF f(2) c(4)] f(3) files_of_eq [OF f(2)] by simp
  moreover have "\<forall>path. lookup_file fs3 path = None" using lookup_after [OF c(4)] f(5) by simp
  moreover have "map_invar ?s" using c(2) env by (simp add: map_invar_def env_ready_def)
  moreover have "\<forall>v. number_of ?s v = None" using c(3) by (simp add: number_of_def numbers_def)
  ultimately show ?thesis using r(1) f(4) by (intro conjI exI [of _ ?s] exI [of _ "index_off fs2 1"]) simp_all
qed

definition sample_env :: mount_env where
  "sample_env = \<lparr>env_image_ok = True, env_mtime = 0, env_answers = [], env_image = [0x69], env_open_fd = 3,
     env_buf = Some (replicate 512 0), env_map_mem = True,
     env_mem = (\<lambda>n. if n \<le> 2 ^ 60 then Some (replicate n \<lparr>f_pino = 0, f_dirty = 0, f_openbit = 0, f_lock = NO_LOCK\<rparr>) else None),
     env_lock = 0, env_index_lock = 0, env_stack = sample_buffer\<rparr>"

lemma sample_env_ready: "env_ready sample_env 512 0"
  by (simp add: env_ready_def sample_env_def mem_ok_def)

theorem fresh_volume_mounts_witness:
  "\<exists>opts d' s q. mksfs_options 0 65536 None None None [] = Inr opts
    \<and> image_create opts 3 (Some (replicate 512 0)) (sample_device (replicate 65536 0)) = (0, d')
    \<and> fuse_sfs_init sample_env (fresh_volume\<lparr>host_file := host_file d'\<rparr>) = Mounted s
    \<and> blocks (entry_at (sfs_description s)) [q] = {1 ..< 121}"
proof -
  obtain opts where o: "mksfs_options 0 65536 None None None [] = Inr opts" "opt_data_size opts = 120" "opt_block_size opts = 2"
    "opt_reserved_size opts = 1" "opt_time_stamp opts = 0" by (rule sample_options)
  obtain r d' where c: "image_create opts 3 (Some (replicate 512 0)) (sample_device (replicate 65536 0)) = (r, d')" by (metis surj_pair)
  have io: "\<forall>k. \<not> io_fail (fresh_volume\<lparr>host_file := host_file d'\<rparr>) k" by (simp add: fresh_volume_def)
  have h: "host_file (fresh_volume\<lparr>host_file := host_file d'\<rparr>) = host_file d'" by simp
  show ?thesis
    using fresh_volume_mounts [OF o(1) _ _ _ _ _ _ _ _ c h io, of sample_env] o c sample_env_ready
    by (auto simp: sample_device_def)
qed

end
