(* ===== verification/Diagnostics.thy ===== *)
theory Diagnostics
  imports Prelude
begin

text \<open>
  src/lib/error_prints.c: the messages of the programs on the error stream, and the two ways to stop
  after one. The formatting of a message by the C library is done before: the text is an argument.
\<close>

section \<open>The terminal\<close>

text \<open>What has been printed, what \<open>program_invocation_name\<close> holds, which of its allocations
  \<open>vasprintf\<close> gets, \<open>errno\<close>, and the texts of \<open>strerror\<close> and of \<open>ctime\<close>.\<close>

record console =
  con_out :: bytes
  con_err :: bytes
  program_name :: bytes
  con_mem :: "nat \<Rightarrow> bool"
  con_calls :: nat
  con_errno :: int
  con_strerror :: "int \<Rightarrow> bytes"
  con_ctime :: "u64 \<Rightarrow> bytes"

definition ascii :: "string \<Rightarrow> bytes" where
  "ascii s = map of_char s"

text \<open>The conversion \<open>%lu\<close>.\<close>

fun decimal :: "nat \<Rightarrow> bytes" where
  "decimal n = (if n < 10 then [word_of_nat (48 + n)] else decimal (n div 10) @ [word_of_nat (48 + n mod 10)])"

declare decimal.simps [simp del]

definition text_lines :: "string list \<Rightarrow> bytes" where
  "text_lines ls = concat (map (\<lambda>l. ascii l @ [0x0A]) ls)"

definition eprint :: "bytes \<Rightarrow> console \<Rightarrow> console" where
  "eprint t c = c\<lparr>con_err := con_err c @ t\<rparr>"

definition oprint :: "bytes \<Rightarrow> console \<Rightarrow> console" where
  "oprint t c = c\<lparr>con_out := con_out c @ t\<rparr>"

text \<open>\<open>perror\<close> of the C library.\<close>

definition perror :: "bytes \<Rightarrow> console \<Rightarrow> console" where
  "perror t c = eprint (t @ ascii '': '' @ con_strerror c (con_errno c) @ [0x0A]) c"

section \<open>Messages\<close>

definition verror_msg :: "int \<Rightarrow> bytes \<Rightarrow> console \<Rightarrow> console" where
  "verror_msg err_no msg c =
     (let got = con_mem c (con_calls c);
          c = c\<lparr>con_calls := Suc (con_calls c)\<rparr>
      in
      if got then
        (if err_no \<noteq> 0 then eprint (program_name c @ ascii '': '' @ msg @ ascii '': '' @ con_strerror c err_no @ [0x0A]) c
         else eprint (program_name c @ ascii '': '' @ msg @ [0x0A]) c)
      else
        let c = eprint (program_name c @ ascii '': '') c;
            c = eprint msg c
        in
        if err_no \<noteq> 0 then eprint (ascii '': '' @ con_strerror c err_no @ [0x0A]) c
        else eprint [0x0A] c)"

text \<open>\<open>die\<close> (src/mksfs/main.c) is \<open>exit(1)\<close>; a routine that does not return gives the exit status.\<close>

definition error_msg :: "bytes \<Rightarrow> console \<Rightarrow> console" where
  "error_msg msg c = verror_msg 0 msg c"

definition error_msg_and_die :: "bytes \<Rightarrow> console \<Rightarrow> int \<times> console" where
  "error_msg_and_die msg c = (1, verror_msg 0 msg c)"

definition error_msg_and_help :: "bytes option \<Rightarrow> console \<Rightarrow> int \<times> console" where
  "error_msg_and_help fmt c =
     (let c = (case fmt of None \<Rightarrow> c | Some msg \<Rightarrow> verror_msg 0 msg c) in
      (1, eprint (ascii ''Try '' @ [0x27] @ program_name c @ ascii '' -h'' @ [0x27] @ ascii '' for more information.'' @ [0x0A]) c))"

definition perror_msg :: "bytes \<Rightarrow> console \<Rightarrow> console" where
  "perror_msg msg c = verror_msg (con_errno c) msg c"

definition perror_msg_and_die :: "bytes \<Rightarrow> console \<Rightarrow> int \<times> console" where
  "perror_msg_and_die msg c = (1, verror_msg (con_errno c) msg c)"

text \<open>The message does not depend on whether \<open>vasprintf\<close> got memory.\<close>

lemma verror_msg_text:
  "con_err (verror_msg err_no msg c) = con_err c @ program_name c @ ascii '': '' @ msg
     @ (if err_no \<noteq> 0 then ascii '': '' @ con_strerror c err_no else []) @ [0x0A]"
  "con_out (verror_msg err_no msg c) = con_out c" "program_name (verror_msg err_no msg c) = program_name c"
  by (simp_all add: verror_msg_def eprint_def Let_def)

end
