(* ===== verification/Options.thy ===== *)
theory Options
  imports Diagnostics "HOL-Library.Multiset"
begin

text \<open>
  \<open>getopt\<close> of the C library as src/mksfs/main.c and src/fuse/main.c use it: options of one letter,
  with or without an argument. \<open>getopt\<close> moves the words that are no options behind the options,
  unless the option string begins with a plus sign; then it stops at the first one.
\<close>

datatype getopt_result = Opt byte "bytes option" | Unknown byte

text \<open>\<open>kind c\<close>: whether the option \<open>c\<close> takes an argument, \<open>None\<close> for a letter that is no option. The
  letters of one word give their results, the words taken as arguments and the words after them. An option
  without its argument is reported like an unknown one; the line \<open>getopt\<close> itself prints on the error
  stream about either is not modelled.\<close>

fun getopt_letters :: "(byte \<Rightarrow> bool option) \<Rightarrow> bytes \<Rightarrow> bytes list \<Rightarrow> getopt_result list \<times> bytes list \<times> bytes list" where
  "getopt_letters kind [] args = ([], [], args)"
| "getopt_letters kind (c # cs) args =
     (case kind c of
        None \<Rightarrow> (case getopt_letters kind cs args of (rs, used, rest) \<Rightarrow> (Unknown c # rs, used, rest))
      | Some False \<Rightarrow> (case getopt_letters kind cs args of (rs, used, rest) \<Rightarrow> (Opt c None # rs, used, rest))
      | Some True \<Rightarrow>
          if cs \<noteq> [] then ([Opt c (Some cs)], [], args)
          else (case args of
                  [] \<Rightarrow> ([Unknown c], [], [])
                | a # as \<Rightarrow> ([Opt c (Some a)], [a], as)))"

lemma getopt_letters_length: "(rs, used, rest) = getopt_letters kind cs args \<Longrightarrow> length rest \<le> length args"
  by (induction kind cs args arbitrary: rs used rest rule: getopt_letters.induct)
    (auto split: option.splits bool.splits if_splits list.splits prod.splits)

text \<open>The results in order, the words of the options, and the operands. \<open>stop\<close> is the plus sign.\<close>

function getopt_words :: "(byte \<Rightarrow> bool option) \<Rightarrow> bool \<Rightarrow> bytes list \<Rightarrow> getopt_result list \<times> bytes list \<times> bytes list" where
  "getopt_words kind stop [] = ([], [], [])"
| "getopt_words kind stop (a # as) =
     (if a = ascii ''--'' then ([], [a], as)
      else if take 1 a = ascii ''-'' \<and> 1 < length a then
        (case getopt_letters kind (tl a) as of (rs, used, rest) \<Rightarrow>
          (case getopt_words kind stop rest of (rs', os, ops) \<Rightarrow> (rs @ rs', a # used @ os, ops)))
      else if stop then ([], [], a # as)
      else (case getopt_words kind stop as of (rs, os, ops) \<Rightarrow> (rs, os, a # ops)))"
  by pat_completeness auto
termination getopt_words
  by (relation "measure (\<lambda>(kind, stop, as). length as)") (auto dest: getopt_letters_length)

text \<open>Without options the words are the operands.\<close>

lemma getopt_words_operands:
  "\<forall>a \<in> set as. take 1 a \<noteq> ascii ''-'' \<Longrightarrow> getopt_words kind stop as = ([], [], as)"
proof (induction as)
  case (Cons a as)
  then have "take 1 a \<noteq> ascii ''-''" by simp
  moreover from this have "a \<noteq> ascii ''--''" by (auto simp: ascii_def)
  ultimately show ?case using Cons by (cases stop) simp_all
qed simp

text \<open>No word is lost: the options and the operands are the words of the command line.\<close>

lemma getopt_letters_words:
  "getopt_letters kind cs args = (rs, used, rest) \<Longrightarrow> used @ rest = args"
  by (induction kind cs args arbitrary: rs used rest rule: getopt_letters.induct)
    (auto split: option.splits bool.splits if_splits list.splits prod.splits)

lemma getopt_words_perm:
  "getopt_words kind stop as = (rs, os, ops) \<Longrightarrow> mset (os @ ops) = mset as"
proof (induction kind stop as arbitrary: rs os ops rule: getopt_words.induct)
  case (2 kind stop a as)
  consider "a = ascii ''--''" | (opt) "a \<noteq> ascii ''--''" "take 1 a = ascii ''-'' \<and> 1 < length a"
    | (op) "a \<noteq> ascii ''--''" "\<not> (take 1 a = ascii ''-'' \<and> 1 < length a)" by blast
  then show ?case
  proof cases
    case opt
    obtain r u t where l: "getopt_letters kind (tl a) as = (r, u, t)" by (metis prod_cases3)
    obtain r' o' p' where w: "getopt_words kind stop t = (r', o', p')" by (metis prod_cases3)
    have "mset (o' @ p') = mset t" using 2(1) [OF opt l [symmetric]] w by simp
    moreover have "u @ t = as" by (rule getopt_letters_words [OF l])
    ultimately show ?thesis using 2(3) opt l w by auto
  next
    case op
    then show ?thesis using 2(2) [OF op] 2(3) by (auto split: prod.splits if_splits)
  qed (use 2(3) in simp)
qed simp

end
