(* ===== verification/MksfsMain.thy ===== *)
theory MksfsMain
  imports Mksfs Options
begin

text \<open>
  src/mksfs/main.c: \<open>main\<close> from the command line to the exit status, with what it prints. The layout that
  it computes in between is \<open>mksfs_options\<close>.
\<close>

section \<open>Usage\<close>

definition mksfs_usage :: "console \<Rightarrow> int \<times> console" where
  "mksfs_usage c = (0, oprint (text_lines
     [''usage: mksfs [OPTIONS] FILE'',
      '''',
      ''Main:'',
      ''  -m   Metadata size'',
      ''       Default is 5% of file size, but no more than 10M'',
      ''  -b   Block size (in bytes). It should be more than'',
      ''       128B and be power of 2 (default is 512B)'',
      ''  -l   UTF-8 volume name'',
      '''',
      ''Miscellaneous:'',
      ''  -h   print help message'']) c)"

section \<open>Options\<close>

record mksfs_request =
  rq_index_size :: "bytes option"
  rq_block_size :: "bytes option"
  rq_label :: "bytes option"

definition mksfs_kind :: "byte \<Rightarrow> bool option" where
  "mksfs_kind c = (if c = 0x68 then Some False else if c = 0x6D \<or> c = 0x62 \<or> c = 0x6C then Some True else None)"

text \<open>The loop over the options. \<open>Inl\<close>: the program ends in it.\<close>

primrec read_requests :: "getopt_result list \<Rightarrow> mksfs_request \<Rightarrow> console \<Rightarrow> (int \<times> console) + mksfs_request" where
  "read_requests [] rq con = Inr rq"
| "read_requests (r # rs) rq con =
     (case r of
        Unknown c \<Rightarrow> Inl (error_msg_and_help (Some (ascii ''unrecognized option '' @ [0x27, c, 0x27])) con)
      | Opt c arg \<Rightarrow>
          if c = 0x68 then Inl (mksfs_usage con)
          else if c = 0x6D then read_requests rs (rq\<lparr>rq_index_size := arg\<rparr>) con
          else if c = 0x62 then read_requests rs (rq\<lparr>rq_block_size := arg\<rparr>) con
          else read_requests rs (rq\<lparr>rq_label := arg\<rparr>) con)"

section \<open>Messages\<close>

text \<open>What is printed for an error of the options; the block size is the one chosen.\<close>

definition mksfs_message :: "mksfs_error \<Rightarrow> u64 \<Rightarrow> u64 \<Rightarrow> bytes \<Rightarrow> bytes" where
  "mksfs_message err fsize rsrvd_size label =
     (case err of
        ImageTooSmall \<Rightarrow> ascii ''image size '' @ decimal (unat fsize) @ ascii ''B is less than '' @ decimal (512 + 2 * 64) @ ascii ''B''
      | InvalidBlockSize \<Rightarrow> ascii ''invalid block size''
      | NotPowerOfTwo \<Rightarrow> ascii ''block size isn'' @ [0x27] @ ascii ''t the power of 2''
      | BlockLargerThanImage \<Rightarrow> ascii ''block size cannot be more than '' @ decimal (unat fsize) @ ascii ''B (image size)''
      | BlockNotDivisor \<Rightarrow> ascii ''block size isn'' @ [0x27] @ ascii ''t a divisor of '' @ decimal (unat fsize) @ ascii ''B (image size)''
      | InvalidMetadata \<Rightarrow> ascii ''invalid metadata size''
      | MetadataTooLarge \<Rightarrow> ascii ''metadata size cannot be more or equal than image size ''
          @ decimal (unat (fsize - rsrvd_size)) @ ascii ''B''
      | MetadataTooSmall \<Rightarrow> ascii ''metadata size cannot be smaller than '' @ decimal (2 * 64)
      | LabelTooLong \<Rightarrow> ascii ''label cannot be longer than '' @ decimal (52 - 1) @ ascii '' symbols''
      | UnsupportedSymbol \<Rightarrow> ascii ''unsupported symbol '' @ [0x27] @ take 1 (filter label_char_bad label)
          @ [0x27] @ ascii '' in volume name'')"

definition report_error :: "mksfs_error \<Rightarrow> u64 \<Rightarrow> u64 \<Rightarrow> bytes \<Rightarrow> console \<Rightarrow> int \<times> console" where
  "report_error err fsize rsrvd_size label con =
     (if err = InvalidBlockSize then error_msg_and_help (Some (mksfs_message err fsize rsrvd_size label)) con
      else error_msg_and_die (mksfs_message err fsize rsrvd_size label) con)"

text \<open>The block size and the reserved area, when the checks have come that far.\<close>

definition checked_block_size :: "u64 \<Rightarrow> bytes option \<Rightarrow> u64 option" where
  "checked_block_size fsize block_size_s =
     (if fsize < 512 + 2 * 64 then None
      else (case choose_block_size block_size_s of
              Inl err \<Rightarrow> None
            | Inr bs \<Rightarrow> if bs > fsize \<or> fsize mod bs \<noteq> 0 then None else Some bs))"

text \<open>The metadata size that is not a multiple of the block size is enlarged, with a message.\<close>

definition alignment_note :: "u64 \<Rightarrow> bytes option \<Rightarrow> bytes option \<Rightarrow> console \<Rightarrow> console" where
  "alignment_note fsize index_size_s block_size_s con =
     (case checked_block_size fsize block_size_s of
        None \<Rightarrow> con
      | Some bs \<Rightarrow>
          (case raw_index_size index_size_s fsize of
             Inl err \<Rightarrow> con
           | Inr i \<Rightarrow>
               if i mod bs \<noteq> 0
               then error_msg (ascii ''metadata size was aligned to '' @ decimal (unat (i + (bs - i mod bs))) @ ascii ''B'') con
               else con))"

text \<open>What \<open>image_create\<close> (src/lib/mksfs.c) prints first.\<close>

definition volume_info :: "sfs_options \<Rightarrow> console \<Rightarrow> console" where
  "volume_info opts con = oprint
     ([0x0A] @ ascii ''Time stamp-----------> '' @ con_ctime con (opt_time_stamp opts)
      @ ascii ''Data size------------> '' @ decimal (unat (opt_data_size opts)) @ ascii '' blocks'' @ [0x0A]
      @ ascii ''Index size-----------> '' @ decimal (unat (opt_index_size opts)) @ ascii '' bytes'' @ [0x0A]
      @ ascii ''Total blocks---------> '' @ decimal (unat (opt_total_block opts)) @ ascii '' blocks'' @ [0x0A]
      @ ascii ''Block size-----------> '' @ decimal (2 ^ unat (opt_block_size opts + 7)) @ ascii '' bytes'' @ [0x0A]
      @ ascii ''Label----------------> '' @ cstr (opt_label opts) @ [0x0A]
      @ ascii ''Directory name-------> '' @ cstr (opt_file_name opts) @ [0x0A]) con"

section \<open>The program\<close>

text \<open>\<open>image_size\<close> is the size of a file that can be opened for reading and writing, \<open>now\<close> what \<open>time\<close>
  returns. The last argument is evaluated after \<open>getopt\<close> has moved the operands to the end. The result is
  the exit status, what has been printed, and the device.\<close>

definition mksfs_main :: "bytes list \<Rightarrow> (bytes \<Rightarrow> u64 option) \<Rightarrow> u64 \<Rightarrow> int \<Rightarrow> bytes option \<Rightarrow> console \<Rightarrow> blockdev
    \<Rightarrow> int \<times> console \<times> blockdev" where
  "mksfs_main argv image_size now open_fd mem con d =
     (let con = (if program_name con = [] then
                   con\<lparr>program_name := (if argv \<noteq> [] \<and> hd argv \<noteq> [] then hd argv else ascii ''mksfs'')\<rparr>
                 else con)
      in
      if length argv = 1 then
        (case error_msg_and_help (Some (ascii ''must have OPTIONS'')) con of (st, con) \<Rightarrow> (st, con, d))
      else
      (case getopt_words mksfs_kind False (tl argv) of (results, options, operands) \<Rightarrow>
        (case read_requests results \<lparr>rq_index_size = None, rq_block_size = None, rq_label = None\<rparr> con of
           Inl (st, con) \<Rightarrow> (st, con, d)
         | Inr rq \<Rightarrow>
             let file = last (options @ operands) in
             (case image_size file of
                None \<Rightarrow>
                  if length argv = 2 then (case mksfs_usage con of (st, con) \<Rightarrow> (st, con, d))
                  else (case mksfs_usage (eprint (ascii ''Invalid input file/device.'' @ [0x0A]) con) of
                          (st, con) \<Rightarrow> (st, con, d))
              | Some fsize \<Rightarrow>
                  let con = alignment_note fsize (rq_index_size rq) (rq_block_size rq) con;
                      rsrvd_size = (case checked_block_size fsize (rq_block_size rq) of
                                      None \<Rightarrow> 512
                                    | Some bs \<Rightarrow> if bs \<le> 512 then 512 else bs)
                  in
                  (case mksfs_options now fsize (rq_index_size rq) (rq_block_size rq) (rq_label rq) file of
                     Inl err \<Rightarrow>
                       (case report_error err fsize rsrvd_size (case rq_label rq of None \<Rightarrow> [] | Some l \<Rightarrow> cstr l) con of
                          (st, con) \<Rightarrow> (st, con, d))
                   | Inr opts \<Rightarrow>
                       (case image_create opts open_fd mem d of
                          (r, d) \<Rightarrow> (if r \<noteq> 0 then 1 else 0, volume_info opts con, d)))))))"

section \<open>What it promises\<close>

lemma usage_status: "mksfs_usage con = (st, con') \<Longrightarrow> st = 0"
  by (simp add: mksfs_usage_def)

lemma main_device:
  assumes "mksfs_main argv image_size now open_fd mem con d = (st, con', d')" and "argv \<noteq> []"
  shows "d' = d \<or> (\<exists>file fsize idx bs lbl opts r. file \<in> set (tl argv) \<and> image_size file = Some fsize
    \<and> mksfs_options now fsize idx bs lbl file = Inr opts \<and> image_create opts open_fd mem d = (r, d') \<and> st = (if r \<noteq> 0 then 1 else 0))"
proof (cases "length argv = 1")
  case True
  then show ?thesis using assms(1) by (auto simp: mksfs_main_def Let_def split: prod.splits)
next
  case False
  then have ne: "tl argv \<noteq> []" using assms(2) by (cases argv) auto
  obtain results options operands where w: "getopt_words mksfs_kind False (tl argv) = (results, options, operands)"
    by (metis prod_cases3)
  have p: "mset (options @ operands) = mset (tl argv)" by (rule getopt_words_perm [OF w])
  then have "options @ operands \<noteq> []" using ne by auto
  then have "last (options @ operands) \<in> set (options @ operands)" by (rule last_in_set)
  moreover have "set (options @ operands) = set (tl argv)" using p by (rule mset_eq_setD)
  ultimately have l: "last (options @ operands) \<in> set (tl argv)" by (simp only:)
  show ?thesis
    using assms(1) False w l
    by (simp add: mksfs_main_def Let_def split: prod.splits sum.splits option.splits if_splits) blast+
qed

end
