(* ===== verification/FuseMain.thy ===== *)
theory FuseMain
  imports Options Filedev
begin

text \<open>
  src/fuse/main.c: \<open>main\<close> of the daemon up to the call of \<open>fuse_main\<close>: the command line, the checks of the
  image and of the directory, and the semaphore that keeps an image from being served twice.
\<close>

section \<open>The semaphore\<close>

text \<open>What \<open>ftok\<close> and \<open>semget\<close> make of the path of an image (\<open>-1\<close> if \<open>semget\<close> fails), and the values of the
  semaphores.\<close>

record semaphores =
  sem_of :: "bytes \<Rightarrow> int"
  sem_value :: "int \<Rightarrow> nat"

text \<open>The two operations of one \<open>semop\<close>, waiting for zero without blocking and adding one, are done together
  or not at all.\<close>

definition try_to_lock_image :: "bytes \<Rightarrow> semaphores \<Rightarrow> int \<times> semaphores" where
  "try_to_lock_image path w =
     (let sem = sem_of w path in
      if sem = -1 \<or> sem_value w sem \<noteq> 0 then (-1, w)
      else (0, w\<lparr>sem_value := (sem_value w)(sem := Suc (sem_value w sem))\<rparr>))"

section \<open>The program\<close>

definition fusesfs_usage :: "int \<Rightarrow> console \<Rightarrow> int \<times> console" where
  "fusesfs_usage status c =
     (if status \<noteq> 0 then
        (status, eprint (ascii ''Try '' @ [0x27] @ ascii ''fusesfs -h'' @ [0x27] @ ascii '' for more information.'' @ [0x0A]) c)
      else
        (status, oprint (text_lines
           [''Usage: fusesfs [OPTIONS] IMAGE DIRECTORY'',
            '''',
            ''-h,        Print this screen            '']) c))"

definition fusesfs_kind :: "byte \<Rightarrow> bool option" where
  "fusesfs_kind c = (if c = 0x68 then Some False else None)"

text \<open>The program ends with an exit status, or calls \<open>fuse_main\<close> with an argument vector, serving an
  image.\<close>

datatype fusesfs_run =
  Quit int console semaphores
| Serve "bytes list" bytes console semaphores

text \<open>\<open>open_errno\<close> and \<open>lstat_errno\<close> are what \<open>open\<close> of the image and \<open>lstat\<close> of the directory leave in
  \<open>errno\<close>, 0 when they succeed.\<close>

definition fusesfs_main :: "bytes list \<Rightarrow> (bytes \<Rightarrow> int) \<Rightarrow> (bytes \<Rightarrow> int) \<Rightarrow> console \<Rightarrow> semaphores \<Rightarrow> fusesfs_run" where
  "fusesfs_main argv open_errno lstat_errno con w =
     (case getopt_words fusesfs_kind True (tl argv) of (results, options, operands) \<Rightarrow>
       (case results of
          r # rs \<Rightarrow>
            (case fusesfs_usage (case r of Opt c arg \<Rightarrow> 0 | Unknown c \<Rightarrow> 1) con of (st, con) \<Rightarrow> Quit st con w)
        | [] \<Rightarrow>
            if length operands < 2 then (case fusesfs_usage 1 con of (st, con) \<Rightarrow> Quit st con w)
            else
              let imagefile = operands ! 0;
                  dir = operands ! 1
              in
              if open_errno imagefile \<noteq> 0 then
                let con = eprint (ascii ''Supplied image file name: '' @ [0x22] @ imagefile @ [0x22] @ [0x0A]) con;
                    con = perror (ascii ''Can`t open image file'') (con\<lparr>con_errno := open_errno imagefile\<rparr>)
                in Quit 1 con w
              else if lstat_errno dir = ENOENT then
                Quit 1 (perror (ascii ''Can'' @ [0x27] @ ascii ''t found mount directory'') (con\<lparr>con_errno := ENOENT\<rparr>)) w
              else
                (case try_to_lock_image imagefile w of (r, w) \<Rightarrow>
                  if r = -1 then Quit 1 (eprint (ascii ''Image already uses'' @ [0x0A]) con) w
                  else Serve [hd argv, dir, ascii ''-s'', ascii ''-f''] imagefile con w)))"

text \<open>An image that is served is not served again, by whatever command line, as long as the first program
  has not ended and given its semaphore back.\<close>

lemma served_once:
  assumes "fusesfs_main argv oe le con w = Serve nargv img con' w'" and "sem_of w img2 = sem_of w img"
  shows "fusesfs_main argv2 oe2 le2 con2 w' \<noteq> Serve nargv2 img2 con2' w2"
proof -
  have l: "sem_of w' = sem_of w" "sem_value w' (sem_of w img) \<noteq> 0"
    using assms(1)
    by (auto simp: fusesfs_main_def try_to_lock_image_def Let_def split: prod.splits list.splits if_splits)
  have "\<not> (fusesfs_main argv2 oe2 le2 con2 w' = Serve nargv2 img2 con2' w2)"
  proof
    assume "fusesfs_main argv2 oe2 le2 con2 w' = Serve nargv2 img2 con2' w2"
    then have "sem_value w' (sem_of w' img2) = 0"
      by (auto simp: fusesfs_main_def try_to_lock_image_def Let_def split: prod.splits list.splits if_splits)
    then show False using l assms(2) by simp
  qed
  then show ?thesis .
qed

end
