(* ===== verification/MainProps.thy ===== *)
theory MainProps
  imports MksfsMain FuseMain MksfsLayout Samples
begin

text \<open>
  What the two programs promise on their command lines.
\<close>

section \<open>mksfs\<close>

lemma read_requests_status:
  assumes "\<forall>c. Unknown c \<notin> set rs"
  shows "(\<exists>con'. read_requests rs rq con = Inl (0, con')) \<or> (\<exists>rq'. read_requests rs rq con = Inr rq')"
  using assms
proof (induction rs arbitrary: rq)
  case (Cons r rs)
  show ?case
  proof (cases r)
    case (Opt c arg)
    then show ?thesis using Cons by (simp add: mksfs_usage_def)
  next
    case (Unknown c)
    then show ?thesis using Cons.prems by auto
  qed
qed simp

text \<open>C9: Whatever the command line, \<open>mksfs\<close> leaves the device alone or runs \<open>image_create\<close> with a layout
  that fills the image: one of the words is an image that can be opened, the reserved blocks, the data
  blocks and the index are together exactly as large as the image, and the exit status tells whether the
  image has been written.\<close>

theorem mksfs_writes_only_valid_layouts:
  assumes run: "mksfs_main argv image_size now open_fd mem con d = (st, con', d')" and argv: "argv \<noteq> []"
    and small: "\<forall>f n. image_size f = Some n \<longrightarrow> unat n < 2 ^ 63"
  shows "d' = d \<or> (\<exists>img fsize opts r m. img \<in> set (tl argv) \<and> image_size img = Some fsize
    \<and> image_create opts open_fd mem d = (r, d') \<and> st = (if r \<noteq> 0 then 1 else 0) \<and> unat (opt_block_size opts + 7) = m \<and> 8 \<le> m
    \<and> (unat (opt_reserved_size opts) + unat (opt_data_size opts)) * 2 ^ m + unat (opt_index_size opts) = unat fsize
    \<and> unat (opt_reserved_size opts) * 2 ^ m = max 512 (2 ^ m) \<and> 2 ^ m dvd unat (opt_index_size opts) \<and> 2 ^ m \<le> unat (opt_index_size opts))"
proof (rule disjE [OF main_device [OF run argv]])
  assume "\<exists>img fsize idx bs lbl opts r. img \<in> set (tl argv) \<and> image_size img = Some fsize
    \<and> mksfs_options now fsize idx bs lbl img = Inr opts \<and> image_create opts open_fd mem d = (r, d') \<and> st = (if r \<noteq> 0 then 1 else 0)"
  then obtain img fsize idx bs lbl opts r where h: "img \<in> set (tl argv)" "image_size img = Some fsize"
    "mksfs_options now fsize idx bs lbl img = Inr opts" "image_create opts open_fd mem d = (r, d')" "st = (if r \<noteq> 0 then 1 else 0)"
    by blast
  have "unat fsize < 2 ^ 63" using small h(2) by blast
  from mksfs_areas [OF h(3) this] show ?thesis using h by blast
qed simp

definition sample_console :: console where
  "sample_console = \<lparr>con_out = [], con_err = [], program_name = ascii ''sfs'', con_mem = (\<lambda>n. True), con_calls = 0,
     con_errno = 0, con_strerror = (\<lambda>n. []), con_ctime = (\<lambda>t. [])\<rparr>"

definition sample_argv :: "bytes list" where
  "sample_argv = [ascii ''mksfs'', ascii ''image'']"

lemma sample_words: "getopt_words mksfs_kind False (tl sample_argv) = ([], [], [ascii ''image''])"
  by (rule getopt_words_operands [THEN trans]) (simp_all add: sample_argv_def ascii_def)

theorem mksfs_writes_only_valid_layouts_witness:
  "\<exists>st con' d'. mksfs_main sample_argv (\<lambda>f. if f = ascii ''image'' then Some 65536 else None) 0 3 (Some (replicate 512 0))
      sample_console (sample_device (replicate 65536 0)) = (st, con', d')
    \<and> (d' = sample_device (replicate 65536 0) \<or> (\<exists>opts r m. (r = 0 \<longleftrightarrow> st = 0)
       \<and> image_create opts 3 (Some (replicate 512 0)) (sample_device (replicate 65536 0)) = (r, d')
       \<and> (unat (opt_reserved_size opts) + unat (opt_data_size opts)) * 2 ^ m + unat (opt_index_size opts) = 65536))"
proof -
  let ?sz = "\<lambda>f. if f = ascii ''image'' then Some 65536 else None :: u64 option"
  let ?d = "sample_device (replicate 65536 0)"
  obtain st con' d' where r: "mksfs_main sample_argv ?sz 0 3 (Some (replicate 512 0)) sample_console ?d = (st, con', d')"
    by (metis prod_cases3)
  have sz: "\<forall>f n. ?sz f = Some n \<longrightarrow> unat n < 2 ^ 63" by (simp split: if_splits)
  have ne: "sample_argv \<noteq> []" by (simp add: sample_argv_def)
  have "d' = ?d \<or> (\<exists>opts r m. (r = 0 \<longleftrightarrow> st = 0) \<and> image_create opts 3 (Some (replicate 512 0)) ?d = (r, d')
       \<and> (unat (opt_reserved_size opts) + unat (opt_data_size opts)) * 2 ^ m + unat (opt_index_size opts) = 65536)"
    using mksfs_writes_only_valid_layouts [OF r ne sz]
  proof (elim disjE exE conjE)
    fix img fsize opts r m
    assume h: "?sz img = Some fsize" "image_create opts 3 (Some (replicate 512 0)) ?d = (r, d')" "st = (if r \<noteq> 0 then 1 else 0)"
      "(unat (opt_reserved_size opts) + unat (opt_data_size opts)) * 2 ^ m + unat (opt_index_size opts) = unat fsize"
    have "fsize = 65536" "r = 0 \<longleftrightarrow> st = 0" using h(1,3) by (auto split: if_splits)
    then show ?thesis using h(2,4) by fastforce
  qed simp
  then show ?thesis using r by blast
qed

text \<open>When no word of the command line is an image that can be opened, \<open>mksfs\<close> ends with the exit
  status 0, success, unless an option is unknown: the status for such a failure that mksfs.h defines is passed
  to \<open>usage\<close>, which ignores it. Nothing is written.\<close>

lemma missing_image_is_no_error:
  assumes argv: "2 \<le> length argv" and known: "\<forall>c. Unknown c \<notin> set (fst (getopt_words mksfs_kind False (tl argv)))"
    and missing: "\<forall>f. image_size f = None"
  shows "\<exists>con'. mksfs_main argv image_size now open_fd mem con d = (0, con', d)"
proof -
  obtain results options operands where w: "getopt_words mksfs_kind False (tl argv) = (results, options, operands)"
    by (metis prod_cases3)
  have u: "\<forall>c. Unknown c \<notin> set results" using known w by simp
  define con1 where "con1 = (if program_name con = [] then
      con\<lparr>program_name := (if argv \<noteq> [] \<and> hd argv \<noteq> [] then hd argv else ascii ''mksfs'')\<rparr> else con)"
  have ne: "length argv \<noteq> 1" using argv by linarith
  from read_requests_status [OF u, of "\<lparr>rq_index_size = None, rq_block_size = None, rq_label = None\<rparr>" con1] show ?thesis
    using w ne missing unfolding mksfs_main_def Let_def con1_def [symmetric]
    by (auto simp: mksfs_usage_def)
qed

section \<open>fusesfs\<close>

text \<open>C40: The daemon serves an image only when the image can be opened, the directory is not known to be
  missing and the semaphore of the image was free; \<open>fuse_main\<close> is called without threads and in the
  foreground. From then on no other run of the program, with whatever command line, serves an image with the
  same semaphore.\<close>

theorem image_is_served_once:
  assumes run: "fusesfs_main argv oe le con w = Serve nargv img con' w'"
  shows "img \<in> set (tl argv) \<and> oe img = 0 \<and> sem_value w (sem_of w img) = 0
    \<and> (\<exists>dir. dir \<in> set (tl argv) \<and> le dir \<noteq> ENOENT \<and> nargv = [hd argv, dir, ascii ''-s'', ascii ''-f''])
    \<and> (\<forall>argv2 oe2 le2 con2 nargv2 img2 con2' w2. fusesfs_main argv2 oe2 le2 con2 w' = Serve nargv2 img2 con2' w2
         \<longrightarrow> sem_of w img2 \<noteq> sem_of w img)"
proof -
  obtain options operands where g: "getopt_words fusesfs_kind True (tl argv) = ([], options, operands)"
    and l: "\<not> length operands < 2" and i: "img = operands ! 0" "oe img = 0" "le (operands ! 1) \<noteq> ENOENT"
      "nargv = [hd argv, operands ! 1, ascii ''-s'', ascii ''-f'']" "sem_value w (sem_of w img) = 0"
    using run by (auto simp: fusesfs_main_def try_to_lock_image_def Let_def split: prod.splits list.splits if_splits)
  have "mset (options @ operands) = mset (tl argv)" by (rule getopt_words_perm [OF g])
  then have "set (options @ operands) = set (tl argv)" by (rule mset_eq_setD)
  then have "operands ! 0 \<in> set (tl argv)" "operands ! 1 \<in> set (tl argv)" using l by (metis Un_iff linorder_not_less nth_mem order_less_le_trans set_append zero_less_numeral, metis One_nat_def Un_iff lessI linorder_not_less nth_mem numeral_2_eq_2 order_less_le_trans set_append)
  then show ?thesis using i served_once [OF run] by blast
qed

theorem image_is_served_once_witness:
  "\<exists>con' w'. fusesfs_main [ascii ''fusesfs'', ascii ''image'', ascii ''dir''] (\<lambda>f. 0) (\<lambda>f. 0) sample_console
      \<lparr>sem_of = (\<lambda>p. 5), sem_value = (\<lambda>s. 0)\<rparr>
      = Serve [ascii ''fusesfs'', ascii ''dir'', ascii ''-s'', ascii ''-f''] (ascii ''image'') con' w'
    \<and> (\<forall>argv2 oe2 le2 con2 nargv2 con2' w2. fusesfs_main argv2 oe2 le2 con2 w' \<noteq> Serve nargv2 (ascii ''image'') con2' w2)"
proof -
  let ?w = "\<lparr>sem_of = (\<lambda>p. 5), sem_value = (\<lambda>s. 0)\<rparr>"
  have "getopt_words fusesfs_kind True [ascii ''image'', ascii ''dir''] = ([], [], [ascii ''image'', ascii ''dir''])"
    by (rule getopt_words_operands) (simp add: ascii_def)
  then obtain con' w' where r: "fusesfs_main [ascii ''fusesfs'', ascii ''image'', ascii ''dir''] (\<lambda>f. 0) (\<lambda>f. 0) sample_console ?w
      = Serve [ascii ''fusesfs'', ascii ''dir'', ascii ''-s'', ascii ''-f''] (ascii ''image'') con' w'"
    by (simp add: fusesfs_main_def try_to_lock_image_def Let_def ENOENT_def)
  from image_is_served_once [OF r] r show ?thesis by blast
qed

end
