(* ===== verification/Spec2Isabelle.thy ===== *)
theory Spec2Isabelle
  imports DeviceProps VolumeProps FuseProps MountProps MainProps
begin

text \<open>
  A verification development for fusesfs, a FUSE implementation of SFS (Simple File System): the
  library src/lib, the file system daemon src/fuse and the formatter src/mksfs.

  \<^bold>\<open>The program.\<close> An image is a boot block, a data area of blocks, and an index of 64-byte entries that ends
  with the volume identifier. Files are runs of consecutive blocks; names of files and directories are
  stored in an entry and its continuation entries; the free blocks are a doubly linked list of extents
  among the entries. \<open>mksfs\<close> lays an image out; \<open>fusesfs\<close> mounts it and serves the callbacks of FUSE, with a
  table from inode numbers to offsets of entries.

  \<^bold>\<open>Conventions.\<close> Integers have the width they have in C (\<open>u64\<close>, \<open>u32\<close>, \<open>byte\<close>), and wrap. A buffer in memory is
  a list of bytes; a routine that writes through a pointer returns the new buffer. The state of a mounted
  volume, the record \<open>sfs_unit\<close> with the block device and the host file under it, is threaded through
  every call, \<open>sfs_errno\<close> included; uninitialised locals are arguments. The host is a byte image with
  \<open>host_read\<close> and \<open>host_write\<close>, whose calls may fail at any point of a schedule; \<open>time\<close> is a clock of the state.
  Loops of C are structural recursion, recursion with a proved measure, or recursion over the watchdog
  counter that the code itself counts down; no definition needs fuel.

  \<^bold>\<open>Theories.\<close>
  \<^item> \<open>Prelude\<close>: words, byte lists, encodings of integers, updates of segments.
  \<^item> \<open>Entries\<close>: include/sfs/entry.h and mbr.h, the packed structs and their bytes.
  \<^item> \<open>CUtils\<close>, \<open>UtilProps\<close>: lib/sfs/utils.c, the string and memory routines, and what they compute.
  \<^item> \<open>Filedev\<close>, \<open>BlockIO\<close>, \<open>BlockTransfer\<close>, \<open>DeviceProps\<close>: lib/filedev.c and lib/sfs/io.c. \<open>dev_ok\<close> says that the
    one-block buffer agrees with the image; reads and writes of byte ranges are then those of one array.
  \<^item> \<open>EntryStore\<close>, \<open>IndexScan\<close>: entries as an array, \<open>sfs_unit\<close>, and the walk of lib/sfs/callback.c, with the
    locales \<open>pure_callback\<close> and its extensions for what a callback may do.
  \<^item> \<open>Alloc\<close>: lib/sfs/alloc.c, runs of unused entries.
  \<^item> \<open>Names\<close>, \<open>NameSearch\<close>: lib/sfs/fsutils.c, names in entries and the searches for them.
  \<^item> \<open>FreeList\<close>, \<open>ExtentList\<close>, \<open>ExtentOps\<close>, \<open>ExtentAdd\<close>, \<open>SpaceProps\<close>: the free extents of lib/sfs/fsutils.c and statfs.c. The
    list in the index represents a set of blocks; taking, returning and counting are proved against
    this set.
  \<^item> \<open>FileOps\<close>, \<open>DirOps\<close>, \<open>Mount\<close>: lib/sfs/sfs_*.c and fixfs.c.
  \<^item> \<open>Directory\<close>, \<open>NewNames\<close>, \<open>NameOps\<close>, \<open>NameSlots\<close>, \<open>MaskSearch\<close>, \<open>Rmdir\<close>, \<open>NameSpace\<close>, \<open>NameProps\<close>: \<open>dir_ok\<close>, the
    invariant of the names, kept by making, removing and opening files and directories, and their refinement of a
    finite map from paths to entries; \<open>Rmdir\<close> rests on what a search by mask finds.
  \<^item> \<open>Readdir\<close>, \<open>Listing\<close>: the listing of a directory, from \<open>sfs_readdir\<close> to the handler.
  \<^item> \<open>VolumeOps\<close>, \<open>Volume\<close>, \<open>Contents\<close>, \<open>FileStore\<close>, \<open>VolumeProps\<close>: \<open>volume_ok\<close>, the invariant of the whole volume (names, free
    list, one owner per block), and the refinement of reads, writes, truncations and deletions by
    operations on a map from files to byte strings.
  \<^item> \<open>Rename\<close>, \<open>Shrink\<close>: \<open>sfs_rename\<close>, which moves an empty file and leaves the volume out of order for any other,
    and \<open>sfs_truncate\<close> to fewer blocks, which does so too.
  \<^item> \<open>Expand\<close>, \<open>Resize\<close>, \<open>FileWrites\<close>: a file that grows, over the free blocks behind it, into blocks of its own,
    or to other blocks with its bytes copied there; then \<open>sfs_write\<close> and \<open>sfs_truncate\<close> as wholes.
  \<^item> \<open>InodeMap\<close>, \<open>InodeNumbers\<close>, \<open>FuseOps\<close>, \<open>FuseMount\<close>, \<open>Handlers\<close>, \<open>FuseProps\<close>: src/fuse, the table of inode numbers with its
    locks and the callbacks; \<open>fuse_call\<close> is the relation of all of them.
  \<^item> \<open>Mksfs\<close>, \<open>MksfsLayout\<close>: src/mksfs/main.c and lib/mksfs.c, the accepted options, the layout, the image.
  \<^item> \<open>Mounting\<close>, \<open>FreshVolume\<close>, \<open>MountProps\<close>: what \<open>sfs_init\<close> and \<open>fuse_sfs_init\<close> make of an image, and that the image of
    \<open>mksfs\<close> is mounted as a volume in order with its whole data area free.
  \<^item> \<open>Diagnostics\<close>, \<open>Options\<close>, \<open>MksfsMain\<close>, \<open>FuseMain\<close>, \<open>MainProps\<close>: lib/error_prints.c and the two \<open>main\<close>s from the
    command line to the exit status, what they print included; \<open>getopt\<close> is modelled for options of one letter.
  \<^item> \<open>Samples\<close>: small volumes on which the properties are shown to apply.

  \<^bold>\<open>Bounds of the properties.\<close> The invariants of a whole volume hold along the calls of \<open>volume_step\<close>. It
  leaves out the calls that the code gets wrong: \<open>sfs_truncate\<close> to fewer blocks, but some
  (\<open>VolumeProps\<close> says what happens), \<open>sfs_rename\<close> of a file with blocks (likewise), and
  a write or a truncation that has to move a file, or give its blocks back, while the index has no unused
  slot: the old blocks cannot be entered in the free list then, which the code does not notice, and
  \<open>copy_block\<close> may leave file data in the block buffer where \<open>read_entry\<close> takes it for the entry of the file.
  Reads of files are right for ranges inside one block or from a block boundary; \<open>DeviceProps\<close> says what
  \<open>read_data\<close> does with the others. An image of \<open>mksfs\<close> is shown to mount for blocks of 512 bytes to 1 GiB and at
  least one data block.

  \<^bold>\<open>Not modelled.\<close> Tracing output, \<open>filedev_dump\<close>, the lines \<open>getopt\<close> itself prints about a wrong option, threads (the daemon runs with \<open>-s\<close>, single-threaded, and no
  callback takes a lock), the lock of the index, which is only set up, \<open>fuse_main\<close>, and the kernel's undoing of
  the semaphore operation when the daemon ends.
\<close>

end
